(* ===== verification/CFIO_Prelude.thy ===== *)
theory CFIO_Prelude
  imports Main "HOL-Library.Word" "HOL-Library.Signed_Division" "HOL-Library.Monad_Syntax"
begin

text \<open>
  Shared vocabulary of the development: the machine types of the C code (LP64, little
  endian, as on the InfiniBand clusters CFIO targets), the byte layout of integers in the
  message buffers, \<open>memcpy\<close> on a byte region, C division, and the lemmas on lists and
  codecs that every component uses.

  Conventions.
  \<^item> A C function that can abort (a failed \<open>assert\<close>, an access outside an object, a
    division by zero, a call that never returns) has a result in \<open>'a option\<close>;
    \<open>None\<close> is exactly that outcome. Error codes of the code itself are ordinary values.
  \<^item> \<open>size_t\<close> quantities that are computed with are \<open>nat\<close>, with the wrap at \<open>2 ^ 64\<close>
    written out where the code can reach it; \<open>int\<close> values that are only stored, compared
    and sent are \<open>32 word\<close>; ranks and process counts are \<open>int\<close>.
  \<^item> \<open>malloc\<close> always succeeds: the \<open>CFIO_ERROR_MALLOC\<close> returns are not modelled.
\<close>

type_synonym byte = "8 word"
type_synonym i32 = "32 word"
type_synonym u32 = "32 word"
type_synonym u64 = "64 word"

named_theorems codec_simps \<open>evaluation of encoders and decoders\<close>
named_theorems pack_simps \<open>packing into a buffer with room\<close>
named_theorems unpack_simps \<open>unpacking from the front of a buffer\<close>
named_theorems map_simps \<open>evaluation of the process map\<close>

section \<open>Sizes of the C types\<close>

definition sizeof_int :: nat where
  "sizeof_int = 4"

definition sizeof_size_t :: nat where
  "sizeof_size_t = 8"

definition sizeof_uint32 :: nat where
  "sizeof_uint32 = 4"

lemmas sizeof_simps [simp] = sizeof_int_def sizeof_size_t_def sizeof_uint32_def

section \<open>Little-endian integers\<close>

primrec le_bytes :: "nat \<Rightarrow> nat \<Rightarrow> byte list" where
  "le_bytes 0 n = []"
| "le_bytes (Suc k) n = word_of_nat (n mod 256) # le_bytes k (n div 256)"

primrec le_nat :: "byte list \<Rightarrow> nat" where
  "le_nat [] = 0"
| "le_nat (b # bs) = unat b + 256 * le_nat bs"

lemma length_le_bytes [simp]: "length (le_bytes k n) = k"
  by (induction k arbitrary: n) simp_all

lemma unat_byte_of_nat [simp]: "unat (word_of_nat (n mod 256) :: byte) = n mod 256"
  by (simp add: unat_of_nat)

lemma le_nat_le_bytes [simp]: "le_nat (le_bytes k n) = n mod 256 ^ k"
proof (induction k arbitrary: n)
  case (Suc k)
  have "n mod (256 * 256 ^ k) = n mod 256 + 256 * (n div 256 mod 256 ^ k)"
    by (simp add: mod_mult2_eq)
  with Suc show ?case by simp
qed simp

lemma le_nat_bound: "le_nat bs < 256 ^ length bs"
proof (induction bs)
  case (Cons b bs)
  have "unat b < 256" using unsigned_less [of b, where ?'a = nat] by simp
  with Cons show ?case by simp
qed simp

text \<open>\<open>int\<close>, \<open>uint32_t\<close> and enumerations take 4 bytes, \<open>size_t\<close> takes 8.\<close>

definition enc_i32 :: "i32 \<Rightarrow> byte list" where
  "enc_i32 w = le_bytes 4 (unat w)"

definition dec_i32 :: "byte list \<Rightarrow> i32" where
  "dec_i32 bs = word_of_nat (le_nat bs)"

definition enc_u64 :: "u64 \<Rightarrow> byte list" where
  "enc_u64 w = le_bytes 8 (unat w)"

definition dec_u64 :: "byte list \<Rightarrow> u64" where
  "dec_u64 bs = word_of_nat (le_nat bs)"

lemma length_enc_i32 [simp]: "length (enc_i32 w) = 4"
  by (simp add: enc_i32_def)

lemma length_enc_u64 [simp]: "length (enc_u64 w) = 8"
  by (simp add: enc_u64_def)

lemma dec_enc_i32 [simp]: "dec_i32 (enc_i32 w) = w"
proof -
  have "unat w < 256 ^ 4" using unsigned_less [of w, where ?'a = nat] by simp
  then show ?thesis by (simp add: dec_i32_def enc_i32_def)
qed

lemma dec_enc_u64 [simp]: "dec_u64 (enc_u64 w) = w"
proof -
  have "unat w < 256 ^ 8" using unsigned_less [of w, where ?'a = nat] by simp
  then show ?thesis by (simp add: dec_u64_def enc_u64_def)
qed

lemma enc_i32_inject [simp]: "enc_i32 v = enc_i32 w \<longleftrightarrow> v = w"
  by (metis dec_enc_i32)

section \<open>Arrays of fixed-width elements\<close>

primrec chunks :: "nat \<Rightarrow> nat \<Rightarrow> byte list \<Rightarrow> byte list list" where
  "chunks k 0 bs = []"
| "chunks k (Suc n) bs = take k bs # chunks k n (drop k bs)"

lemma length_chunks [simp]: "length (chunks k n bs) = n"
  by (induction n arbitrary: bs) simp_all

lemma chunks_concat [simp]:
  "(\<And>x. length (f x) = k) \<Longrightarrow> chunks k (length xs) (concat (map f xs)) = map f xs"
  by (induction xs) simp_all

lemma length_concat_map_const:
  "(\<And>x. length (f x) = k) \<Longrightarrow> length (concat (map f xs)) = length xs * k"
  by (induction xs) simp_all

definition enc_i32s :: "i32 list \<Rightarrow> byte list" where
  "enc_i32s xs = concat (map enc_i32 xs)"

definition enc_u64s :: "u64 list \<Rightarrow> byte list" where
  "enc_u64s xs = concat (map enc_u64 xs)"

definition dec_i32s :: "nat \<Rightarrow> byte list \<Rightarrow> i32 list" where
  "dec_i32s n bs = map dec_i32 (chunks 4 n bs)"

definition dec_u64s :: "nat \<Rightarrow> byte list \<Rightarrow> u64 list" where
  "dec_u64s n bs = map dec_u64 (chunks 8 n bs)"

lemma length_enc_i32s [simp]: "length (enc_i32s xs) = 4 * length xs"
  by (simp add: enc_i32s_def length_concat_map_const [where k = 4])

lemma length_enc_u64s [simp]: "length (enc_u64s xs) = 8 * length xs"
  by (simp add: enc_u64s_def length_concat_map_const [where k = 8])

lemma dec_enc_i32s [simp]: "n = length xs \<Longrightarrow> dec_i32s n (enc_i32s xs) = xs"
  by (simp add: dec_i32s_def enc_i32s_def comp_def)

lemma dec_enc_u64s [simp]: "n = length xs \<Longrightarrow> dec_u64s n (enc_u64s xs) = xs"
  by (simp add: dec_u64s_def enc_u64s_def comp_def)

text \<open>The cast of a C \<open>int\<close> to \<open>size_t\<close>: negative values wrap at \<open>2 ^ 64\<close>.\<close>

definition size_of_int :: "i32 \<Rightarrow> nat" where
  "size_of_int w = nat (sint w mod 2 ^ 64)"

lemma sint_word_of_nat_small:
  "n < 2 ^ 31 \<Longrightarrow> sint (word_of_nat n :: i32) = int n"
  by (simp add: sint_uint unsigned_of_nat take_bit_nat_eq_self signed_take_bit_int_eq_self
      of_nat_take_bit [symmetric])

lemma size_of_int_of_nat: "n < 2 ^ 31 \<Longrightarrow> size_of_int (word_of_nat n) = n"
  by (simp add: size_of_int_def sint_word_of_nat_small)

section \<open>Byte regions: \<open>memcpy\<close>\<close>

text \<open>
  \<open>mem_write m p d\<close> is \<open>memcpy(m + p, d, |d|)\<close> and \<open>mem_read m p n\<close> is
  \<open>memcpy(_, m + p, n)\<close>; both are undefined behaviour outside the object.
\<close>

definition blit :: "'a list \<Rightarrow> nat \<Rightarrow> 'a list \<Rightarrow> 'a list" where
  "blit m p d = take p m @ d @ drop (p + length d) m"

definition slice :: "'a list \<Rightarrow> nat \<Rightarrow> nat \<Rightarrow> 'a list" where
  "slice m p n = take n (drop p m)"

definition mem_write :: "byte list \<Rightarrow> nat \<Rightarrow> byte list \<Rightarrow> byte list option" where
  "mem_write m p d = (if p + length d \<le> length m then Some (blit m p d) else None)"

definition mem_read :: "byte list \<Rightarrow> nat \<Rightarrow> nat \<Rightarrow> byte list option" where
  "mem_read m p n = (if p + n \<le> length m then Some (slice m p n) else None)"

lemma length_blit [simp]: "p + length d \<le> length m \<Longrightarrow> length (blit m p d) = length m"
  by (simp add: blit_def)

lemma length_slice [simp]: "length (slice m p n) = min n (length m - p)"
  by (simp add: slice_def min.commute)

lemma slice_0 [simp]: "slice m p 0 = []"
  by (simp add: slice_def)

lemma nth_blit:
  "p + length d \<le> length m \<Longrightarrow> i < length m \<Longrightarrow>
     blit m p d ! i = (if p \<le> i \<and> i < p + length d then d ! (i - p) else m ! i)"
  by (auto simp: blit_def nth_append min_def)

lemma slice_add: "slice m p (i + j) = slice m p i @ slice m (p + i) j"
  by (simp add: slice_def take_add add.commute)

lemma slice_split: "p \<le> q \<Longrightarrow> slice m p (q + n - p) = slice m p (q - p) @ slice m q n"
  using slice_add [of m p "q - p" n] by (simp add: add.commute)

lemma take_slice: "take i (slice m p n) = slice m p (min i n)"
  by (simp add: slice_def min.commute)

lemma drop_slice: "drop i (slice m p n) = slice m (p + i) (n - i)"
  by (simp add: slice_def drop_take add.commute)

lemma slice_blit_same [simp]:
  "p + length d \<le> length m \<Longrightarrow> slice (blit m p d) p (length d) = d"
  by (simp add: slice_def blit_def)

lemma slice_blit_before:
  "q + n \<le> p \<Longrightarrow> p + length d \<le> length m \<Longrightarrow> slice (blit m p d) q n = slice m q n"
  by (simp add: slice_def blit_def take_drop min_def)

lemma slice_blit_after:
  "p + length d \<le> q \<Longrightarrow> p + length d \<le> length m \<Longrightarrow> slice (blit m p d) q n = slice m q n"
  by (simp add: slice_def blit_def drop_append)

lemma slice_appendI:
  "slice m p n = xs @ ys \<Longrightarrow> p + n \<le> length m \<Longrightarrow>
     slice m p (length xs) = xs \<and> slice m (p + length xs) (length ys) = ys"
proof -
  assume eq: "slice m p n = xs @ ys" and le: "p + n \<le> length m"
  then have n: "n = length xs + length ys"
    by (metis length_append length_slice min.absorb1 le_diff_conv2 add_leD1 add.commute)
  with eq le show ?thesis by (auto simp: slice_add append_eq_append_conv)
qed

section \<open>C division\<close>

text \<open>\<open>/\<close> and \<open>%\<close> of C truncate towards zero and trap on a zero divisor.\<close>

definition cdiv :: "int \<Rightarrow> int \<Rightarrow> int option" where
  "cdiv a b = (if b = 0 then None else Some (a sdiv b))"

definition cmod :: "int \<Rightarrow> int \<Rightarrow> int option" where
  "cmod a b = (if b = 0 then None else Some (a smod b))"

lemma cdiv_nonneg [simp]: "0 \<le> a \<Longrightarrow> 0 < b \<Longrightarrow> cdiv a b = Some (a div b)"
  by (simp add: cdiv_def signed_divide_int_def sgn_if div_int_pos_iff)

lemma cmod_nonneg [simp]: "0 \<le> a \<Longrightarrow> 0 < b \<Longrightarrow> cmod a b = Some (a mod b)"
  by (simp add: cmod_def signed_modulo_int_def signed_divide_int_def sgn_if minus_div_mult_eq_mod)

section \<open>Distances on a ring\<close>

lemma ring_free_mod:
  assumes "u < s" "f < (s::nat)"
  shows "(s + u - Suc f) mod s = (if f < u then u - Suc f else s + u - Suc f)"
proof (cases "f < u")
  case True
  with assms have "(s + u - Suc f) mod s = (s + u - Suc f - s) mod s"
    by (intro le_mod_geq) linarith
  also have "s + u - Suc f - s = u - Suc f" using True by linarith
  also have "(u - Suc f) mod s = u - Suc f" using assms by (intro mod_less) linarith
  finally show ?thesis using True by simp
next
  case False
  with assms have "s + u - Suc f < s" by linarith
  with False show ?thesis by simp
qed

lemma ring_used_mod:
  assumes "u < s" "f < (s::nat)"
  shows "(s + f - u) mod s = (if u \<le> f then f - u else s + f - u)"
proof (cases "u \<le> f")
  case True
  with assms have "(s + f - u) mod s = (s + f - u - s) mod s"
    by (intro le_mod_geq) linarith
  also have "s + f - u - s = f - u" using True by linarith
  also have "(f - u) mod s = f - u" using assms by (intro mod_less) linarith
  finally show ?thesis using True by simp
next
  case False
  with assms have "s + f - u < s" by linarith
  with False show ?thesis by simp
qed

section \<open>Sequencing partial operations\<close>

lemma bind_eq_SomeE:
  "Option.bind x f = Some y \<Longrightarrow> (\<And>z. x = Some z \<Longrightarrow> f z = Some y \<Longrightarrow> P) \<Longrightarrow> P"
  by (cases x) auto

end
