(* ===== verification/QuickList.thy ===== *)
theory QuickList
  imports CFIO_Prelude
begin

text \<open>
  The intrusive doubly linked lists of \<open>quicklist.h\<close>, on a store of links: every node has a
  \<open>next\<close> and a \<open>prev\<close>, and a list is a head node in a cycle with its elements. \<open>is_qlist\<close>
  relates a head in the store to the HOL list of its elements, and every operation is shown to
  be the list operation it is named after. The other theories use the HOL lists.
\<close>

section \<open>The store and the operations\<close>

record 'p links =
  nxt :: "'p \<Rightarrow> 'p"
  prv :: "'p \<Rightarrow> 'p"

definition INIT_QLIST_HEAD :: "'p \<Rightarrow> 'p links \<Rightarrow> 'p links" where
  "INIT_QLIST_HEAD p s = s\<lparr>nxt := (nxt s)(p := p), prv := (prv s)(p := p)\<rparr>"

definition qlist_add_between :: "'p \<Rightarrow> 'p \<Rightarrow> 'p \<Rightarrow> 'p links \<Rightarrow> 'p links" where
  "qlist_add_between new p n s =
     (let s = s\<lparr>prv := (prv s)(n := new)\<rparr>;
          s = s\<lparr>nxt := (nxt s)(new := n)\<rparr>;
          s = s\<lparr>prv := (prv s)(new := p)\<rparr>
      in s\<lparr>nxt := (nxt s)(p := new)\<rparr>)"

definition qlist_add :: "'p \<Rightarrow> 'p \<Rightarrow> 'p links \<Rightarrow> 'p links" where
  "qlist_add new head s = qlist_add_between new head (nxt s head) s"

definition qlist_add_tail :: "'p \<Rightarrow> 'p \<Rightarrow> 'p links \<Rightarrow> 'p links" where
  "qlist_add_tail new head s = qlist_add_between new (prv s head) head s"

definition qlist_del_between :: "'p \<Rightarrow> 'p \<Rightarrow> 'p links \<Rightarrow> 'p links" where
  "qlist_del_between p n s =
     (let s = s\<lparr>prv := (prv s)(n := p)\<rparr> in s\<lparr>nxt := (nxt s)(p := n)\<rparr>)"

definition qlist_del :: "'p \<Rightarrow> 'p links \<Rightarrow> 'p links" where
  "qlist_del entry s = qlist_del_between (prv s entry) (nxt s entry) s"

definition qlist_del_init :: "'p \<Rightarrow> 'p links \<Rightarrow> 'p links" where
  "qlist_del_init entry s =
     INIT_QLIST_HEAD entry (qlist_del_between (prv s entry) (nxt s entry) s)"

definition qlist_empty :: "'p \<Rightarrow> 'p links \<Rightarrow> bool" where
  "qlist_empty head s \<longleftrightarrow> nxt s head = head"

definition qlist_pop :: "'p \<Rightarrow> 'p links \<Rightarrow> 'p option \<times> 'p links" where
  "qlist_pop head s =
     (if \<not> qlist_empty head s then (let item = nxt s head in (Some item, qlist_del item s))
      else (None, s))"

definition qlist_splice :: "'p \<Rightarrow> 'p \<Rightarrow> 'p links \<Rightarrow> 'p links" where
  "qlist_splice qlist head s =
     (let first = nxt s qlist
      in if first \<noteq> qlist
         then (let last = prv s qlist;
                   at = nxt s head;
                   s = s\<lparr>prv := (prv s)(first := head)\<rparr>;
                   s = s\<lparr>nxt := (nxt s)(head := first)\<rparr>;
                   s = s\<lparr>nxt := (nxt s)(last := at)\<rparr>
               in s\<lparr>prv := (prv s)(at := last)\<rparr>)
         else s)"

text \<open>
  The traversals follow \<open>next\<close> until they are back at the head; in a damaged list they may run
  for ever, so they are partial. \<open>qlist_walk\<close> gives the positions \<open>qlist_for_each\<close> visits.
\<close>

partial_function (option) qlist_walk :: "'p links \<Rightarrow> 'p \<Rightarrow> 'p \<Rightarrow> 'p list option" where
  "qlist_walk s head pos =
     (if pos = head then Some []
      else Option.bind (qlist_walk s head (nxt s pos)) (\<lambda>rest. Some (pos # rest)))"

partial_function (option) qlist_exists_from :: "'p links \<Rightarrow> 'p \<Rightarrow> 'p \<Rightarrow> 'p \<Rightarrow> bool option" where
  "qlist_exists_from s list qlink pos =
     (if pos = list then Some False
      else if pos = qlink then Some True
      else qlist_exists_from s list qlink (nxt s pos))"

definition qlist_exists :: "'p \<Rightarrow> 'p \<Rightarrow> 'p links \<Rightarrow> bool option" where
  "qlist_exists list qlink s =
     (if qlist_empty list s then Some False else qlist_exists_from s list qlink (nxt s list))"

partial_function (option) qlist_count_from :: "'p links \<Rightarrow> 'p \<Rightarrow> nat \<Rightarrow> 'p \<Rightarrow> nat option" where
  "qlist_count_from s list count pos =
     (if pos \<noteq> list then qlist_count_from s list (count + 1) (nxt s pos) else Some count)"

definition qlist_count :: "'p \<Rightarrow> 'p links \<Rightarrow> nat option" where
  "qlist_count list s = qlist_count_from s list 0 (nxt s list)"

partial_function (option) qlist_find_from ::
    "'p links \<Rightarrow> 'p \<Rightarrow> ('p \<Rightarrow> bool) \<Rightarrow> 'p \<Rightarrow> 'p option option" where
  "qlist_find_from s list compare pos =
     (if pos = list then Some None
      else if compare pos then Some (Some pos)
      else qlist_find_from s list compare (nxt s pos))"

definition qlist_find :: "'p \<Rightarrow> ('p \<Rightarrow> bool) \<Rightarrow> 'p links \<Rightarrow> 'p option option" where
  "qlist_find list compare s = qlist_find_from s list compare (nxt s list)"

section \<open>Lists in the store\<close>

fun linked :: "'p links \<Rightarrow> 'p \<Rightarrow> 'p list \<Rightarrow> 'p \<Rightarrow> bool" where
  "linked s a [] b \<longleftrightarrow> nxt s a = b \<and> prv s b = a"
| "linked s a (x # xs) b \<longleftrightarrow> nxt s a = x \<and> prv s x = a \<and> linked s x xs b"

definition is_qlist :: "'p links \<Rightarrow> 'p \<Rightarrow> 'p list \<Rightarrow> bool" where
  "is_qlist s head xs \<longleftrightarrow> distinct (head # xs) \<and> linked s head xs head"

lemma linked_append:
  "linked s a (xs @ y # ys) b \<longleftrightarrow> linked s a xs y \<and> linked s y ys b"
  by (induction xs arbitrary: a) auto

lemma linked_nxt: "linked s a xs b \<Longrightarrow> nxt s a = hd (xs @ [b])"
  by (cases xs) auto

lemma linked_prv: "linked s a xs b \<Longrightarrow> prv s b = last (a # xs)"
  by (induction xs arbitrary: a) auto

lemma linked_frame:
  "linked s a xs b \<Longrightarrow> (\<And>p. p \<in> set (a # xs) \<Longrightarrow> nxt s' p = nxt s p) \<Longrightarrow>
     (\<And>p. p \<in> set (xs @ [b]) \<Longrightarrow> prv s' p = prv s p) \<Longrightarrow> linked s' a xs b"
  by (induction xs arbitrary: a) auto

lemma butlast_not_last: "distinct l \<Longrightarrow> p \<in> set (butlast l) \<Longrightarrow> p \<noteq> last l"
proof (induction l)
  case (Cons a l)
  then show ?case by (cases "l = []") (auto dest: last_in_set)
qed simp

text \<open>Redirecting the last \<open>next\<close>, or the first \<open>prev\<close>, of a segment.\<close>

lemma linked_end:
  assumes "linked s a xs b" "b \<notin> set xs" "c \<notin> set xs" "distinct (a # xs)"
    and "\<And>p. p \<in> set (butlast (a # xs)) \<Longrightarrow> nxt s' p = nxt s p"
    and "\<And>p. p \<in> set xs \<Longrightarrow> prv s' p = prv s p"
    and "nxt s' (last (a # xs)) = c" "prv s' c = last (a # xs)"
  shows "linked s' a xs c"
  using assms
proof (induction xs arbitrary: a)
  case (Cons x xs)
  then show ?case by (cases xs) auto
qed simp

lemma INIT_is_qlist: "is_qlist (INIT_QLIST_HEAD p s) p []"
  by (simp add: is_qlist_def INIT_QLIST_HEAD_def)

lemma qlist_empty_iff: "is_qlist s h xs \<Longrightarrow> qlist_empty h s \<longleftrightarrow> xs = []"
  by (cases xs) (auto simp: is_qlist_def qlist_empty_def)

text \<open>Inserting between two neighbours, and removing what lies between them.\<close>

lemma insert_between:
  assumes q: "is_qlist s h (xs @ ys)" and new: "new \<notin> set (h # xs @ ys)"
  shows "is_qlist (qlist_add_between new (last (h # xs)) (hd (ys @ [h])) s) h (xs @ new # ys)"
proof -
  let ?s = "qlist_add_between new (last (h # xs)) (hd (ys @ [h])) s"
  have d: "distinct (h # xs @ ys)" and l: "linked s h (xs @ ys) h" using q by (auto simp: is_qlist_def)
  have n: "nxt ?s = (nxt s)(new := hd (ys @ [h]), last (h # xs) := new)"
    and p: "prv ?s = (prv s)(hd (ys @ [h]) := new, new := last (h # xs))"
    by (simp_all add: qlist_add_between_def Let_def)
  have lastin: "last (h # xs) \<in> set (h # xs)" by (rule last_in_set) simp
  have hdin: "hd (ys @ [h]) \<in> set (ys @ [h])" by (rule hd_in_set) simp
  have front: "linked ?s h xs new"
  proof (rule linked_end)
    show "linked s h xs (hd (ys @ [h]))"
      using l by (cases ys) (auto simp: linked_append)
    show "hd (ys @ [h]) \<notin> set xs" using hdin d by auto
    show "nxt ?s p = nxt s p" if "p \<in> set (butlast (h # xs))" for p
    proof -
      have "p \<in> set (h # xs)" using that by (rule in_set_butlastD)
      moreover have "p \<noteq> last (h # xs)"
        using d that by (intro butlast_not_last) auto
      ultimately show ?thesis using new n by auto
    qed
    show "prv ?s p = prv s p" if "p \<in> set xs" for p
      using that new hdin d p by auto
  qed (use d new n p in auto)
  moreover have "linked ?s new ys h"
  proof (cases ys)
    case Nil
    then show ?thesis using n p new lastin by auto
  next
    case (Cons y ys')
    with l have ly: "linked s y ys' h" by (simp add: linked_append)
    have "linked ?s y ys' h"
      by (rule linked_frame [OF ly]) (use d new lastin n p Cons in auto)
    then show ?thesis using n p new lastin Cons d by auto
  qed
  ultimately show ?thesis using d new by (auto simp: is_qlist_def linked_append)
qed

lemma remove_between:
  assumes q: "is_qlist s h (xs @ x # ys)"
  shows "is_qlist (qlist_del x s) h (xs @ ys)"
    and "prv s x = last (h # xs)" "nxt s x = hd (ys @ [h])"
proof -
  have d: "distinct (h # xs @ x # ys)" and l: "linked s h xs x" "linked s x ys h"
    using q by (auto simp: is_qlist_def linked_append)
  show pr: "prv s x = last (h # xs)" and nx: "nxt s x = hd (ys @ [h])"
    using linked_prv [OF l(1)] linked_nxt [OF l(2)] by auto
  let ?s = "qlist_del x s"
  have n: "nxt ?s = (nxt s)(last (h # xs) := hd (ys @ [h]))"
    and p: "prv ?s = (prv s)(hd (ys @ [h]) := last (h # xs))"
    by (simp_all add: qlist_del_def qlist_del_between_def Let_def pr nx)
  have lastin: "last (h # xs) \<in> set (h # xs)" by (rule last_in_set) simp
  have hdin: "hd (ys @ [h]) \<in> set (ys @ [h])" by (rule hd_in_set) simp
  have front: "linked ?s h xs (hd (ys @ [h]))"
  proof (rule linked_end [OF l(1)])
    show "nxt ?s p = nxt s p" if "p \<in> set (butlast (h # xs))" for p
    proof -
      have "p \<noteq> last (h # xs)" using d that by (intro butlast_not_last) auto
      then show ?thesis using n by simp
    qed
    show "prv ?s p = prv s p" if "p \<in> set xs" for p using that hdin d p by auto
  qed (use d n p hdin in auto)
  show "is_qlist ?s h (xs @ ys)"
  proof (cases ys)
    case Nil
    with front d show ?thesis by (auto simp: is_qlist_def)
  next
    case (Cons y ys')
    with l(2) have "linked s y ys' h" by simp
    then have "linked ?s y ys' h"
      by (rule linked_frame) (use d lastin n p Cons in auto)
    with front Cons d show ?thesis by (auto simp: is_qlist_def linked_append)
  qed
qed

section \<open>The operations on lists\<close>

lemma qlist_add_Cons:
  "is_qlist s h xs \<Longrightarrow> new \<notin> set (h # xs) \<Longrightarrow> is_qlist (qlist_add new h s) h (new # xs)"
  using insert_between [of s h "[]" xs new] linked_nxt [of s h xs h]
  by (simp add: qlist_add_def is_qlist_def)

lemma qlist_add_tail_snoc:
  "is_qlist s h xs \<Longrightarrow> new \<notin> set (h # xs) \<Longrightarrow> is_qlist (qlist_add_tail new h s) h (xs @ [new])"
  using insert_between [of s h xs "[]" new] linked_prv [of s h xs h]
  by (simp add: qlist_add_tail_def is_qlist_def)

lemma qlist_del_remove:
  assumes "is_qlist s h xs" "x \<in> set xs"
  shows "is_qlist (qlist_del x s) h (remove1 x xs)"
proof -
  from split_list [OF assms(2)] obtain ys zs where xs: "xs = ys @ x # zs" by blast
  with assms(1) have "x \<notin> set ys" by (auto simp: is_qlist_def)
  with remove_between(1) [OF assms(1) [unfolded xs]] xs show ?thesis by (simp add: remove1_append)
qed

lemma qlist_del_init_remove:
  assumes "is_qlist s h xs" "x \<in> set xs"
  shows "is_qlist (qlist_del_init x s) h (remove1 x xs) \<and> is_qlist (qlist_del_init x s) x []"
proof -
  have q: "is_qlist (qlist_del x s) h (remove1 x xs)" using qlist_del_remove [OF assms] .
  have x: "x \<notin> set (h # remove1 x xs)" using assms by (auto simp: is_qlist_def)
  have "linked (qlist_del_init x s) h (remove1 x xs) h"
    by (rule linked_frame [of "qlist_del x s"])
       (use q x in \<open>auto simp: is_qlist_def qlist_del_init_def qlist_del_def INIT_QLIST_HEAD_def\<close>)
  with q show ?thesis
    by (simp add: is_qlist_def) (simp add: qlist_del_init_def INIT_QLIST_HEAD_def)
qed

lemma qlist_pop_hd:
  assumes "is_qlist s h xs"
  shows "case qlist_pop h s of
           (None, s') \<Rightarrow> xs = [] \<and> s' = s
         | (Some x, s') \<Rightarrow> xs \<noteq> [] \<and> x = hd xs \<and> is_qlist s' h (tl xs)"
proof (cases xs)
  case Nil
  with assms show ?thesis by (simp add: qlist_pop_def qlist_empty_iff)
next
  case (Cons x ys)
  with assms have "nxt s h = x" by (simp add: is_qlist_def)
  with assms Cons qlist_del_remove [OF assms, of x] show ?thesis
    by (simp add: qlist_pop_def qlist_empty_iff Let_def)
qed

text \<open>Splicing puts the elements of the first list in front of those of the second.\<close>

lemma qlist_splice_append:
  assumes "is_qlist s q xs" "is_qlist s h ys" "set (q # xs) \<inter> set (h # ys) = {}"
  shows "is_qlist (qlist_splice q h s) h (xs @ ys)"
proof (cases xs)
  case Nil
  with assms show ?thesis by (simp add: qlist_splice_def is_qlist_def Let_def)
next
  case (Cons x xs')
  let ?s = "qlist_splice q h s"
  have l: "linked s q xs q" "linked s h ys h" and d: "distinct (q # xs)" "distinct (h # ys)"
    using assms by (auto simp: is_qlist_def)
  have f: "nxt s q = x" "prv s q = last xs" "nxt s h = hd (ys @ [h])"
    using l linked_prv [OF l(1)] linked_nxt [OF l(2)] Cons by auto
  have x: "x \<noteq> q" using d Cons by auto
  have hdin: "hd (ys @ [h]) \<in> set (ys @ [h])" by (rule hd_in_set) simp
  have lastin: "last xs \<in> set xs" using Cons by (intro last_in_set) simp
  have n: "nxt ?s = (nxt s)(h := x, last xs := hd (ys @ [h]))"
    and p: "prv ?s = (prv s)(x := h, hd (ys @ [h]) := last xs)"
    using x f by (simp_all add: qlist_splice_def Let_def)
  have "linked ?s x xs' (hd (ys @ [h]))"
  proof (rule linked_end)
    show "linked s x xs' q" using l(1) Cons by simp
    show "nxt ?s p = nxt s p" if "p \<in> set (butlast (x # xs'))" for p
    proof -
      have "p \<noteq> last (x # xs')" using d Cons that by (intro butlast_not_last) auto
      moreover have "p \<in> set xs" using in_set_butlastD [OF that] Cons by simp
      ultimately show ?thesis using n assms(3) Cons by auto
    qed
  qed (use d Cons hdin assms(3) n p in auto)
  moreover have "nxt ?s h = x" "prv ?s x = h" using n p lastin hdin assms(3) Cons by auto
  moreover have "linked ?s y ys' h" if "ys = y # ys'" for y ys'
  proof -
    have "linked s y ys' h" using l(2) that by simp
    then show ?thesis
      by (rule linked_frame) (use d lastin assms(3) n p Cons that in auto)
  qed
  ultimately show ?thesis using d assms(3) Cons
    by (cases ys) (auto simp: is_qlist_def linked_append)
qed

lemma qlist_walk_elements:
  "linked s a xs h \<Longrightarrow> h \<notin> set xs \<Longrightarrow> qlist_walk s h (nxt s a) = Some xs"
proof (induction xs arbitrary: a)
  case Nil
  then show ?case by (subst qlist_walk.simps) simp
next
  case (Cons x xs)
  then show ?case by (subst qlist_walk.simps) auto
qed

lemma qlist_exists_from_iff:
  "linked s a xs h \<Longrightarrow> h \<notin> set xs \<Longrightarrow> qlist_exists_from s h x (nxt s a) = Some (x \<in> set xs)"
proof (induction xs arbitrary: a)
  case Nil
  then show ?case by (subst qlist_exists_from.simps) simp
next
  case (Cons y xs)
  then show ?case by (subst qlist_exists_from.simps) auto
qed

lemma qlist_count_from_length:
  "linked s a xs h \<Longrightarrow> h \<notin> set xs \<Longrightarrow> qlist_count_from s h n (nxt s a) = Some (n + length xs)"
proof (induction xs arbitrary: a n)
  case Nil
  then show ?case by (subst qlist_count_from.simps) simp
next
  case (Cons y xs)
  then show ?case by (subst qlist_count_from.simps) auto
qed

lemma qlist_find_from_find:
  "linked s a xs h \<Longrightarrow> h \<notin> set xs \<Longrightarrow> qlist_find_from s h P (nxt s a) = Some (List.find P xs)"
proof (induction xs arbitrary: a)
  case Nil
  then show ?case by (subst qlist_find_from.simps) simp
next
  case (Cons y xs)
  then show ?case by (subst qlist_find_from.simps) auto
qed

lemmas qlist_loops = qlist_walk_elements qlist_exists_from_iff qlist_count_from_length qlist_find_from_find

section \<open>Properties\<close>

text \<open>C26. The updates of the linked lists refine the list operations: on a well-formed list,
  with a new element that is not in it, \<open>qlist_add\<close> pushes in front, \<open>qlist_add_tail\<close> at the
  end, \<open>qlist_del\<close> and \<open>qlist_del_init\<close> remove their element, \<open>qlist_pop\<close> takes the first
  one, and \<open>qlist_splice\<close> of a disjoint list puts that list in front.\<close>

theorem qlist_updates_refine:
  assumes "is_qlist s h xs" "new \<notin> set (h # xs)" "x \<in> set xs"
    and "is_qlist s q ys" "set (q # ys) \<inter> set (h # xs) = {}"
  shows "is_qlist (qlist_add new h s) h (new # xs) \<and>
    is_qlist (qlist_add_tail new h s) h (xs @ [new]) \<and>
    is_qlist (qlist_del x s) h (remove1 x xs) \<and>
    is_qlist (qlist_del_init x s) h (remove1 x xs) \<and> is_qlist (qlist_del_init x s) x [] \<and>
    fst (qlist_pop h s) = Some (hd xs) \<and> is_qlist (snd (qlist_pop h s)) h (tl xs) \<and>
    is_qlist (qlist_splice q h s) h (ys @ xs)"
proof -
  have "xs \<noteq> []" using assms(3) by auto
  with qlist_pop_hd [OF assms(1)]
  have "fst (qlist_pop h s) = Some (hd xs) \<and> is_qlist (snd (qlist_pop h s)) h (tl xs)"
    by (auto split: prod.splits option.splits)
  with assms qlist_add_Cons qlist_add_tail_snoc qlist_del_remove qlist_del_init_remove
    qlist_splice_append show ?thesis by metis
qed

definition ring_of_two :: "nat links" where
  "ring_of_two =
     \<lparr>nxt = (\<lambda>p. if p = 10 then 11 else if p = 11 then 12 else if p = 12 then 10 else p),
      prv = (\<lambda>p. if p = 10 then 12 else if p = 11 then 10 else if p = 12 then 11 else p)\<rparr>"

lemma ring_of_two: "is_qlist ring_of_two 10 [11, 12]" "is_qlist ring_of_two 17 []"
  by (simp_all add: is_qlist_def ring_of_two_def)

theorem qlist_updates_refine_witness:
  "is_qlist (qlist_add 15 10 ring_of_two) 10 (15 # [11, 12]) \<and>
    is_qlist (qlist_add_tail 15 10 ring_of_two) 10 ([11, 12] @ [15]) \<and>
    is_qlist (qlist_del 11 ring_of_two) 10 (remove1 11 [11, 12]) \<and>
    is_qlist (qlist_del_init 11 ring_of_two) 10 (remove1 11 [11, 12]) \<and>
    is_qlist (qlist_del_init 11 ring_of_two) 11 [] \<and>
    fst (qlist_pop 10 ring_of_two) = Some (hd [11, 12]) \<and>
    is_qlist (snd (qlist_pop 10 ring_of_two)) 10 (tl [11, 12]) \<and>
    is_qlist (qlist_splice 17 10 ring_of_two) 10 ([] @ [11, 12])"
  by (rule qlist_updates_refine) (simp_all add: ring_of_two)

text \<open>C27. The traversals of a well-formed list end, and see exactly its elements in order:
  \<open>qlist_for_each\<close> visits them, \<open>qlist_empty\<close>, \<open>qlist_count\<close>, \<open>qlist_exists\<close> and
  \<open>qlist_find\<close> are emptiness, length, membership and the first match.\<close>

theorem qlist_traversals:
  assumes "is_qlist s h xs"
  shows "qlist_walk s h (nxt s h) = Some xs \<and> (qlist_empty h s \<longleftrightarrow> xs = []) \<and>
    qlist_count h s = Some (length xs) \<and> qlist_exists h x s = Some (x \<in> set xs) \<and>
    qlist_find h P s = Some (List.find P xs)"
proof -
  have "linked s h xs h" "h \<notin> set xs" using assms by (simp_all add: is_qlist_def)
  note loops = qlist_loops [OF this]
  show ?thesis
    using loops qlist_empty_iff [OF assms]
    by (simp add: qlist_count_def qlist_exists_def qlist_find_def)
qed

theorem qlist_traversals_witness:
  "qlist_walk ring_of_two 10 (nxt ring_of_two 10) = Some [11, 12] \<and>
    (qlist_empty 10 ring_of_two \<longleftrightarrow> [11, 12 :: nat] = []) \<and>
    qlist_count 10 ring_of_two = Some (length [11, 12 :: nat]) \<and>
    qlist_exists 10 12 ring_of_two = Some (12 \<in> set [11, 12 :: nat]) \<and>
    qlist_find 10 (\<lambda>p. 11 < p) ring_of_two = Some (List.find (\<lambda>p. 11 < p) [11, 12])"
  by (rule qlist_traversals [OF ring_of_two(1)])

end
