(* ===== verification/CTypes.thy ===== *)
theory CTypes
  imports CFIO_Prelude
begin

text \<open>
  The constants and enumerations the components share: \<open>cfio_types.h\<close>, \<open>cfio_error.h\<close>,
  the function codes of \<open>msg.h\<close> and the buffer sizes of \<open>send.h\<close>, \<open>recv.h\<close>. An
  enumeration travels over the wire as a C \<open>int\<close>, so a value outside the enumeration can
  arrive: \<open>cfio_type_of\<close> reads a code and is \<open>None\<close> there, which is the \<open>default\<close> of the
  code's switches.
\<close>

section \<open>Error codes\<close>

definition CFIO_ERROR_NONE :: int where "CFIO_ERROR_NONE = 0"
definition CFIO_ERROR_MALLOC :: int where "CFIO_ERROR_MALLOC = -1"
definition CFIO_ERROR_HASH_TABLE_INIT :: int where "CFIO_ERROR_HASH_TABLE_INIT = -2"
definition CFIO_ERROR_INVALID_INIT_ARG :: int where "CFIO_ERROR_INVALID_INIT_ARG = -3"
definition CFIO_ERROR_ARG_NULL :: int where "CFIO_ERROR_ARG_NULL = -4"
definition CFIO_ERROR_UNEXPECTED_MSG :: int where "CFIO_ERROR_UNEXPECTED_MSG = -101"
definition CFIO_ERROR_FINAL_AFTER_MPI :: int where "CFIO_ERROR_FINAL_AFTER_MPI = -200"
definition CFIO_ERROR_NC_NO_EXIST :: int where "CFIO_ERROR_NC_NO_EXIST = -401"
definition CFIO_ERROR_VAR_NO_EXIST :: int where "CFIO_ERROR_VAR_NO_EXIST = -401"
definition CFIO_ERROR_NC :: int where "CFIO_ERROR_NC = -500"
definition CFIO_ERROR_INVALID_NC :: int where "CFIO_ERROR_INVALID_NC = -501"
definition CFIO_ERROR_INVALID_DIM :: int where "CFIO_ERROR_INVALID_DIM = -502"
definition CFIO_ERROR_INVALID_VAR :: int where "CFIO_ERROR_INVALID_VAR = -503"
definition CFIO_ERROR_MSG_UNPACK :: int where "CFIO_ERROR_MSG_UNPACK = -504"
definition CFIO_ERROR_WRONG_NDIMS :: int where "CFIO_ERROR_WRONG_NDIMS = -506"

definition CFIO_ID_HASH_GET_NULL :: int where "CFIO_ID_HASH_GET_NULL = 1"
definition CFIO_RECV_BUF_FULL :: int where "CFIO_RECV_BUF_FULL = 1"

lemmas error_codes =
  CFIO_ERROR_NONE_def CFIO_ERROR_MALLOC_def CFIO_ERROR_HASH_TABLE_INIT_def
  CFIO_ERROR_INVALID_INIT_ARG_def CFIO_ERROR_ARG_NULL_def CFIO_ERROR_UNEXPECTED_MSG_def
  CFIO_ERROR_FINAL_AFTER_MPI_def CFIO_ERROR_NC_NO_EXIST_def CFIO_ERROR_VAR_NO_EXIST_def
  CFIO_ERROR_NC_def CFIO_ERROR_INVALID_NC_def CFIO_ERROR_INVALID_DIM_def
  CFIO_ERROR_INVALID_VAR_def CFIO_ERROR_MSG_UNPACK_def CFIO_ERROR_WRONG_NDIMS_def
  CFIO_ID_HASH_GET_NULL_def CFIO_RECV_BUF_FULL_def

section \<open>Function codes of the messages\<close>

definition FUNC_NC_CREATE :: u32 where "FUNC_NC_CREATE = 1"
definition FUNC_NC_ENDDEF :: u32 where "FUNC_NC_ENDDEF = 2"
definition FUNC_NC_CLOSE :: u32 where "FUNC_NC_CLOSE = 3"
definition FUNC_NC_DEF_DIM :: u32 where "FUNC_NC_DEF_DIM = 11"
definition FUNC_NC_DEF_VAR :: u32 where "FUNC_NC_DEF_VAR = 12"
definition FUNC_PUT_ATT :: u32 where "FUNC_PUT_ATT = 13"
definition FUNC_NC_PUT_VARA :: u32 where "FUNC_NC_PUT_VARA = 20"
definition FUNC_IO_END :: u32 where "FUNC_IO_END = 30"
definition FUNC_FINAL :: u32 where "FUNC_FINAL = 40"

lemmas func_codes =
  FUNC_NC_CREATE_def FUNC_NC_ENDDEF_def FUNC_NC_CLOSE_def FUNC_NC_DEF_DIM_def
  FUNC_NC_DEF_VAR_def FUNC_PUT_ATT_def FUNC_NC_PUT_VARA_def FUNC_IO_END_def FUNC_FINAL_def

section \<open>Buffer sizes\<close>

definition MSG_BUF_SIZE :: nat where "MSG_BUF_SIZE = 512 * 1024"
definition SEND_BUF_SIZE :: nat where "SEND_BUF_SIZE = 200 * 1024 * 1024"
definition SEND_MSG_MIN_SIZE :: nat where "SEND_MSG_MIN_SIZE = 70 * 1024 * 1024"
definition RECV_BUF_SIZE :: nat where "RECV_BUF_SIZE = 2400 * 1024 * 1024"

lemmas buf_sizes = MSG_BUF_SIZE_def SEND_BUF_SIZE_def SEND_MSG_MIN_SIZE_def RECV_BUF_SIZE_def

section \<open>Data types of variables and attributes\<close>

datatype cfio_type =
  CFIO_BYTE | CFIO_CHAR | CFIO_SHORT | CFIO_INT | CFIO_FLOAT | CFIO_DOUBLE

primrec cfio_type_code :: "cfio_type \<Rightarrow> i32" where
  "cfio_type_code CFIO_BYTE = 1"
| "cfio_type_code CFIO_CHAR = 2"
| "cfio_type_code CFIO_SHORT = 3"
| "cfio_type_code CFIO_INT = 4"
| "cfio_type_code CFIO_FLOAT = 5"
| "cfio_type_code CFIO_DOUBLE = 6"

definition cfio_type_of :: "i32 \<Rightarrow> cfio_type option" where
  "cfio_type_of w =
     (if w = 1 then Some CFIO_BYTE else if w = 2 then Some CFIO_CHAR
      else if w = 3 then Some CFIO_SHORT else if w = 4 then Some CFIO_INT
      else if w = 5 then Some CFIO_FLOAT else if w = 6 then Some CFIO_DOUBLE else None)"

lemma cfio_type_of_code [simp]: "cfio_type_of (cfio_type_code t) = Some t"
  by (cases t) (simp_all add: cfio_type_of_def)

lemma cfio_type_of_eq_Some [simp]: "cfio_type_of w = Some t \<longleftrightarrow> w = cfio_type_code t"
  by (cases t) (auto simp: cfio_type_of_def)

text \<open>
  The type names of the PnetCDF library, kept symbolic: their numeric values belong to the
  library and are a parameter where they matter.
\<close>

datatype nc_type = NC_NAT | NC_BYTE | NC_CHAR | NC_SHORT | NC_INT | NC_FLOAT | NC_DOUBLE

definition cfio_type_to_nc :: "i32 \<Rightarrow> nc_type" where
  "cfio_type_to_nc type =
     (case cfio_type_of type of
        Some CFIO_BYTE \<Rightarrow> NC_BYTE
      | Some CFIO_CHAR \<Rightarrow> NC_CHAR
      | Some CFIO_SHORT \<Rightarrow> NC_SHORT
      | Some CFIO_INT \<Rightarrow> NC_INT
      | Some CFIO_FLOAT \<Rightarrow> NC_FLOAT
      | Some CFIO_DOUBLE \<Rightarrow> NC_DOUBLE
      | None \<Rightarrow> NC_NAT)"

text \<open>
  \<open>cfio_types_size(size, type)\<close> assigns nothing when no case matches: the result is then
  the (indeterminate) old value of the variable, and reading it is \<open>None\<close>.
\<close>

primrec type_size :: "cfio_type \<Rightarrow> nat" where
  "type_size CFIO_BYTE = 1"
| "type_size CFIO_CHAR = 1"
| "type_size CFIO_SHORT = 2"
| "type_size CFIO_INT = 4"
| "type_size CFIO_FLOAT = 4"
| "type_size CFIO_DOUBLE = 8"

definition cfio_types_size :: "i32 \<Rightarrow> nat option" where
  "cfio_types_size type = map_option type_size (cfio_type_of type)"

lemma cfio_types_size_code [simp]: "cfio_types_size (cfio_type_code t) = Some (type_size t)"
  by (simp add: cfio_types_size_def)

lemma type_size_pos [simp]: "0 < type_size t"
  by (cases t) simp_all

lemma type_size_le_8: "type_size t \<le> 8"
  by (cases t) simp_all

text \<open>\<open>NC_GLOBAL\<close> is \<open>-1\<close> (the comment in \<open>cfio_put_att_c_\<close> of \<open>cfio.c\<close>).\<close>

definition NC_GLOBAL :: i32 where
  "NC_GLOBAL = -1"

end
