(* ===== verification/Buffer.thy ===== *)
theory Buffer
  imports CTypes
begin

text \<open>
  The ring buffer of \<open>buffer.h\<close> and \<open>buffer.c\<close>. Client and server pack messages into it
  and unpack them from it. Addresses into the buffer are offsets from \<open>start_addr\<close>
  (\<open>start_addr\<close> itself is offset 0), and \<open>bmem\<close> is the region of \<open>bsize\<close> bytes that
  \<open>cfio_buf_open\<close> allocates behind the header. A \<open>memcpy\<close> that leaves this region is
  undefined behaviour, hence \<open>None\<close>; so is a failed \<open>assert\<close>.
\<close>

section \<open>State and operations\<close>

record cfio_buf =
  magic :: "16 word"
  bsize :: nat
  bmem :: "byte list"
  free_addr :: nat
  used_addr :: nat
  end_addr :: nat
  magic2 :: "16 word"

definition CFIO_BUF_MAGIC :: "16 word" where
  "CFIO_BUF_MAGIC = 0xABCD"

definition magic_ok :: "cfio_buf \<Rightarrow> bool" where
  "magic_ok b \<longleftrightarrow> magic b = CFIO_BUF_MAGIC \<and> magic2 b = CFIO_BUF_MAGIC"

definition cfio_buf_is_empty :: "cfio_buf \<Rightarrow> bool" where
  "cfio_buf_is_empty b \<longleftrightarrow> used_addr b = free_addr b"

definition use_buf :: "cfio_buf \<Rightarrow> nat \<Rightarrow> cfio_buf" where
  "use_buf b n =
     (let b = b\<lparr>free_addr := free_addr b + n\<rparr>
      in if free_addr b \<ge> bsize b
         then (let b = b\<lparr>end_addr := free_addr b - n\<rparr>
               in b\<lparr>free_addr := free_addr b - bsize b\<rparr>)
         else b)"

definition free_buf :: "cfio_buf \<Rightarrow> nat \<Rightarrow> cfio_buf" where
  "free_buf b n =
     (let b = b\<lparr>used_addr := used_addr b + n\<rparr>
      in if used_addr b \<ge> bsize b then b\<lparr>used_addr := used_addr b - bsize b\<rparr> else b)"

text \<open>
  Both macros subtract pointers, which gives a signed difference, and reduce it modulo the
  unsigned \<open>size\<close>: the difference is converted to \<open>size_t\<close> first.
\<close>

definition free_buf_size :: "cfio_buf \<Rightarrow> nat" where
  "free_buf_size b =
     nat ((int (bsize b) + int (used_addr b) - int (free_addr b) - 1) mod 2 ^ 64) mod bsize b"

definition used_buf_size :: "cfio_buf \<Rightarrow> nat" where
  "used_buf_size b =
     nat ((int (bsize b) + int (free_addr b) - int (used_addr b)) mod 2 ^ 64) mod bsize b"

text \<open>
  \<open>ensure_free_space\<close> calls back into its client to wait for space. The callback works on
  the buffer and on the rest of the client's world \<open>'e\<close>; waiting forever is \<open>None\<close>.
\<close>

type_synonym 'e space_source = "'e \<Rightarrow> cfio_buf \<Rightarrow> ('e \<times> cfio_buf) option"

partial_function (option) wait_free_space ::
    "'e space_source \<Rightarrow> nat \<Rightarrow> 'e \<Rightarrow> cfio_buf \<Rightarrow> ('e \<times> cfio_buf) option" where
  "wait_free_space free n e b =
     (if free_buf_size b < n
      then Option.bind (free e b) (\<lambda>(e, b). wait_free_space free n e b)
      else Some (e, b))"

definition ensure_free_space ::
    "'e space_source \<Rightarrow> nat \<Rightarrow> 'e \<Rightarrow> cfio_buf \<Rightarrow> ('e \<times> cfio_buf) option" where
  "ensure_free_space free n e b =
     do {
       let left_space = bsize b - free_addr b;
       (e, b) \<leftarrow> wait_free_space free n e b;
       let b = (if n > left_space then use_buf b left_space else b);
       wait_free_space free n e b
     }"

datatype space_answer = CFIO_BUF_FREE_SPACE_ENOUGH | CFIO_BUF_FREE_SPACE_NOT_ENOUGH

definition is_free_space_enough :: "cfio_buf \<Rightarrow> nat \<Rightarrow> space_answer \<times> cfio_buf" where
  "is_free_space_enough b n =
     (let left_space = bsize b - free_addr b
      in if free_buf_size b < n then (CFIO_BUF_FREE_SPACE_NOT_ENOUGH, b)
         else (let b = (if n > left_space then use_buf b left_space else b)
               in if free_buf_size b < n then (CFIO_BUF_FREE_SPACE_NOT_ENOUGH, b)
                  else (CFIO_BUF_FREE_SPACE_ENOUGH, b)))"

definition check_used_addr :: "nat \<Rightarrow> cfio_buf \<Rightarrow> bool option" where
  "check_used_addr addr b =
     (if \<not> addr < bsize b then None
      else if used_addr b < free_addr b
           then (if used_addr b \<le> addr \<and> addr < free_addr b then Some True else Some False)
           else (if free_addr b \<le> addr \<and> addr < used_addr b then Some False else Some True))"

definition put_buf_data :: "cfio_buf \<Rightarrow> byte list \<Rightarrow> nat \<Rightarrow> cfio_buf option" where
  "put_buf_data b data n =
     (if n = 0 then Some b
      else if n \<le> length data
           then map_option (\<lambda>m. b\<lparr>bmem := m\<rparr>) (mem_write (bmem b) (free_addr b) (take n data))
           else None)"

definition get_buf_data :: "cfio_buf \<Rightarrow> nat \<Rightarrow> byte list option" where
  "get_buf_data b n = (if n = 0 then Some [] else mem_read (bmem b) (used_addr b) n)"

text \<open>\<open>junk\<close> is the content of the fresh allocation.\<close>

definition cfio_buf_open :: "byte list \<Rightarrow> cfio_buf" where
  "cfio_buf_open junk =
     \<lparr>magic = CFIO_BUF_MAGIC, bsize = length junk, bmem = junk,
      free_addr = 0, used_addr = 0, end_addr = 0, magic2 = CFIO_BUF_MAGIC\<rparr>"

definition cfio_buf_clear :: "cfio_buf \<Rightarrow> cfio_buf option" where
  "cfio_buf_clear b = (if magic_ok b then Some (b\<lparr>free_addr := 0, used_addr := 0\<rparr>) else None)"

definition cfio_buf_pack_data :: "byte list \<Rightarrow> nat \<Rightarrow> cfio_buf \<Rightarrow> cfio_buf option" where
  "cfio_buf_pack_data data n b =
     (if magic_ok b \<and> free_buf_size b \<ge> n
      then map_option (\<lambda>b. use_buf b n) (put_buf_data b data n)
      else None)"

definition cfio_buf_unpack_data :: "nat \<Rightarrow> cfio_buf \<Rightarrow> (byte list \<times> cfio_buf) option" where
  "cfio_buf_unpack_data n b =
     (if magic_ok b \<and> used_buf_size b \<ge> n
      then map_option (\<lambda>data. (data, free_buf b n)) (get_buf_data b n)
      else None)"

definition cfio_buf_pack_data_array ::
    "byte list \<Rightarrow> i32 \<Rightarrow> nat \<Rightarrow> cfio_buf \<Rightarrow> cfio_buf option" where
  "cfio_buf_pack_data_array data len sz b =
     (let data_size = (size_of_int len * sz) mod 2 ^ 64
      in if magic_ok b \<and> free_buf_size b \<ge> (data_size + sizeof_int) mod 2 ^ 64
         then do {
           b \<leftarrow> put_buf_data b (enc_i32 len) sizeof_int;
           let b = use_buf b sizeof_int;
           b \<leftarrow> put_buf_data b data data_size;
           Some (use_buf b data_size)
         }
         else None)"

definition cfio_buf_unpack_data_array ::
    "nat \<Rightarrow> cfio_buf \<Rightarrow> (byte list \<times> i32 \<times> cfio_buf) option" where
  "cfio_buf_unpack_data_array sz b =
     (if magic_ok b \<and> used_buf_size b \<ge> sizeof_int
      then do {
        lenb \<leftarrow> get_buf_data b sizeof_int;
        let len = dec_i32 lenb;
        let b = free_buf b sizeof_int;
        let data_size = (size_of_int len * sz) mod 2 ^ 64;
        if len = 0 then Some ([], len, b)
        else if used_buf_size b \<ge> data_size
        then do {
          data \<leftarrow> get_buf_data b data_size;
          Some (data, len, free_buf b data_size)
        }
        else None
      }
      else None)"

text \<open>
  The variant without a copy returns the address in the buffer. It moves \<open>used_addr\<close> over
  the length field twice, and it reads \<open>*len\<close> even when the caller passed no place for it
  (\<open>len_null\<close>, as the macro \<open>cfio_buf_unpack_str_ptr\<close> does).
\<close>

definition cfio_buf_unpack_data_array_ptr ::
    "bool \<Rightarrow> nat \<Rightarrow> cfio_buf \<Rightarrow> (nat \<times> i32 \<times> cfio_buf) option" where
  "cfio_buf_unpack_data_array_ptr len_null sz b =
     (if magic_ok b \<and> used_buf_size b \<ge> sizeof_int
      then do {
        lenb \<leftarrow> get_buf_data b sizeof_int;
        let len = dec_i32 lenb;
        let b = free_buf b sizeof_int;
        let b = free_buf b sizeof_int;
        if len_null then None
        else if used_buf_size b \<ge> (size_of_int len * sz) mod 2 ^ 64
        then Some (used_addr b, len, b)
        else None
      }
      else None)"

text \<open>Strings are packed as arrays of \<open>strlen + 1\<close> characters, the final NUL included.\<close>

definition strlen1 :: "byte list \<Rightarrow> i32" where
  "strlen1 str = word_of_nat (length str + 1)"

definition cfio_buf_pack_str :: "byte list \<Rightarrow> cfio_buf \<Rightarrow> cfio_buf option" where
  "cfio_buf_pack_str str b = cfio_buf_pack_data_array (str @ [0]) (strlen1 str) 1 b"

definition c_string :: "byte list \<Rightarrow> byte list option" where
  "c_string bs = (if 0 \<in> set bs then Some (takeWhile (\<lambda>c. c \<noteq> 0) bs) else None)"

text \<open>
  Every caller of \<open>cfio_buf_unpack_str\<close> reads the block it gets as a C string; reading one
  without a NUL runs off the block, so that is \<open>None\<close> here.
\<close>

definition cfio_buf_unpack_str :: "cfio_buf \<Rightarrow> (byte list \<times> cfio_buf) option" where
  "cfio_buf_unpack_str b =
     do {
       (data, len, b) \<leftarrow> cfio_buf_unpack_data_array 1 b;
       str \<leftarrow> c_string data;
       Some (str, b)
     }"

definition cfio_buf_data_array_size :: "nat \<Rightarrow> nat \<Rightarrow> nat" where
  "cfio_buf_data_array_size len sz = (len * sz + sizeof_int) mod 2 ^ 64"

definition cfio_buf_str_size :: "byte list \<Rightarrow> nat" where
  "cfio_buf_str_size str = cfio_buf_data_array_size (length str + 1) 1"

section \<open>Well-formed buffers\<close>

definition buf_inv :: "cfio_buf \<Rightarrow> bool" where
  "buf_inv b \<longleftrightarrow>
     magic_ok b \<and> 0 < bsize b \<and> 2 * bsize b \<le> 2 ^ 64 \<and> length (bmem b) = bsize b \<and>
     free_addr b < bsize b \<and> used_addr b < bsize b"

lemma free_buf_size_eq:
  assumes "buf_inv b"
  shows "free_buf_size b =
    (if free_addr b < used_addr b then used_addr b - free_addr b - 1
     else bsize b + used_addr b - free_addr b - 1)"
proof -
  let ?d = "int (bsize b) + int (used_addr b) - int (free_addr b) - 1"
  have d: "?d = int (bsize b + used_addr b - free_addr b - 1)" and "?d < 2 ^ 64"
    using assms by (auto simp: buf_inv_def)
  then have "free_buf_size b = (bsize b + used_addr b - free_addr b - 1) mod bsize b"
    by (simp only: free_buf_size_def d) simp
  with assms show ?thesis by (simp add: ring_free_mod buf_inv_def)
qed

lemma used_buf_size_eq:
  assumes "buf_inv b"
  shows "used_buf_size b =
    (if used_addr b \<le> free_addr b then free_addr b - used_addr b
     else bsize b + free_addr b - used_addr b)"
proof -
  let ?d = "int (bsize b) + int (free_addr b) - int (used_addr b)"
  have d: "?d = int (bsize b + free_addr b - used_addr b)" and "?d < 2 ^ 64"
    using assms by (auto simp: buf_inv_def)
  then have "used_buf_size b = (bsize b + free_addr b - used_addr b) mod bsize b"
    by (simp only: used_buf_size_def d) simp
  with assms show ?thesis by (simp add: ring_used_mod buf_inv_def)
qed

lemma free_used_total:
  "buf_inv b \<Longrightarrow> free_buf_size b + used_buf_size b + 1 = bsize b"
  by (auto simp: free_buf_size_eq used_buf_size_eq) (auto simp: buf_inv_def)

lemma buf_inv_open:
  "0 < length junk \<Longrightarrow> 2 * length junk \<le> 2 ^ 64 \<Longrightarrow> buf_inv (cfio_buf_open junk)"
  by (simp add: buf_inv_def cfio_buf_open_def magic_ok_def)

lemma buf_inv_use_buf:
  "buf_inv b \<Longrightarrow> n \<le> bsize b \<Longrightarrow> buf_inv (use_buf b n)"
  by (auto simp: buf_inv_def use_buf_def Let_def magic_ok_def)

lemma buf_inv_free_buf:
  "buf_inv b \<Longrightarrow> n \<le> bsize b \<Longrightarrow> buf_inv (free_buf b n)"
  by (auto simp: buf_inv_def free_buf_def Let_def magic_ok_def)

lemma free_buf_size_less: "buf_inv b \<Longrightarrow> free_buf_size b < bsize b"
  using free_used_total by fastforce

lemma used_buf_size_less: "buf_inv b \<Longrightarrow> used_buf_size b < bsize b"
  using free_used_total by fastforce

section \<open>Contents, and packing where there is room\<close>

text \<open>
  The bytes a reader of the ring finds: from \<open>used_addr\<close> up to \<open>free_addr\<close>, or, when the
  writer has wrapped, up to \<open>end_addr\<close> and then from the start up to \<open>free_addr\<close>. This is
  how \<open>_read_data\<close> of the server walks the client's ring.
\<close>

definition contents :: "cfio_buf \<Rightarrow> byte list" where
  "contents b =
     (if used_addr b \<le> free_addr b
      then slice (bmem b) (used_addr b) (free_addr b - used_addr b)
      else slice (bmem b) (used_addr b) (end_addr b - used_addr b) @
           slice (bmem b) 0 (free_addr b))"

definition fits :: "cfio_buf \<Rightarrow> nat \<Rightarrow> bool" where
  "fits b n \<longleftrightarrow> buf_inv b \<and> n \<le> free_buf_size b \<and> free_addr b + n \<le> bsize b"

text \<open>The buffer after \<open>d\<close> has been written at \<open>free_addr\<close>, short of the end of the ring.\<close>

definition appended :: "cfio_buf \<Rightarrow> byte list \<Rightarrow> cfio_buf" where
  "appended b d =
     b\<lparr>bmem := blit (bmem b) (free_addr b) d, free_addr := free_addr b + length d\<rparr>"

text \<open>
  The buffer after a whole message \<open>d\<close> whose last component has \<open>k\<close> bytes. When the
  message ends exactly at the end of the ring, \<open>use_buf\<close> records as \<open>end_addr\<close> the place
  where that last component starts.
\<close>

definition pushed :: "cfio_buf \<Rightarrow> byte list \<Rightarrow> nat \<Rightarrow> cfio_buf" where
  "pushed b d k =
     (if free_addr b + length d < bsize b then appended b d
      else b\<lparr>bmem := blit (bmem b) (free_addr b) d, free_addr := 0,
             end_addr := bsize b - k\<rparr>)"

lemma appended_Nil [simp]: "appended b [] = b"
  by (simp add: appended_def blit_def)

lemma fits_mono: "fits b n \<Longrightarrow> m \<le> n \<Longrightarrow> fits b m"
  by (simp add: fits_def)

lemma fits_room:
  assumes "fits b n"
  shows "free_addr b < used_addr b \<Longrightarrow> free_addr b + n < used_addr b"
    and "free_addr b + n \<le> bsize b"
    and "used_addr b \<le> free_addr b \<Longrightarrow> used_addr b = 0 \<Longrightarrow> free_addr b + n < bsize b"
  using assms by (auto simp: fits_def free_buf_size_eq) (auto simp: buf_inv_def)

lemma appended_select [simp]:
  "magic_ok (appended b d) = magic_ok b" "bsize (appended b d) = bsize b"
  "used_addr (appended b d) = used_addr b" "end_addr (appended b d) = end_addr b"
  "free_addr (appended b d) = free_addr b + length d"
  "bmem (appended b d) = blit (bmem b) (free_addr b) d"
  by (simp_all add: appended_def magic_ok_def)

lemma buf_inv_appended:
  "buf_inv b \<Longrightarrow> free_addr b + length d < bsize b \<Longrightarrow> buf_inv (appended b d)"
  by (auto simp: buf_inv_def)

lemma free_buf_size_appended:
  assumes "fits b n" "length d \<le> n" "free_addr b + length d < bsize b"
  shows "free_buf_size (appended b d) = free_buf_size b - length d"
  using assms fits_room [OF assms(1)]
  by (auto simp: fits_def free_buf_size_eq buf_inv_appended)

lemma blit_blit:
  "p + length d + length e \<le> length m \<Longrightarrow> blit (blit m p d) (p + length d) e = blit m p (d @ e)"
  by (rule nth_equalityI) (auto simp: nth_blit nth_append)

lemma put_buf_data_appended:
  assumes "fits b n" "length d + length e \<le> n" "k = length e"
  shows "put_buf_data (appended b d) e k =
     Some (b\<lparr>bmem := blit (bmem b) (free_addr b) (d @ e), free_addr := free_addr b + length d\<rparr>)"
proof -
  have "free_addr b + length d + length e \<le> length (bmem b)"
    using assms by (simp add: fits_def buf_inv_def)
  then show ?thesis using assms(3)
    by (simp add: put_buf_data_def mem_write_def blit_blit appended_def)
qed

lemma use_buf_short:
  "free_addr b + n < bsize b \<Longrightarrow> use_buf b n = b\<lparr>free_addr := free_addr b + n\<rparr>"
  by (simp add: use_buf_def)

lemma use_buf_exact:
  "free_addr b + n = bsize b \<Longrightarrow> use_buf b n = b\<lparr>end_addr := free_addr b, free_addr := 0\<rparr>"
  by (simp add: use_buf_def)

text \<open>Two rules pack a message: one for every component but the last, one for the last.\<close>

lemma pack_data_inner [pack_simps]:
  assumes "fits b n" "length d + length e < n" "k = length e"
  shows "cfio_buf_pack_data e k (appended b d) = Some (appended b (d @ e))"
proof -
  from assms have n: "n \<le> free_buf_size b" "free_addr b + n \<le> bsize b" by (simp_all add: fits_def)
  with assms have lt: "free_addr b + length d < bsize b"
    and lt': "free_addr b + length d + length e < bsize b" by linarith+
  have "free_buf_size (appended b d) = free_buf_size b - length d"
    using assms lt by (intro free_buf_size_appended) auto
  with n assms have "length e \<le> free_buf_size (appended b d)" by linarith
  with assms lt' show ?thesis
    by (simp add: cfio_buf_pack_data_def put_buf_data_appended [of b n] use_buf_short)
       (simp add: appended_def fits_def buf_inv_def add.assoc)
qed

lemma pack_data_last [pack_simps]:
  assumes "fits b n" "length d + length e = n" "k = length e" "e \<noteq> []"
  shows "cfio_buf_pack_data e k (appended b d) = Some (pushed b (d @ e) (length e))"
proof -
  from assms have n: "n \<le> free_buf_size b" "free_addr b + n \<le> bsize b" "0 < length e" "magic_ok b"
    by (simp_all add: fits_def buf_inv_def)
  with assms have lt: "free_addr b + length d < bsize b"
    and le: "free_addr b + length d + length e \<le> bsize b" by linarith+
  have "free_buf_size (appended b d) = free_buf_size b - length d"
    using assms lt by (intro free_buf_size_appended) auto
  with n assms have ok: "length e \<le> free_buf_size (appended b d)" "magic_ok b" by linarith+
  show ?thesis
  proof (cases "free_addr b + length d + length e < bsize b")
    case True
    with assms ok show ?thesis
      by (simp add: cfio_buf_pack_data_def put_buf_data_appended [of b n] use_buf_short pushed_def)
         (simp add: appended_def add.assoc)
  next
    case False
    with le have "free_addr b + length d + length e = bsize b" by simp
    with assms ok show ?thesis
      by (simp add: cfio_buf_pack_data_def put_buf_data_appended [of b n] use_buf_exact pushed_def
          add.assoc [symmetric])
  qed
qed

text \<open>An array is its length field followed by its data; \<open>array_bytes\<close> is the pair.\<close>

definition array_bytes :: "i32 \<Rightarrow> byte list \<Rightarrow> byte list" where
  "array_bytes len data = enc_i32 len @ data"

lemma length_array_bytes [simp]: "length (array_bytes len data) = 4 + length data"
  by (simp add: array_bytes_def)

lemma array_bytes_not_Nil [simp]: "array_bytes len data \<noteq> []"
  using length_array_bytes [of len data] by force

lemma fits_size: "fits b n \<Longrightarrow> n < 2 ^ 63"
  using free_buf_size_less [of b] by (auto simp: fits_def buf_inv_def)

text \<open>
  An array is packed in two steps: the length as an inner component, then the data. The
  data step wraps when it reaches the end of the ring, even if it is empty.
\<close>

lemma pack_array_steps:
  assumes "fits b n" "length d + 4 + length data \<le> n" "size_of_int len * sz = length data"
  shows "cfio_buf_pack_data_array data len sz (appended b d) =
    do {
      b \<leftarrow> cfio_buf_pack_data (enc_i32 len) 4 (appended b d);
      map_option (\<lambda>b. use_buf b (length data)) (put_buf_data b data (length data))
    }"
proof -
  note n = fits_size [OF assms(1)]
  from assms have f: "n \<le> free_buf_size b" "free_addr b + n \<le> bsize b" "magic_ok b"
    by (simp_all add: fits_def buf_inv_def)
  with assms have "free_addr b + length d < bsize b" by linarith
  with assms have "free_buf_size (appended b d) = free_buf_size b - length d"
    by (intro free_buf_size_appended) auto
  with f assms n have "length data + 4 \<le> free_buf_size (appended b d)" "length data + 4 < 2 ^ 64"
    by auto
  with f assms(3) show ?thesis
    by (simp add: cfio_buf_pack_data_array_def cfio_buf_pack_data_def Let_def
        bind_map_option comp_def map_conv_bind_option)
qed

lemma pack_array_inner [pack_simps]:
  assumes "fits b n" "length d + 4 + length data < n" "size_of_int len * sz = length data"
  shows "cfio_buf_pack_data_array data len sz (appended b d) =
    Some (appended b (d @ array_bytes len data))"
proof -
  have "cfio_buf_pack_data_array data len sz (appended b d) =
      map_option (\<lambda>b. use_buf b (length data))
        (put_buf_data (appended b (d @ enc_i32 len)) data (length data))"
    using assms by (simp add: pack_array_steps [of b n] pack_data_inner [of b n])
  also have "\<dots> = Some (appended b (d @ array_bytes len data))"
    using assms put_buf_data_appended [OF assms(1), of "d @ enc_i32 len" data "length data"]
    by (simp add: use_buf_short fits_def array_bytes_def)
       (simp add: appended_def add.assoc)
  finally show ?thesis .
qed

text \<open>The size of the last step that \<open>use_buf\<close> sees for an array in last position.\<close>

definition array_tail :: "byte list \<Rightarrow> nat" where
  "array_tail data = (if data = [] then 4 else length data)"

lemma pack_array_last [pack_simps]:
  assumes "fits b n" "length d + 4 + length data = n" "size_of_int len * sz = length data"
  shows "cfio_buf_pack_data_array data len sz (appended b d) =
    Some (pushed b (d @ array_bytes len data) (array_tail data))"
proof (cases "data = []")
  case True
  with assms have "cfio_buf_pack_data (enc_i32 len) 4 (appended b d) =
      Some (pushed b (d @ enc_i32 len) 4)"
    using pack_data_last [of b n d "enc_i32 len" 4] length_enc_i32 [of len] by fastforce
  then have "cfio_buf_pack_data_array data len sz (appended b d) =
      Some (use_buf (pushed b (d @ enc_i32 len) 4) 0)"
    using True assms by (subst pack_array_steps [of b n]) (simp_all add: put_buf_data_def)
  moreover have "use_buf (pushed b (d @ enc_i32 len) 4) 0 = pushed b (d @ enc_i32 len) 4"
    using assms by (auto simp: pushed_def use_buf_def fits_def buf_inv_def appended_def)
  ultimately show ?thesis using True by (simp add: array_bytes_def array_tail_def)
next
  case False
  then have "0 < length data" by simp
  with assms have len: "cfio_buf_pack_data (enc_i32 len) 4 (appended b d) =
      Some (appended b (d @ enc_i32 len))"
    by (intro pack_data_inner [of b n]) auto
  have steps: "cfio_buf_pack_data_array data len sz (appended b d) =
    do {
      b \<leftarrow> cfio_buf_pack_data (enc_i32 len) 4 (appended b d);
      map_option (\<lambda>b. use_buf b (length data)) (put_buf_data b data (length data))
    }"
    using assms by (intro pack_array_steps [of b n]) auto
  have "cfio_buf_pack_data_array data len sz (appended b d) =
      map_option (\<lambda>b. use_buf b (length data))
        (put_buf_data (appended b (d @ enc_i32 len)) data (length data))"
    unfolding steps len by simp
  also have "\<dots> = Some (use_buf (b\<lparr>bmem := blit (bmem b) (free_addr b) (d @ array_bytes len data),
      free_addr := free_addr b + length d + 4\<rparr>) (length data))"
    using assms put_buf_data_appended [OF assms(1), of "d @ enc_i32 len" data "length data"]
    by (simp add: array_bytes_def add.assoc)
  also have "\<dots> = Some (pushed b (d @ array_bytes len data) (array_tail data))"
    using assms False
    by (cases "free_addr b + n < bsize b")
       (auto simp: use_buf_short use_buf_exact pushed_def appended_def array_tail_def fits_def)
  finally show ?thesis .
qed

section \<open>What packing does to the contents\<close>

lemma contents_appended:
  assumes "fits b (length d)" "free_addr b + length d < bsize b"
  shows "contents (appended b d) = contents b @ d"
proof -
  have len: "free_addr b + length d \<le> length (bmem b)" using assms by (simp add: fits_def buf_inv_def)
  show ?thesis
  proof (cases "used_addr b \<le> free_addr b")
    case True
    with len show ?thesis by (simp add: contents_def slice_split slice_blit_before)
  next
    case False
    with fits_room(1) [OF assms(1)] have lt: "free_addr b + length d < used_addr b" by simp
    have "slice (blit (bmem b) (free_addr b) d) 0 (free_addr b + length d)
      = slice (bmem b) 0 (free_addr b) @ d"
      using len by (simp add: slice_add slice_blit_before)
    with lt len show ?thesis by (simp add: contents_def slice_blit_after)
  qed
qed

text \<open>
  At the exact end of the ring the recorded \<open>end_addr\<close> cuts the last component off: a
  reader that follows \<open>end_addr\<close> does not see it.
\<close>

lemma contents_pushed_exact:
  assumes "fits b (length d)" "free_addr b + length d = bsize b" "0 < k" "k \<le> length d"
  shows "contents (pushed b d k) = contents b @ take (length d - k) d"
proof -
  have len: "free_addr b + length d \<le> length (bmem b)" and f: "free_addr b < bsize b"
    using assms by (simp_all add: fits_def buf_inv_def)
  have uf: "used_addr b \<le> free_addr b" "0 < used_addr b"
    using fits_room [OF assms(1)] assms by (auto simp: fits_def buf_inv_def not_le)
       (metis not_le less_trans less_irrefl)
  have e: "bsize b - k - used_addr b = free_addr b + (length d - k) - used_addr b"
    using assms uf by linarith
  have t: "slice (blit (bmem b) (free_addr b) d) (free_addr b) (length d - k)
      = take (length d - k) d"
    using slice_blit_same [OF len] take_slice [of "length d - k" _ _ "length d"]
    by (metis diff_le_self min.absorb1)
  show ?thesis using uf len assms(2)
    by (simp add: contents_def pushed_def e t slice_split slice_blit_before del: diff_diff_left)
qed

lemma contents_pushed:
  assumes "fits b (length d)" "free_addr b + length d < bsize b"
  shows "contents (pushed b d k) = contents b @ d"
  using assms by (simp add: pushed_def contents_appended)

lemma buf_inv_pushed: "fits b (length d) \<Longrightarrow> buf_inv (pushed b d k)"
  by (auto simp: pushed_def fits_def intro: buf_inv_appended) (auto simp: buf_inv_def magic_ok_def)

section \<open>Unpacking from the front\<close>

text \<open>
  \<open>front b bs\<close>: the next unread bytes of the ring are \<open>bs\<close>, in one piece. A message is
  always stored in one piece, and may end at the very end of the region.
\<close>

definition front :: "cfio_buf \<Rightarrow> byte list \<Rightarrow> bool" where
  "front b bs \<longleftrightarrow>
     buf_inv b \<and> length bs \<le> used_buf_size b \<and> used_addr b + length bs \<le> bsize b \<and>
     slice (bmem b) (used_addr b) (length bs) = bs"

lemma front_append_left:
  assumes "front b (x @ r)"
  shows "slice (bmem b) (used_addr b) (length x) = x"
    and "slice (bmem b) (used_addr b + length x) (length r) = r"
  using assms slice_appendI [of "bmem b" "used_addr b" "length x + length r" x r]
  by (auto simp: front_def buf_inv_def)

lemma free_buf_select [simp]:
  "bmem (free_buf b n) = bmem b" "bsize (free_buf b n) = bsize b"
  "free_addr (free_buf b n) = free_addr b" "end_addr (free_buf b n) = end_addr b"
  "magic_ok (free_buf b n) = magic_ok b"
  by (simp_all add: free_buf_def Let_def magic_ok_def)

lemma front_free_buf [unpack_simps]:
  assumes "front b (x @ r)" "k = length x"
  shows "front (free_buf b k) r"
proof -
  from assms have inv: "buf_inv b" and u: "used_addr b + k + length r \<le> bsize b"
    and n: "k + length r \<le> used_buf_size b"
    by (auto simp: front_def)
  then have inv': "buf_inv (free_buf b k)" by (intro buf_inv_free_buf) auto
  show ?thesis
  proof (cases "used_addr b + k < bsize b")
    case True
    then have "used_addr (free_buf b k) = used_addr b + k" by (simp add: free_buf_def)
    moreover from this n True inv inv' have "length r \<le> used_buf_size (free_buf b k)"
      by (auto simp: used_buf_size_eq split: if_splits)
    ultimately show ?thesis using inv' u assms front_append_left(2) [OF assms(1)]
      by (simp add: front_def)
  next
    case False
    with u have "length r = 0" by linarith
    then have "r = []" by simp
    with inv' show ?thesis by (simp add: front_def) (simp add: buf_inv_def)
  qed
qed

lemma get_front:
  "front b (x @ r) \<Longrightarrow> k = length x \<Longrightarrow> get_buf_data b k = Some x"
  using front_append_left(1) [of b x r]
  by (auto simp: get_buf_data_def mem_read_def front_def buf_inv_def)

lemma unpack_data_front [unpack_simps]:
  "front b (x @ r) \<Longrightarrow> k = length x \<Longrightarrow> cfio_buf_unpack_data k b = Some (x, free_buf b k)"
  using get_front [of b x r k]
  by (simp add: cfio_buf_unpack_data_def) (auto simp: front_def buf_inv_def)

lemma front_used: "front b (x @ r) \<Longrightarrow> length x \<le> used_buf_size b"
  by (simp add: front_def)

lemma front_bound: "front b bs \<Longrightarrow> length bs < 2 ^ 63"
  using used_buf_size_less [of b] by (auto simp: front_def buf_inv_def)

lemma unpack_array_front [unpack_simps]:
  assumes "front b (array_bytes len data @ r)" "size_of_int len * sz = length data"
  shows "cfio_buf_unpack_data_array sz b =
    Some (data, len, free_buf (free_buf b 4) (length data))"
proof -
  from assms(1) have f: "front b (enc_i32 len @ data @ r)" by (simp add: array_bytes_def)
  from f have f': "front (free_buf b 4) (data @ r)" by (rule front_free_buf) simp
  have lt: "length data < 2 ^ 64" using front_bound [OF f'] by simp
  have "4 \<le> used_buf_size b" using front_used [OF f] by simp
  moreover have "magic_ok b" using f by (simp add: front_def buf_inv_def)
  moreover have "data = []" if "len = 0" using assms(2) that by (simp add: size_of_int_def)
  moreover have "free_buf (free_buf b 4) 0 = free_buf b 4"
    using f' by (auto simp: free_buf_def [of "free_buf b 4"] front_def buf_inv_def)
  ultimately show ?thesis
    using get_front [OF f, of 4] get_front [OF f' refl] front_used [OF f'] assms(2) lt
    by (simp add: cfio_buf_unpack_data_array_def Let_def)
qed

lemma c_string_NUL: "0 \<notin> set str \<Longrightarrow> c_string (str @ [0]) = Some str"
  by (auto simp: c_string_def takeWhile_append)

section \<open>Making room\<close>

text \<open>
  When the tail of the ring is too short for a message, the writer skips it. It does so only
  when the unread bytes lie before the writer and not at offset 0: otherwise the free space
  would have been found too small.
\<close>

definition skip_tail :: "cfio_buf \<Rightarrow> cfio_buf" where
  "skip_tail b = use_buf b (bsize b - free_addr b)"

lemma skip_tail_eq:
  "buf_inv b \<Longrightarrow> skip_tail b = b\<lparr>end_addr := free_addr b, free_addr := 0\<rparr>"
  by (simp add: skip_tail_def buf_inv_def use_buf_exact)

lemma skip_position:
  assumes "buf_inv b" "n \<le> free_buf_size b" "bsize b - free_addr b < n"
  shows "0 < used_addr b \<and> used_addr b \<le> free_addr b"
proof -
  from assms(1) have lt: "free_addr b < bsize b" "used_addr b < bsize b" by (simp_all add: buf_inv_def)
  with assms have "\<not> free_addr b < used_addr b" by (auto simp: free_buf_size_eq split: if_splits)
  moreover from this assms lt have "used_addr b \<noteq> 0" by (auto simp: free_buf_size_eq)
  ultimately show ?thesis by simp
qed

lemma skip_tail_inv: "buf_inv b \<Longrightarrow> buf_inv (skip_tail b)"
  by (simp add: skip_tail_eq) (auto simp: buf_inv_def magic_ok_def)

lemma contents_skip_tail:
  "buf_inv b \<Longrightarrow> 0 < used_addr b \<Longrightarrow> used_addr b \<le> free_addr b \<Longrightarrow>
     contents (skip_tail b) = contents b"
  by (simp add: skip_tail_eq contents_def)

text \<open>What \<open>is_free_space_enough\<close> promises, with its two answers.\<close>

lemma is_free_space_enough_ENOUGH:
  assumes "buf_inv b" "is_free_space_enough b n = (CFIO_BUF_FREE_SPACE_ENOUGH, b')"
  shows "fits b' n \<and> (b' = b \<or> (0 < used_addr b \<and> used_addr b \<le> free_addr b \<and> b' = skip_tail b))"
proof -
  let ?left = "bsize b - free_addr b"
  from assms(2) have n: "n \<le> free_buf_size b" and n': "n \<le> free_buf_size b'"
    and b': "b' = (if n > ?left then skip_tail b else b)"
    by (auto simp: is_free_space_enough_def Let_def skip_tail_def split: if_splits)
  have "n < bsize b" "free_addr b < bsize b"
    using n free_buf_size_less [OF assms(1)] assms(1) by (simp_all add: buf_inv_def)
  then show ?thesis
    using n' b' skip_position [OF assms(1) n] skip_tail_inv [OF assms(1)] assms(1)
    by (auto simp: fits_def skip_tail_eq)
qed

lemma is_free_space_enough_NOT:
  assumes "buf_inv b" "is_free_space_enough b n = (CFIO_BUF_FREE_SPACE_NOT_ENOUGH, b')"
  shows "free_buf_size b' < n \<and> (b' = b \<or> (0 < used_addr b \<and> used_addr b \<le> free_addr b \<and> b' = skip_tail b))"
  using assms skip_position [OF assms(1), of n]
  by (auto simp: is_free_space_enough_def Let_def skip_tail_def not_less split: if_splits)

lemma ensure_space_there:
  "n \<le> free_buf_size b \<Longrightarrow> free_addr b + n \<le> bsize b \<Longrightarrow> ensure_free_space free n e b = Some (e, b)"
  by (auto simp: ensure_free_space_def wait_free_space.simps Let_def)

text \<open>
  The contract of the callback of \<open>ensure_free_space\<close>: in a good state it returns, it only
  moves \<open>used_addr\<close> forward over bytes that have been consumed, and it makes progress until
  the ring is empty. Skipping the tail keeps states good.
\<close>

definition advanced :: "cfio_buf \<Rightarrow> cfio_buf \<Rightarrow> bool" where
  "advanced b b' \<longleftrightarrow>
     buf_inv b' \<and> (\<exists>u. b' = b\<lparr>used_addr := u\<rparr>) \<and> free_buf_size b \<le> free_buf_size b' \<and>
     (\<exists>k. contents b' = drop k (contents b))"

lemma advanced_refl: "buf_inv b \<Longrightarrow> advanced b b"
  unfolding advanced_def by (metis cfio_buf.surjective cfio_buf.update_convs(5) drop0 le_refl)

lemma advanced_trans: "advanced b c \<Longrightarrow> advanced c d \<Longrightarrow> advanced b d"
  unfolding advanced_def by (fastforce simp: drop_drop)

lemma advanced_select:
  "advanced b b' \<Longrightarrow> bsize b' = bsize b \<and> bmem b' = bmem b \<and> free_addr b' = free_addr b"
  by (auto simp: advanced_def)

locale space_source =
  fixes free :: "'e \<Rightarrow> cfio_buf \<Rightarrow> ('e \<times> cfio_buf) option"
    and good :: "'e \<Rightarrow> cfio_buf \<Rightarrow> bool"
    and effort :: "'e \<Rightarrow> cfio_buf \<Rightarrow> nat"
  assumes free_progress:
      "good e b \<Longrightarrow> buf_inv b \<Longrightarrow> free_buf_size b + 1 < bsize b \<Longrightarrow>
         \<exists>e' b'. free e b = Some (e', b') \<and> good e' b' \<and> advanced b b' \<and> effort e' b' < effort e b"
    and good_skip:
      "good e b \<Longrightarrow> buf_inv b \<Longrightarrow> 0 < used_addr b \<Longrightarrow> used_addr b \<le> free_addr b \<Longrightarrow>
         good e (skip_tail b)"
begin

lemma wait_returns:
  "good e b \<Longrightarrow> buf_inv b \<Longrightarrow> n < bsize b \<Longrightarrow>
     \<exists>e' b'. wait_free_space free n e b = Some (e', b') \<and> good e' b' \<and> advanced b b' \<and>
       n \<le> free_buf_size b'"
proof (induction "effort e b" arbitrary: e b rule: less_induct)
  case less
  show ?case
  proof (cases "free_buf_size b < n")
    case False
    with less.prems show ?thesis
      by (subst wait_free_space.simps) (simp add: advanced_refl)
  next
    case True
    with less.prems have "free_buf_size b + 1 < bsize b" by linarith
    with free_progress [OF less.prems(1,2)] obtain e1 b1 where
      step: "free e b = Some (e1, b1)" "good e1 b1" "advanced b b1" "effort e1 b1 < effort e b"
      by blast
    have "buf_inv b1" "n < bsize b1"
      using step(3) less.prems(3) advanced_select [OF step(3)] by (auto simp: advanced_def)
    from less.hyps [OF step(4,2) this] obtain e2 b2 where
      "wait_free_space free n e1 b1 = Some (e2, b2)" "good e2 b2" "advanced b1 b2"
      "n \<le> free_buf_size b2" by blast
    with True step(1,3) show ?thesis
      by (subst wait_free_space.simps) (auto intro: advanced_trans)
  qed
qed

lemma ensure_returns:
  assumes "good e b" "buf_inv b" "n < bsize b"
  shows "\<exists>e' b'. ensure_free_space free n e b = Some (e', b') \<and> good e' b' \<and> fits b' n \<and>
    bmem b' = bmem b \<and> bsize b' = bsize b \<and> (\<exists>k. contents b' = drop k (contents b))"
proof -
  from wait_returns [OF assms] obtain e1 b1 where w1: "wait_free_space free n e b = Some (e1, b1)"
    and g1: "good e1 b1" and a1: "advanced b b1" and n1: "n \<le> free_buf_size b1" by blast
  from a1 have inv1: "buf_inv b1" and c1: "\<exists>k. contents b1 = drop k (contents b)"
    by (auto simp: advanced_def)
  note s1 = advanced_select [OF a1]
  show ?thesis
  proof (cases "n > bsize b - free_addr b")
    case False
    then have "wait_free_space free n e1 b1 = Some (e1, b1)"
      using n1 by (subst wait_free_space.simps) simp
    with False w1 g1 inv1 n1 c1 s1 show ?thesis
      by (simp add: ensure_free_space_def Let_def fits_def not_less) (auto simp: buf_inv_def)
  next
    case True
    then have pos: "0 < used_addr b1 \<and> used_addr b1 \<le> free_addr b1"
      using skip_position [OF inv1 n1] s1 by simp
    then have "good e1 (skip_tail b1)" "buf_inv (skip_tail b1)" "n < bsize (skip_tail b1)"
      using good_skip [OF g1 inv1] skip_tail_inv [OF inv1] assms(3) s1
      by (simp_all add: skip_tail_eq [OF inv1])
    from wait_returns [OF this] obtain e2 b2 where
      w2: "wait_free_space free n e1 (skip_tail b1) = Some (e2, b2)" and g2: "good e2 b2"
      and a2: "advanced (skip_tail b1) b2" and n2: "n \<le> free_buf_size b2" by blast
    have "contents (skip_tail b1) = contents b1"
      using contents_skip_tail [OF inv1] pos by simp
    with a2 c1 have c2: "\<exists>k. contents b2 = drop k (contents b)"
      by (auto simp: advanced_def drop_drop)
    have "use_buf b1 (bsize b - free_addr b) = skip_tail b1" using s1 by (simp add: skip_tail_def)
    with True w1 w2 have "ensure_free_space free n e b = Some (e2, b2)"
      by (simp add: ensure_free_space_def Let_def)
    with g2 n2 c2 s1 advanced_select [OF a2] assms(3) a2 show ?thesis
      by (auto simp: skip_tail_eq [OF inv1] fits_def advanced_def)
  qed
qed

end

end
