(* ===== verification/Addr.thy ===== *)
theory Addr
  imports Buffer
begin

text \<open>
  The address record of \<open>addr.h\<close>, \<open>addr.c\<close>, which a client and its server write into each
  other's memory by RDMA to hand over a region of the client's ring. The addresses are
  offsets into the client's buffer, on both sides. Client signals: 0 the server has written
  back, 1 waiting for the server, 11 end. Server signals: 0 nothing new, 1 data, 11 end.
\<close>

record cfio_buf_addr =
  signal :: int
  a_end :: nat
  a_free :: nat
  a_used :: nat

definition cfio_rdma_addr_init :: "cfio_buf option \<Rightarrow> cfio_buf_addr \<Rightarrow> cfio_buf_addr" where
  "cfio_rdma_addr_init buf addr =
     (let addr = addr\<lparr>signal := 0\<rparr>
      in case buf of
           None \<Rightarrow> addr
         | Some b \<Rightarrow> addr\<lparr>a_free := free_addr b, a_used := used_addr b, a_end := end_addr b\<rparr>)"

text \<open>
  The loops spin on a record that the peer overwrites. \<open>inbound\<close> holds the peer's writes
  that are still to land, in order; a loop whose condition no write ends never returns.
\<close>

fun spin_while ::
    "(cfio_buf_addr \<Rightarrow> bool) \<Rightarrow> cfio_buf_addr \<Rightarrow> cfio_buf_addr list \<Rightarrow>
     (cfio_buf_addr \<times> cfio_buf_addr list) option" where
  "spin_while cond addr inbound =
     (if \<not> cond addr then Some (addr, inbound)
      else case inbound of [] \<Rightarrow> None | w # ws \<Rightarrow> spin_while cond w ws)"

declare spin_while.simps [simp del]

definition cfio_rdma_addr_server_wait ::
    "cfio_buf_addr \<Rightarrow> cfio_buf_addr list \<Rightarrow> (cfio_buf_addr \<times> cfio_buf_addr list) option" where
  "cfio_rdma_addr_server_wait = spin_while (\<lambda>addr. signal addr = 0)"

definition cfio_rdma_addr_client_wait ::
    "cfio_buf_addr \<Rightarrow> cfio_buf_addr list \<Rightarrow> (cfio_buf_addr \<times> cfio_buf_addr list) option" where
  "cfio_rdma_addr_client_wait = spin_while (\<lambda>addr. 1 = signal addr)"

definition cfio_rdma_addr_client_wait_end ::
    "cfio_buf_addr \<Rightarrow> cfio_buf_addr list \<Rightarrow> (cfio_buf_addr \<times> cfio_buf_addr list) option" where
  "cfio_rdma_addr_client_wait_end = spin_while (\<lambda>addr. 11 = signal addr)"

definition cfio_rdma_addr_server_test :: "cfio_buf_addr \<Rightarrow> int" where
  "cfio_rdma_addr_server_test addr = signal addr"

definition cfio_rdma_addr_client_test :: "cfio_buf_addr \<Rightarrow> int" where
  "cfio_rdma_addr_client_test addr = (if signal addr \<noteq> 0 then 0 else 1)"

definition cfio_rdma_addr_server_clear_signal :: "cfio_buf_addr \<Rightarrow> cfio_buf_addr" where
  "cfio_rdma_addr_server_clear_signal addr = addr\<lparr>signal := 0\<rparr>"

definition cfio_rdma_addr_client_clear_signal :: "cfio_buf_addr \<Rightarrow> cfio_buf_addr" where
  "cfio_rdma_addr_client_clear_signal addr = addr\<lparr>signal := 1\<rparr>"

definition cfio_rdma_addr_server_end_signal :: "cfio_buf_addr \<Rightarrow> cfio_buf_addr" where
  "cfio_rdma_addr_server_end_signal addr = addr\<lparr>signal := 10\<rparr>"

definition cfio_rdma_addr_client_end_signal :: "cfio_buf_addr \<Rightarrow> cfio_buf_addr" where
  "cfio_rdma_addr_client_end_signal addr = addr\<lparr>signal := 11\<rparr>"

text \<open>
  What the server writes back for an address record a client has written: \<open>cfio_comm\<close>
  answers signal 1, once it has read the whole region, by clearing the signal of the record
  it holds and writing the record back; it does not answer signal 11.
\<close>

definition server_reply :: "cfio_buf_addr \<Rightarrow> cfio_buf_addr list" where
  "server_reply addr =
     (if cfio_rdma_addr_server_test addr = 1 then [cfio_rdma_addr_server_clear_signal addr] else [])"

section \<open>The waits\<close>

lemma spin_while_done: "\<not> cond addr \<Longrightarrow> spin_while cond addr inbound = Some (addr, inbound)"
  by (simp add: spin_while.simps)

lemma spin_while_step: "cond addr \<Longrightarrow> spin_while cond addr (w # ws) = spin_while cond w ws"
  by (simp add: spin_while.simps [of cond addr])

lemma spin_while_stuck: "cond addr \<Longrightarrow> spin_while cond addr [] = None"
  by (simp add: spin_while.simps)

lemma spin_while_spec:
  "spin_while cond addr inbound = Some (a, rest) \<longleftrightarrow>
     (\<exists>seen. addr # inbound = seen @ a # rest \<and> (\<forall>w \<in> set seen. cond w) \<and> \<not> cond a)"
proof (induction cond addr inbound rule: spin_while.induct)
  case (1 cond addr inbound)
  show ?case
  proof (cases "cond addr")
    case False
    then show ?thesis
      by (auto simp: spin_while_done Cons_eq_append_conv intro: exI [where x = "[]"])
  next
    case c: True
    show ?thesis
    proof (cases inbound)
      case Nil
      with c show ?thesis by (auto simp: spin_while_stuck Cons_eq_append_conv)
    next
      case (Cons w ws)
      have "(\<exists>seen. addr # w # ws = seen @ a # rest \<and> (\<forall>w \<in> set seen. cond w) \<and> \<not> cond a) \<longleftrightarrow>
          (\<exists>seen. w # ws = seen @ a # rest \<and> (\<forall>w \<in> set seen. cond w) \<and> \<not> cond a)"
        using c by (subst Cons_eq_append_conv) (auto intro: exI [where x = "addr # _"])
      with Cons c "1.IH" [of w ws] show ?thesis by (simp add: spin_while_step)
    qed
  qed
qed

end
