(* ===== verification/Procmap.thy ===== *)
theory Procmap
  imports CTypes
begin

text \<open>
  The process map of \<open>map.c\<close>: which ranks are clients and which are servers, and which
  clients a server forwards for. Ranks and counts are \<open>int\<close>; the products stay far below
  \<open>2 ^ 31\<close> for process counts, so signed overflow is not modelled. The static variables of
  the file are the record \<open>map_state\<close>. MPI communicators are opaque handles.
\<close>

section \<open>State\<close>

record map_state =
  client_amount :: int
  client_x_num :: int
  client_y_num :: int
  comm :: int
  server_amount :: int
  server_x_num :: int
  server_y_num :: int
  server_comm :: int

datatype proc_type = CFIO_MAP_TYPE_CLIENT | CFIO_MAP_TYPE_SERVER | CFIO_MAP_TYPE_BLANK

section \<open>Choosing the server grid\<close>

lemma int_le_square: "(i::int) \<le> i * i"
  by (cases "i \<le> 0") (auto intro: order_trans [OF _ zero_le_square] mult_le_cancel_left1 [THEN iffD2])

text \<open>The first loop of \<open>_get_factor\<close>: the factors up to the square root, in order.\<close>

function factors_from :: "int \<Rightarrow> int \<Rightarrow> int list" where
  "factors_from n i =
     (if i * i \<le> n
      then (if n smod i = 0 then i # factors_from n (i + 1) else factors_from n (i + 1))
      else [])"
  by pat_completeness auto

termination
  by (relation "measure (\<lambda>(n, i). nat (n + 1 - i))")
    (use int_le_square in \<open>auto intro: order_trans\<close>)

declare factors_from.simps [simp del]

text \<open>
  The second loop walks back over these factors, without the root of a square, and appends
  the cofactors. With no factor at all (\<open>n \<le> 0\<close>) it reads \<open>factor[-1]\<close>.
\<close>

definition get_factor :: "int \<Rightarrow> int list option" where
  "get_factor n =
     (let low = factors_from n 1
      in if low = [] then None
         else (let rest = (if last low * last low = n then butlast low else low)
               in Some (low @ map (\<lambda>f. n sdiv f) (rev rest))))"

text \<open>
  The search of \<open>_gen_server_x_and_y\<close> moves up in the factors of \<open>x\<close> and down in those of
  \<open>y\<close>. \<open>min_sub\<close> is assigned only when the product hits the target; the indices
  \<open>min_index_x\<close>, \<open>min_index_y\<close> start unassigned (\<open>None\<close>) and are set after the step.
\<close>

function search_grid ::
    "int list \<Rightarrow> int list \<Rightarrow> int \<Rightarrow> int \<Rightarrow> int \<Rightarrow> int \<Rightarrow> (int \<times> int) option \<Rightarrow>
     int \<times> (int \<times> int) option" where
  "search_grid factor_x factor_y best index_x index_y min_sub min_index =
     (if index_x < int (length factor_x) \<and> index_y \<ge> 0
      then (let mul = factor_x ! nat index_x * factor_y ! nat index_y;
                sub = best - mul
            in if sub = 0 then (sub, Some (index_x, index_y))
               else if sub > 0
               then search_grid factor_x factor_y best (index_x + 1) index_y min_sub
                      (if sub < min_sub then Some (index_x + 1, index_y) else min_index)
               else search_grid factor_x factor_y best index_x (index_y - 1) min_sub
                      (if - sub < min_sub then Some (index_x, index_y - 1) else min_index))
      else (min_sub, min_index))"
  by pat_completeness auto
termination
  by (relation "measure (\<lambda>(fx, fy, best, ix, iy, ms, mi). nat (int (length fx) - ix) + nat (iy + 1))")
    auto

declare search_grid.simps [simp del]

definition nth_int :: "'a list \<Rightarrow> int \<Rightarrow> 'a option" where
  "nth_int xs i = (if 0 \<le> i \<and> i < int (length xs) then Some (xs ! nat i) else None)"

text \<open>
  The test \<open>(double)min_sub / (double)best < 0.4\<close> on \<open>int\<close> values: a quotient of integers
  below \<open>2 ^ 31\<close> that differs from \<open>2/5\<close> differs by far more than the rounding, so it is
  \<open>5 * min_sub < 2 * best\<close>.
\<close>

definition gen_server_x_and_y :: "int \<Rightarrow> map_state \<Rightarrow> (int \<times> map_state) option" where
  "gen_server_x_and_y best_server_amount m =
     do {
       factor_x \<leftarrow> get_factor (client_x_num m);
       factor_y \<leftarrow> get_factor (client_y_num m);
       let (min_sub, min_index) =
         search_grid factor_x factor_y best_server_amount 0 (int (length factor_y) - 1)
           (client_amount m) None;
       if 5 * min_sub < 2 * best_server_amount
       then do {
         (min_index_x, min_index_y) \<leftarrow> min_index;
         fx \<leftarrow> nth_int factor_x min_index_x;
         fy \<leftarrow> nth_int factor_y min_index_y;
         let best_server_amount = fx * fy;
         if server_amount m < best_server_amount
         then Some (CFIO_ERROR_INVALID_INIT_ARG, m)
         else Some (CFIO_ERROR_NONE,
                m\<lparr>server_amount := best_server_amount, server_x_num := fx, server_y_num := fy\<rparr>)
       }
       else Some (CFIO_ERROR_INVALID_INIT_ARG, m)
     }"

definition cfio_map_init ::
    "int \<Rightarrow> int \<Rightarrow> int \<Rightarrow> int \<Rightarrow> int \<Rightarrow> int \<Rightarrow> map_state \<Rightarrow> (int \<times> map_state) option" where
  "cfio_map_init cx cy samount best_server_amount c sc m =
     (if cx > 0 \<and> cy > 0 \<and> best_server_amount > 0
      then do {
        let m = m\<lparr>client_x_num := cx, client_y_num := cy, client_amount := cx * cy,
                  comm := c, server_comm := sc, server_amount := samount\<rparr>;
        (ret, m) \<leftarrow> gen_server_x_and_y best_server_amount m;
        if ret < 0 then Some (ret, m) else Some (CFIO_ERROR_NONE, m)
      }
      else None)"

section \<open>Queries\<close>

definition cfio_map_proc_type :: "map_state \<Rightarrow> int \<Rightarrow> proc_type option" where
  "cfio_map_proc_type m proc_id =
     (if proc_id \<ge> 0
      then Some (if proc_id < client_amount m then CFIO_MAP_TYPE_CLIENT
                 else if proc_id < client_amount m + server_amount m then CFIO_MAP_TYPE_SERVER
                 else CFIO_MAP_TYPE_BLANK)
      else None)"

definition cfio_map_get_client_num_of_server :: "map_state \<Rightarrow> int \<Rightarrow> int option" where
  "cfio_map_get_client_num_of_server m server_id =
     (if cfio_map_proc_type m server_id = Some CFIO_MAP_TYPE_SERVER
      then cdiv (client_amount m) (server_amount m)
      else None)"

definition cfio_map_get_server_index :: "map_state \<Rightarrow> int \<Rightarrow> int option" where
  "cfio_map_get_server_index m server_id =
     (if cfio_map_proc_type m server_id = Some CFIO_MAP_TYPE_SERVER
      then Some (server_id - client_amount m)
      else None)"

definition cfio_map_get_clients :: "map_state \<Rightarrow> int \<Rightarrow> int list option" where
  "cfio_map_get_clients m server_id =
     do {
       server_index \<leftarrow> cfio_map_get_server_index m server_id;
       server_x_index \<leftarrow> cmod server_index (server_x_num m);
       server_y_index \<leftarrow> cdiv server_index (server_x_num m);
       client_num \<leftarrow> cfio_map_get_client_num_of_server m server_id;
       client_per_server_x \<leftarrow> cdiv (client_x_num m) (server_x_num m);
       client_per_server_y \<leftarrow> cdiv (client_y_num m) (server_y_num m);
       let client_x_start_index = server_x_index * client_per_server_x;
       let client_y_start_index = server_y_index * client_per_server_y;
       those (map (\<lambda>i. do {
           client_x_off \<leftarrow> cmod i client_per_server_x;
           client_y_off \<leftarrow> cdiv i client_per_server_x;
           let client_x_index = client_x_off + client_x_start_index;
           let client_y_index = client_y_off + client_y_start_index;
           Some (client_x_index + client_y_index * client_x_num m)
         }) [0..client_num - 1])
     }"

definition cfio_map_get_client_index_of_server :: "map_state \<Rightarrow> int \<Rightarrow> int option" where
  "cfio_map_get_client_index_of_server m client_id =
     do {
       client_x_index \<leftarrow> cmod client_id (client_x_num m);
       client_y_index \<leftarrow> cdiv client_id (client_x_num m);
       client_per_server_x \<leftarrow> cdiv (client_x_num m) (server_x_num m);
       client_per_server_y \<leftarrow> cdiv (client_y_num m) (server_y_num m);
       client_x_index_in_server \<leftarrow> cmod client_x_index client_per_server_x;
       client_y_index_in_server \<leftarrow> cmod client_y_index client_per_server_y;
       Some (client_x_index_in_server + client_y_index_in_server * client_per_server_x)
     }"

definition cfio_map_get_server_of_client :: "map_state \<Rightarrow> int \<Rightarrow> int option" where
  "cfio_map_get_server_of_client m client_id =
     do {
       client_x_index \<leftarrow> cmod client_id (client_x_num m);
       client_y_index \<leftarrow> cdiv client_id (client_x_num m);
       client_per_server_x \<leftarrow> cdiv (client_x_num m) (server_x_num m);
       client_per_server_y \<leftarrow> cdiv (client_y_num m) (server_y_num m);
       server_x_index \<leftarrow> cdiv client_x_index client_per_server_x;
       server_y_index \<leftarrow> cdiv client_y_index client_per_server_y;
       let server_id = server_x_index + server_y_index * server_x_num m;
       Some (server_id + client_amount m)
     }"

section \<open>The factor list\<close>

lemma factors_from_spec:
  "0 < i \<Longrightarrow> 0 < n \<Longrightarrow>
     set (factors_from n i) = {d. i \<le> d \<and> d * d \<le> n \<and> d dvd n} \<and>
     sorted_wrt (<) (factors_from n i)"
proof (induction n i rule: factors_from.induct)
  case (1 n i)
  show ?case
  proof (cases "i * i \<le> n")
    case False
    have "\<not> d * d \<le> n" if "i \<le> d" for d
    proof -
      have "i * i \<le> d * d" using that \<open>0 < i\<close> by (intro mult_mono) auto
      with False show ?thesis by linarith
    qed
    with False show ?thesis by (auto simp: factors_from.simps [of n i])
  next
    case True
    have dv: "n smod i = 0 \<longleftrightarrow> i dvd n"
      using 1(3,4) cmod_nonneg [of n i] by (simp add: cmod_def dvd_eq_mod_eq_0)
    have IH: "set (factors_from n (i + 1)) = {d. i + 1 \<le> d \<and> d * d \<le> n \<and> d dvd n}"
      "sorted_wrt (<) (factors_from n (i + 1))"
      using "1.IH" [OF True] "1.prems" by (cases "n smod i = 0"; simp)+
    have split: "i \<le> d \<longleftrightarrow> d = i \<or> i + 1 \<le> d" for d by auto
    show ?thesis
      using True IH dv by (auto simp: factors_from.simps [of n i] split)
  qed
qed

lemma set_factors: "0 < n \<Longrightarrow> set (factors_from n 1) = {d. 0 < d \<and> d * d \<le> n \<and> d dvd n}"
  using factors_from_spec [of 1 n] by (simp add: int_one_le_iff_zero_less)

lemma sorted_factors: "0 < n \<Longrightarrow> sorted_wrt (<) (factors_from n 1)"
  using factors_from_spec [of 1 n] by simp

lemma sorted_wrt_last_max:
  "sorted_wrt (<) xs \<Longrightarrow> x \<in> set xs \<Longrightarrow> x \<le> (last xs :: int)"
  by (induction xs) (auto intro: less_imp_le)

text \<open>The part of the list the second loop walks over: the factors below the root.\<close>

lemma butlast_factors:
  assumes n: "0 < n" and low: "low = factors_from n 1"
  defines "rest \<equiv> (if last low * last low = n then butlast low else low)"
  shows "set rest = {d. 0 < d \<and> d * d < n \<and> d dvd n} \<and> sorted_wrt (<) rest"
proof -
  have set_low: "set low = {d. 0 < d \<and> d * d \<le> n \<and> d dvd n}" and srt: "sorted_wrt (<) low"
    using n low set_factors sorted_factors by auto
  have "1 \<in> set low" using set_low n by simp
  then have ne: "low \<noteq> []" by auto
  have lst: "last low \<in> set low" using ne by simp
  show ?thesis
  proof (cases "last low * last low = n")
    case False
    have "d * d \<noteq> n" if "d \<in> set low" for d
    proof
      assume "d * d = n"
      moreover have "d * d \<le> last low * last low"
        using sorted_wrt_last_max [OF srt that] that set_low by (intro mult_mono) auto
      moreover have "last low * last low \<le> n" using lst set_low by simp
      ultimately show False using False by simp
    qed
    with False set_low srt show ?thesis by (fastforce simp: rest_def)
  next
    case True
    have app: "low = butlast low @ [last low]" using ne by simp
    have lt: "d < last low" if "d \<in> set (butlast low)" for d
      using srt that app by (metis sorted_wrt_append list.set_intros(1))
    have "d \<in> set (butlast low) \<longleftrightarrow> d \<in> set low \<and> d * d < n" for d
    proof
      assume d: "d \<in> set (butlast low)"
      then have "d * d < last low * last low"
        using lt [OF d] in_set_butlastD [OF d] set_low by (intro mult_strict_mono) auto
      with True d show "d \<in> set low \<and> d * d < n" by (auto dest: in_set_butlastD)
    next
      assume "d \<in> set low \<and> d * d < n"
      with True have "d \<in> set low" "d \<noteq> last low" by auto
      moreover have "set low = insert (last low) (set (butlast low))"
        using arg_cong [OF app, of set] by simp
      ultimately show "d \<in> set (butlast low)" by simp
    qed
    then have "set (butlast low) = {d. 0 < d \<and> d * d < n \<and> d dvd n}"
      unfolding set_low set_eq_iff by fastforce
    moreover have "sorted_wrt (<) (butlast low)"
      using srt app by (metis sorted_wrt_append)
    moreover have "rest = butlast low" unfolding rest_def using True by (rule if_P)
    ultimately show ?thesis by simp
  qed
qed

text \<open>The cofactors of the divisors below the square root are those above it, in the opposite order.\<close>

lemma cofactors:
  fixes n :: int
  assumes "0 < n" "set rest = {d. 0 < d \<and> d * d < n \<and> d dvd n}"
  shows "(\<lambda>f. n sdiv f) ` set rest = {e. 0 < e \<and> n < e * e \<and> e dvd n}" (is "?L = ?R")
proof
  have quo: "n sdiv f = n div f" if "f \<in> set rest" for f
    using that assms cdiv_nonneg [of n f] by (simp add: cdiv_def)
  have big: "n div d * (n div d) > n \<and> n div d dvd n \<and> 0 < n div d" if "0 < d" "d * d < n" "d dvd n" for d
  proof -
    from that obtain e where n: "n = d * e" by auto
    with that have e: "d < e" by (simp add: mult_less_cancel_left)
    then have "d * e < e * e" using that by (intro mult_strict_right_mono) auto
    with that n e show ?thesis by auto
  qed
  show "?L \<subseteq> ?R" using quo big assms(2) by auto
  show "?R \<subseteq> ?L"
  proof
    fix e assume "e \<in> ?R"
    then obtain d where n: "n = e * d" and e: "0 < e" "n < e * e" by auto
    with assms(1) have d: "0 < d" "d < e" by (auto simp: zero_less_mult_iff)
    then have "d * d < n" using n by (auto intro: mult_strict_right_mono)
    with n d have "d \<in> set rest" using assms(2) by simp
    moreover have "n div d = e" using n d by simp
    ultimately show "e \<in> ?L" using quo by (metis imageI)
  qed
qed

lemma cofactors_sorted:
  fixes n :: int
  assumes "0 < n" "\<forall>d \<in> set rest. 0 < d \<and> d dvd n" "sorted_wrt (<) rest"
  shows "sorted_wrt (<) (map (\<lambda>f. n sdiv f) (rev rest))"
proof -
  have "n sdiv f < n sdiv g" if "f \<in> set rest" "g \<in> set rest" "g < f" for f g
  proof -
    have "f dvd n" "g dvd n" and pos: "0 < f" "0 < g" using that assms(2) by simp_all
    then obtain a b where a: "n = f * a" and b: "n = g * b" by (meson dvdE)
    from b assms(1) have "0 < g * b" by simp
    with pos have "0 < b" by (simp add: zero_less_mult_iff)
    then have "g * b < f * b" using \<open>g < f\<close> by simp
    then have "a < b" using a b pos by simp
    moreover have "n sdiv f = a" using a pos assms(1) cdiv_nonneg [of n f] by (simp add: cdiv_def)
    moreover have "n sdiv g = b" using b pos assms(1) cdiv_nonneg [of n g] by (simp add: cdiv_def)
    ultimately show ?thesis by simp
  qed
  then have "sorted_wrt (\<lambda>g f. n sdiv f < n sdiv g) rest"
    by (intro sorted_wrt_mono_rel [OF _ assms(3)]) auto
  then show ?thesis by (simp add: sorted_wrt_map sorted_wrt_rev)
qed

lemma get_factor_spec:
  assumes "0 < n"
  shows "\<exists>fs. get_factor n = Some fs \<and> set fs = {d. 0 < d \<and> d dvd n} \<and> sorted_wrt (<) fs"
proof -
  define low where "low = factors_from n 1"
  define rest where "rest = (if last low * last low = n then butlast low else low)"
  have set_low: "set low = {d. 0 < d \<and> d * d \<le> n \<and> d dvd n}" and srt: "sorted_wrt (<) low"
    using assms set_factors sorted_factors by (auto simp: low_def)
  have rest: "set rest = {d. 0 < d \<and> d * d < n \<and> d dvd n}" "sorted_wrt (<) rest"
    using butlast_factors [OF assms low_def] by (auto simp: rest_def)
  have "low \<noteq> []" using set_low assms by (metis (mono_tags, lifting) empty_set dvd_refl one_dvd
    empty_iff mem_Collect_eq mult_1 zero_less_one int_one_le_iff_zero_less)
  then have res: "get_factor n = Some (low @ map (\<lambda>f. n sdiv f) (rev rest))"
    by (simp add: get_factor_def Let_def low_def rest_def)
  have "d < e" if "d \<in> set low" "0 < e \<and> n < e * e" for d e
  proof (rule ccontr)
    assume "\<not> d < e"
    then have "e * e \<le> d * d" using that set_low by (intro mult_mono) auto
    with that set_low show False by auto
  qed
  moreover have "sorted_wrt (<) (map (\<lambda>f. n sdiv f) (rev rest))" by (rule cofactors_sorted [OF assms _ rest(2)]) (simp add: rest(1))
  ultimately have "set (low @ map (\<lambda>f. n sdiv f) (rev rest)) = {d. 0 < d \<and> d dvd n}"
    "sorted_wrt (<) (low @ map (\<lambda>f. n sdiv f) (rev rest))"
    using cofactors [OF assms rest(1)] set_low srt by (auto simp: sorted_wrt_append)
  with res show ?thesis by blast
qed

section \<open>The grid search\<close>

text \<open>
  The walk is a staircase through the products of two sorted lists: every cell it leaves
  behind misses the target. It ends with difference 0 exactly when some product is the
  target, and otherwise with the initial \<open>min_sub\<close>, which the loop never lowers.
\<close>

definition staircase :: "int list \<Rightarrow> int list \<Rightarrow> int \<Rightarrow> int \<Rightarrow> int \<Rightarrow> bool" where
  "staircase fx fy best ix iy \<longleftrightarrow>
     (\<forall>i j. i < length fx \<longrightarrow> j < length fy \<longrightarrow> fx ! i * fy ! j = best \<longrightarrow> ix \<le> int i \<and> int j \<le> iy)"

lemma sorted_nth_less:
  "sorted_wrt (<) (xs :: int list) \<Longrightarrow> i < j \<Longrightarrow> j < length xs \<Longrightarrow> xs ! i < xs ! j"
  by (simp add: sorted_wrt_nth_less)

lemma sorted_nth_le:
  "sorted_wrt (<) (xs :: int list) \<Longrightarrow> i \<le> j \<Longrightarrow> j < length xs \<Longrightarrow> xs ! i \<le> xs ! j"
  using sorted_nth_less [of xs i j] by (cases "i = j") (auto intro: order.strict_implies_order)

lemma staircase_right:
  assumes st: "staircase fx fy best ix iy" and sx: "sorted_wrt (<) fx" and sy: "sorted_wrt (<) fy"
    and pos: "\<forall>x \<in> set fx. 0 < x" "\<forall>y \<in> set fy. 0 < y"
    and rng: "0 \<le> ix" "ix < int (length fx)" "0 \<le> iy" "iy < int (length fy)"
    and less: "fx ! nat ix * fy ! nat iy < best"
  shows "staircase fx fy best (ix + 1) iy"
  unfolding staircase_def
proof (intro allI impI)
  fix i j assume i: "i < length fx" and j: "j < length fy" and hit: "fx ! i * fy ! j = best"
  with st have b: "ix \<le> int i" "int j \<le> iy" by (auto simp: staircase_def)
  have "int i \<noteq> ix"
  proof
    assume "int i = ix"
    then have "fx ! i * fy ! j \<le> fx ! nat ix * fy ! nat iy"
      using sorted_nth_le [OF sy, of j "nat iy"] b rng pos(1) i
      by (auto intro!: mult_left_mono order.strict_implies_order [of 0])
    with less hit show False by simp
  qed
  with b show "ix + 1 \<le> int i \<and> int j \<le> iy" by simp
qed

lemma staircase_down:
  assumes st: "staircase fx fy best ix iy" and sx: "sorted_wrt (<) fx" and sy: "sorted_wrt (<) fy"
    and pos: "\<forall>x \<in> set fx. 0 < x" "\<forall>y \<in> set fy. 0 < y"
    and rng: "0 \<le> ix" "ix < int (length fx)" "0 \<le> iy" "iy < int (length fy)"
    and gr: "best < fx ! nat ix * fy ! nat iy"
  shows "staircase fx fy best ix (iy - 1)"
  unfolding staircase_def
proof (intro allI impI)
  fix i j assume i: "i < length fx" and j: "j < length fy" and hit: "fx ! i * fy ! j = best"
  with st have b: "ix \<le> int i" "int j \<le> iy" by (auto simp: staircase_def)
  have "int j \<noteq> iy"
  proof
    assume "int j = iy"
    then have "fx ! nat ix * fy ! nat iy \<le> fx ! i * fy ! j"
      using sorted_nth_le [OF sx, of "nat ix" i] b rng pos(2) i j
      by (auto intro!: mult_right_mono order.strict_implies_order [of 0])
    with gr hit show False by simp
  qed
  with b show "ix \<le> int i \<and> int j \<le> iy - 1" by simp
qed

lemma search_grid_spec:
  assumes "sorted_wrt (<) fx" "sorted_wrt (<) fy" "\<forall>x \<in> set fx. 0 < x" "\<forall>y \<in> set fy. 0 < y"
    and "staircase fx fy best ix iy" "0 \<le> ix" "iy < int (length fy)"
  shows "(\<exists>i j. search_grid fx fy best ix iy ms mi = (0, Some (i, j)) \<and>
            0 \<le> i \<and> i < int (length fx) \<and> 0 \<le> j \<and> j < int (length fy) \<and>
            fx ! nat i * fy ! nat j = best) \<or>
         (\<exists>mi'. search_grid fx fy best ix iy ms mi = (ms, mi') \<and>
            (\<forall>x \<in> set fx. \<forall>y \<in> set fy. x * y \<noteq> best))"
  using assms
proof (induction fx fy best ix iy ms mi rule: search_grid.induct)
  case (1 fx fy best ix iy ms mi)
  show ?case
  proof (cases "ix < int (length fx) \<and> iy \<ge> 0")
    case False
    have "x * y \<noteq> best" if "x \<in> set fx" "y \<in> set fy" for x y
    proof
      assume "x * y = best"
      moreover from that obtain i j where "i < length fx" "x = fx ! i" "j < length fy" "y = fy ! j"
        by (auto simp: in_set_conv_nth)
      ultimately have "ix \<le> int i \<and> int j \<le> iy" "i < length fx"
        using "1.prems"(5) by (auto simp: staircase_def)
      with False show False by auto
    qed
    moreover have "search_grid fx fy best ix iy ms mi = (ms, mi)"
      using False by (subst search_grid.simps) (simp only: if_False)
    ultimately show ?thesis by blast
  next
    case True
    let ?mul = "fx ! nat ix * fy ! nat iy"
    consider "best = ?mul" | "?mul < best" | "best < ?mul" by linarith
    then show ?thesis
    proof cases
      case 1
      then have "search_grid fx fy best ix iy ms mi = (0, Some (ix, iy))"
        using True by (subst search_grid.simps) (simp add: Let_def)
      with True 1 "1.prems" show ?thesis by auto
    next
      case 2
      let ?mi = "if best - ?mul < ms then Some (ix + 1, iy) else mi"
      have "search_grid fx fy best ix iy ms mi = search_grid fx fy best (ix + 1) iy ms ?mi"
        using True 2 by (subst search_grid.simps) (simp add: Let_def)
      moreover have "staircase fx fy best (ix + 1) iy"
        using True 2 "1.prems" by (intro staircase_right) auto
      ultimately show ?thesis
        using "1.IH"(1) [OF True refl refl] 2 "1.prems" by simp
    next
      case 3
      let ?mi = "if - (best - ?mul) < ms then Some (ix, iy - 1) else mi"
      have "search_grid fx fy best ix iy ms mi = search_grid fx fy best ix (iy - 1) ms ?mi"
        using True 3 by (subst search_grid.simps) (simp add: Let_def)
      moreover have "staircase fx fy best ix (iy - 1)"
        using True 3 "1.prems" by (intro staircase_down) auto
      ultimately show ?thesis
        using "1.IH"(2) [OF True refl refl] 3 "1.prems" by simp
    qed
  qed
qed

text \<open>
  What \<open>cfio_map_init\<close> decides, when \<open>best_server_amount\<close> is at most 2.5 times the
  number of clients: it succeeds exactly when the target is the product of a divisor of each
  side of the client grid and enough servers were started.
\<close>

definition grid_exists :: "int \<Rightarrow> int \<Rightarrow> int \<Rightarrow> bool" where
  "grid_exists cx cy n \<longleftrightarrow>
     (\<exists>sx \<in> {1..cx}. \<exists>sy \<in> {1..cy}. sx dvd cx \<and> sy dvd cy \<and> sx * sy = n)"

definition map_inv :: "map_state \<Rightarrow> bool" where
  "map_inv m \<longleftrightarrow>
     0 < client_x_num m \<and> 0 < client_y_num m \<and>
     client_amount m = client_x_num m * client_y_num m \<and>
     0 < server_x_num m \<and> 0 < server_y_num m \<and>
     server_x_num m dvd client_x_num m \<and> server_y_num m dvd client_y_num m \<and>
     server_amount m = server_x_num m * server_y_num m"

lemma divisor_range:
  "0 < n \<Longrightarrow> x \<in> {1..n} \<and> x dvd n \<longleftrightarrow> x \<in> {d. 0 < d \<and> d dvd (n :: int)}"
  by (auto dest: zdvd_imp_le)

lemma gen_server_cases:
  assumes "0 < client_x_num m" "0 < client_y_num m" "0 < best"
    and "2 * best \<le> 5 * client_amount m"
  shows "(grid_exists (client_x_num m) (client_y_num m) best \<and>
          (\<exists>sx sy. 0 < sx \<and> 0 < sy \<and> sx dvd client_x_num m \<and> sy dvd client_y_num m \<and>
             sx * sy = best \<and>
             gen_server_x_and_y best m =
               (if server_amount m < best then Some (CFIO_ERROR_INVALID_INIT_ARG, m)
                else Some (CFIO_ERROR_NONE,
                  m\<lparr>server_amount := best, server_x_num := sx, server_y_num := sy\<rparr>)))) \<or>
         (\<not> grid_exists (client_x_num m) (client_y_num m) best \<and>
          gen_server_x_and_y best m = Some (CFIO_ERROR_INVALID_INIT_ARG, m))"
proof -
  from get_factor_spec [OF assms(1)] obtain fx where fx: "get_factor (client_x_num m) = Some fx"
    "set fx = {d. 0 < d \<and> d dvd client_x_num m}" "sorted_wrt (<) fx" by blast
  from get_factor_spec [OF assms(2)] obtain fy where fy: "get_factor (client_y_num m) = Some fy"
    "set fy = {d. 0 < d \<and> d dvd client_y_num m}" "sorted_wrt (<) fy" by blast
  have ge: "grid_exists (client_x_num m) (client_y_num m) best \<longleftrightarrow>
      (\<exists>x \<in> set fx. \<exists>y \<in> set fy. x * y = best)"
    unfolding grid_exists_def fx(2) fy(2) using divisor_range [OF assms(1)] divisor_range [OF assms(2)]
    by blast
  let ?s = "search_grid fx fy best 0 (int (length fy) - 1) (client_amount m) None"
  have "staircase fx fy best 0 (int (length fy) - 1)" by (auto simp: staircase_def)
  moreover have "\<forall>x \<in> set fx. 0 < x" "\<forall>y \<in> set fy. 0 < y" using fx(2) fy(2) by simp_all
  ultimately have found: "(\<exists>i j. ?s = (0, Some (i, j)) \<and> 0 \<le> i \<and> i < int (length fx) \<and> 0 \<le> j \<and>
      j < int (length fy) \<and> fx ! nat i * fy ! nat j = best) \<or>
    (\<exists>mi. ?s = (client_amount m, mi) \<and> (\<forall>x \<in> set fx. \<forall>y \<in> set fy. x * y \<noteq> best))"
    by (intro search_grid_spec fx(3) fy(3)) auto
  then consider i j where "?s = (0, Some (i, j))" "0 \<le> i" "i < int (length fx)" "0 \<le> j"
      "j < int (length fy)" "fx ! nat i * fy ! nat j = best"
    | mi where "?s = (client_amount m, mi)" "\<forall>x \<in> set fx. \<forall>y \<in> set fy. x * y \<noteq> best"
    by blast
  then show ?thesis
  proof cases
    case 1
    then have "fx ! nat i \<in> set fx" "fy ! nat j \<in> set fy" by auto
    then have "0 < fx ! nat i \<and> fx ! nat i dvd client_x_num m"
      "0 < fy ! nat j \<and> fy ! nat j dvd client_y_num m" using fx(2) fy(2) by blast+
    moreover have "gen_server_x_and_y best m =
        (if server_amount m < best then Some (CFIO_ERROR_INVALID_INIT_ARG, m)
         else Some (CFIO_ERROR_NONE, m\<lparr>server_amount := best,
           server_x_num := fx ! nat i, server_y_num := fy ! nat j\<rparr>))"
      using 1 fx(1) fy(1) assms(3) by (simp add: gen_server_x_and_y_def nth_int_def)
    moreover have "grid_exists (client_x_num m) (client_y_num m) best"
      using ge 1 by (metis nth_mem nat_less_iff)
    ultimately show ?thesis using 1(6) by blast
  next
    case 2
    then have "gen_server_x_and_y best m = Some (CFIO_ERROR_INVALID_INIT_ARG, m)"
      using fx(1) fy(1) assms(4) by (simp add: gen_server_x_and_y_def)
    with ge 2 show ?thesis by auto
  qed
qed

section \<open>The partition of the clients\<close>

lemma div_less_bound: "0 < n \<Longrightarrow> x < n * k \<Longrightarrow> x div n < (k :: int)"
  by (smt (verit) mult_less_cancel_left_pos mult_div_mod_eq pos_mod_sign)

lemma grid_coordinates:
  assumes "0 \<le> x" "x < (n :: int)"
  shows "(x + y * n) mod n = x" "(x + y * n) div n = y"
  using assms by auto

lemma block_bound:
  assumes "0 \<le> a" "a < p" "0 \<le> X" "X < s"
  shows "a + X * p < s * (p :: int)" "0 \<le> a + X * p"
proof -
  have "a + X * p < (X + 1) * p" using assms by (simp add: distrib_right)
  also have "\<dots> \<le> s * p" using assms by (intro mult_right_mono) auto
  finally show "a + X * p < s * p" .
  show "0 \<le> a + X * p" using assms by simp
qed

text \<open>A well-formed map, with the blocks of clients that one server serves.\<close>

definition px :: "map_state \<Rightarrow> int" where
  "px m = client_x_num m div server_x_num m"

definition py :: "map_state \<Rightarrow> int" where
  "py m = client_y_num m div server_y_num m"

lemma map_inv_blocks:
  assumes "map_inv m"
  shows "client_x_num m = server_x_num m * px m" "client_y_num m = server_y_num m * py m"
    "0 < px m" "0 < py m" "0 < server_amount m" "client_amount m div server_amount m = px m * py m"
proof -
  show x: "client_x_num m = server_x_num m * px m" and y: "client_y_num m = server_y_num m * py m"
    using assms by (simp_all add: px_def py_def map_inv_def)
  show p: "0 < px m" and q: "0 < py m"
    using assms x y by (auto simp: map_inv_def zero_less_mult_iff)
  show "0 < server_amount m" using assms by (simp add: map_inv_def)
  have "client_amount m = (px m * py m) * server_amount m"
    using assms x y by (simp add: map_inv_def mult.assoc mult.left_commute)
  then show "client_amount m div server_amount m = px m * py m"
    using assms by (simp add: map_inv_def)
qed

text \<open>The client at place \<open>i\<close> of the block of the server with index \<open>k\<close>.\<close>

definition client_at :: "map_state \<Rightarrow> int \<Rightarrow> int \<Rightarrow> int" where
  "client_at m k i =
     (i mod px m + k mod server_x_num m * px m) +
     (i div px m + k div server_x_num m * py m) * client_x_num m"

lemma is_server:
  "cfio_map_proc_type m s = Some CFIO_MAP_TYPE_SERVER \<longleftrightarrow>
     0 \<le> s \<and> client_amount m \<le> s \<and> s < client_amount m + server_amount m"
  by (auto simp: cfio_map_proc_type_def)

lemma those_map_Some: "those (map (\<lambda>i. Some (f i)) xs) = Some (map f xs)"
  by (induction xs) auto

lemma map_inv_amount_nonneg: "map_inv m \<Longrightarrow> 0 < client_amount m"
  by (simp add: map_inv_def)

lemma get_clients_eq:
  assumes "map_inv m" "client_amount m \<le> s" "s < client_amount m + server_amount m"
  shows "cfio_map_get_clients m s =
    Some (map (client_at m (s - client_amount m)) [0..px m * py m - 1])"
proof -
  note b = map_inv_blocks [OF assms(1)]
  have srv: "cfio_map_proc_type m s = Some CFIO_MAP_TYPE_SERVER"
    using assms map_inv_amount_nonneg [OF assms(1)] by (simp add: is_server)
  have pos: "0 < server_x_num m" "0 < server_y_num m" "0 < client_x_num m" "0 < client_y_num m"
    "0 < client_amount m"
    using assms(1) by (simp_all add: map_inv_def)
  have "those (map (\<lambda>i. Option.bind (cmod i (px m)) (\<lambda>x. Option.bind (cdiv i (px m)) (\<lambda>y.
          Some (x + (s - client_amount m) mod server_x_num m * px m +
            (y + (s - client_amount m) div server_x_num m * py m) * client_x_num m))))
        [0..px m * py m - 1])
      = those (map (\<lambda>i. Some (client_at m (s - client_amount m) i)) [0..px m * py m - 1])"
    using b(3) by (intro arg_cong [where f = those] map_cong) (auto simp: client_at_def)
  with srv pos b(3-6) assms(2) show ?thesis
    by (simp add: cfio_map_get_clients_def cfio_map_get_server_index_def Let_def
        cfio_map_get_client_num_of_server_def px_def [symmetric] py_def [symmetric] those_map_Some)
qed

lemma client_at_coordinates:
  assumes "map_inv m" "0 \<le> k" "k < server_amount m" "0 \<le> i" "i < px m * py m"
  shows "client_at m k i mod client_x_num m = i mod px m + k mod server_x_num m * px m"
    and "client_at m k i div client_x_num m = i div px m + k div server_x_num m * py m"
    and "0 \<le> client_at m k i" "client_at m k i < client_amount m"
proof -
  note b = map_inv_blocks [OF assms(1)]
  have sp: "0 < server_x_num m" "0 < server_y_num m" and
    ca: "client_amount m = client_x_num m * client_y_num m"
    and sa: "server_amount m = server_x_num m * server_y_num m"
    using assms(1) by (simp_all add: map_inv_def)
  have X: "0 \<le> k mod server_x_num m" "k mod server_x_num m < server_x_num m" using sp by simp_all
  have Y: "0 \<le> k div server_x_num m" "k div server_x_num m < server_y_num m"
    using sp assms(2,3) sa by (simp_all add: pos_imp_zdiv_nonneg_iff div_less_bound)
  have xi: "0 \<le> i mod px m" "i mod px m < px m" using b(3) by simp_all
  have yi: "0 \<le> i div px m" "i div px m < py m"
    using b(3) assms(4,5) by (simp_all add: pos_imp_zdiv_nonneg_iff div_less_bound)
  have x: "0 \<le> i mod px m + k mod server_x_num m * px m"
    "i mod px m + k mod server_x_num m * px m < client_x_num m"
    using block_bound [OF xi X] b(1) by simp_all
  have y: "0 \<le> i div px m + k div server_x_num m * py m"
    "i div px m + k div server_x_num m * py m < client_y_num m"
    using block_bound [OF yi Y] b(2) by simp_all
  show "client_at m k i mod client_x_num m = i mod px m + k mod server_x_num m * px m"
    "client_at m k i div client_x_num m = i div px m + k div server_x_num m * py m"
    unfolding client_at_def using grid_coordinates [OF x] by auto
  show "0 \<le> client_at m k i" "client_at m k i < client_amount m"
    using block_bound [OF x y] unfolding client_at_def ca by (simp_all add: mult.commute)
qed

lemma client_at_server:
  assumes "map_inv m" "0 \<le> k" "k < server_amount m" "0 \<le> i" "i < px m * py m"
  shows "cfio_map_get_server_of_client m (client_at m k i) = Some (client_amount m + k)"
    and "cfio_map_get_client_index_of_server m (client_at m k i) = Some i"
proof -
  note b = map_inv_blocks [OF assms(1)]
  note c = client_at_coordinates [OF assms]
  have sp: "0 < server_x_num m" "0 < server_y_num m" "0 < client_x_num m" "0 < client_y_num m"
    using assms(1) by (simp_all add: map_inv_def)
  have i: "0 \<le> i mod px m" "i mod px m < px m" "0 \<le> i div px m" "i div px m < py m"
    using b(3) assms(4,5) by (simp_all add: pos_imp_zdiv_nonneg_iff div_less_bound)
  have k: "0 \<le> k mod server_x_num m" "0 \<le> k div server_x_num m"
    using assms(2) sp by (simp_all add: pos_imp_zdiv_nonneg_iff)
  have nn: "0 \<le> i mod px m + k mod server_x_num m * px m" "0 \<le> i div px m + k div server_x_num m * py m"
    using i k b(3,4) by simp_all
  show "cfio_map_get_server_of_client m (client_at m k i) = Some (client_amount m + k)"
    using sp b(3,4) c nn grid_coordinates [OF i(1,2)] grid_coordinates [OF i(3,4)]
    by (simp add: cfio_map_get_server_of_client_def px_def [symmetric] py_def [symmetric])
  show "cfio_map_get_client_index_of_server m (client_at m k i) = Some i"
    using sp b(3,4) c nn grid_coordinates [OF i(1,2)] grid_coordinates [OF i(3,4)]
    by (simp add: cfio_map_get_client_index_of_server_def px_def [symmetric] py_def [symmetric])
qed

text \<open>Every client is at some place of the block of its server.\<close>

lemma client_has_place:
  assumes "map_inv m" "0 \<le> c" "c < client_amount m"
  shows "\<exists>k i. 0 \<le> k \<and> k < server_amount m \<and> 0 \<le> i \<and> i < px m * py m \<and> c = client_at m k i"
proof -
  note b = map_inv_blocks [OF assms(1)]
  have sp: "0 < server_x_num m" "0 < server_y_num m" "0 < client_x_num m" "0 < client_y_num m"
    and sa: "server_amount m = server_x_num m * server_y_num m"
    and ca: "client_amount m = client_x_num m * client_y_num m"
    using assms(1) by (simp_all add: map_inv_def)
  define x y where "x = c mod client_x_num m" and "y = c div client_x_num m"
  have xy: "0 \<le> x" "x < client_x_num m" "0 \<le> y" "y < client_y_num m"
    using assms sp ca by (simp_all add: x_def y_def pos_imp_zdiv_nonneg_iff div_less_bound)
  define X Y a d where "X = x div px m" and "Y = y div py m" and "a = x mod px m" and "d = y mod py m"
  have XY: "0 \<le> X" "X < server_x_num m" "0 \<le> Y" "Y < server_y_num m"
    using xy b(1-4) by (simp_all add: X_def Y_def pos_imp_zdiv_nonneg_iff div_less_bound mult.commute)
  have ad: "0 \<le> a" "a < px m" "0 \<le> d" "d < py m" using b(3,4) by (simp_all add: a_def d_def)
  have k: "0 \<le> X + Y * server_x_num m" "X + Y * server_x_num m < server_amount m"
    using block_bound [OF XY] sa by (simp_all add: mult.commute)
  have i: "0 \<le> a + d * px m" "a + d * px m < px m * py m"
    using block_bound [OF ad] by (simp_all add: mult.commute)
  have x: "a + X * px m = x" and y: "d + Y * py m = y"
    by (simp_all add: a_def X_def d_def Y_def)
  have "client_at m (X + Y * server_x_num m) (a + d * px m)
      = (a + X * px m) + (d + Y * py m) * client_x_num m"
    unfolding client_at_def using grid_coordinates [OF XY(1,2)] grid_coordinates [OF ad(1,2)] by simp
  also have "\<dots> = c" unfolding x y by (simp add: x_def y_def)
  finally show ?thesis using k i by metis
qed

text \<open>The clients of a server, in the order of their index, and nobody else's.\<close>

lemma get_clients_partition:
  assumes "map_inv m" "client_amount m \<le> s" "s < client_amount m + server_amount m"
  obtains cs where "cfio_map_get_clients m s = Some cs"
    and "cfio_map_get_client_num_of_server m s = Some (int (length cs))"
    and "distinct cs"
    and "set cs = {c \<in> {0..<client_amount m}. cfio_map_get_server_of_client m c = Some s}"
    and "\<forall>i < length cs. cfio_map_get_client_index_of_server m (cs ! i) = Some (int i)"
proof -
  define k where "k = s - client_amount m"
  define cs where "cs = map (client_at m k) [0..px m * py m - 1]"
  note b = map_inv_blocks [OF assms(1)]
  have k: "0 \<le> k" "k < server_amount m" "client_amount m + k = s" using assms by (auto simp: k_def)
  note sv = client_at_server [OF assms(1) k(1,2)] and co = client_at_coordinates [OF assms(1) k(1,2)]
  have len: "int (length cs) = px m * py m" using b(3,4) by (simp add: cs_def)
  have "inj_on (client_at m k) {0..px m * py m - 1}"
  proof (rule inj_onI)
    fix i j assume "i \<in> {0..px m * py m - 1}" "j \<in> {0..px m * py m - 1}"
      and eq: "client_at m k i = client_at m k j"
    then have "cfio_map_get_client_index_of_server m (client_at m k j) = Some i"
      "cfio_map_get_client_index_of_server m (client_at m k j) = Some j"
      using sv(2) [of i] sv(2) [of j] by (simp_all only: atLeastAtMost_iff eq zle_diff1_eq)
    then show "i = j" by simp
  qed
  then have dist: "distinct cs" by (simp add: cs_def distinct_map)
  have "c \<in> set cs" if "0 \<le> c" "c < client_amount m" "cfio_map_get_server_of_client m c = Some s" for c
  proof -
    from client_has_place [OF assms(1) that(1,2)] obtain k' i where
      p: "0 \<le> k'" "k' < server_amount m" "0 \<le> i" "i < px m * py m" "c = client_at m k' i" by blast
    with client_at_server(1) [OF assms(1) p(1-4)] that(3) k(3) have "k' = k" by simp
    with p show ?thesis by (simp add: cs_def)
  qed
  then have set: "set cs = {c \<in> {0..<client_amount m}. cfio_map_get_server_of_client m c = Some s}"
  proof (intro set_eqI iffI)
    fix c assume "c \<in> set cs"
    then obtain i where "c = client_at m k i" "0 \<le> i" "i < px m * py m" by (auto simp: cs_def)
    then show "c \<in> {c \<in> {0..<client_amount m}. cfio_map_get_server_of_client m c = Some s}"
      using sv(1) [of i] co(3,4) [of i] k(3) by simp
  qed simp
  have idx: "\<forall>i < length cs. cfio_map_get_client_index_of_server m (cs ! i) = Some (int i)"
  proof (intro allI impI)
    fix i assume "i < length cs"
    then have "cs ! i = client_at m k (int i)" "int i < px m * py m"
      using len by (simp_all add: cs_def nth_upto)
    then show "cfio_map_get_client_index_of_server m (cs ! i) = Some (int i)" using sv(2) by simp
  qed
  have num: "cfio_map_get_client_num_of_server m s = Some (int (length cs))"
    using assms map_inv_amount_nonneg [OF assms(1)] b(5,6) len
    by (simp add: cfio_map_get_client_num_of_server_def is_server)
  from get_clients_eq [OF assms] have "cfio_map_get_clients m s = Some cs"
    by (simp add: cs_def k_def)
  with num dist set idx show ?thesis using that by blast
qed

section \<open>Properties\<close>

lemma map_init_result:
  assumes "0 < cx" "0 < cy" "0 < best" "2 * best \<le> 5 * (cx * cy)"
  shows "\<exists>ret m'. cfio_map_init cx cy samount best c sc m = Some (ret, m') \<and>
    (if grid_exists cx cy best \<and> best \<le> samount
     then ret = CFIO_ERROR_NONE \<and> map_inv m' \<and> server_amount m' = best \<and>
       client_x_num m' = cx \<and> client_y_num m' = cy
     else ret = CFIO_ERROR_INVALID_INIT_ARG)"
proof -
  let ?m = "m\<lparr>client_x_num := cx, client_y_num := cy, client_amount := cx * cy,
                  comm := c, server_comm := sc, server_amount := samount\<rparr>"
  have "0 < client_x_num ?m" "0 < client_y_num ?m" "2 * best \<le> 5 * client_amount ?m"
    using assms by simp_all
  note cases = gen_server_cases [OF this(1,2) assms(3) this(3)]
  show ?thesis
  proof (cases "grid_exists cx cy best")
    case True
    with cases obtain sx sy where g: "0 < sx" "0 < sy" "sx dvd cx" "sy dvd cy" "sx * sy = best"
      and ret: "gen_server_x_and_y best ?m =
         (if samount < best then Some (CFIO_ERROR_INVALID_INIT_ARG, ?m)
          else Some (CFIO_ERROR_NONE,
            ?m\<lparr>server_amount := best, server_x_num := sx, server_y_num := sy\<rparr>))"
      by auto
    with True assms show ?thesis
      by (cases "samount < best") (simp_all add: cfio_map_init_def error_codes map_inv_def)
  next
    case False
    with cases assms show ?thesis by (auto simp: cfio_map_init_def error_codes)
  qed
qed



text \<open>C18. In a well-formed map the lists of \<open>cfio_map_get_clients\<close> partition the clients:
  a server gets each client whose \<open>cfio_map_get_server_of_client\<close> it is exactly once, as
  many as \<open>cfio_map_get_client_num_of_server\<close> says, each at the place that
  \<open>cfio_map_get_client_index_of_server\<close> computes.\<close>

theorem clients_partition:
  assumes "map_inv m" "client_amount m \<le> s" "s < client_amount m + server_amount m"
  shows "\<exists>cs. cfio_map_get_clients m s = Some cs \<and>
    cfio_map_get_client_num_of_server m s = Some (int (length cs)) \<and> distinct cs \<and>
    set cs = {c \<in> {0..<client_amount m}. cfio_map_get_server_of_client m c = Some s} \<and>
    (\<forall>i < length cs. cfio_map_get_client_index_of_server m (cs ! i) = Some (int i))"
  by (rule get_clients_partition [OF assms]) blast

definition map_4_6 :: map_state where
  "map_4_6 =
     \<lparr>client_amount = 24, client_x_num = 4, client_y_num = 6, comm = 0, server_amount = 6,
      server_x_num = 2, server_y_num = 3, server_comm = 0\<rparr>"

lemma map_4_6_inv: "map_inv map_4_6"
  by (simp add: map_inv_def map_4_6_def)

theorem clients_partition_witness:
  "\<exists>cs. cfio_map_get_clients map_4_6 25 = Some cs \<and>
    cfio_map_get_client_num_of_server map_4_6 25 = Some (int (length cs)) \<and> distinct cs \<and>
    set cs = {c \<in> {0..<client_amount map_4_6}.
      cfio_map_get_server_of_client map_4_6 c = Some 25} \<and>
    (\<forall>i < length cs. cfio_map_get_client_index_of_server map_4_6 (cs ! i) = Some (int i))"
  by (rule clients_partition) (simp_all add: map_4_6_inv, simp_all add: map_4_6_def)

end
