(* ===== verification/Rdma.thy ===== *)
theory Rdma
  imports Addr Procmap
begin

text \<open>
  The RDMA transport of a server (\<open>rdma_server.c\<close>): one connection for each client, the work
  requests it posts and the handling of their completions. The verbs library is outside the
  repository. What it takes, the work requests, is the list \<open>posted\<close>; what it gives, the
  completions and the bytes that have landed in memory by then, is the list \<open>cq\<close> of the events
  still to come, each with the completions that polling finds after it. Connections are numbered
  in the order in which they are built, which is their place in \<open>rdma_conns\<close>; that number stands
  for the pointer to the connection.
\<close>

section \<open>Messages and connections\<close>

record ibv_mr =
  mr_addr :: int
  mr_key :: nat

datatype rdma_msg_type = MSG_MR | MSG_DONE | MSG_ADDR | MSG_ACK

record rdma_msg =
  m_type :: rdma_msg_type
  m_rank :: int
  m_data_mr :: ibv_mr
  m_addr_mr :: ibv_mr
  m_addr :: cfio_buf_addr

datatype send_phase = SS_INIT | SS_MR_SENT | SS_RDMA_SENDING | SS_FINAL | SS_DONE_SENT
datatype recv_phase = RS_INIT | RS_MR_RECV | RS_RDMA_RECVING | RS_FINAL | RS_DONE_RECV

text \<open>\<open>conn->send_state ++\<close>; past the last value the variable leaves its enumeration.\<close>

primrec next_send :: "send_phase \<Rightarrow> send_phase option" where
  "next_send SS_INIT = Some SS_MR_SENT"
| "next_send SS_MR_SENT = Some SS_RDMA_SENDING"
| "next_send SS_RDMA_SENDING = Some SS_FINAL"
| "next_send SS_FINAL = Some SS_DONE_SENT"
| "next_send SS_DONE_SENT = None"

primrec next_recv :: "recv_phase \<Rightarrow> recv_phase option" where
  "next_recv RS_INIT = Some RS_MR_RECV"
| "next_recv RS_MR_RECV = Some RS_RDMA_RECVING"
| "next_recv RS_RDMA_RECVING = Some RS_FINAL"
| "next_recv RS_FINAL = Some RS_DONE_RECV"
| "next_recv RS_DONE_RECV = None"

text \<open>\<open>None\<close> in a field is memory that has not been written yet.\<close>

record rdma_conn =
  connected :: bool
  conn_rank :: "int option"
  data_mr :: ibv_mr
  addr_mr :: ibv_mr
  peer_data_mr :: "ibv_mr option"
  peer_addr_mr :: "ibv_mr option"
  recv_msg :: "rdma_msg option"
  region :: nat
  send_state :: send_phase
  recv_state :: recv_phase

text \<open>The work requests: a read of the peer's memory into the data region, a write of a part of the
  data region or of the address record into the peer's memory, a send of a message and a buffer
  for a message to come.\<close>

datatype work_request =
    WR_READ (wr_conn: nat) int int int
  | WR_WRITE_DATA (wr_conn: nat) int int int
  | WR_WRITE (wr_conn: nat) int
  | WR_SEND (wr_conn: nat) rdma_msg
  | WR_RECV (wr_conn: nat)

datatype landing = Nothing | Bytes int "byte list" | Message rdma_msg

record wc =
  wr_id :: nat
  wc_recv :: bool
  wc_landed :: landing

record rdma_server =
  rdma_rank :: int
  client_amt :: int
  request_stack_size :: int
  previous_rss :: int
  previous_rss_changed :: bool
  rest_reqs :: "int list"
  rdma_conns :: "rdma_conn option list"
  ordered_conns :: "nat option list"
  ready_mr_cnt :: int
  established_cnt :: int
  disconn_cnt :: int
  data_regions :: "byte list list"
  addr_regions :: "cfio_buf_addr list"
  posted :: "work_request list"
  cq :: "wc list list"

definition MAX_CONCURRENT_REQS :: int where
  "MAX_CONCURRENT_REQS = 10"

text \<open>A connection through its pointer, and the connection of a client.\<close>

definition conn_at :: "nat \<Rightarrow> rdma_server \<Rightarrow> rdma_conn option" where
  "conn_at c s = (if c < length (rdma_conns s) then rdma_conns s ! c else None)"

definition set_conn :: "nat \<Rightarrow> rdma_conn \<Rightarrow> rdma_server \<Rightarrow> rdma_server" where
  "set_conn c x s = s\<lparr>rdma_conns := (rdma_conns s)[c := Some x]\<rparr>"

definition client_conn :: "nat \<Rightarrow> rdma_server \<Rightarrow> (nat \<times> rdma_conn) option" where
  "client_conn i s =
     (if i < length (ordered_conns s)
      then do { c \<leftarrow> ordered_conns s ! i; x \<leftarrow> conn_at c s; Some (c, x) } else None)"

section \<open>Posting\<close>

definition ibv_post :: "work_request \<Rightarrow> rdma_server \<Rightarrow> rdma_server" where
  "ibv_post wr s = s\<lparr>request_stack_size := request_stack_size s + 1, posted := posted s @ [wr]\<rparr>"

definition cfio_rdma_server_read_data ::
    "nat \<Rightarrow> int \<Rightarrow> int \<Rightarrow> int \<Rightarrow> rdma_server \<Rightarrow> rdma_server option" where
  "cfio_rdma_server_read_data client_index remote_offset len local_offset s =
     do {
       (c, x) \<leftarrow> client_conn client_index s;
       mr \<leftarrow> peer_data_mr x;
       if client_index < length (rest_reqs s)
       then Some (ibv_post (WR_READ c (mr_addr mr + remote_offset) len local_offset)
         (s\<lparr>rest_reqs := (rest_reqs s)[client_index := rest_reqs s ! client_index + 1]\<rparr>))
       else None
     }"

definition cfio_rdma_server_write_addr :: "nat \<Rightarrow> rdma_server \<Rightarrow> rdma_server option" where
  "cfio_rdma_server_write_addr client_index s =
     do {
       (c, x) \<leftarrow> client_conn client_index s;
       mr \<leftarrow> peer_addr_mr x;
       Some (ibv_post (WR_WRITE c (mr_addr mr)) s)
     }"

definition cfio_rdma_server_get_data :: "nat \<Rightarrow> rdma_server \<Rightarrow> byte list option" where
  "cfio_rdma_server_get_data client_index s =
     do {
       (c, x) \<leftarrow> client_conn client_index s;
       if region x < length (data_regions s) then Some (data_regions s ! region x) else None
     }"

definition cfio_rdma_server_get_addr :: "nat \<Rightarrow> rdma_server \<Rightarrow> cfio_buf_addr option" where
  "cfio_rdma_server_get_addr client_index s =
     do {
       (c, x) \<leftarrow> client_conn client_index s;
       if region x < length (addr_regions s) then Some (addr_regions s ! region x) else None
     }"

text \<open>Stores through the pointers that the two functions return.\<close>

definition put_data :: "nat \<Rightarrow> byte list \<Rightarrow> rdma_server \<Rightarrow> rdma_server option" where
  "put_data client_index d s =
     do {
       (c, x) \<leftarrow> client_conn client_index s;
       Some (s\<lparr>data_regions := (data_regions s)[region x := d]\<rparr>)
     }"

definition put_addr :: "nat \<Rightarrow> cfio_buf_addr \<Rightarrow> rdma_server \<Rightarrow> rdma_server option" where
  "put_addr client_index a s =
     do {
       (c, x) \<leftarrow> client_conn client_index s;
       Some (s\<lparr>addr_regions := (addr_regions s)[region x := a]\<rparr>)
     }"

definition cfio_rdma_server_test :: "nat \<Rightarrow> rdma_server \<Rightarrow> int option" where
  "cfio_rdma_server_test clt s =
     (if clt < length (rest_reqs s) then Some (if rest_reqs s ! clt \<noteq> 0 then 0 else 1) else None)"

text \<open>\<open>while (!conn->connected);\<close> does not return when the connection is not up.\<close>

definition send_message :: "nat \<Rightarrow> rdma_msg \<Rightarrow> rdma_server \<Rightarrow> rdma_server option" where
  "send_message c msg s =
     do {
       x \<leftarrow> conn_at c s;
       if connected x then Some (ibv_post (WR_SEND c msg) s) else None
     }"

definition post_receives :: "nat \<Rightarrow> rdma_server \<Rightarrow> rdma_server" where
  "post_receives c s = ibv_post (WR_RECV c) s"

text \<open>The exchange of address records by messages instead of writes into the peer's memory. The
  message still holds the regions that \<open>send_mr\<close> put there.\<close>

definition cfio_rdma_server_send_ack :: "nat \<Rightarrow> rdma_server \<Rightarrow> rdma_server option" where
  "cfio_rdma_server_send_ack client_index s =
     do {
       (c, x) \<leftarrow> client_conn client_index s;
       a \<leftarrow> cfio_rdma_server_get_addr client_index s;
       send_message c \<lparr>m_type = MSG_ACK, m_rank = rdma_rank s, m_data_mr = data_mr x,
         m_addr_mr = addr_mr x, m_addr = a\<rparr> s
     }"

definition cfio_rdma_server_recv_addr :: "nat \<Rightarrow> rdma_server \<Rightarrow> rdma_server option" where
  "cfio_rdma_server_recv_addr client_index s =
     do { (c, x) \<leftarrow> client_conn client_index s; Some (post_receives c s) }"

section \<open>Completions\<close>

text \<open>The first client whose connection this is and that waits for requests has one less.\<close>

fun drop_request :: "nat \<Rightarrow> nat option list \<Rightarrow> int list \<Rightarrow> int list" where
  "drop_request c (k # ks) (n # ns) =
     (if k = Some c \<and> n > 0 then (n - 1) # ns else n # drop_request c ks ns)"
| "drop_request c ks ns = ns"

text \<open>What the library has done to the memory when it reports a completion.\<close>

definition land :: "wc \<Rightarrow> rdma_server \<Rightarrow> rdma_server option" where
  "land w s =
     do {
       x \<leftarrow> conn_at (wr_id w) s;
       case wc_landed w of
         Nothing \<Rightarrow> Some s
       | Bytes off d \<Rightarrow>
           (if 0 \<le> off \<and> region x < length (data_regions s) then do {
              r \<leftarrow> mem_write (data_regions s ! region x) (nat off) d;
              Some (s\<lparr>data_regions := (data_regions s)[region x := r]\<rparr>)
            } else None)
       | Message msg \<Rightarrow> Some (set_conn (wr_id w) (x\<lparr>recv_msg := Some msg\<rparr>) s)
     }"

text \<open>The effect of a completion on the state of a connection.\<close>

definition conn_completed :: "bool \<Rightarrow> rdma_conn \<Rightarrow> rdma_conn option" where
  "conn_completed recv x =
     (if recv then do {
        p \<leftarrow> (if RS_RDMA_RECVING \<noteq> recv_state x then next_recv (recv_state x) else Some (recv_state x));
        msg \<leftarrow> recv_msg x;
        let x = x\<lparr>recv_state := p\<rparr>;
        Some (if MSG_MR = m_type msg
              then x\<lparr>conn_rank := Some (m_rank msg), peer_data_mr := Some (m_data_mr msg),
                     peer_addr_mr := Some (m_addr_mr msg)\<rparr>
              else x)
      }
      else do {
        p \<leftarrow> (if SS_RDMA_SENDING \<noteq> send_state x then next_send (send_state x) else Some (send_state x));
        Some (x\<lparr>send_state := p\<rparr>)
      })"

text \<open>The last branch of the code asks the library to end the connection when both sides are done;
  it changes nothing here.\<close>

definition on_completion :: "map_state \<Rightarrow> wc \<Rightarrow> rdma_server \<Rightarrow> rdma_server option" where
  "on_completion m w s =
     do {
       let c = wr_id w;
       let s = s\<lparr>rest_reqs := drop_request c (ordered_conns s) (rest_reqs s)\<rparr>;
       x \<leftarrow> conn_at c s;
       x \<leftarrow> conn_completed (wc_recv w) x;
       let s = set_conn c x s;
       s \<leftarrow> (if wc_recv w then do {
              msg \<leftarrow> recv_msg x;
              case m_type msg of
                MSG_MR \<Rightarrow> do {
                  i \<leftarrow> cfio_map_get_client_index_of_server m (m_rank msg);
                  if 0 \<le> i \<and> i < int (length (ordered_conns s))
                  then Some (s\<lparr>ordered_conns := (ordered_conns s)[nat i := Some c]\<rparr>) else None
                }
              | MSG_ADDR \<Rightarrow> Some (s\<lparr>addr_regions := (addr_regions s)[region x := m_addr msg]\<rparr>)
              | _ \<Rightarrow> Some s
            } else Some s);
       let s = (if RS_MR_RECV = recv_state x \<and> SS_MR_SENT = send_state x
                then s\<lparr>ready_mr_cnt := ready_mr_cnt s + 1\<rparr> else s);
       Some (s\<lparr>request_stack_size := request_stack_size s - 1\<rparr>)
     }"

fun completions :: "map_state \<Rightarrow> wc list \<Rightarrow> rdma_server \<Rightarrow> rdma_server option" where
  "completions m [] s = Some s"
| "completions m (w # ws) s =
     do { s \<leftarrow> land w s; s \<leftarrow> on_completion m w s; completions m ws s }"

text \<open>\<open>ibv_get_cq_event\<close> blocks until an event arrives: with no event to come it never returns.\<close>

definition poll_cq_one_time :: "map_state \<Rightarrow> rdma_server \<Rightarrow> rdma_server option" where
  "poll_cq_one_time m s =
     (case cq s of [] \<Rightarrow> None | ws # rest \<Rightarrow> completions m ws (s\<lparr>cq := rest\<rparr>))"

text \<open>A loop that polls while the number of open requests is as \<open>go\<close> says, over the events to
  come.\<close>

fun poll_while :: "map_state \<Rightarrow> (int \<Rightarrow> bool) \<Rightarrow> wc list list \<Rightarrow> rdma_server \<Rightarrow> rdma_server option" where
  "poll_while m go evs s =
     (if \<not> go (request_stack_size s) then Some s
      else case evs of
          [] \<Rightarrow> None
        | ev # rest \<Rightarrow> do { s \<leftarrow> poll_cq_one_time m s; poll_while m go rest s })"

declare poll_while.simps [simp del]

definition cfio_rdma_server_wait_all :: "map_state \<Rightarrow> rdma_server \<Rightarrow> rdma_server option" where
  "cfio_rdma_server_wait_all m s = poll_while m (\<lambda>n. n \<noteq> 0) (cq s) s"

definition cfio_rdma_server_wait_some :: "map_state \<Rightarrow> rdma_server \<Rightarrow> (int \<times> rdma_server) option" where
  "cfio_rdma_server_wait_some m s =
     do {
       let before_rss = request_stack_size s;
       s \<leftarrow> (if request_stack_size s > MAX_CONCURRENT_REQS
             then poll_while m (\<lambda>n. n > MAX_CONCURRENT_REQS div 2) (cq s) s else Some s);
       if before_rss \<noteq> request_stack_size s
       then Some (before_rss - request_stack_size s,
         s\<lparr>previous_rss := request_stack_size s, previous_rss_changed := True\<rparr>)
       else if \<not> previous_rss_changed s \<and> previous_rss s = request_stack_size s
       then do {
         s \<leftarrow> cfio_rdma_server_wait_all m s;
         Some (0, s\<lparr>previous_rss := 0, previous_rss_changed := True\<rparr>)
       }
       else Some (0, s\<lparr>previous_rss := request_stack_size s, previous_rss_changed := False\<rparr>)
     }"

definition cfio_rdma_server_wait_one :: "map_state \<Rightarrow> rdma_server \<Rightarrow> rdma_server option" where
  "cfio_rdma_server_wait_one m s =
     (if request_stack_size s > 0 then poll_cq_one_time m s else Some s)"

section \<open>Connections\<close>

text \<open>The events of the connection manager: a request brings the memory regions that the library
  registers for it and the text that \<open>sprintf\<close> leaves in its data region.\<close>

datatype cm_event =
    CONNECT_REQUEST ibv_mr ibv_mr "byte list"
  | ESTABLISHED nat
  | DISCONNECTED nat
  | UNKNOWN_EVENT

text \<open>\<open>register_memory\<close> takes the regions number \<open>conn_cnt - 1\<close>, counted after the connection has
  been entered.\<close>

definition new_conn :: "ibv_mr \<Rightarrow> ibv_mr \<Rightarrow> nat \<Rightarrow> rdma_conn" where
  "new_conn dmr amr conn_cnt =
     \<lparr>connected = False, conn_rank = None, data_mr = dmr, addr_mr = amr, peer_data_mr = None,
      peer_addr_mr = None, recv_msg = None, region = conn_cnt - 1, send_state = SS_INIT,
      recv_state = RS_INIT\<rparr>"

definition build_connection :: "map_state \<Rightarrow> ibv_mr \<Rightarrow> ibv_mr \<Rightarrow> rdma_server \<Rightarrow> rdma_server option" where
  "build_connection m dmr amr s =
     (let c = length (rdma_conns s)
      in if int c < client_amt s then do {
           let s = s\<lparr>rdma_conns := rdma_conns s @ [Some (new_conn dmr amr (c + 1))]\<rparr>;
           (r, s) \<leftarrow> cfio_rdma_server_wait_some m (post_receives c s);
           Some s
         } else None)"

definition server_on_connect_request ::
    "map_state \<Rightarrow> ibv_mr \<Rightarrow> ibv_mr \<Rightarrow> byte list \<Rightarrow> rdma_server \<Rightarrow> (int \<times> rdma_server) option" where
  "server_on_connect_request m dmr amr greeting s =
     do {
       let c = length (rdma_conns s);
       s \<leftarrow> build_connection m dmr amr s;
       x \<leftarrow> conn_at c s;
       r \<leftarrow> (if region x < length (data_regions s) then mem_write (data_regions s ! region x) 0 greeting else None);
       Some (0, s\<lparr>data_regions := (data_regions s)[region x := r]\<rparr>)
     }"

definition send_mr :: "map_state \<Rightarrow> cfio_buf_addr \<Rightarrow> nat \<Rightarrow> rdma_server \<Rightarrow> rdma_server option" where
  "send_mr m junk c s =
     do {
       x \<leftarrow> conn_at c s;
       s \<leftarrow> send_message c \<lparr>m_type = MSG_MR, m_rank = rdma_rank s, m_data_mr = data_mr x,
              m_addr_mr = addr_mr x, m_addr = junk\<rparr> s;
       (r, s) \<leftarrow> cfio_rdma_server_wait_some m s;
       Some s
     }"

definition server_on_connection ::
    "map_state \<Rightarrow> cfio_buf_addr \<Rightarrow> nat \<Rightarrow> rdma_server \<Rightarrow> (int \<times> rdma_server) option" where
  "server_on_connection m junk c s =
     do {
       x \<leftarrow> conn_at c s;
       s \<leftarrow> send_mr m junk c (set_conn c (x\<lparr>connected := True\<rparr>) s);
       let s = s\<lparr>established_cnt := established_cnt s + 1\<rparr>;
       Some (if client_amt s = established_cnt s then 1 else 0, s)
     }"

text \<open>\<open>destroy_connection\<close> frees the connection.\<close>

definition server_on_disconnect :: "nat \<Rightarrow> rdma_server \<Rightarrow> (int \<times> rdma_server) option" where
  "server_on_disconnect c s =
     do {
       x \<leftarrow> conn_at c s;
       let s = s\<lparr>rdma_conns := (rdma_conns s)[c := None], disconn_cnt := disconn_cnt s + 1\<rparr>;
       Some (if disconn_cnt s = client_amt s then 1 else 0, s)
     }"

text \<open>\<open>die\<close> ends the process.\<close>

definition server_on_event ::
    "map_state \<Rightarrow> cfio_buf_addr \<Rightarrow> cm_event \<Rightarrow> rdma_server \<Rightarrow> (int \<times> rdma_server) option" where
  "server_on_event m junk ev s =
     (case ev of
        CONNECT_REQUEST dmr amr greeting \<Rightarrow> server_on_connect_request m dmr amr greeting s
      | ESTABLISHED c \<Rightarrow> server_on_connection m junk c s
      | DISCONNECTED c \<Rightarrow> server_on_disconnect c s
      | UNKNOWN_EVENT \<Rightarrow> None)"

text \<open>The loop ends when a handler says so, or when the library has no event to give: then
  \<open>rdma_get_cm_event\<close> has failed.\<close>

fun wait_rdma_event ::
    "map_state \<Rightarrow> cfio_buf_addr \<Rightarrow> cm_event list \<Rightarrow> rdma_server \<Rightarrow> (cm_event list \<times> rdma_server) option" where
  "wait_rdma_event m junk [] s = Some ([], s)"
| "wait_rdma_event m junk (ev # evs) s =
     do {
       (r, s) \<leftarrow> server_on_event m junk ev s;
       if r \<noteq> 0 then Some (evs, s) else wait_rdma_event m junk evs s
     }"

text \<open>The result is \<open>None\<close> also where the last loop of the initialisation spins for ever: by then
  no request is open and nothing changes \<open>ready_mr_cnt\<close> any more.\<close>

definition cfio_rdma_server_init ::
    "map_state \<Rightarrow> cfio_buf_addr \<Rightarrow> int \<Rightarrow> nat \<Rightarrow> byte list list \<Rightarrow> cfio_buf_addr list \<Rightarrow> cm_event list \<Rightarrow>
     wc list list \<Rightarrow> rdma_server option" where
  "cfio_rdma_server_init m junk rank region_amt dregions aregions events completed =
     do {
       (rest, s) \<leftarrow> wait_rdma_event m junk events
         \<lparr>rdma_rank = rank, client_amt = int region_amt, request_stack_size = 0, previous_rss = 0,
          previous_rss_changed = True, rest_reqs = replicate region_amt 0, rdma_conns = [],
          ordered_conns = replicate region_amt None, ready_mr_cnt = 0, established_cnt = 0,
          disconn_cnt = 0, data_regions = dregions, addr_regions = aregions, posted = [], cq = completed\<rparr>;
       s \<leftarrow> cfio_rdma_server_wait_all m s;
       if client_amt s = ready_mr_cnt s then Some s else None
     }"

text \<open>\<open>rdma_disconnect\<close> asks the library to end each connection; the connections are freed when
  the events arrive.\<close>

definition cfio_rdma_server_final ::
    "map_state \<Rightarrow> cfio_buf_addr \<Rightarrow> cm_event list \<Rightarrow> rdma_server \<Rightarrow> rdma_server option" where
  "cfio_rdma_server_final m junk events s =
     do {
       s \<leftarrow> cfio_rdma_server_wait_all m s;
       if \<forall>i < nat (client_amt s). conn_at i s \<noteq> None then do {
         (rest, s) \<leftarrow> wait_rdma_event m junk events s;
         Some (s\<lparr>rdma_conns := [], ordered_conns := []\<rparr>)
       } else None
     }"


section \<open>The set-up of the connections\<close>

lemma conn_at_set_conn [simp]:
  "c < length (rdma_conns s) \<Longrightarrow> conn_at k (set_conn c x s) = (if k = c then Some x else conn_at k s)"
  by (auto simp: conn_at_def set_conn_def)

lemma conn_at_update [simp]:
  "conn_at c (s\<lparr>cq := v1\<rparr>) = conn_at c s" "conn_at c (s\<lparr>posted := v2\<rparr>) = conn_at c s"
  "conn_at c (s\<lparr>request_stack_size := v3\<rparr>) = conn_at c s" "conn_at c (s\<lparr>rest_reqs := v4\<rparr>) = conn_at c s"
  "conn_at c (s\<lparr>ready_mr_cnt := v3\<rparr>) = conn_at c s" "conn_at c (s\<lparr>ordered_conns := v5\<rparr>) = conn_at c s"
  "conn_at c (s\<lparr>data_regions := v6\<rparr>) = conn_at c s" "conn_at c (s\<lparr>addr_regions := v7\<rparr>) = conn_at c s"
  "conn_at c (s\<lparr>previous_rss := v3\<rparr>) = conn_at c s" "conn_at c (s\<lparr>previous_rss_changed := v8\<rparr>) = conn_at c s"
  by (simp_all add: conn_at_def)

lemma client_conn_update [simp]:
  "client_conn i (s\<lparr>data_regions := v6\<rparr>) = client_conn i s" "client_conn i (s\<lparr>addr_regions := v7\<rparr>) = client_conn i s"
  "client_conn i (s\<lparr>posted := v2\<rparr>) = client_conn i s" "client_conn i (s\<lparr>request_stack_size := v3\<rparr>) = client_conn i s"
  "client_conn i (s\<lparr>rest_reqs := v4\<rparr>) = client_conn i s" "client_conn i (s\<lparr>cq := v1\<rparr>) = client_conn i s"
  by (simp_all add: client_conn_def)

lemma conn_at_less: "conn_at c s = Some x \<Longrightarrow> c < length (rdma_conns s)"
  by (simp add: conn_at_def split: if_splits)

lemma set_conn_sel [simp]:
  "rdma_rank (set_conn c x s) = rdma_rank s" "client_amt (set_conn c x s) = client_amt s"
  "request_stack_size (set_conn c x s) = request_stack_size s" "previous_rss (set_conn c x s) = previous_rss s"
  "previous_rss_changed (set_conn c x s) = previous_rss_changed s" "rest_reqs (set_conn c x s) = rest_reqs s"
  "length (rdma_conns (set_conn c x s)) = length (rdma_conns s)"
  "ordered_conns (set_conn c x s) = ordered_conns s" "ready_mr_cnt (set_conn c x s) = ready_mr_cnt s"
  "established_cnt (set_conn c x s) = established_cnt s" "disconn_cnt (set_conn c x s) = disconn_cnt s"
  "data_regions (set_conn c x s) = data_regions s" "addr_regions (set_conn c x s) = addr_regions s"
  "posted (set_conn c x s) = posted s" "cq (set_conn c x s) = cq s"
  by (simp_all add: set_conn_def)

text \<open>A request to the pool of open requests while it is small: nothing is polled.\<close>

lemma wait_some_small:
  assumes "request_stack_size s \<le> 10" "previous_rss s < request_stack_size s"
  shows "cfio_rdma_server_wait_some m s =
    Some (0, s\<lparr>previous_rss := request_stack_size s, previous_rss_changed := False\<rparr>)"
  using assms by (simp add: cfio_rdma_server_wait_some_def MAX_CONCURRENT_REQS_def Let_def)

text \<open>
  \<open>setting_up n E s\<close>: some of the \<open>n\<close> clients have asked for a connection, and the connections
  in \<open>E\<close> are established; each has a buffer for the peer's message, each established one has
  sent its own.
\<close>

definition fresh_conn :: "nat \<Rightarrow> bool \<Rightarrow> rdma_conn \<Rightarrow> bool" where
  "fresh_conn c up x \<longleftrightarrow> connected x = up \<and> region x = c \<and> send_state x = SS_INIT \<and> recv_state x = RS_INIT"

definition setting_up :: "nat \<Rightarrow> nat \<Rightarrow> nat set \<Rightarrow> rdma_server \<Rightarrow> bool" where
  "setting_up n sz E s \<longleftrightarrow>
     client_amt s = int n \<and> length (rdma_conns s) \<le> n \<and> E \<subseteq> {..<length (rdma_conns s)} \<and>
     (\<forall>c < length (rdma_conns s). \<exists>x. conn_at c s = Some x \<and> fresh_conn c (c \<in> E) x) \<and>
     request_stack_size s = int (length (rdma_conns s) + card E) \<and>
     previous_rss s = request_stack_size s \<and> established_cnt s = int (card E) \<and> ready_mr_cnt s = 0 \<and>
     rest_reqs s = replicate n 0 \<and> ordered_conns s = replicate n None \<and>
     length (data_regions s) = n \<and> (\<forall>r \<in> set (data_regions s). length r = sz) \<and> length (addr_regions s) = n"

text \<open>The events of a set-up: each client asks once, each connection is established once, after
  it has been asked for.\<close>

fun cm_events :: "nat \<Rightarrow> nat \<Rightarrow> nat \<Rightarrow> nat set \<Rightarrow> cm_event list \<Rightarrow> bool" where
  "cm_events n sz k E [] \<longleftrightarrow> k = n \<and> E = {..<n}"
| "cm_events n sz k E (CONNECT_REQUEST dmr amr greeting # evs) \<longleftrightarrow>
     k < n \<and> length greeting \<le> sz \<and> cm_events n sz (k + 1) E evs"
| "cm_events n sz k E (ESTABLISHED c # evs) \<longleftrightarrow> c < k \<and> c \<notin> E \<and> cm_events n sz k (insert c E) evs"
| "cm_events n sz k E (ev # evs) \<longleftrightarrow> False"

lemma setting_up_request:
  assumes "setting_up n sz E s" "n \<le> 5" "length (rdma_conns s) < n" "length greeting \<le> sz"
  shows "\<exists>s'. server_on_connect_request m dmr amr greeting s = Some (0, s') \<and> setting_up n sz E s' \<and>
    length (rdma_conns s') = length (rdma_conns s) + 1 \<and> cq s' = cq s"
proof -
  let ?c = "length (rdma_conns s)" and ?x = "new_conn dmr amr (length (rdma_conns s) + 1)"
  let ?s1 = "ibv_post (WR_RECV ?c) (s\<lparr>rdma_conns := rdma_conns s @ [Some ?x]\<rparr>)"
  let ?s2 = "?s1\<lparr>previous_rss := request_stack_size ?s1, previous_rss_changed := False\<rparr>"
  have E: "finite E" "card E \<le> ?c" using assms(1) finite_subset [of E "{..<?c}"] card_mono [of "{..<?c}" E]
    by (auto simp: setting_up_def)
  have "cfio_rdma_server_wait_some m ?s1 = Some (0, ?s2)"
    using assms E by (intro wait_some_small) (simp_all add: setting_up_def ibv_post_def)
  then have b: "build_connection m dmr amr s = Some ?s2"
    using assms by (simp add: build_connection_def post_receives_def setting_up_def Let_def)
  have x: "conn_at ?c ?s2 = Some ?x" by (simp add: conn_at_def ibv_post_def)
  have r: "region ?x = ?c" by (simp add: new_conn_def)
  have sz: "length (data_regions s ! ?c) = sz" "?c < length (data_regions s)"
    using assms(1,3) by (simp_all add: setting_up_def)
  define d where "d = blit (data_regions s ! ?c) 0 greeting"
  let ?s3 = "?s2\<lparr>data_regions := (data_regions s)[?c := d]\<rparr>"
  have "mem_write (data_regions s ! ?c) 0 greeting = Some d" "length d = sz"
    using sz assms(4) by (simp_all add: mem_write_def d_def)
  then have "server_on_connect_request m dmr amr greeting s = Some (0, ?s3)"
    using b x r sz(2) by (simp add: server_on_connect_request_def ibv_post_def)
  moreover have "setting_up n sz E ?s3"
    unfolding setting_up_def
  proof (intro conjI allI impI)
    fix c assume c: "c < length (rdma_conns ?s3)"
    show "\<exists>x. conn_at c ?s3 = Some x \<and> fresh_conn c (c \<in> E) x"
    proof (cases "c = ?c")
      case True
      then have "c \<notin> E" using assms(1) by (auto simp: setting_up_def)
      then show ?thesis using True by (simp add: conn_at_def ibv_post_def fresh_conn_def new_conn_def)
    next
      case False
      with c have "c < ?c" by (simp add: ibv_post_def)
      then show ?thesis using assms(1) by (simp add: setting_up_def conn_at_def ibv_post_def nth_append)
    qed
  next
    show "\<forall>r \<in> set (data_regions ?s3). length r = sz"
      using assms(1) \<open>length d = sz\<close> by (auto simp: setting_up_def dest!: set_update_subset_insert [THEN subsetD])
  qed (use assms in \<open>auto simp: setting_up_def ibv_post_def\<close>)
  ultimately show ?thesis by (intro exI [of _ ?s3]) (simp add: ibv_post_def)
qed

lemma setting_up_established:
  assumes "setting_up n sz E s" "n \<le> 5" "c < length (rdma_conns s)" "c \<notin> E"
  shows "\<exists>s'. server_on_connection m junk c s = Some (if insert c E = {..<n} then 1 else 0, s') \<and>
    setting_up n sz (insert c E) s' \<and> length (rdma_conns s') = length (rdma_conns s) \<and> cq s' = cq s"
proof -
  let ?k = "length (rdma_conns s)"
  from assms(1,3,4) obtain x where x: "conn_at c s = Some x" "fresh_conn c False x"
    by (auto simp: setting_up_def)
  have E: "E \<subseteq> {..<?k}" "finite E" using assms(1) finite_subset [of E "{..<?k}"] by (auto simp: setting_up_def)
  have cE: "card (insert c E) = card E + 1" using E assms(4) by simp
  have "insert c E \<subseteq> {..<?k}" using E assms(3) by simp
  then have le: "card E + 1 \<le> ?k" using card_mono [of "{..<?k}" "insert c E"] cE by simp
  have all: "insert c E = {..<n} \<longleftrightarrow> int n = int (card E) + 1"
  proof
    assume "int n = int (card E) + 1"
    then have "card {..<n} = card (insert c E)" "insert c E \<subseteq> {..<n}"
      using cE \<open>insert c E \<subseteq> {..<?k}\<close> assms(1) by (auto simp: setting_up_def)
    then show "insert c E = {..<n}" by (metis card_subset_eq finite_lessThan)
  qed (use cE in \<open>metis card_lessThan of_nat_Suc Suc_eq_plus1 add.commute\<close>)
  let ?x = "x\<lparr>connected := True\<rparr>"
  let ?msg = "\<lparr>m_type = MSG_MR, m_rank = rdma_rank s, m_data_mr = data_mr x, m_addr_mr = addr_mr x, m_addr = junk\<rparr>"
  let ?s1 = "ibv_post (WR_SEND c ?msg) (set_conn c ?x s)"
  let ?s2 = "?s1\<lparr>previous_rss := request_stack_size ?s1, previous_rss_changed := False\<rparr>"
  let ?s3 = "?s2\<lparr>established_cnt := established_cnt s + 1\<rparr>"
  have "cfio_rdma_server_wait_some m ?s1 = Some (0, ?s2)"
    using assms le by (intro wait_some_small) (simp_all add: setting_up_def ibv_post_def)
  then have "server_on_connection m junk c s = Some (if client_amt s = established_cnt s + 1 then 1 else 0, ?s3)"
    using x assms(3) by (simp add: server_on_connection_def send_mr_def send_message_def ibv_post_def)
  moreover have "client_amt s = established_cnt s + 1 \<longleftrightarrow> insert c E = {..<n}"
    using assms(1) all by (auto simp: setting_up_def)
  moreover have "setting_up n sz (insert c E) ?s3"
    unfolding setting_up_def
  proof (intro conjI allI impI)
    fix k assume k: "k < length (rdma_conns ?s3)"
    have ck: "conn_at k ?s3 = conn_at k (set_conn c ?x s)" by (simp add: conn_at_def ibv_post_def)
    show "\<exists>y. conn_at k ?s3 = Some y \<and> fresh_conn k (k \<in> insert c E) y"
    proof (cases "k = c")
      case True
      then show ?thesis using x assms(3) unfolding ck by (simp add: fresh_conn_def)
    next
      case False
      then show ?thesis using assms(1,3) k unfolding ck by (simp add: setting_up_def ibv_post_def)
    qed
  qed (use assms E cE le in \<open>auto simp: setting_up_def ibv_post_def\<close>)
  ultimately show ?thesis by (intro exI [of _ ?s3]) (simp add: ibv_post_def)
qed

lemma cm_events_done: "cm_events n sz k {..<n} evs \<Longrightarrow> k = n \<Longrightarrow> evs = []"
  by (cases "(n, sz, k, {..<n}, evs)" rule: cm_events.cases) auto

lemma wait_rdma_event_set_up:
  assumes "cm_events n sz k E evs" "setting_up n sz E s" "length (rdma_conns s) = k" "n \<le> 5" "E \<noteq> {..<n}"
  shows "\<exists>s'. wait_rdma_event m junk (evs @ later) s = Some (later, s') \<and> setting_up n sz {..<n} s' \<and>
    length (rdma_conns s') = n \<and> cq s' = cq s"
  using assms
proof (induction n sz k E evs arbitrary: s rule: cm_events.induct)
  case (2 n sz k E dmr amr greeting evs)
  have k: "length (rdma_conns s) < n" "length greeting \<le> sz" using 2(2,4) by simp_all
  from setting_up_request [OF 2(3,5) k, of m dmr amr] 2(4) obtain s1 where
    "server_on_connect_request m dmr amr greeting s = Some (0, s1)" "setting_up n sz E s1"
    "length (rdma_conns s1) = k + 1" "cq s1 = cq s" by auto
  with 2 show ?case by (simp add: server_on_event_def) metis
next
  case (3 n sz k E c evs)
  have c: "c < length (rdma_conns s)" "c \<notin> E" using 3(2,4) by simp_all
  from setting_up_established [OF 3(3,5) c, of m junk] obtain s1 where
    s1: "server_on_connection m junk c s = Some (if insert c E = {..<n} then 1 else 0, s1)"
    "setting_up n sz (insert c E) s1" "length (rdma_conns s1) = k" "cq s1 = cq s" unfolding 3(4) by blast
  show ?case
  proof (cases "insert c E = {..<n}")
    case False
    with 3 s1 show ?thesis by (simp add: server_on_event_def) metis
  next
    case True
    have "k \<le> n" "{..<n} \<subseteq> {..<k}" using s1(2,3) unfolding True setting_up_def by simp_all
    then have "k = n" by simp
    then have "cm_events n sz n {..<n} evs" using 3(2) True by simp
    then have "evs = []" by (rule cm_events_done) simp
    with s1 True \<open>k = n\<close> show ?thesis by (simp add: server_on_event_def)
  qed
qed simp_all

section \<open>The exchange of the memory regions\<close>

text \<open>
  The completions of the set-up: connection \<open>c\<close> belongs to the client of rank \<open>rk c\<close>, which sends
  its memory regions; and the server's own message is sent. In any order, and in any batches.
\<close>

definition handshake_wc :: "(nat \<Rightarrow> int) \<Rightarrow> (nat \<Rightarrow> ibv_mr) \<Rightarrow> (nat \<Rightarrow> ibv_mr) \<Rightarrow> wc \<Rightarrow> bool" where
  "handshake_wc rk dmr amr w \<longleftrightarrow>
     (if wc_recv w
      then \<exists>a. wc_landed w = Message \<lparr>m_type = MSG_MR, m_rank = rk (wr_id w), m_data_mr = dmr (wr_id w),
        m_addr_mr = amr (wr_id w), m_addr = a\<rparr>
      else wc_landed w = Nothing)"

abbreviation wc_key :: "wc \<Rightarrow> nat \<times> bool" where
  "wc_key w \<equiv> (wr_id w, wc_recv w)"

definition exchanged :: "(nat \<times> bool) set \<Rightarrow> nat \<Rightarrow> bool" where
  "exchanged D c \<longleftrightarrow> (c, True) \<in> D \<and> (c, False) \<in> D"

definition exchange_conn ::
    "(nat \<Rightarrow> int) \<Rightarrow> (nat \<Rightarrow> ibv_mr) \<Rightarrow> (nat \<Rightarrow> ibv_mr) \<Rightarrow> (nat \<times> bool) set \<Rightarrow> nat \<Rightarrow> rdma_conn \<Rightarrow> bool" where
  "exchange_conn rk dmr amr D c x \<longleftrightarrow>
     region x = c \<and> send_state x = (if (c, False) \<in> D then SS_MR_SENT else SS_INIT) \<and>
     recv_state x = (if (c, True) \<in> D then RS_MR_RECV else RS_INIT) \<and>
     ((c, True) \<in> D \<longrightarrow> conn_rank x = Some (rk c) \<and> peer_data_mr x = Some (dmr c) \<and> peer_addr_mr x = Some (amr c))"

text \<open>\<open>exchanging D s\<close>: the requests in \<open>D\<close> have completed.\<close>

definition exchanging ::
    "nat \<Rightarrow> (nat \<Rightarrow> nat) \<Rightarrow> (nat \<Rightarrow> int) \<Rightarrow> (nat \<Rightarrow> ibv_mr) \<Rightarrow> (nat \<Rightarrow> ibv_mr) \<Rightarrow> (nat \<times> bool) set \<Rightarrow> rdma_server \<Rightarrow> bool" where
  "exchanging n slot rk dmr amr D s \<longleftrightarrow>
     client_amt s = int n \<and> length (rdma_conns s) = n \<and>
     (\<forall>c < n. \<exists>x. conn_at c s = Some x \<and> exchange_conn rk dmr amr D c x) \<and>
     request_stack_size s = int (2 * n) - int (card D) \<and>
     ready_mr_cnt s = int (card {c. c < n \<and> exchanged D c}) \<and>
     rest_reqs s = replicate n 0 \<and> length (ordered_conns s) = n \<and>
     (\<forall>c < n. (c, True) \<in> D \<longrightarrow> ordered_conns s ! slot c = Some c) \<and>
     length (data_regions s) = n \<and> length (addr_regions s) = n"

lemma drop_request_none: "drop_request c ks (replicate n 0) = replicate n 0"
proof (induction ks arbitrary: n)
  case (Cons k ks)
  then show ?case by (cases n) simp_all
qed simp

lemma card_insert_exchanged:
  assumes "c < n" "(c, b) \<notin> D"
  shows "card {k. k < n \<and> exchanged (insert (c, b) D) k} =
    card {k. k < n \<and> exchanged D k} + (if (c, \<not> b) \<in> D then 1 else 0)"
proof -
  have "{k. k < n \<and> exchanged (insert (c, b) D) k} =
      (if (c, \<not> b) \<in> D then insert c {k. k < n \<and> exchanged D k} else {k. k < n \<and> exchanged D k})"
    using assms by (cases b) (auto simp: exchanged_def)
  moreover have "c \<notin> {k. k < n \<and> exchanged D k}" using assms by (cases b) (auto simp: exchanged_def)
  ultimately show ?thesis by simp
qed

text \<open>The completion of a send, and that of a receive.\<close>

lemma exchange_sent:
  assumes ex: "exchanging n slot rk dmr amr D s" and D: "finite D" "wc_key w \<notin> D"
    and w: "handshake_wc rk dmr amr w" "wr_id w < n"
    and slot: "\<And>c. c < n \<Longrightarrow> slot c < n" "inj_on slot {..<n}"
    and m: "\<And>c. c < n \<Longrightarrow> cfio_map_get_client_index_of_server m (rk c) = Some (int (slot c))"
    and recv: "\<not> wc_recv w"
  shows "\<exists>s1 s2. land w s = Some s1 \<and> on_completion m w s1 = Some s2 \<and>
    exchanging n slot rk dmr amr (insert (wc_key w) D) s2 \<and> cq s2 = cq s"
proof -
  define c where "c = wr_id w"
  have c: "c < n" "c < length (rdma_conns s)" using w(2) ex by (simp_all add: c_def exchanging_def)
  from ex c(1) obtain x where x: "conn_at c s = Some x" "exchange_conn rk dmr amr D c x"
    by (auto simp: exchanging_def)
  have cD: "card (insert (c, b) D) = card D + 1" if "(c, b) \<notin> D" for b using D(1) that by simp
  have others: "exchange_conn rk dmr amr (insert (c, b) D) k y \<longleftrightarrow> exchange_conn rk dmr amr D k y"
    if "k \<noteq> c" for k b y using that by (simp add: exchange_conn_def)
  let ?x = "x\<lparr>send_state := SS_MR_SENT\<rparr>"
  have nD: "(c, False) \<notin> D" and key: "wc_key w = (c, False)" using D(2) recv by (simp_all add: c_def)
  have x': "exchange_conn rk dmr amr (insert (c, False) D) c ?x" "conn_completed False x = Some ?x"
    "RS_MR_RECV = recv_state ?x \<longleftrightarrow> (c, True) \<in> D"
    using x(2) nD by (auto simp: exchange_conn_def conn_completed_def)
  let ?s1 = "set_conn c ?x s"
  let ?s2 = "?s1\<lparr>ready_mr_cnt := ready_mr_cnt s + (if (c, True) \<in> D then 1 else 0),
      request_stack_size := request_stack_size s - 1\<rparr>"
  have "s\<lparr>rest_reqs := drop_request c (ordered_conns s) (rest_reqs s)\<rparr> = s"
    using ex by (simp add: exchanging_def drop_request_none)
  then have "on_completion m w s = Some ?s2"
    using x(1) x'(2,3) recv by (auto simp: on_completion_def c_def [symmetric] Let_def)
  moreover have "land w s = Some s" using x(1) w(1) recv by (simp add: land_def handshake_wc_def c_def)
  moreover have "exchanging n slot rk dmr amr (insert (c, False) D) ?s2"
    unfolding exchanging_def
  proof (intro conjI allI impI)
    fix k assume k: "k < n"
    have ck: "conn_at k ?s2 = conn_at k ?s1" by (simp add: conn_at_def)
    show "\<exists>y. conn_at k ?s2 = Some y \<and> exchange_conn rk dmr amr (insert (c, False) D) k y"
      unfolding ck using x'(1) ex c k others by (cases "k = c") (auto simp: exchanging_def)
  qed (use ex cD [OF nD] card_insert_exchanged [OF c(1) nD] in \<open>auto simp: exchanging_def\<close>)
  ultimately show ?thesis unfolding key by (intro exI [of _ s] exI [of _ ?s2]) simp
qed

lemma exchange_received:
  assumes ex: "exchanging n slot rk dmr amr D s" and D: "finite D" "wc_key w \<notin> D"
    and w: "handshake_wc rk dmr amr w" "wr_id w < n"
    and slot: "\<And>c. c < n \<Longrightarrow> slot c < n" "inj_on slot {..<n}"
    and m: "\<And>c. c < n \<Longrightarrow> cfio_map_get_client_index_of_server m (rk c) = Some (int (slot c))"
    and recv: "wc_recv w"
  shows "\<exists>s1 s2. land w s = Some s1 \<and> on_completion m w s1 = Some s2 \<and>
    exchanging n slot rk dmr amr (insert (wc_key w) D) s2 \<and> cq s2 = cq s"
proof -
  define c where "c = wr_id w"
  have c: "c < n" "c < length (rdma_conns s)" using w(2) ex by (simp_all add: c_def exchanging_def)
  from ex c(1) obtain x where x: "conn_at c s = Some x" "exchange_conn rk dmr amr D c x"
    by (auto simp: exchanging_def)
  have cD: "card (insert (c, b) D) = card D + 1" if "(c, b) \<notin> D" for b using D(1) that by simp
  have others: "exchange_conn rk dmr amr (insert (c, b) D) k y \<longleftrightarrow> exchange_conn rk dmr amr D k y"
    if "k \<noteq> c" for k b y using that by (simp add: exchange_conn_def)
  from recv w(1) obtain a where a: "wc_landed w = Message \<lparr>m_type = MSG_MR, m_rank = rk c, m_data_mr = dmr c,
      m_addr_mr = amr c, m_addr = a\<rparr>" by (auto simp: handshake_wc_def c_def)
  define msg where "msg = \<lparr>m_type = MSG_MR, m_rank = rk c, m_data_mr = dmr c, m_addr_mr = amr c, m_addr = a\<rparr>"
  let ?xm = "x\<lparr>recv_msg := Some msg\<rparr>"
  let ?x = "?xm\<lparr>recv_state := RS_MR_RECV, conn_rank := Some (rk c), peer_data_mr := Some (dmr c),
      peer_addr_mr := Some (amr c)\<rparr>"
  have nD: "(c, True) \<notin> D" and key: "wc_key w = (c, True)" using D(2) recv by (simp_all add: c_def)
  have "recv_state x = RS_INIT" using x(2) nD by (simp add: exchange_conn_def)
  then have x': "exchange_conn rk dmr amr (insert (c, True) D) c ?x" "conn_completed True ?xm = Some ?x"
    "SS_MR_SENT = send_state ?x \<longleftrightarrow> (c, False) \<in> D"
    using x(2) nD by (simp_all add: exchange_conn_def conn_completed_def msg_def Let_def)
  let ?sm = "set_conn c ?xm s"
  let ?s1 = "(set_conn c ?x ?sm)\<lparr>ordered_conns := (ordered_conns s)[slot c := Some c]\<rparr>"
  let ?s2 = "?s1\<lparr>ready_mr_cnt := ready_mr_cnt s + (if (c, False) \<in> D then 1 else 0),
      request_stack_size := request_stack_size s - 1\<rparr>"
  have land: "land w s = Some ?sm" using x(1) a by (simp add: land_def c_def [symmetric] msg_def)
  have "?sm\<lparr>rest_reqs := drop_request c (ordered_conns ?sm) (rest_reqs ?sm)\<rparr> = ?sm"
    using ex by (simp add: exchanging_def drop_request_none)
  moreover have "slot c < length (ordered_conns s)" using slot(1) [OF c(1)] ex by (simp add: exchanging_def)
  ultimately have "on_completion m w ?sm = Some ?s2"
    using c x'(2,3) recv m [OF c(1)] by (auto simp: on_completion_def c_def [symmetric] msg_def)
  moreover have "exchanging n slot rk dmr amr (insert (c, True) D) ?s2"
    unfolding exchanging_def
  proof (intro conjI allI impI)
    fix k assume k: "k < n"
    have ck: "conn_at k ?s2 = conn_at k (set_conn c ?x ?sm)" by (simp add: conn_at_def)
    show "\<exists>y. conn_at k ?s2 = Some y \<and> exchange_conn rk dmr amr (insert (c, True) D) k y"
      unfolding ck using x'(1) ex c k others by (cases "k = c") (auto simp: exchanging_def)
    assume kD: "(k, True) \<in> insert (c, True) D"
    show "ordered_conns ?s2 ! slot k = Some k"
    proof (cases "k = c")
      case False
      then have "slot k \<noteq> slot c" using slot(2) k c(1) by (auto dest: inj_onD)
      with False kD ex k show ?thesis by (auto simp: exchanging_def)
    qed (use slot(1) c ex in \<open>simp add: exchanging_def\<close>)
  qed (use ex cD [OF nD] card_insert_exchanged [OF c(1) nD] in \<open>auto simp: exchanging_def\<close>)
  ultimately show ?thesis unfolding key using land by (intro exI [of _ ?sm] exI [of _ ?s2]) simp
qed

lemma exchange_step:
  assumes ex: "exchanging n slot rk dmr amr D s" and D: "finite D" "wc_key w \<notin> D"
    and w: "handshake_wc rk dmr amr w" "wr_id w < n"
    and slot: "\<And>c. c < n \<Longrightarrow> slot c < n" "inj_on slot {..<n}"
    and m: "\<And>c. c < n \<Longrightarrow> cfio_map_get_client_index_of_server m (rk c) = Some (int (slot c))"
  shows "\<exists>s1 s2. land w s = Some s1 \<and> on_completion m w s1 = Some s2 \<and>
    exchanging n slot rk dmr amr (insert (wc_key w) D) s2 \<and> cq s2 = cq s"
  using exchange_sent [OF assms] exchange_received [OF assms] by (cases "wc_recv w") simp_all

lemma exchange_all:
  assumes "exchanging n slot rk dmr amr D s" "finite D" "distinct (map wc_key ws)" "\<forall>w \<in> set ws. wc_key w \<notin> D"
    and "\<forall>w \<in> set ws. handshake_wc rk dmr amr w \<and> wr_id w < n"
    and slot: "\<And>c. c < n \<Longrightarrow> slot c < n" "inj_on slot {..<n}"
    and m: "\<And>c. c < n \<Longrightarrow> cfio_map_get_client_index_of_server m (rk c) = Some (int (slot c))"
  shows "\<exists>t. completions m ws s = Some t \<and> exchanging n slot rk dmr amr (D \<union> wc_key ` set ws) t \<and> cq t = cq s"
  using assms(1-5)
proof (induction ws arbitrary: s D)
  case (Cons w ws)
  have w: "wc_key w \<notin> D" "handshake_wc rk dmr amr w" "wr_id w < n" using Cons.prems(4,5) by simp_all
  from exchange_step [OF Cons.prems(1,2) w slot m] obtain s1 s2 where s2: "land w s = Some s1"
    "on_completion m w s1 = Some s2" "exchanging n slot rk dmr amr (insert (wc_key w) D) s2" "cq s2 = cq s" by blast
  have "\<forall>v \<in> set ws. wc_key v \<notin> insert (wc_key w) D"
  proof
    fix v assume "v \<in> set ws"
    then have "wc_key v \<in> set (map wc_key ws)" by simp
    with Cons.prems(3) have "wc_key v \<noteq> wc_key w" by auto
    with Cons.prems(4) \<open>v \<in> set ws\<close> show "wc_key v \<notin> insert (wc_key w) D" by simp
  qed
  with Cons.IH [OF s2(3)] Cons.prems(2,3,5) s2 show ?case by (simp add: insert_is_Un [symmetric])
qed simp

lemma exchange_wait_all:
  assumes "exchanging n slot rk dmr amr D s" "cq s = evs" "D \<union> wc_key ` set (concat evs) = {..<n} \<times> UNIV"
    and "distinct (map wc_key (concat evs))" "\<forall>w \<in> set (concat evs). wc_key w \<notin> D \<and> handshake_wc rk dmr amr w"
    and slot: "\<And>c. c < n \<Longrightarrow> slot c < n" "inj_on slot {..<n}"
    and m: "\<And>c. c < n \<Longrightarrow> cfio_map_get_client_index_of_server m (rk c) = Some (int (slot c))"
  shows "\<exists>t. poll_while m (\<lambda>n. n \<noteq> 0) evs s = Some t \<and> exchanging n slot rk dmr amr ({..<n} \<times> UNIV) t"
  using assms(1-5)
proof (induction evs arbitrary: s D)
  case (Nil s D)
  then have "D = {..<n} \<times> UNIV" by simp
  moreover have "request_stack_size s = 0" using Nil(1) unfolding \<open>D = _\<close> exchanging_def
    by (simp add: card_cartesian_product)
  ultimately show ?case using Nil(1) by (simp add: poll_while.simps)
next
  case (Cons ev evs s D)
  have D: "D \<subseteq> {..<n} \<times> UNIV" using Cons.prems(3) by blast
  then have fin: "finite D" by (rule finite_subset) simp
  show ?case
  proof (cases "request_stack_size s = 0")
    case True
    then have "card D = card ({..<n} \<times> (UNIV :: bool set))"
      using Cons.prems(1) by (simp add: exchanging_def card_cartesian_product)
    then have "D = {..<n} \<times> UNIV" using D by (simp add: card_subset_eq)
    with True Cons.prems(1) show ?thesis by (simp add: poll_while.simps)
  next
    case False
    let ?s = "s\<lparr>cq := evs\<rparr>"
    have "exchanging n slot rk dmr amr D ?s" using Cons.prems(1) by (simp add: exchanging_def)
    moreover have "distinct (map wc_key ev)" "\<forall>w \<in> set ev. wc_key w \<notin> D"
      using Cons.prems(4,5) by simp_all
    moreover have "\<forall>w \<in> set ev. handshake_wc rk dmr amr w \<and> wr_id w < n" using Cons.prems(3,5) by auto
    ultimately obtain t where t: "completions m ev ?s = Some t"
      "exchanging n slot rk dmr amr (D \<union> wc_key ` set ev) t" "cq t = evs"
      using exchange_all [of n slot rk dmr amr D ?s ev m, OF _ fin _ _ _ slot m] by auto
    have new: "\<forall>w \<in> set (concat evs). wc_key w \<notin> D \<union> wc_key ` set ev \<and> handshake_wc rk dmr amr w"
    proof
      fix w assume w: "w \<in> set (concat evs)"
      then have "wc_key w \<in> wc_key ` set (concat evs)" by (rule imageI)
      moreover have "wc_key ` set ev \<inter> wc_key ` set (concat evs) = {}" using Cons.prems(4) by simp
      ultimately have "wc_key w \<notin> wc_key ` set ev" by blast
      with w Cons.prems(5) show "wc_key w \<notin> D \<union> wc_key ` set ev \<and> handshake_wc rk dmr amr w" by simp
    qed
    have "D \<union> wc_key ` set ev \<union> wc_key ` set (concat evs) = {..<n} \<times> UNIV"
      using Cons.prems(3) by (simp add: image_Un Un_assoc)
    moreover have "distinct (map wc_key (concat evs))" using Cons.prems(4) by simp
    ultimately have "\<exists>u. poll_while m (\<lambda>n. n \<noteq> 0) evs t = Some u \<and> exchanging n slot rk dmr amr ({..<n} \<times> UNIV) u"
      using Cons.IH [OF t(2,3) _ _ new] by blast
    with t(1) False Cons.prems(2) show ?thesis
      by (simp add: poll_while.simps [of _ _ "ev # evs"] poll_cq_one_time_def)
  qed
qed

text \<open>A server whose connections are ready: every client has one, in the place of its index, and the
  connection knows the memory regions of its peer.\<close>

definition linked_conn :: "rdma_conn \<Rightarrow> bool" where
  "linked_conn x \<longleftrightarrow> peer_data_mr x \<noteq> None \<and> peer_addr_mr x \<noteq> None \<and> recv_state x = RS_MR_RECV \<and>
     (send_state x = SS_MR_SENT \<or> send_state x = SS_RDMA_SENDING)"

definition linked :: "nat \<Rightarrow> rdma_server \<Rightarrow> bool" where
  "linked n s \<longleftrightarrow>
     length (rdma_conns s) = n \<and> length (ordered_conns s) = n \<and> length (rest_reqs s) = n \<and>
     length (data_regions s) = n \<and> length (addr_regions s) = n \<and> distinct (ordered_conns s) \<and>
     (\<forall>i < n. \<exists>c x. ordered_conns s ! i = Some c \<and> conn_at c s = Some x \<and> region x = c \<and> linked_conn x)"

lemma exchanged_linked:
  assumes ex: "exchanging n slot rk dmr amr ({..<n} \<times> UNIV) s"
    and slot: "\<And>c. c < n \<Longrightarrow> slot c < n" "inj_on slot {..<n}"
  shows "linked n s" "c < n \<Longrightarrow> \<exists>x. client_conn (slot c) s = Some (c, x) \<and> conn_rank x = Some (rk c) \<and>
      peer_data_mr x = Some (dmr c) \<and> peer_addr_mr x = Some (amr c)"
proof -
  have "slot ` {..<n} = {..<n}" using slot by (intro endo_inj_surj) auto
  then have onto: "\<exists>c < n. slot c = i" if "i < n" for i using that by (metis imageE lessThan_iff)
  have at: "ordered_conns s ! slot c = Some c" if "c < n" for c using ex that by (auto simp: exchanging_def)
  have conn: "\<exists>x. conn_at c s = Some x \<and> exchange_conn rk dmr amr ({..<n} \<times> UNIV) c x" if "c < n" for c
    using ex that by (simp add: exchanging_def)
  have "distinct (ordered_conns s)"
    unfolding distinct_conv_nth
  proof (intro allI impI)
    fix i j assume "i < length (ordered_conns s)" "j < length (ordered_conns s)" "i \<noteq> j"
    then have "i < n" "j < n" using ex by (simp_all add: exchanging_def)
    with onto obtain a b where "a < n" "slot a = i" "b < n" "slot b = j" by metis
    with \<open>i \<noteq> j\<close> at show "ordered_conns s ! i \<noteq> ordered_conns s ! j" by auto
  qed
  moreover have "\<exists>c x. ordered_conns s ! i = Some c \<and> conn_at c s = Some x \<and> region x = c \<and> linked_conn x" if i: "i < n" for i
  proof -
    from onto [OF i] obtain c where c: "c < n" "slot c = i" by blast
    with at conn [OF c(1)] show ?thesis by (auto simp: exchange_conn_def linked_conn_def)
  qed
  ultimately show "linked n s" using ex by (simp add: linked_def exchanging_def)
  show "\<exists>x. client_conn (slot c) s = Some (c, x) \<and> conn_rank x = Some (rk c) \<and>
      peer_data_mr x = Some (dmr c) \<and> peer_addr_mr x = Some (amr c)" if c: "c < n"
    using conn [OF c] at [OF c] slot(1) [OF c] ex c
    by (auto simp: client_conn_def exchange_conn_def exchanging_def)
qed

lemma set_up_ends:
  assumes n: "0 < n" "n \<le> 5" and evs: "cm_events n sz 0 {} evs"
    and regions: "length dregions = n" "\<forall>r \<in> set dregions. length r = sz" "length aregions = n"
    and slot: "\<forall>c < n. slot c < n" "inj_on slot {..<n}"
    and m: "\<forall>c < n. cfio_map_get_client_index_of_server m (rk c) = Some (int (slot c))"
    and ws: "wc_key ` set (concat batches) = {..<n} \<times> UNIV" "distinct (map wc_key (concat batches))"
      "\<forall>w \<in> set (concat batches). handshake_wc rk dmr amr w"
  shows "\<exists>s. cfio_rdma_server_init m junk rank n dregions aregions (evs @ later) batches = Some s \<and>
    linked n s \<and> request_stack_size s = 0 \<and> rest_reqs s = replicate n 0 \<and>
    (\<forall>c < n. \<exists>x. client_conn (slot c) s = Some (c, x) \<and> conn_rank x = Some (rk c) \<and>
       peer_data_mr x = Some (dmr c) \<and> peer_addr_mr x = Some (amr c))"
proof -
  define s0 where "s0 = \<lparr>rdma_rank = rank, client_amt = int n, request_stack_size = 0, previous_rss = 0,
      previous_rss_changed = True, rest_reqs = replicate n 0, rdma_conns = [],
      ordered_conns = replicate n None, ready_mr_cnt = 0, established_cnt = 0,
      disconn_cnt = 0, data_regions = dregions, addr_regions = aregions, posted = [], cq = batches\<rparr>"
  have "setting_up n sz {} s0" using regions by (simp add: setting_up_def s0_def)
  then obtain s1 where s1: "wait_rdma_event m junk (evs @ later) s0 = Some (later, s1)" "setting_up n sz {..<n} s1"
      "length (rdma_conns s1) = n" "cq s1 = batches"
    using wait_rdma_event_set_up [OF evs _ _ n(2), of s0 m junk later] n(1) by (auto simp: s0_def)
  have "exchanging n slot rk dmr amr {} s1"
    using s1(2,3) by (auto simp: exchanging_def setting_up_def exchange_conn_def fresh_conn_def exchanged_def)
  from exchange_wait_all [OF this s1(4) _ ws(2), of m] ws slot m obtain t where
    t: "poll_while m (\<lambda>n. n \<noteq> 0) batches s1 = Some t" "exchanging n slot rk dmr amr ({..<n} \<times> UNIV) t" by auto
  have "{c. c < n \<and> exchanged ({..<n} \<times> UNIV) c} = {..<n}" by (auto simp: exchanged_def)
  then have "client_amt t = ready_mr_cnt t" "request_stack_size t = 0" "rest_reqs t = replicate n 0"
    using t(2) by (simp_all add: exchanging_def card_cartesian_product)
  moreover from this have "cfio_rdma_server_init m junk rank n dregions aregions (evs @ later) batches = Some t"
    using s1(1,4) t(1) by (simp add: cfio_rdma_server_init_def s0_def cfio_rdma_server_wait_all_def)
  ultimately show ?thesis using exchanged_linked [OF t(2)] slot by blast
qed


section \<open>Open requests\<close>

text \<open>
  \<open>in_flight m n s q\<close>: a server reaches the state \<open>s\<close> with the requests \<open>q\<close> open, oldest first,
  each with its client and whether it is a read. The requests of one connection complete in the
  order in which they were posted, which is what the library guarantees; those of different
  connections complete in any order. A read is posted only when no write to the same client
  is open.
\<close>

inductive in_flight :: "map_state \<Rightarrow> nat \<Rightarrow> rdma_server \<Rightarrow> (nat \<times> bool) list \<Rightarrow> bool" for m n where
  ready: "linked n s \<Longrightarrow> request_stack_size s = 0 \<Longrightarrow> rest_reqs s = replicate n 0 \<Longrightarrow> in_flight m n s []"
| post_read: "in_flight m n s q \<Longrightarrow> i < n \<Longrightarrow> (i, False) \<notin> set q \<Longrightarrow>
    cfio_rdma_server_read_data i off len lo s = Some s' \<Longrightarrow> in_flight m n s' (q @ [(i, True)])"
| post_write: "in_flight m n s q \<Longrightarrow> i < n \<Longrightarrow> cfio_rdma_server_write_addr i s = Some s' \<Longrightarrow>
    in_flight m n s' (q @ [(i, False)])"
| complete: "in_flight m n s (q1 @ (i, b) # q2) \<Longrightarrow> i \<notin> fst ` set q1 \<Longrightarrow> client_conn i s = Some (wr_id w, x) \<Longrightarrow>
    \<not> wc_recv w \<Longrightarrow> land w s = Some s1 \<Longrightarrow> on_completion m w s1 = Some s' \<Longrightarrow> in_flight m n s' (q1 @ q2)"
| peer_writes: "in_flight m n s q \<Longrightarrow> put_addr i a s = Some s' \<Longrightarrow> in_flight m n s' q"
| copied: "in_flight m n s q \<Longrightarrow> put_data i d s = Some s' \<Longrightarrow> in_flight m n s' q"

text \<open>The open requests of a client: reads first, then writes, and the counter counts the reads.\<close>

definition opened :: "nat \<Rightarrow> (nat \<times> bool) list \<Rightarrow> bool list" where
  "opened i q = map snd (filter (\<lambda>r. fst r = i) q)"

definition counted :: "nat \<Rightarrow> rdma_server \<Rightarrow> (nat \<times> bool) list \<Rightarrow> bool" where
  "counted n s q \<longleftrightarrow> linked n s \<and> request_stack_size s = int (length q) \<and> fst ` set q \<subseteq> {..<n} \<and>
     (\<forall>i < n. \<exists>a b. opened i q = replicate a True @ replicate b False \<and> rest_reqs s ! i = int a)"

lemma opened_append [simp]: "opened i (q @ r) = opened i q @ opened i r"
  by (simp add: opened_def)

lemma opened_single [simp]: "opened i [(j, b)] = (if j = i then [b] else [])" "opened i [] = []"
  "opened i ((j, b) # q) = (if j = i then b # opened i q else opened i q)"
  by (simp_all add: opened_def)

lemma in_opened: "b \<in> set (opened i q) \<longleftrightarrow> (i, b) \<in> set q"
  by (force simp: opened_def)

lemma opened_none: "i \<notin> fst ` set q \<Longrightarrow> opened i q = []"
  by (force simp: opened_def filter_empty_conv)

lemma linked_conn_of:
  assumes "linked n s" "i < n"
  obtains c x where "ordered_conns s ! i = Some c" "conn_at c s = Some x" "client_conn i s = Some (c, x)"
    "region x = c" "c < n" "linked_conn x"
  using assms conn_at_less by (force simp: linked_def client_conn_def)

lemma linked_update [simp]:
  "linked n (s\<lparr>request_stack_size := v\<rparr>) = linked n s" "linked n (s\<lparr>posted := p\<rparr>) = linked n s"
  "linked n (s\<lparr>cq := w\<rparr>) = linked n s" "linked n (s\<lparr>ready_mr_cnt := v\<rparr>) = linked n s"
  by (simp_all add: linked_def)

lemma linked_rest: "length v = length (rest_reqs s) \<Longrightarrow> linked n (s\<lparr>rest_reqs := v\<rparr>) = linked n s"
  by (simp add: linked_def)

lemma linked_regions:
  "length d = length (data_regions s) \<Longrightarrow> linked n (s\<lparr>data_regions := d\<rparr>) = linked n s"
  "length e = length (addr_regions s) \<Longrightarrow> linked n (s\<lparr>addr_regions := e\<rparr>) = linked n s"
  by (simp_all add: linked_def)

lemma linked_set_conn:
  assumes "linked n s" "conn_at c s = Some x" "region y = region x" "linked_conn x \<longrightarrow> linked_conn y"
  shows "linked n (set_conn c y s)"
proof -
  have "c < length (rdma_conns s)" using assms(2) by (rule conn_at_less)
  with assms show ?thesis by (fastforce simp: linked_def)
qed

lemma drop_request_at:
  "length ks = length ns \<Longrightarrow> distinct ks \<Longrightarrow> i < length ks \<Longrightarrow> ks ! i = Some c \<Longrightarrow>
     drop_request c ks ns = (if 0 < ns ! i then ns[i := ns ! i - 1] else ns)"
proof (induction ks ns arbitrary: i rule: list_induct2)
  case (Cons k ks n ns)
  show ?case
  proof (cases i)
    case 0
    have "drop_request c ks ns = ns" if "Some c \<notin> set ks" "length ks = length ns" for ks and ns :: "int list"
      using that(2,1) by (induction ks ns rule: list_induct2) auto
    with 0 Cons show ?thesis by auto
  next
    case (Suc j)
    then have "k \<noteq> Some c" using Cons.prems nth_mem [of j ks] by auto
    with Suc Cons show ?thesis by simp
  qed
qed simp

lemma length_drop_request [simp]: "length (drop_request c ks ns) = length ns"
  by (induction c ks ns rule: drop_request.induct) auto

text \<open>A completion of a read or a write on a connection that is ready.\<close>

lemma on_completion_sent:
  assumes "linked n s" "i < n" "client_conn i s = Some (wr_id w, x)" "\<not> wc_recv w"
  shows "on_completion m w s = Some ((set_conn (wr_id w) (x\<lparr>send_state := SS_RDMA_SENDING\<rparr>) s)
    \<lparr>rest_reqs := (if 0 < rest_reqs s ! i then (rest_reqs s)[i := rest_reqs s ! i - 1] else rest_reqs s),
     request_stack_size := request_stack_size s - 1\<rparr>)"
proof -
  from linked_conn_of [OF assms(1,2)] assms(3) have x: "ordered_conns s ! i = Some (wr_id w)"
    "conn_at (wr_id w) s = Some x" "linked_conn x" by (metis Pair_inject option.inject)+
  have "drop_request (wr_id w) (ordered_conns s) (rest_reqs s) =
      (if 0 < rest_reqs s ! i then (rest_reqs s)[i := rest_reqs s ! i - 1] else rest_reqs s)"
    using assms(1,2) x(1) by (intro drop_request_at) (simp_all add: linked_def)
  moreover have "conn_completed False x = Some (x\<lparr>send_state := SS_RDMA_SENDING\<rparr>)"
    using x(3) by (auto simp: conn_completed_def linked_conn_def)
  ultimately show ?thesis using x(2) assms(4)
    by (simp add: on_completion_def Let_def set_conn_def)
qed

lemma linked_land:
  assumes "linked n s" "land w s = Some s1"
  shows "linked n s1" "rest_reqs s1 = rest_reqs s" "request_stack_size s1 = request_stack_size s"
    "ordered_conns s1 = ordered_conns s"
proof -
  from assms(2) obtain x where x: "conn_at (wr_id w) s = Some x" by (auto simp: land_def bind_eq_Some_conv)
  have "linked n (set_conn (wr_id w) (x\<lparr>recv_msg := Some msg\<rparr>) s)" for msg
    by (rule linked_set_conn [OF assms(1) x]) (simp_all add: linked_conn_def)
  with assms x show "linked n s1" "rest_reqs s1 = rest_reqs s" "request_stack_size s1 = request_stack_size s"
    "ordered_conns s1 = ordered_conns s"
    by (auto simp: land_def bind_eq_Some_conv linked_regions split: landing.splits if_splits)
qed

lemma land_client_conn:
  assumes "land w s = Some s1" "client_conn i s = Some (wr_id w, x)" "\<not> wc_recv w"
  shows "\<exists>y. client_conn i s1 = Some (wr_id w, y)"
proof -
  from assms(2) have x: "conn_at (wr_id w) s = Some x" "ordered_conns s ! i = Some (wr_id w)" "i < length (ordered_conns s)"
    by (auto simp: client_conn_def bind_eq_Some_conv split: if_splits)
  with assms(1) conn_at_less [OF x(1)] show ?thesis
    by (auto simp: land_def client_conn_def bind_eq_Some_conv split: landing.splits if_splits)
qed

lemma read_data_posts:
  "cfio_rdma_server_read_data i off len lo s = Some s' \<Longrightarrow> i < length (rest_reqs s) \<and>
    (\<exists>c x mr. client_conn i s = Some (c, x) \<and> peer_data_mr x = Some mr \<and>
      s' = ibv_post (WR_READ c (mr_addr mr + off) len lo) (s\<lparr>rest_reqs := (rest_reqs s)[i := rest_reqs s ! i + 1]\<rparr>))"
  by (auto simp: cfio_rdma_server_read_data_def bind_eq_Some_conv split: if_splits)

lemma write_addr_posts:
  "cfio_rdma_server_write_addr i s = Some s' \<Longrightarrow>
    \<exists>c x mr. client_conn i s = Some (c, x) \<and> peer_addr_mr x = Some mr \<and> s' = ibv_post (WR_WRITE c (mr_addr mr)) s"
  by (auto simp: cfio_rdma_server_write_addr_def bind_eq_Some_conv)

text \<open>Each step keeps the count.\<close>

lemma counted_read:
  assumes "counted n s q" "i < n" "(i, False) \<notin> set q" "cfio_rdma_server_read_data i off len lo s = Some s'"
  shows "counted n s' (q @ [(i, True)])"
proof -
  from read_data_posts [OF assms(4)] obtain c and mr :: ibv_mr where s': "s' = ibv_post (WR_READ c (mr_addr mr + off) len lo)
      (s\<lparr>rest_reqs := (rest_reqs s)[i := rest_reqs s ! i + 1]\<rparr>)" and len: "i < length (rest_reqs s)"
    by blast
  from assms(3) in_opened [of False i q] have "False \<notin> set (opened i q)" by simp
  with assms(1) assms(2) have i: "opened i q = replicate a True @ replicate b False \<Longrightarrow> b = 0" for a b by (cases b) auto
  have "\<exists>a b. opened k (q @ [(i, True)]) = replicate a True @ replicate b False \<and> rest_reqs s' ! k = int a" if k: "k < n" for k
  proof -
    from assms(1) k obtain a b where ab: "opened k q = replicate a True @ replicate b False" "rest_reqs s ! k = int a"
      by (auto simp: counted_def)
    show ?thesis
    proof (cases "k = i")
      case True
      with i ab have "b = 0" by simp
      with True ab len show ?thesis
        by (intro exI [of _ "a + 1"] exI [of _ 0]) (simp add: s' ibv_post_def replicate_append_same)
    qed (use ab in \<open>auto simp: s' ibv_post_def\<close>)
  qed
  with assms(1) assms(2) show ?thesis by (simp add: counted_def s' ibv_post_def linked_rest)
qed

lemma counted_write:
  assumes "counted n s q" "i < n" "cfio_rdma_server_write_addr i s = Some s'"
  shows "counted n s' (q @ [(i, False)])"
proof -
  from write_addr_posts [OF assms(3)] obtain c and mr :: ibv_mr where s': "s' = ibv_post (WR_WRITE c (mr_addr mr)) s"
    by metis
  have "\<exists>a b. opened k (q @ [(i, False)]) = replicate a True @ replicate b False \<and> rest_reqs s' ! k = int a" if k: "k < n" for k
  proof -
    from assms(1) k obtain a b where ab: "opened k q = replicate a True @ replicate b False" "rest_reqs s ! k = int a"
      by (auto simp: counted_def)
    then show ?thesis
      by (cases "k = i") (auto simp: s' ibv_post_def replicate_append_same intro: exI [of _ a] exI [of _ "Suc b"])
  qed
  with assms(1) assms(2) show ?thesis by (simp add: counted_def s' ibv_post_def)
qed

text \<open>The first open request of a client is taken off.\<close>

lemma opened_tail:
  assumes "b # q = replicate a True @ replicate c False"
  shows "\<exists>c'. q = replicate (a - 1) True @ replicate c' False"
proof (cases a)
  case 0
  with assms show ?thesis by (cases c) auto
next
  case (Suc a')
  with assms have "q = replicate a' True @ replicate c False" by simp
  with Suc show ?thesis by auto
qed

lemma counted_complete:
  assumes "counted n s (q1 @ (i, b) # q2)" "i \<notin> fst ` set q1" "client_conn i s = Some (wr_id w, x)"
    and "\<not> wc_recv w" "land w s = Some s1" "on_completion m w s1 = Some s'"
  shows "counted n s' (q1 @ q2)"
proof -
  have n: "linked n s" "i < n" using assms(1) by (auto simp: counted_def)
  note l = linked_land [OF n(1) assms(5)]
  from land_client_conn [OF assms(5,3,4)] obtain y where y: "client_conn i s1 = Some (wr_id w, y)" by blast
  note sent = on_completion_sent [OF l(1) n(2) y assms(4), of m]
  define r where "r = (if 0 < rest_reqs s ! i then (rest_reqs s)[i := rest_reqs s ! i - 1] else rest_reqs s)"
  have s': "s' = set_conn (wr_id w) (y\<lparr>send_state := SS_RDMA_SENDING\<rparr>) s1\<lparr>rest_reqs := r, request_stack_size := request_stack_size s - 1\<rparr>"
    using sent assms(6) by (simp add: r_def l)
  from y have cy: "conn_at (wr_id w) s1 = Some y" by (auto simp: client_conn_def bind_eq_Some_conv split: if_splits)
  have "linked n s'" unfolding s'
    using l(1) linked_set_conn [OF l(1) cy, of "y\<lparr>send_state := SS_RDMA_SENDING\<rparr>"] n(1) l(2)
    by (simp add: linked_rest r_def linked_conn_def)
  moreover have "\<exists>a b. opened k (q1 @ q2) = replicate a True @ replicate b False \<and> rest_reqs s' ! k = int a" if k: "k < n" for k
  proof -
    from assms(1) k obtain a c where ab: "opened k (q1 @ (i, b) # q2) = replicate a True @ replicate c False" "rest_reqs s ! k = int a"
      by (auto simp: counted_def)
    show ?thesis
    proof (cases "k = i")
      case False
      then have "rest_reqs s' ! k = int a" using ab(2) by (simp add: s' r_def)
      with ab(1) False show ?thesis by auto
    next
      case True
      then have "b # opened i q2 = replicate a True @ replicate c False" using ab(1) opened_none [OF assms(2)] by simp
      then obtain c' where "opened i q2 = replicate (a - 1) True @ replicate c' False" by (blast dest: opened_tail)
      with True ab(2) n opened_none [OF assms(2)] show ?thesis
        by (intro exI [of _ "a - 1"] exI [of _ c']) (auto simp: s' r_def linked_def)
    qed
  qed
  ultimately show ?thesis using assms(1) by (simp add: counted_def s')
qed

lemma in_flight_counted: "in_flight m n s q \<Longrightarrow> counted n s q"
proof (induction rule: in_flight.induct)
  case (ready s)
  then show ?case by (simp add: counted_def)
next
  case (post_read s q i off len lo s')
  then show ?case by (blast intro: counted_read)
next
  case (post_write s q i s')
  then show ?case by (blast intro: counted_write)
next
  case (complete s q1 i b q2 w x s1 s')
  then show ?case by (blast intro: counted_complete)
next
  case (peer_writes s q i a s')
  then obtain k where "s' = s\<lparr>addr_regions := (addr_regions s)[k := a]\<rparr>" by (auto simp: put_addr_def bind_eq_Some_conv)
  with peer_writes.IH show ?case by (simp add: counted_def linked_regions)
next
  case (copied s q i d s')
  then obtain k where "s' = s\<lparr>data_regions := (data_regions s)[k := d]\<rparr>" by (auto simp: put_data_def bind_eq_Some_conv)
  with copied.IH show ?case by (simp add: counted_def linked_regions)
qed

text \<open>C33. The test for read data is right as long as no read is posted to a client while a write to
  it is open: \<open>cfio_rdma_server_test\<close> then answers 1 exactly when none of the client's reads is
  open, in every state, and the counter of open requests is their number.\<close>

theorem server_test_sound:
  assumes "in_flight m n s q" "i < n"
  shows "cfio_rdma_server_test i s = Some (if (i, True) \<in> set q then 0 else 1) \<and>
    request_stack_size s = int (length q)"
proof -
  from in_flight_counted [OF assms(1)] assms(2) obtain a b where
    ab: "opened i q = replicate a True @ replicate b False" "rest_reqs s ! i = int a" and l: "linked n s"
    and r: "request_stack_size s = int (length q)" by (auto simp: counted_def)
  have "(i, True) \<in> set q \<longleftrightarrow> a \<noteq> 0" unfolding in_opened [symmetric] ab by auto
  with ab(2) l assms(2) r show ?thesis by (simp add: cfio_rdma_server_test_def linked_def)
qed

text \<open>C34. Without that condition it is wrong. When the server writes a client's address record back,
  the client answers at once and the server posts a read before it has seen the completion of the
  write, then that completion takes the read off the counter: the test says the data has arrived
  while the read is still open.\<close>

theorem write_completion_hides_read:
  assumes "linked n s" "i < n" "rest_reqs s ! i = 0"
    and "cfio_rdma_server_write_addr i s = Some s1" "cfio_rdma_server_read_data i off len lo s1 = Some s2"
    and "client_conn i s2 = Some (wr_id w, x)" "\<not> wc_recv w" "wc_landed w = Nothing"
  shows "\<exists>s3. land w s2 = Some s2 \<and> on_completion m w s2 = Some s3 \<and> cfio_rdma_server_test i s2 = Some 0 \<and>
    cfio_rdma_server_test i s3 = Some 1 \<and> request_stack_size s3 = request_stack_size s + 1"
proof -
  from write_addr_posts [OF assms(4)] obtain c and mr :: ibv_mr where s1: "s1 = ibv_post (WR_WRITE c (mr_addr mr)) s"
    by metis
  from read_data_posts [OF assms(5)] obtain c and mr :: ibv_mr where s2: "s2 = ibv_post (WR_READ c (mr_addr mr + off) len lo)
      (s1\<lparr>rest_reqs := (rest_reqs s1)[i := rest_reqs s1 ! i + 1]\<rparr>)"
    by metis
  have i: "i < length (rest_reqs s)" using assms(1,2) by (simp add: linked_def)
  have l: "linked n s2" using assms(1) by (simp add: s1 s2 ibv_post_def linked_rest)
  have "land w s2 = Some s2" using assms(6,8)
    by (auto simp: land_def client_conn_def bind_eq_Some_conv split: if_splits)
  with on_completion_sent [OF l assms(2,6,7), of m] i assms(3) show ?thesis
    by (simp add: cfio_rdma_server_test_def s1 s2 ibv_post_def)
qed

section \<open>An example\<close>

text \<open>The server with number 24 of the 4 by 6 map has four clients; they connect in the reverse of
  the order of their indices.\<close>

definition example_rank :: "nat \<Rightarrow> int" where
  "example_rank c = (if c = 0 then 5 else if c = 1 then 4 else if c = 2 then 1 else 0)"

definition example_mr :: "nat \<Rightarrow> nat \<Rightarrow> ibv_mr" where
  "example_mr base c = \<lparr>mr_addr = int (base + 100 * c), mr_key = c\<rparr>"

definition example_got :: "nat \<Rightarrow> wc" where
  "example_got c = \<lparr>wr_id = c, wc_recv = True, wc_landed = Message \<lparr>m_type = MSG_MR, m_rank = example_rank c,
     m_data_mr = example_mr 1000 c, m_addr_mr = example_mr 5000 c,
     m_addr = \<lparr>signal = 0, a_end = 0, a_free = 0, a_used = 0\<rparr>\<rparr>\<rparr>"

definition example_sent :: "nat \<Rightarrow> wc" where
  "example_sent c = \<lparr>wr_id = c, wc_recv = False, wc_landed = Nothing\<rparr>"

definition example_batches :: "wc list list" where
  "example_batches = [[example_got 2, example_sent 0], [example_sent 1], [example_got 0, example_got 1, example_sent 3],
     [example_got 3, example_sent 2]]"

definition example_cm :: "cm_event list" where
  "example_cm = [CONNECT_REQUEST (example_mr 0 0) (example_mr 0 1) [104, 105], CONNECT_REQUEST (example_mr 0 2) (example_mr 0 3) [],
     ESTABLISHED 1, CONNECT_REQUEST (example_mr 0 4) (example_mr 0 5) [], ESTABLISHED 0,
     CONNECT_REQUEST (example_mr 0 6) (example_mr 0 7) [], ESTABLISHED 3, ESTABLISHED 2]"

definition example_addr :: cfio_buf_addr where
  "example_addr = \<lparr>signal = 0, a_end = 0, a_free = 0, a_used = 0\<rparr>"

lemma lessThan_4: "{..<4 :: nat} = {0, 1, 2, 3}"
  by auto

lemma example_events: "cm_events 4 16 0 {} example_cm"
  by (auto simp: example_cm_def)

lemma example_slots:
  "\<forall>c < 4. (3 - c :: nat) < 4" "inj_on (\<lambda>c. 3 - c :: nat) {..<4}"
  "\<forall>c < 4. cfio_map_get_client_index_of_server map_4_6 (example_rank c) = Some (int (3 - c))"
  by (auto simp: less_Suc_eq numeral_eq_Suc inj_on_def example_rank_def
      cfio_map_get_client_index_of_server_def map_4_6_def)

lemma example_completions:
  "wc_key ` set (concat example_batches) = {..<4} \<times> UNIV" "distinct (map wc_key (concat example_batches))"
  "\<forall>w \<in> set (concat example_batches). handshake_wc example_rank (example_mr 1000) (example_mr 5000) w"
  by (auto simp: example_batches_def example_got_def example_sent_def lessThan_4 handshake_wc_def)

lemma ready_example:
  "\<exists>s. cfio_rdma_server_init map_4_6 example_addr 24 4 (replicate 4 (replicate 16 0)) (replicate 4 example_addr)
      (example_cm @ []) example_batches = Some s \<and> linked 4 s \<and> request_stack_size s = 0 \<and> rest_reqs s = replicate 4 0"
  using set_up_ends [where dregions = "replicate 4 (replicate 16 0)" and aregions = "replicate 4 example_addr" and
      junk = example_addr and rank = 24 and later = "[]", OF _ _ example_events _ _ _ example_slots example_completions]
  by auto


lemma read_posted:
  assumes "linked n s" "i < n"
  shows "\<exists>c x mr. client_conn i s = Some (c, x) \<and> cfio_rdma_server_read_data i off len lo s =
    Some (ibv_post (WR_READ c (mr_addr (mr :: ibv_mr) + off) len lo) (s\<lparr>rest_reqs := (rest_reqs s)[i := rest_reqs s ! i + 1]\<rparr>))"
proof -
  from linked_conn_of [OF assms] obtain c x where x: "client_conn i s = Some (c, x)" "linked_conn x" .
  moreover from x(2) obtain mr where "peer_data_mr x = Some mr" by (auto simp: linked_conn_def)
  moreover have "i < length (rest_reqs s)" using assms by (simp add: linked_def)
  ultimately show ?thesis by (auto simp: cfio_rdma_server_read_data_def)
qed

lemma write_posted:
  assumes "linked n s" "i < n"
  shows "\<exists>c mr. cfio_rdma_server_write_addr i s = Some (ibv_post (WR_WRITE c (mr_addr (mr :: ibv_mr))) s)"
proof -
  from linked_conn_of [OF assms] obtain c x where x: "client_conn i s = Some (c, x)" "linked_conn x" .
  moreover from x(2) obtain mr where "peer_addr_mr x = Some mr" by (auto simp: linked_conn_def)
  ultimately show ?thesis by (auto simp: cfio_rdma_server_write_addr_def)
qed

theorem server_test_sound_witness:
  "\<exists>s s'. cfio_rdma_server_read_data 2 0 8 0 s = Some s' \<and> in_flight map_4_6 4 s' [(2, True)] \<and>
    cfio_rdma_server_test 2 s' = Some 0 \<and> cfio_rdma_server_test 1 s' = Some 1"
proof -
  from ready_example obtain s where s: "linked 4 s" "request_stack_size s = 0" "rest_reqs s = replicate 4 0" by blast
  have "(2 :: nat) < 4" "(1 :: nat) < 4" by simp_all
  note i = this
  from read_posted [OF s(1) i(1), of 0 8 0] obtain s' where s': "cfio_rdma_server_read_data 2 0 8 0 s = Some s'" by blast
  have f: "in_flight map_4_6 4 s' ([] @ [(2, True)])"
    by (rule in_flight.post_read [OF in_flight.ready [OF s] i(1) _ s']) simp
  from server_test_sound [OF f i(1)] server_test_sound [OF f i(2)] f s' show ?thesis by auto
qed

theorem write_completion_hides_read_witness:
  "\<exists>s s1 s2 w s3. cfio_rdma_server_write_addr 2 s = Some s1 \<and> cfio_rdma_server_read_data 2 0 8 0 s1 = Some s2 \<and>
    on_completion map_4_6 w s2 = Some s3 \<and> cfio_rdma_server_test 2 s3 = Some 1 \<and> request_stack_size s3 = 1"
proof -
  from ready_example obtain s where s: "linked 4 s" "request_stack_size s = 0" "rest_reqs s = replicate 4 0" by blast
  have i: "(2 :: nat) < 4" by simp
  from write_posted [OF s(1) i] obtain s1 where s1: "cfio_rdma_server_write_addr 2 s = Some s1" "linked 4 s1"
    using s(1) by (auto simp: ibv_post_def)
  from read_posted [OF s1(2) i, of 0 8 0] obtain s2 where s2: "cfio_rdma_server_read_data 2 0 8 0 s1 = Some s2" "linked 4 s2"
    using s1(2) by (auto simp: ibv_post_def linked_rest)
  from linked_conn_of [OF s2(2) i] obtain c x where c: "client_conn 2 s2 = Some (c, x)" .
  define w where "w = \<lparr>wr_id = c, wc_recv = False, wc_landed = Nothing\<rparr>"
  have w: "client_conn 2 s2 = Some (wr_id w, x)" "\<not> wc_recv w" "wc_landed w = Nothing" using c by (simp_all add: w_def)
  have r: "rest_reqs s ! 2 = 0" using s(3) by simp
  from write_completion_hides_read [OF s(1) i r s1(1) s2(1) w, of map_4_6] s(2) obtain s3 where
    "on_completion map_4_6 w s2 = Some s3" "cfio_rdma_server_test 2 s3 = Some 1" "request_stack_size s3 = 1" by auto
  with s1(1) s2(1) show ?thesis by blast
qed

end
