(* ===== verification/RdmaClient.thy ===== *)
theory RdmaClient
  imports Rdma
begin

text \<open>
  The RDMA transport of a client (\<open>client/C/rdma_client.c\<close>): one connection, to the client's
  server. Messages, connections, work requests and completions are those of the server's side;
  the connection has number 0. Of the data region, which only the server reads, the size is
  kept.
\<close>

section \<open>State\<close>

record rdma_client =
  c_rank :: int
  c_request_stack_size :: int
  c_ready_mr_cnt :: int
  c_conn :: "rdma_conn option"
  c_data_region_size :: int
  c_addr_region :: cfio_buf_addr
  c_posted :: "work_request list"
  c_cq :: "wc list list"

definition client_post :: "work_request \<Rightarrow> rdma_client \<Rightarrow> rdma_client" where
  "client_post wr s =
     s\<lparr>c_request_stack_size := c_request_stack_size s + 1, c_posted := c_posted s @ [wr]\<rparr>"

section \<open>Posting\<close>

text \<open>\<open>die\<close> ends the process.\<close>

definition cfio_rdma_client_write_data :: "int \<Rightarrow> int \<Rightarrow> int \<Rightarrow> rdma_client \<Rightarrow> rdma_client option" where
  "cfio_rdma_client_write_data remote_offset len local_offset s =
     (if remote_offset < 0 \<or> remote_offset + len > c_data_region_size s then None
      else do {
        x \<leftarrow> c_conn s;
        mr \<leftarrow> peer_data_mr x;
        Some (client_post (WR_WRITE_DATA 0 (mr_addr mr + remote_offset) len local_offset) s)
      })"

definition cfio_rdma_client_write_addr :: "rdma_client \<Rightarrow> rdma_client option" where
  "cfio_rdma_client_write_addr s =
     do {
       x \<leftarrow> c_conn s;
       mr \<leftarrow> peer_addr_mr x;
       Some (client_post (WR_WRITE 0 (mr_addr mr)) s)
     }"

definition client_send_message :: "rdma_msg \<Rightarrow> rdma_client \<Rightarrow> rdma_client option" where
  "client_send_message msg s =
     do {
       x \<leftarrow> c_conn s;
       if connected x then Some (client_post (WR_SEND 0 msg) s) else None
     }"

definition client_post_receives :: "rdma_client \<Rightarrow> rdma_client" where
  "client_post_receives s = client_post (WR_RECV 0) s"

text \<open>The exchange of address records by messages; the message still holds the regions that
  \<open>send_mr\<close> put there.\<close>

definition cfio_rdma_client_send_addr :: "rdma_client \<Rightarrow> rdma_client option" where
  "cfio_rdma_client_send_addr s =
     do {
       x \<leftarrow> c_conn s;
       client_send_message \<lparr>m_type = MSG_ADDR, m_rank = c_rank s, m_data_mr = data_mr x,
         m_addr_mr = addr_mr x, m_addr = c_addr_region s\<rparr> s
     }"

definition cfio_rdma_client_recv_ack :: "rdma_client \<Rightarrow> rdma_client option" where
  "cfio_rdma_client_recv_ack s = do { x \<leftarrow> c_conn s; Some (client_post_receives s) }"

section \<open>Completions\<close>

text \<open>A message lands in \<open>recv_msg\<close>; the client has no read outstanding that could bring bytes.\<close>

definition client_land :: "wc \<Rightarrow> rdma_client \<Rightarrow> rdma_client option" where
  "client_land w s =
     do {
       x \<leftarrow> c_conn s;
       case wc_landed w of
         Nothing \<Rightarrow> Some s
       | Bytes off d \<Rightarrow> None
       | Message msg \<Rightarrow> Some (s\<lparr>c_conn := Some (x\<lparr>recv_msg := Some msg\<rparr>)\<rparr>)
     }"

definition client_on_completion :: "wc \<Rightarrow> rdma_client \<Rightarrow> rdma_client option" where
  "client_on_completion w s =
     do {
       x \<leftarrow> c_conn s;
       x \<leftarrow> conn_completed (wc_recv w) x;
       let s = s\<lparr>c_conn := Some x\<rparr>;
       s \<leftarrow> (if wc_recv w then do {
              msg \<leftarrow> recv_msg x;
              Some (if MSG_ACK = m_type msg then s\<lparr>c_addr_region := m_addr msg\<rparr> else s)
            } else Some s);
       let s = (if RS_MR_RECV = recv_state x \<and> SS_MR_SENT = send_state x
                then s\<lparr>c_ready_mr_cnt := c_ready_mr_cnt s + 1\<rparr> else s);
       Some (s\<lparr>c_request_stack_size := c_request_stack_size s - 1\<rparr>)
     }"

fun client_completions :: "wc list \<Rightarrow> rdma_client \<Rightarrow> rdma_client option" where
  "client_completions [] s = Some s"
| "client_completions (w # ws) s =
     do { s \<leftarrow> client_land w s; s \<leftarrow> client_on_completion w s; client_completions ws s }"

text \<open>The loop over the events of the completion queue: it blocks for ever when none is left.\<close>

fun client_wait_events :: "wc list list \<Rightarrow> rdma_client \<Rightarrow> rdma_client option" where
  "client_wait_events evs s =
     (if c_request_stack_size s = 0 then Some (s\<lparr>c_cq := evs\<rparr>)
      else case evs of
          [] \<Rightarrow> None
        | ws # rest \<Rightarrow> do { s \<leftarrow> client_completions ws s; client_wait_events rest s })"

declare client_wait_events.simps [simp del]

definition cfio_rdma_client_wait :: "rdma_client \<Rightarrow> rdma_client option" where
  "cfio_rdma_client_wait s = client_wait_events (c_cq s) s"

section \<open>The connection\<close>

text \<open>The events of the connection manager; the first brings the regions that the library
  registers.\<close>

datatype client_event =
    ADDR_RESOLVED ibv_mr ibv_mr
  | ROUTE_RESOLVED
  | CONNECTION_ESTABLISHED
  | CONNECTION_DISCONNECTED
  | OTHER_EVENT

definition client_build_connection :: "ibv_mr \<Rightarrow> ibv_mr \<Rightarrow> rdma_client \<Rightarrow> rdma_client" where
  "client_build_connection dmr amr s = client_post_receives (s\<lparr>c_conn := Some (new_conn dmr amr 1)\<rparr>)"

definition client_send_mr :: "cfio_buf_addr \<Rightarrow> rdma_client \<Rightarrow> rdma_client option" where
  "client_send_mr junk s =
     do {
       x \<leftarrow> c_conn s;
       client_send_message \<lparr>m_type = MSG_MR, m_rank = c_rank s, m_data_mr = data_mr x,
         m_addr_mr = addr_mr x, m_addr = junk\<rparr> s
     }"

definition client_on_connection :: "cfio_buf_addr \<Rightarrow> rdma_client \<Rightarrow> (int \<times> rdma_client) option" where
  "client_on_connection junk s =
     do {
       x \<leftarrow> c_conn s;
       s \<leftarrow> client_send_mr junk (s\<lparr>c_conn := Some (x\<lparr>connected := True\<rparr>)\<rparr>);
       Some (1, s)
     }"

definition client_on_addr_resolved :: "ibv_mr \<Rightarrow> ibv_mr \<Rightarrow> rdma_client \<Rightarrow> int \<times> rdma_client" where
  "client_on_addr_resolved dmr amr s = (0, client_build_connection dmr amr s)"

text \<open>Only the library has something to do; \<open>rdma_connect\<close> answers with a later event.\<close>

definition client_on_route_resolved :: "rdma_client \<Rightarrow> int \<times> rdma_client" where
  "client_on_route_resolved s = (0, s)"

definition client_destroy_connection :: "rdma_client \<Rightarrow> rdma_client option" where
  "client_destroy_connection s = do { x \<leftarrow> c_conn s; Some (s\<lparr>c_conn := None\<rparr>) }"

definition client_on_disconnect :: "rdma_client \<Rightarrow> (int \<times> rdma_client) option" where
  "client_on_disconnect s = do { s \<leftarrow> client_destroy_connection s; Some (1, s) }"

definition client_on_event :: "cfio_buf_addr \<Rightarrow> client_event \<Rightarrow> rdma_client \<Rightarrow> (int \<times> rdma_client) option" where
  "client_on_event junk ev s =
     (case ev of
        ADDR_RESOLVED dmr amr \<Rightarrow> Some (client_on_addr_resolved dmr amr s)
      | ROUTE_RESOLVED \<Rightarrow> Some (client_on_route_resolved s)
      | CONNECTION_ESTABLISHED \<Rightarrow> client_on_connection junk s
      | CONNECTION_DISCONNECTED \<Rightarrow> client_on_disconnect s
      | OTHER_EVENT \<Rightarrow> None)"

fun wait_client_event ::
    "cfio_buf_addr \<Rightarrow> client_event list \<Rightarrow> rdma_client \<Rightarrow> (client_event list \<times> rdma_client) option" where
  "wait_client_event junk [] s = Some ([], s)"
| "wait_client_event junk (ev # evs) s =
     do {
       (r, s) \<leftarrow> client_on_event junk ev s;
       if r \<noteq> 0 then Some (evs, s) else wait_client_event junk evs s
     }"

text \<open>The last loop of the initialisation spins for ever when the regions have not been exchanged:
  nothing changes the counter any more.\<close>

definition cfio_rdma_client_init ::
    "cfio_buf_addr \<Rightarrow> int \<Rightarrow> int \<Rightarrow> cfio_buf_addr \<Rightarrow> client_event list \<Rightarrow> wc list list \<Rightarrow> rdma_client option" where
  "cfio_rdma_client_init junk rank data_region_size addr_region events completed =
     do {
       (rest, s) \<leftarrow> wait_client_event junk events
         \<lparr>c_rank = rank, c_request_stack_size = 0, c_ready_mr_cnt = 0, c_conn = None,
          c_data_region_size = data_region_size, c_addr_region = addr_region, c_posted = [], c_cq = completed\<rparr>;
       s \<leftarrow> cfio_rdma_client_wait s;
       if c_ready_mr_cnt s \<noteq> 0 then Some s else None
     }"

definition cfio_rdma_client_final :: "cfio_buf_addr \<Rightarrow> client_event list \<Rightarrow> rdma_client \<Rightarrow> rdma_client option" where
  "cfio_rdma_client_final junk events s =
     do {
       s \<leftarrow> cfio_rdma_client_wait s;
       x \<leftarrow> c_conn s;
       (rest, s) \<leftarrow> wait_client_event junk events s;
       Some s
     }"

section \<open>Every wait ends\<close>

text \<open>\<open>wires s\<close>: a client whose regions have been exchanged and whose connection does not leave
  the phase in which data are sent.\<close>

definition wired :: "ibv_mr \<Rightarrow> ibv_mr \<Rightarrow> rdma_client \<Rightarrow> bool" where
  "wired dmr amr s \<longleftrightarrow>
     (\<exists>x. c_conn s = Some x \<and> connected x \<and> peer_data_mr x = Some dmr \<and> peer_addr_mr x = Some amr \<and>
        recv_msg x \<noteq> None \<and> recv_state x = RS_MR_RECV \<and> (send_state x = SS_MR_SENT \<or> send_state x = SS_RDMA_SENDING))"

text \<open>The completion of a work request that the client sent.\<close>

definition sent_wc :: "wc \<Rightarrow> bool" where
  "sent_wc w \<longleftrightarrow> \<not> wc_recv w \<and> wc_landed w = Nothing"

lemma sent_completion:
  assumes "wired dmr amr s" "sent_wc w"
  shows "\<exists>s'. client_land w s = Some s \<and> client_on_completion w s = Some s' \<and> wired dmr amr s' \<and>
    c_request_stack_size s' = c_request_stack_size s - 1 \<and> c_posted s' = c_posted s \<and> c_addr_region s' = c_addr_region s"
proof -
  from assms(1) obtain x where x: "c_conn s = Some x" "connected x" "peer_data_mr x = Some dmr" "peer_addr_mr x = Some amr"
    "recv_msg x \<noteq> None" "recv_state x = RS_MR_RECV" "send_state x = SS_MR_SENT \<or> send_state x = SS_RDMA_SENDING"
    by (auto simp: wired_def)
  then have "conn_completed False x = Some (x\<lparr>send_state := SS_RDMA_SENDING\<rparr>)"
    by (auto simp: conn_completed_def)
  with x assms(2) show ?thesis
    by (simp add: client_land_def client_on_completion_def sent_wc_def wired_def)
qed

lemma sent_completions:
  assumes "wired dmr amr s" "\<forall>w \<in> set ws. sent_wc w"
  shows "\<exists>s'. client_completions ws s = Some s' \<and> wired dmr amr s' \<and>
    c_request_stack_size s' = c_request_stack_size s - int (length ws) \<and> c_posted s' = c_posted s \<and>
    c_addr_region s' = c_addr_region s"
  using assms
proof (induction ws arbitrary: s)
  case (Cons w ws)
  from sent_completion [OF Cons.prems(1)] Cons.prems(2) obtain s1 where
    s1: "client_land w s = Some s" "client_on_completion w s = Some s1" "wired dmr amr s1"
    "c_request_stack_size s1 = c_request_stack_size s - 1" "c_posted s1 = c_posted s" "c_addr_region s1 = c_addr_region s"
    by auto
  from Cons.IH [OF s1(3)] Cons.prems(2) s1 show ?case by auto
qed simp

lemma client_wait_ends:
  assumes "wired dmr amr s" "\<forall>w \<in> set (concat evs). sent_wc w" "[] \<notin> set evs"
    and "c_request_stack_size s = int (length (concat evs))"
  shows "\<exists>s'. client_wait_events (evs @ later) s = Some s' \<and> wired dmr amr s' \<and> c_request_stack_size s' = 0 \<and>
    c_posted s' = c_posted s \<and> c_cq s' = later \<and> c_addr_region s' = c_addr_region s"
  using assms
proof (induction evs arbitrary: s)
  case Nil
  then show ?case by (simp add: client_wait_events.simps wired_def)
next
  case (Cons ws evs)
  from sent_completions [OF Cons.prems(1), of ws] Cons.prems(2) obtain s1 where
    s1: "client_completions ws s = Some s1" "wired dmr amr s1"
    "c_request_stack_size s1 = c_request_stack_size s - int (length ws)" "c_posted s1 = c_posted s"
    "c_addr_region s1 = c_addr_region s" by auto
  have "c_request_stack_size s \<noteq> 0" using Cons.prems(3,4) by (cases ws) auto
  moreover from Cons.IH [OF s1(2)] Cons.prems s1(3) obtain s' where
    "client_wait_events (evs @ later) s1 = Some s'" "wired dmr amr s'" "c_request_stack_size s' = 0"
    "c_posted s' = c_posted s1" "c_cq s' = later" "c_addr_region s' = c_addr_region s1" by auto
  ultimately show ?case using s1
    by (intro exI [of _ s']) (simp add: client_wait_events.simps [of "ws # evs @ later"])
qed

section \<open>The set-up\<close>

definition mr_wc :: "int \<Rightarrow> ibv_mr \<Rightarrow> ibv_mr \<Rightarrow> wc \<Rightarrow> bool" where
  "mr_wc r dmr amr w \<longleftrightarrow> wc_recv w \<and>
     (\<exists>msg. wc_landed w = Message msg \<and> m_type msg = MSG_MR \<and> m_rank msg = r \<and> m_data_mr msg = dmr \<and> m_addr_mr msg = amr)"

lemma land_stack: "client_land w s = Some t \<Longrightarrow> c_request_stack_size t = c_request_stack_size s"
  by (auto simp: client_land_def split: bind_splits landing.splits)

lemma completion_stack:
  assumes "client_on_completion w s = Some t"
  shows "c_request_stack_size t = c_request_stack_size s - 1"
  using assms unfolding client_on_completion_def Let_def bind_eq_Some_conv
  by (elim exE conjE) (auto simp: bind_eq_Some_conv split: if_splits)

lemma no_batches: "[] \<notin> set evs \<Longrightarrow> concat evs = [] \<longleftrightarrow> evs = []"
  by (cases evs) auto

lemma two_batches:
  assumes "[] \<notin> set evs" "concat evs = [a, b]"
  shows "evs = [[a, b]] \<or> evs = [[a], [b]]"
proof -
  obtain ws evs' where e: "evs = ws # evs'" "ws \<noteq> []" "[] \<notin> set evs'" using assms by (cases evs) auto
  then consider "ws = [a, b]" "concat evs' = []" | "ws = [a]" "concat evs' = [b]"
    using assms(2) by (auto simp: append_eq_Cons_conv)
  then show ?thesis
  proof cases
    case 1
    then show ?thesis using e no_batches by auto
  next
    case 2
    then obtain us evs'' where "evs' = us # evs''" "us = [b]" "concat evs'' = []" using e(3)
      by (cases evs') (auto simp: append_eq_Cons_conv)
    then show ?thesis using e 2 no_batches [of evs''] by auto
  qed
qed

lemma client_init_wired:
  assumes evs: "events = [ADDR_RESOLVED d0 a0, ROUTE_RESOLVED, CONNECTION_ESTABLISHED]"
    and bs: "[] \<notin> set batches" "concat batches = [v, w] \<or> concat batches = [w, v]"
    and v: "mr_wc r dmr amr v" and w: "sent_wc w"
  shows "\<exists>s. cfio_rdma_client_init junk rk sz a (events @ later) (batches @ rest) = Some s \<and> wired dmr amr s \<and>
    c_request_stack_size s = 0 \<and> c_cq s = rest \<and> c_data_region_size s = sz \<and> c_addr_region s = a"
proof -
  let ?x = "(new_conn d0 a0 1)\<lparr>connected := True\<rparr>"
  obtain msg where msg: "wc_recv v" "wc_landed v = Message msg" "m_type msg = MSG_MR" "m_rank msg = r"
    "m_data_mr msg = dmr" "m_addr_mr msg = amr" using v by (auto simp: mr_wc_def)
  have w': "\<not> wc_recv w" "wc_landed w = Nothing" using w by (simp_all add: sent_wc_def)
  define s0 where "s0 = \<lparr>c_rank = rk, c_request_stack_size = 0, c_ready_mr_cnt = 0, c_conn = None,
          c_data_region_size = sz, c_addr_region = a, c_posted = [], c_cq = batches @ rest\<rparr>"
  obtain s1 where s1: "wait_client_event junk (events @ later) s0 = Some (later, s1)" "c_conn s1 = Some ?x"
    "c_request_stack_size s1 = 2" "c_ready_mr_cnt s1 = 0" "c_cq s1 = batches @ rest" "c_data_region_size s1 = sz" "c_addr_region s1 = a"
    by (simp add: evs client_on_event_def client_on_addr_resolved_def client_on_route_resolved_def client_build_connection_def client_post_receives_def client_on_connection_def
        client_send_mr_def client_send_message_def client_post_def new_conn_def s0_def)
  note run = client_land_def client_on_completion_def conn_completed_def new_conn_def msg w' s1(2-7)
  obtain s2 where s2: "client_completions (concat batches) s1 = Some s2" "wired dmr amr s2" "c_request_stack_size s2 = 0"
    "c_ready_mr_cnt s2 = 1" "c_data_region_size s2 = sz" "c_addr_region s2 = a"
    using bs(2) by (elim disjE) (simp_all add: run wired_def)
  have "\<exists>t. client_wait_events (batches @ rest) s1 = Some t \<and> t = s2\<lparr>c_cq := rest\<rparr>"
  proof -
    consider x y where "batches = [[x, y]]" "concat batches = [x, y]" | x y where "batches = [[x], [y]]" "concat batches = [x, y]"
      using bs two_batches by metis
    then show ?thesis
    proof cases
      case 1
      then show ?thesis using s1(3) s2
        by (simp add: client_wait_events.simps [of "[x, y] # rest"] client_wait_events.simps [of rest])
    next
      case 2
      then obtain u where u: "client_completions [x] s1 = Some u" "client_completions [y] u = Some s2"
        using s2(1) by (auto split: bind_splits)
      then have "c_request_stack_size u = 1"
        using s1(3) by (auto split: bind_splits dest!: land_stack completion_stack)
      then show ?thesis using 2 s1(3) s2(3) u
        by (simp add: client_wait_events.simps [of "[x] # [y] # rest"] client_wait_events.simps [of "[y] # rest"]
            client_wait_events.simps [of rest])
    qed
  qed
  then have "cfio_rdma_client_wait s1 = Some (s2\<lparr>c_cq := rest\<rparr>)" using s1(5) by (auto simp: cfio_rdma_client_wait_def)
  with s1(1) s2 show ?thesis by (simp add: cfio_rdma_client_init_def s0_def wired_def)
qed

section \<open>Handing over, again and again\<close>

text \<open>What \<open>send.c\<close> does with the transport: it writes the address record and waits.\<close>

primrec hand_overs :: "nat \<Rightarrow> rdma_client \<Rightarrow> rdma_client option" where
  "hand_overs 0 s = Some s"
| "hand_overs (Suc n) s =
     do { s \<leftarrow> cfio_rdma_client_write_addr s; s \<leftarrow> cfio_rdma_client_wait s; hand_overs n s }"

lemma hand_over_once:
  assumes "wired dmr amr s" "c_request_stack_size s = 0" "c_cq s = [w] # rest" "sent_wc w"
  shows "\<exists>s1 s2. cfio_rdma_client_write_addr s = Some s1 \<and> cfio_rdma_client_wait s1 = Some s2 \<and> wired dmr amr s2 \<and>
    c_request_stack_size s2 = 0 \<and> c_cq s2 = rest \<and> c_posted s2 = c_posted s @ [WR_WRITE 0 (mr_addr amr)] \<and>
    c_addr_region s2 = c_addr_region s"
proof -
  let ?s1 = "client_post (WR_WRITE 0 (mr_addr amr)) s"
  have w1: "cfio_rdma_client_write_addr s = Some ?s1" "wired dmr amr ?s1"
    using assms(1) by (auto simp: wired_def cfio_rdma_client_write_addr_def client_post_def)
  have "c_request_stack_size ?s1 = int (length (concat [[w]]))" "c_cq ?s1 = [[w]] @ rest"
    "c_posted ?s1 = c_posted s @ [WR_WRITE 0 (mr_addr amr)]" "c_addr_region ?s1 = c_addr_region s"
    using assms(2,3) by (simp_all add: client_post_def)
  with client_wait_ends [OF w1(2), of "[[w]]" rest] assms(4) w1(1) show ?thesis
    by (auto simp: cfio_rdma_client_wait_def)
qed

lemma hand_overs_end:
  assumes "wired dmr amr s" "c_request_stack_size s = 0" "c_cq s = map (\<lambda>w. [w]) ws @ rest" "\<forall>w \<in> set ws. sent_wc w"
  shows "\<exists>s'. hand_overs (length ws) s = Some s' \<and> wired dmr amr s' \<and> c_request_stack_size s' = 0 \<and> c_cq s' = rest \<and>
    c_posted s' = c_posted s @ replicate (length ws) (WR_WRITE 0 (mr_addr amr)) \<and> c_addr_region s' = c_addr_region s"
  using assms
proof (induction ws arbitrary: s)
  case (Cons w ws)
  from hand_over_once [OF Cons.prems(1,2), of w "map (\<lambda>w. [w]) ws @ rest"] Cons.prems(3,4) obtain s1 s2 where
    s: "cfio_rdma_client_write_addr s = Some s1" "cfio_rdma_client_wait s1 = Some s2" "wired dmr amr s2"
    "c_request_stack_size s2 = 0" "c_cq s2 = map (\<lambda>w. [w]) ws @ rest" "c_posted s2 = c_posted s @ [WR_WRITE 0 (mr_addr amr)]"
    "c_addr_region s2 = c_addr_region s" by auto
  from Cons.IH [OF s(3-5)] Cons.prems(4) s show ?case by auto
qed simp

text \<open>C39. The client's transport never hangs when the network answers. The server's regions and the
  completion of the client's own message arrive in either order, in one or two events; the
  initialisation then returns, and its last busy loop ends. After that each writing of the address
  record is completed by the wait that follows it, however often this is done: exactly one write
  is posted each time, always to the region the server named, no request stays open, and
  completions keep the connection in a phase in which the next one can be handled.\<close>

theorem client_transport_returns:
  assumes "events = [ADDR_RESOLVED d0 a0, ROUTE_RESOLVED, CONNECTION_ESTABLISHED]"
    and "[] \<notin> set batches" "concat batches = [v, w] \<or> concat batches = [w, v]"
    and "mr_wc r dmr amr v" "sent_wc w" "\<forall>u \<in> set us. sent_wc u"
  shows "\<exists>s s'. cfio_rdma_client_init junk rk sz a (events @ later) (batches @ map (\<lambda>u. [u]) us) = Some s \<and>
    hand_overs (length us) s = Some s' \<and>
    c_posted s' = c_posted s @ replicate (length us) (WR_WRITE 0 (mr_addr amr)) \<and>
    c_request_stack_size s' = 0 \<and> c_addr_region s' = a"
proof -
  from client_init_wired [OF assms(1-5)] obtain s where
    s: "cfio_rdma_client_init junk rk sz a (events @ later) (batches @ map (\<lambda>u. [u]) us) = Some s" "wired dmr amr s"
    "c_request_stack_size s = 0" "c_cq s = map (\<lambda>u. [u]) us" "c_addr_region s = a" by blast
  from hand_overs_end [OF s(2,3), of us "[]"] s(4,5) assms(6) obtain s' where
    "hand_overs (length us) s = Some s'" "c_request_stack_size s' = 0"
    "c_posted s' = c_posted s @ replicate (length us) (WR_WRITE 0 (mr_addr amr))" "c_addr_region s' = a" by auto
  with s(1) show ?thesis by blast
qed

theorem client_transport_returns_witness:
  "\<exists>s s' msg. m_addr_mr msg = example_mr 7 2 \<and>
    cfio_rdma_client_init example_addr 3 100 example_addr
      [ADDR_RESOLVED (example_mr 5 1) (example_mr 6 1), ROUTE_RESOLVED, CONNECTION_ESTABLISHED]
      [[\<lparr>wr_id = 0, wc_recv = False, wc_landed = Nothing\<rparr>], [\<lparr>wr_id = 0, wc_recv = True, wc_landed = Message msg\<rparr>],
       [\<lparr>wr_id = 0, wc_recv = False, wc_landed = Nothing\<rparr>]] = Some s \<and>
    hand_overs 1 s = Some s' \<and> c_posted s' = c_posted s @ [WR_WRITE 0 (mr_addr (example_mr 7 2))]"
proof -
  let ?msg = "\<lparr>m_type = MSG_MR, m_rank = 9, m_data_mr = example_mr 8 2, m_addr_mr = example_mr 7 2, m_addr = example_addr\<rparr>"
  let ?v = "\<lparr>wr_id = 0, wc_recv = True, wc_landed = Message ?msg\<rparr>" and ?w = "\<lparr>wr_id = 0, wc_recv = False, wc_landed = Nothing\<rparr>"
  have "mr_wc 9 (example_mr 8 2) (example_mr 7 2) ?v" "sent_wc ?w" by (simp_all add: mr_wc_def sent_wc_def)
  from client_transport_returns [OF refl, of "[[?w], [?v]]" ?v ?w, OF _ _ this, of "[?w]" example_addr 3 100 example_addr "example_mr 5 1" "example_mr 6 1" "[]"]
    \<open>sent_wc ?w\<close>
  obtain s s' where "cfio_rdma_client_init example_addr 3 100 example_addr
      [ADDR_RESOLVED (example_mr 5 1) (example_mr 6 1), ROUTE_RESOLVED, CONNECTION_ESTABLISHED]
      [[?w], [?v], [?w]] = Some s" "hand_overs 1 s = Some s'"
    "c_posted s' = c_posted s @ [WR_WRITE 0 (mr_addr (example_mr 7 2))]" by auto
  then show ?thesis by (intro exI [of _ s] exI [of _ s'] exI [of _ ?msg]) simp
qed

end
