(* ===== verification/Msg.thy ===== *)
theory Msg
  imports Procmap
begin

text \<open>
  Messages (\<open>msg.h\<close>, \<open>msg.c\<close>): the descriptor of a message in a buffer, its routing, and
  the size limit that client and server agree on. The MPI request handle is never used.
\<close>

record cfio_msg =
  mfunc_code :: u32
  msize :: nat
  maddr :: nat
  src :: int
  dst :: int
  mcomm :: int

definition cfio_msg_create :: cfio_msg where
  "cfio_msg_create = \<lparr>mfunc_code = 0, msize = 0, maddr = 0, src = 0, dst = 0, mcomm = 0\<rparr>"

definition cfio_map_forwarding :: "map_state \<Rightarrow> cfio_msg \<Rightarrow> cfio_msg option" where
  "cfio_map_forwarding m msg =
     do {
       d \<leftarrow> cfio_map_get_server_of_client m (src msg);
       Some (msg\<lparr>dst := d, mcomm := comm m\<rparr>)
     }"

text \<open>
  \<open>client_num_of_server\<close> is an \<open>int\<close> used as a divisor of \<open>size_t\<close> values; it is positive
  where it is defined. For a blank process it is never assigned.
\<close>

definition cfio_msg_get_max_size :: "map_state \<Rightarrow> int \<Rightarrow> nat option" where
  "cfio_msg_get_max_size m proc_id =
     do {
       type \<leftarrow> cfio_map_proc_type m proc_id;
       client_num_of_server \<leftarrow>
         (case type of
            CFIO_MAP_TYPE_CLIENT \<Rightarrow>
              do {
                server_id \<leftarrow> cfio_map_get_server_of_client m proc_id;
                cfio_map_get_client_num_of_server m server_id
              }
          | CFIO_MAP_TYPE_SERVER \<Rightarrow> cfio_map_get_client_num_of_server m proc_id
          | CFIO_MAP_TYPE_BLANK \<Rightarrow> None);
       if client_num_of_server = 0 \<or> client_amount m = 0 then None
       else do {
         let max_msg_size = MSG_BUF_SIZE;
         let max_msg_size = min max_msg_size (RECV_BUF_SIZE div nat client_num_of_server div 2);
         let max_msg_size = min max_msg_size (SEND_BUF_SIZE div 2);
         Some (max max_msg_size (SEND_MSG_MIN_SIZE div nat (client_amount m)))
       }
     }"

lemma client_server_range:
  assumes "map_inv m" "0 \<le> c" "c < client_amount m"
  obtains s where "cfio_map_get_server_of_client m c = Some s"
    and "client_amount m \<le> s" "s < client_amount m + server_amount m"
proof -
  from client_has_place [OF assms] obtain k i where
    p: "0 \<le> k" "k < server_amount m" "0 \<le> i" "i < px m * py m" "c = client_at m k i" by blast
  with client_at_server(1) [OF assms(1) p(1-4)] show ?thesis by (intro that) auto
qed

text \<open>A client and the server it forwards to compute the same message size limit, and
  the limit is at least the client's share of \<open>SEND_MSG_MIN_SIZE\<close>.\<close>

theorem max_size_agrees:
  assumes "map_inv m" "0 \<le> c" "c < client_amount m"
  shows "\<exists>s n. cfio_map_get_server_of_client m c = Some s \<and>
    cfio_msg_get_max_size m c = Some n \<and> cfio_msg_get_max_size m s = Some n \<and>
    SEND_MSG_MIN_SIZE div nat (client_amount m) \<le> n"
proof -
  from client_server_range [OF assms] obtain s where s: "cfio_map_get_server_of_client m c = Some s"
    "client_amount m \<le> s" "s < client_amount m + server_amount m" .
  have c: "cfio_map_proc_type m c = Some CFIO_MAP_TYPE_CLIENT"
    using assms by (simp add: cfio_map_proc_type_def)
  have v: "cfio_map_proc_type m s = Some CFIO_MAP_TYPE_SERVER"
    using s assms by (simp add: cfio_map_proc_type_def)
  note b = map_inv_blocks [OF assms(1)]
  have "cfio_map_get_client_num_of_server m s = Some (px m * py m)"
    using v b map_inv_amount_nonneg [OF assms(1)] by (simp add: cfio_map_get_client_num_of_server_def)
  with s c v b(3,4) map_inv_amount_nonneg [OF assms(1)] show ?thesis
    by (simp add: cfio_msg_get_max_size_def Let_def)
qed

theorem max_size_agrees_witness:
  "\<exists>s n. cfio_map_get_server_of_client map_4_6 5 = Some s \<and>
    cfio_msg_get_max_size map_4_6 5 = Some n \<and> cfio_msg_get_max_size map_4_6 s = Some n \<and>
    SEND_MSG_MIN_SIZE div nat (client_amount map_4_6) \<le> n"
  by (rule max_size_agrees) (simp_all add: map_4_6_inv, simp add: map_4_6_def)

end
