(* ===== verification/Send.thy ===== *)
theory Send
  imports Addr
begin

text \<open>
  The client's side of the forwarding (\<open>send.c\<close>): every API call packs one message into the
  send buffer, waiting for room when there is none, and the buffer is handed to the server
  through the address record. \<open>SEND_ADDR\<close> is not defined in \<open>define.h\<close>, so the record is
  written by RDMA. The timing statistics are not modelled.
\<close>

section \<open>State\<close>

record client =
  caddr :: cfio_buf_addr
  inbound :: "cfio_buf_addr list"
  outbound :: "cfio_buf_addr list"
  itr :: int

text \<open>
  \<open>inbound\<close> holds the server's answers that are still to land in \<open>caddr\<close>; \<open>outbound\<close> is the
  history of the records written to the server.
\<close>

definition write_addr :: "client \<Rightarrow> client" where
  "write_addr c =
     c\<lparr>outbound := outbound c @ [caddr c], inbound := inbound c @ server_reply (caddr c)\<rparr>"

definition wait_addr :: "client \<Rightarrow> client option" where
  "wait_addr c =
     do {
       (a, rest) \<leftarrow> cfio_rdma_addr_client_wait (caddr c) (inbound c);
       Some (c\<lparr>caddr := a, inbound := rest\<rparr>)
     }"

definition cfio_send_init :: "byte list \<Rightarrow> cfio_buf_addr \<Rightarrow> (client \<times> cfio_buf) option" where
  "cfio_send_init junk a0 =
     (if length junk = SEND_BUF_SIZE
      then (let buffer = cfio_buf_open junk
            in Some (\<lparr>caddr = cfio_rdma_addr_init (Some buffer) a0, inbound = [],
                      outbound = [], itr = 1\<rparr>, buffer))
      else None)"

definition cfio_send_client_buf_free :: "client space_source" where
  "cfio_send_client_buf_free c buffer =
     do {
       c \<leftarrow> wait_addr c;
       if used_addr buffer \<noteq> a_free (caddr c)
       then Some (c, buffer\<lparr>used_addr := a_free (caddr c)\<rparr>)
       else do {
         let c = c\<lparr>caddr := cfio_rdma_addr_init (Some buffer) (caddr c)\<rparr>;
         let c = c\<lparr>caddr := cfio_rdma_addr_client_clear_signal (caddr c)\<rparr>;
         let c = write_addr c;
         c \<leftarrow> wait_addr c;
         let buffer = buffer\<lparr>used_addr := a_free (caddr c)\<rparr>;
         let c = c\<lparr>caddr := cfio_rdma_addr_init (Some buffer) (caddr c)\<rparr>;
         Some (c, buffer)
       }
     }"

definition cfio_send_client_buf_free_old :: "client space_source" where
  "cfio_send_client_buf_free_old c buffer =
     do {
       c \<leftarrow> wait_addr c;
       let buffer = buffer\<lparr>used_addr := a_free (caddr c)\<rparr>;
       let c = c\<lparr>caddr := cfio_rdma_addr_init (Some buffer) (caddr c)\<rparr>;
       let c = c\<lparr>caddr := cfio_rdma_addr_client_clear_signal (caddr c)\<rparr>;
       let c = write_addr c;
       c \<leftarrow> wait_addr c;
       let buffer = buffer\<lparr>used_addr := a_free (caddr c)\<rparr>;
       let c = c\<lparr>caddr := cfio_rdma_addr_init (Some buffer) (caddr c)\<rparr>;
       Some (c, buffer)
     }"

section \<open>Packing the calls\<close>

text \<open>\<open>size += n\<close> on \<open>size_t\<close>.\<close>

definition size_sum :: "nat list \<Rightarrow> nat" where
  "size_sum ns = sum_list ns mod 2 ^ 64"

definition pack_header :: "nat \<Rightarrow> u32 \<Rightarrow> cfio_buf \<Rightarrow> cfio_buf option" where
  "pack_header sz code b =
     do {
       b \<leftarrow> cfio_buf_pack_data (enc_u64 (word_of_nat sz)) sizeof_size_t b;
       cfio_buf_pack_data (enc_i32 code) sizeof_uint32 b
     }"

definition pack_int :: "i32 \<Rightarrow> cfio_buf \<Rightarrow> cfio_buf option" where
  "pack_int w b = cfio_buf_pack_data (enc_i32 w) sizeof_int b"

type_synonym send_result = "(int \<times> client \<times> cfio_buf) option"

definition cfio_send_create ::
    "byte list \<Rightarrow> i32 \<Rightarrow> i32 \<Rightarrow> client \<Rightarrow> cfio_buf \<Rightarrow> send_result" where
  "cfio_send_create path cmode ncid c b =
     do {
       let sz = size_sum [sizeof_size_t, sizeof_uint32, cfio_buf_str_size path, sizeof_int, sizeof_int];
       (c, b) \<leftarrow> ensure_free_space cfio_send_client_buf_free sz c b;
       b \<leftarrow> pack_header sz FUNC_NC_CREATE b;
       b \<leftarrow> cfio_buf_pack_str path b;
       b \<leftarrow> pack_int cmode b;
       b \<leftarrow> pack_int ncid b;
       Some (CFIO_ERROR_NONE, c, b)
     }"

definition cfio_send_def_dim ::
    "i32 \<Rightarrow> byte list \<Rightarrow> u64 \<Rightarrow> i32 \<Rightarrow> client \<Rightarrow> cfio_buf \<Rightarrow> send_result" where
  "cfio_send_def_dim ncid name len dimid c b =
     do {
       let sz = size_sum [sizeof_size_t, sizeof_uint32, sizeof_int, cfio_buf_str_size name,
                          sizeof_size_t, sizeof_int];
       (c, b) \<leftarrow> ensure_free_space cfio_send_client_buf_free sz c b;
       b \<leftarrow> pack_header sz FUNC_NC_DEF_DIM b;
       b \<leftarrow> pack_int ncid b;
       b \<leftarrow> cfio_buf_pack_str name b;
       b \<leftarrow> cfio_buf_pack_data (enc_u64 len) sizeof_size_t b;
       b \<leftarrow> pack_int dimid b;
       Some (CFIO_ERROR_NONE, c, b)
     }"

definition cfio_send_def_var_old ::
    "i32 \<Rightarrow> byte list \<Rightarrow> i32 \<Rightarrow> i32 \<Rightarrow> i32 list \<Rightarrow> u64 list \<Rightarrow> u64 list \<Rightarrow> i32 \<Rightarrow>
     client \<Rightarrow> cfio_buf \<Rightarrow> send_result" where
  "cfio_send_def_var_old ncid name xtype ndims dimids start count varid c b =
     do {
       let sz = size_sum [sizeof_size_t, sizeof_uint32, sizeof_int, cfio_buf_str_size name, sizeof_int,
                          cfio_buf_data_array_size (size_of_int ndims) sizeof_int,
                          cfio_buf_data_array_size (size_of_int ndims) sizeof_size_t,
                          cfio_buf_data_array_size (size_of_int ndims) sizeof_size_t,
                          sizeof_int];
       (c, b) \<leftarrow> ensure_free_space cfio_send_client_buf_free sz c b;
       b \<leftarrow> pack_header sz FUNC_NC_DEF_VAR b;
       b \<leftarrow> pack_int ncid b;
       b \<leftarrow> cfio_buf_pack_str name b;
       b \<leftarrow> pack_int xtype b;
       b \<leftarrow> cfio_buf_pack_data_array (enc_i32s dimids) ndims sizeof_int b;
       b \<leftarrow> cfio_buf_pack_data_array (enc_u64s start) ndims sizeof_size_t b;
       b \<leftarrow> cfio_buf_pack_data_array (enc_u64s count) ndims sizeof_size_t b;
       b \<leftarrow> pack_int varid b;
       Some (CFIO_ERROR_NONE, c, b)
     }"

definition cfio_send_def_var ::
    "i32 \<Rightarrow> byte list \<Rightarrow> i32 \<Rightarrow> i32 \<Rightarrow> i32 list \<Rightarrow> i32 \<Rightarrow> client \<Rightarrow> cfio_buf \<Rightarrow> send_result" where
  "cfio_send_def_var ncid name xtype ndims dimids varid c b =
     do {
       let sz = size_sum ([sizeof_size_t, sizeof_uint32, sizeof_int, cfio_buf_str_size name,
                           sizeof_int, sizeof_int] @
                          (if ndims \<noteq> 0 then [cfio_buf_data_array_size (size_of_int ndims) sizeof_int]
                           else []) @
                          [sizeof_int]);
       (c, b) \<leftarrow> ensure_free_space cfio_send_client_buf_free sz c b;
       b \<leftarrow> pack_header sz FUNC_NC_DEF_VAR b;
       b \<leftarrow> pack_int ncid b;
       b \<leftarrow> cfio_buf_pack_str name b;
       b \<leftarrow> pack_int xtype b;
       b \<leftarrow> pack_int ndims b;
       b \<leftarrow> (if ndims \<noteq> 0 then cfio_buf_pack_data_array (enc_i32s dimids) ndims sizeof_int b
             else Some b);
       b \<leftarrow> pack_int varid b;
       Some (CFIO_ERROR_NONE, c, b)
     }"

definition cfio_send_put_att ::
    "i32 \<Rightarrow> i32 \<Rightarrow> byte list \<Rightarrow> i32 \<Rightarrow> u64 \<Rightarrow> byte list \<Rightarrow> client \<Rightarrow> cfio_buf \<Rightarrow> send_result" where
  "cfio_send_put_att ncid varid name xtype len op c b =
     do {
       att_size \<leftarrow> cfio_types_size xtype;
       let sz = size_sum [sizeof_size_t, sizeof_uint32, sizeof_int, sizeof_int,
                          cfio_buf_str_size name, sizeof_int,
                          cfio_buf_data_array_size (unat len) att_size];
       (c, b) \<leftarrow> ensure_free_space cfio_send_client_buf_free sz c b;
       b \<leftarrow> pack_header sz FUNC_PUT_ATT b;
       b \<leftarrow> pack_int ncid b;
       b \<leftarrow> pack_int varid b;
       b \<leftarrow> cfio_buf_pack_str name b;
       b \<leftarrow> pack_int xtype b;
       b \<leftarrow> cfio_buf_pack_data_array op (ucast len) att_size b;
       Some (CFIO_ERROR_NONE, c, b)
     }"

definition cfio_send_enddef :: "i32 \<Rightarrow> client \<Rightarrow> cfio_buf \<Rightarrow> send_result" where
  "cfio_send_enddef ncid c b =
     do {
       let sz = size_sum [sizeof_size_t, sizeof_uint32, sizeof_int];
       (c, b) \<leftarrow> ensure_free_space cfio_send_client_buf_free sz c b;
       b \<leftarrow> pack_header sz FUNC_NC_ENDDEF b;
       b \<leftarrow> pack_int ncid b;
       Some (CFIO_ERROR_NONE, c, b)
     }"

text \<open>The number of elements: \<open>data_len *= count[i]\<close> for the \<open>ndims\<close> entries of \<open>count\<close>.\<close>

definition vara_len :: "i32 \<Rightarrow> u64 list \<Rightarrow> u64 option" where
  "vara_len ndims count =
     (let n = nat (sint ndims)
      in if n \<le> length count then Some (prod_list (take n count)) else None)"

text \<open>The code switches on the type twice; without a matching case it packs no data at all.\<close>

definition cfio_send_put_vara ::
    "i32 \<Rightarrow> i32 \<Rightarrow> i32 \<Rightarrow> u64 list \<Rightarrow> u64 list \<Rightarrow> i32 \<Rightarrow> byte list \<Rightarrow>
     client \<Rightarrow> cfio_buf \<Rightarrow> send_result" where
  "cfio_send_put_vara ncid varid ndims start count fp_type fp c b =
     do {
       data_len \<leftarrow> vara_len ndims count;
       let sz = size_sum ([sizeof_size_t, sizeof_uint32, sizeof_int, sizeof_int,
                           cfio_buf_data_array_size (size_of_int ndims) sizeof_size_t,
                           cfio_buf_data_array_size (size_of_int ndims) sizeof_size_t, sizeof_int] @
                          (case cfio_type_of fp_type of
                             Some t \<Rightarrow> [cfio_buf_data_array_size (unat data_len) (type_size t)]
                           | None \<Rightarrow> []));
       (c, b) \<leftarrow> ensure_free_space cfio_send_client_buf_free sz c b;
       b \<leftarrow> pack_header sz FUNC_NC_PUT_VARA b;
       b \<leftarrow> pack_int ncid b;
       b \<leftarrow> pack_int varid b;
       b \<leftarrow> cfio_buf_pack_data_array (enc_u64s start) ndims sizeof_size_t b;
       b \<leftarrow> cfio_buf_pack_data_array (enc_u64s count) ndims sizeof_size_t b;
       b \<leftarrow> pack_int fp_type b;
       b \<leftarrow> (case cfio_type_of fp_type of
               Some t \<Rightarrow> cfio_buf_pack_data_array fp (ucast data_len) (type_size t) b
             | None \<Rightarrow> Some b);
       Some (CFIO_ERROR_NONE, c, b)
     }"

definition cfio_send_close :: "i32 \<Rightarrow> client \<Rightarrow> cfio_buf \<Rightarrow> send_result" where
  "cfio_send_close ncid c b =
     do {
       let sz = size_sum [sizeof_size_t, sizeof_uint32, sizeof_int];
       (c, b) \<leftarrow> ensure_free_space cfio_send_client_buf_free sz c b;
       b \<leftarrow> pack_header sz FUNC_NC_CLOSE b;
       b \<leftarrow> pack_int ncid b;
       Some (CFIO_ERROR_NONE, c, b)
     }"

section \<open>Handing the buffer over\<close>

definition cfio_send_io_done :: "client \<Rightarrow> cfio_buf \<Rightarrow> send_result" where
  "cfio_send_io_done c b =
     do {
       c \<leftarrow> wait_addr c;
       let c = c\<lparr>caddr := cfio_rdma_addr_client_end_signal (caddr c)\<rparr>;
       let c = write_addr c;
       Some (CFIO_ERROR_NONE, c\<lparr>itr := itr c + 1\<rparr>, b)
     }"

definition cfio_send_io_end :: "client \<Rightarrow> cfio_buf \<Rightarrow> send_result" where
  "cfio_send_io_end c b =
     do {
       c \<leftarrow> wait_addr c;
       let b = b\<lparr>used_addr := a_free (caddr c)\<rparr>;
       let c = c\<lparr>caddr := cfio_rdma_addr_init (Some b) (caddr c)\<rparr>;
       let c = c\<lparr>caddr := cfio_rdma_addr_client_clear_signal (caddr c)\<rparr>;
       let c = write_addr c;
       Some (CFIO_ERROR_NONE, c\<lparr>itr := itr c + 1\<rparr>, b)
     }"

section \<open>The callback makes room\<close>

text \<open>
  \<open>in_region b x\<close>: the unread part of the ring can start at \<open>x\<close>; the server has consumed
  what lies before.
\<close>

definition in_region :: "cfio_buf \<Rightarrow> nat \<Rightarrow> bool" where
  "in_region b x \<longleftrightarrow>
     (if used_addr b \<le> free_addr b then used_addr b \<le> x \<and> x \<le> free_addr b
      else end_addr b \<le> bsize b \<and> x < bsize b \<and>
        (used_addr b \<le> x \<and> x \<le> end_addr b \<or> x \<le> free_addr b \<and> used_addr b \<le> end_addr b))"

definition last_ack :: "client \<Rightarrow> cfio_buf_addr" where
  "last_ack c = (case inbound c of [] \<Rightarrow> caddr c | r # _ \<Rightarrow> r)"

text \<open>
  Between two calls the client either holds the server's last answer or it is on its way, and
  the place up to which the server has read is in the ring.
\<close>

definition client_good :: "client \<Rightarrow> cfio_buf \<Rightarrow> bool" where
  "client_good c b \<longleftrightarrow>
     (inbound c = [] \<and> signal (caddr c) \<noteq> 1 \<or>
      signal (caddr c) = 1 \<and> (\<exists>r. inbound c = [r] \<and> signal r \<noteq> 1)) \<and>
     in_region b (a_free (last_ack c))"

definition client_effort :: "client \<Rightarrow> cfio_buf \<Rightarrow> nat" where
  "client_effort c b =
     (if bsize b \<le> free_buf_size b + 1 then 0
      else if used_addr b \<noteq> a_free (last_ack c) then 2 else 1)"

lemma wait_addr_good:
  "client_good c b \<Longrightarrow> wait_addr c = Some (c\<lparr>caddr := last_ack c, inbound := []\<rparr>)"
  by (auto simp: client_good_def wait_addr_def cfio_rdma_addr_client_wait_def last_ack_def
      spin_while_done spin_while_step)

lemma last_ack_done: "client_good c b \<Longrightarrow> signal (last_ack c) \<noteq> 1"
  by (auto simp: client_good_def last_ack_def)

lemma in_region_free: "buf_inv b \<Longrightarrow> used_addr b \<le> free_addr b \<Longrightarrow> in_region b (free_addr b)"
  by (simp add: in_region_def)

lemma in_region_less: "in_region b x \<Longrightarrow> buf_inv b \<Longrightarrow> x < bsize b"
  by (auto simp: in_region_def buf_inv_def split: if_splits)

lemma contents_used:
  assumes "buf_inv b" "in_region b x"
  shows "\<exists>k. contents (b\<lparr>used_addr := x\<rparr>) = drop k (contents b)"
proof -
  have len: "length (bmem b) = bsize b" using assms(1) by (simp add: buf_inv_def)
  consider "used_addr b \<le> free_addr b"
    | "free_addr b < used_addr b" "used_addr b \<le> x" "x \<le> end_addr b" "end_addr b \<le> bsize b"
    | "free_addr b < used_addr b" "x \<le> free_addr b" "used_addr b \<le> end_addr b" "end_addr b \<le> bsize b"
    using assms(2) by (auto simp: in_region_def not_le split: if_splits)
  then show ?thesis
  proof cases
    case 1
    with assms(2) have "contents (b\<lparr>used_addr := x\<rparr>) = drop (x - used_addr b) (contents b)"
      by (simp add: in_region_def contents_def drop_slice)
    then show ?thesis ..
  next
    case 2
    then have "contents (b\<lparr>used_addr := x\<rparr>) = drop (x - used_addr b) (contents b)"
      using len by (simp add: contents_def drop_slice)
    then show ?thesis ..
  next
    case 3
    then have "contents (b\<lparr>used_addr := x\<rparr>) = drop (end_addr b - used_addr b + x) (contents b)"
      using len by (simp add: contents_def drop_slice)
    then show ?thesis ..
  qed
qed

lemma ring_addrs: "buf_inv b \<Longrightarrow> free_addr b < bsize b" "buf_inv b \<Longrightarrow> used_addr b < bsize b"
  by (simp_all add: buf_inv_def)

lemma advanced_used:
  assumes "buf_inv b" "in_region b x"
  shows "advanced b (b\<lparr>used_addr := x\<rparr>)"
proof -
  have inv: "buf_inv (b\<lparr>used_addr := x\<rparr>)"
    using assms in_region_less [OF assms(2,1)] by (simp add: buf_inv_def magic_ok_def)
  moreover have "free_buf_size b \<le> free_buf_size (b\<lparr>used_addr := x\<rparr>)"
    using assms(2) in_region_less [OF assms(2,1)] ring_addrs [OF assms(1)]
    by (auto simp: free_buf_size_eq [OF inv] free_buf_size_eq [OF assms(1)] in_region_def split: if_splits)
  ultimately show ?thesis using contents_used [OF assms] by (auto simp: advanced_def)
qed

lemma in_region_self: "buf_inv b \<Longrightarrow> in_region b x \<Longrightarrow> in_region (b\<lparr>used_addr := x\<rparr>) x"
  by (auto simp: in_region_def buf_inv_def split: if_splits)

text \<open>When the server has read everything there was, the ring is empty.\<close>

lemma free_buf_size_empty: "buf_inv b \<Longrightarrow> used_addr b = free_addr b \<Longrightarrow> free_buf_size b + 1 = bsize b"
  by (simp add: free_buf_size_eq) (simp add: buf_inv_def)

lemma addr_init_select [simp]:
  "signal (cfio_rdma_addr_init (Some b) a) = 0" "a_free (cfio_rdma_addr_init (Some b) a) = free_addr b"
  "a_used (cfio_rdma_addr_init (Some b) a) = used_addr b" "a_end (cfio_rdma_addr_init (Some b) a) = end_addr b"
  by (simp_all add: cfio_rdma_addr_init_def Let_def)

lemma client_signal_select [simp]:
  "signal (cfio_rdma_addr_client_clear_signal a) = 1"
  "a_free (cfio_rdma_addr_client_clear_signal a) = a_free a"
  "signal (cfio_rdma_addr_server_clear_signal a) = 0"
  "a_free (cfio_rdma_addr_server_clear_signal a) = a_free a"
  "cfio_rdma_addr_server_test a = signal a"
  by (simp_all add: cfio_rdma_addr_client_clear_signal_def cfio_rdma_addr_server_clear_signal_def
      cfio_rdma_addr_server_test_def)

text \<open>One call of the callback: either the last answer frees something, or a round trip
  frees everything.\<close>

lemma buf_free_step:
  assumes good: "client_good c b" and inv: "buf_inv b"
  defines "x \<equiv> a_free (last_ack c)"
  shows "used_addr b \<noteq> x \<Longrightarrow> cfio_send_client_buf_free c b =
      Some (c\<lparr>caddr := last_ack c, inbound := []\<rparr>, b\<lparr>used_addr := x\<rparr>)"
    and "used_addr b = x \<Longrightarrow> \<exists>c'. cfio_send_client_buf_free c b = Some (c', b\<lparr>used_addr := free_addr b\<rparr>) \<and>
      inbound c' = [] \<and> signal (caddr c') \<noteq> 1 \<and> a_free (caddr c') = free_addr b"
  using wait_addr_good [OF good]
  by (simp_all add: cfio_send_client_buf_free_def x_def Let_def write_addr_def server_reply_def
      wait_addr_def cfio_rdma_addr_client_wait_def spin_while_done spin_while_step)

lemma empty_ring:
  assumes "buf_inv b"
  shows "buf_inv (b\<lparr>used_addr := free_addr b\<rparr>)" "advanced b (b\<lparr>used_addr := free_addr b\<rparr>)"
    "free_buf_size (b\<lparr>used_addr := free_addr b\<rparr>) + 1 = bsize b"
proof -
  show inv: "buf_inv (b\<lparr>used_addr := free_addr b\<rparr>)"
    using assms by (simp add: buf_inv_def magic_ok_def)
  show size: "free_buf_size (b\<lparr>used_addr := free_addr b\<rparr>) + 1 = bsize b"
    using free_buf_size_empty [OF inv] by simp
  have "contents (b\<lparr>used_addr := free_addr b\<rparr>) = drop (length (contents b)) (contents b)"
    by (simp add: contents_def)
  then have "\<exists>k. contents (b\<lparr>used_addr := free_addr b\<rparr>) = drop k (contents b)" ..
  with inv size free_buf_size_less [OF assms] show "advanced b (b\<lparr>used_addr := free_addr b\<rparr>)"
    by (auto simp: advanced_def)
qed

lemma buf_free_progress:
  assumes good: "client_good c b" and inv: "buf_inv b" and full: "free_buf_size b + 1 < bsize b"
  shows "\<exists>c' b'. cfio_send_client_buf_free c b = Some (c', b') \<and> client_good c' b' \<and>
    advanced b b' \<and> client_effort c' b' < client_effort c b"
proof (cases "used_addr b = a_free (last_ack c)")
  case False
  let ?b = "b\<lparr>used_addr := a_free (last_ack c)\<rparr>" and ?c = "c\<lparr>caddr := last_ack c, inbound := []\<rparr>"
  have reg: "in_region b (a_free (last_ack c))" using good by (simp add: client_good_def)
  have "client_good ?c ?b"
    using last_ack_done [OF good] in_region_self [OF inv reg]
    by (simp add: client_good_def last_ack_def)
  moreover have "client_effort ?c ?b < client_effort c b"
    using False full by (simp add: client_effort_def last_ack_def)
  ultimately show ?thesis
    using buf_free_step(1) [OF good inv] False advanced_used [OF inv reg] by blast
next
  case True
  let ?b = "b\<lparr>used_addr := free_addr b\<rparr>"
  from buf_free_step(2) [OF good inv True] obtain c' where c':
    "cfio_send_client_buf_free c b = Some (c', ?b)" "inbound c' = []" "signal (caddr c') \<noteq> 1"
    "a_free (caddr c') = free_addr b" by blast
  have "client_good c' ?b" using c' by (simp add: client_good_def last_ack_def in_region_def)
  moreover have "client_effort c' ?b < client_effort c b"
    using True full empty_ring(3) [OF inv] by (simp add: client_effort_def)
  ultimately show ?thesis using c'(1) empty_ring(2) [OF inv] by blast
qed

lemma client_good_skip:
  "client_good c b \<Longrightarrow> buf_inv b \<Longrightarrow> 0 < used_addr b \<Longrightarrow> used_addr b \<le> free_addr b \<Longrightarrow>
     client_good c (skip_tail b)"
  by (auto simp: client_good_def skip_tail_eq in_region_def ring_addrs intro: less_imp_le
      dest: ring_addrs(1))

interpretation client_space: space_source cfio_send_client_buf_free client_good client_effort
  by unfold_locales (blast intro: buf_free_progress client_good_skip)+

text \<open>Packing a message leaves the server's place where it is.\<close>

lemma client_good_pushed:
  assumes good: "client_good c b" and fits: "fits b (length d)" and k: "k \<le> length d"
  shows "client_good c (pushed b d k)"
proof -
  have inv: "buf_inv b" using fits by (simp add: fits_def)
  have "in_region (pushed b d k) x" if "in_region b x" for x
    using that fits_room [OF fits] k ring_addrs [OF inv]
    by (auto simp: in_region_def pushed_def split: if_splits)
  with good show ?thesis by (simp add: client_good_def)
qed

section \<open>The messages\<close>

text \<open>
  The API calls that are forwarded, abstractly, and the message that each of them stands for:
  its size, its function code and its arguments. Arrays and strings carry their length.
\<close>

datatype request =
    Create "byte list" i32 i32
  | Def_dim i32 "byte list" u64 i32
  | Def_var i32 "byte list" i32 "i32 list" i32
  | Put_att i32 i32 "byte list" cfio_type "byte list"
  | Enddef i32
  | Put_vara i32 i32 "u64 list" "u64 list" cfio_type "byte list"
  | Close i32

primrec code_of :: "request \<Rightarrow> u32" where
  "code_of (Create path cmode ncid) = FUNC_NC_CREATE"
| "code_of (Def_dim ncid name len dimid) = FUNC_NC_DEF_DIM"
| "code_of (Def_var ncid name xtype dimids varid) = FUNC_NC_DEF_VAR"
| "code_of (Put_att ncid varid name t data) = FUNC_PUT_ATT"
| "code_of (Enddef ncid) = FUNC_NC_ENDDEF"
| "code_of (Put_vara ncid varid start count t data) = FUNC_NC_PUT_VARA"
| "code_of (Close ncid) = FUNC_NC_CLOSE"

definition str_bytes :: "byte list \<Rightarrow> byte list" where
  "str_bytes str = array_bytes (strlen1 str) (str @ [0])"

definition i32_array :: "i32 list \<Rightarrow> byte list" where
  "i32_array xs = array_bytes (word_of_nat (length xs)) (enc_i32s xs)"

definition u64_array :: "u64 list \<Rightarrow> byte list" where
  "u64_array xs = array_bytes (word_of_nat (length xs)) (enc_u64s xs)"

definition data_array :: "cfio_type \<Rightarrow> byte list \<Rightarrow> byte list" where
  "data_array t data = array_bytes (word_of_nat (length data div type_size t)) data"

primrec payload :: "request \<Rightarrow> byte list" where
  "payload (Create path cmode ncid) = str_bytes path @ enc_i32 cmode @ enc_i32 ncid"
| "payload (Def_dim ncid name len dimid) =
     enc_i32 ncid @ str_bytes name @ enc_u64 len @ enc_i32 dimid"
| "payload (Def_var ncid name xtype dimids varid) =
     enc_i32 ncid @ str_bytes name @ enc_i32 xtype @ enc_i32 (word_of_nat (length dimids)) @
     (if dimids = [] then [] else i32_array dimids) @ enc_i32 varid"
| "payload (Put_att ncid varid name t data) =
     enc_i32 ncid @ enc_i32 varid @ str_bytes name @ enc_i32 (cfio_type_code t) @ data_array t data"
| "payload (Enddef ncid) = enc_i32 ncid"
| "payload (Put_vara ncid varid start count t data) =
     enc_i32 ncid @ enc_i32 varid @ u64_array start @ u64_array count @
     enc_i32 (cfio_type_code t) @ data_array t data"
| "payload (Close ncid) = enc_i32 ncid"

definition message :: "request \<Rightarrow> byte list" where
  "message r =
     enc_u64 (word_of_nat (12 + length (payload r))) @ enc_i32 (code_of r) @ payload r"

text \<open>The size of the last component, which decides the fate of an exact fit.\<close>

primrec last_part :: "request \<Rightarrow> nat" where
  "last_part (Create path cmode ncid) = 4"
| "last_part (Def_dim ncid name len dimid) = 4"
| "last_part (Def_var ncid name xtype dimids varid) = 4"
| "last_part (Put_att ncid varid name t data) = array_tail data"
| "last_part (Enddef ncid) = 4"
| "last_part (Put_vara ncid varid start count t data) = array_tail data"
| "last_part (Close ncid) = 4"

text \<open>Strings without NUL, lengths that an \<open>int\<close> can hold, data that match the shape.\<close>

definition wf_str :: "byte list \<Rightarrow> bool" where
  "wf_str str \<longleftrightarrow> 0 \<notin> set str \<and> length str + 1 < 2 ^ 31"

primrec wf_request :: "request \<Rightarrow> bool" where
  "wf_request (Create path cmode ncid) = wf_str path"
| "wf_request (Def_dim ncid name len dimid) = wf_str name"
| "wf_request (Def_var ncid name xtype dimids varid) = (wf_str name \<and> length dimids < 2 ^ 31)"
| "wf_request (Put_att ncid varid name t data) =
     (wf_str name \<and> type_size t dvd length data \<and> length data div type_size t < 2 ^ 31)"
| "wf_request (Enddef ncid) = True"
| "wf_request (Put_vara ncid varid start count t data) =
     (length count = length start \<and> length start < 2 ^ 31 \<and>
      length data = unat (prod_list count) * type_size t \<and> unat (prod_list count) < 2 ^ 31)"
| "wf_request (Close ncid) = True"

text \<open>The call that the client makes for a request.\<close>

primrec send_request :: "request \<Rightarrow> client \<Rightarrow> cfio_buf \<Rightarrow> send_result" where
  "send_request (Create path cmode ncid) = cfio_send_create path cmode ncid"
| "send_request (Def_dim ncid name len dimid) = cfio_send_def_dim ncid name len dimid"
| "send_request (Def_var ncid name xtype dimids varid) =
     cfio_send_def_var ncid name xtype (word_of_nat (length dimids)) dimids varid"
| "send_request (Put_att ncid varid name t data) =
     cfio_send_put_att ncid varid name (cfio_type_code t)
       (word_of_nat (length data div type_size t)) data"
| "send_request (Enddef ncid) = cfio_send_enddef ncid"
| "send_request (Put_vara ncid varid start count t data) =
     cfio_send_put_vara ncid varid (word_of_nat (length start)) start count (cfio_type_code t) data"
| "send_request (Close ncid) = cfio_send_close ncid"

lemma length_message: "length (message r) = 12 + length (payload r)"
  by (simp add: message_def)

lemma length_str_bytes [simp]: "length (str_bytes str) = length str + 5"
  by (simp add: str_bytes_def)

lemma length_i32_array [simp]: "length (i32_array xs) = 4 + 4 * length xs"
  by (simp add: i32_array_def)

lemma length_u64_array [simp]: "length (u64_array xs) = 4 + 8 * length xs"
  by (simp add: u64_array_def)

lemma length_data_array [simp]: "length (data_array t data) = 4 + length data"
  by (simp add: data_array_def)

lemma last_part_le: "last_part r \<le> length (message r)"
  by (cases r) (simp_all add: message_def array_tail_def)

section \<open>Packing in a buffer with room\<close>

lemma pack_header_start:
  assumes "fits b n" "12 < n"
  shows "pack_header sz code b =
    Some (appended b (enc_u64 (word_of_nat sz) @ enc_i32 code))"
proof -
  have "cfio_buf_pack_data (enc_u64 (word_of_nat sz)) 8 (appended b []) =
      Some (appended b ([] @ enc_u64 (word_of_nat sz)))"
    using assms by (intro pack_data_inner) auto
  moreover have "cfio_buf_pack_data (enc_i32 code) 4 (appended b (enc_u64 (word_of_nat sz))) =
      Some (appended b (enc_u64 (word_of_nat sz) @ enc_i32 code))"
    using assms by (intro pack_data_inner) auto
  ultimately show ?thesis by (simp add: pack_header_def)
qed

lemma pack_int_inner:
  "fits b n \<Longrightarrow> length d + 4 < n \<Longrightarrow> pack_int w (appended b d) = Some (appended b (d @ enc_i32 w))"
  unfolding pack_int_def by (rule pack_data_inner) simp_all

lemma enc_i32_not_Nil [simp]: "enc_i32 w \<noteq> []"
  using length_enc_i32 [of w] by (metis list.size(3) zero_neq_numeral)

lemma pack_int_last:
  assumes "fits b n" "length d + 4 = n"
  shows "pack_int w (appended b d) = Some (pushed b (d @ enc_i32 w) 4)"
proof -
  have "cfio_buf_pack_data (enc_i32 w) 4 (appended b d) =
      Some (pushed b (d @ enc_i32 w) (length (enc_i32 w)))"
    using assms by (intro pack_data_last) auto
  then show ?thesis by (simp add: pack_int_def)
qed

lemma pack_u64_inner:
  "fits b n \<Longrightarrow> length d + 8 < n \<Longrightarrow>
     cfio_buf_pack_data (enc_u64 w) 8 (appended b d) = Some (appended b (d @ enc_u64 w))"
  by (rule pack_data_inner) simp_all

lemma size_of_strlen1: "wf_str str \<Longrightarrow> size_of_int (strlen1 str) = length str + 1"
  unfolding wf_str_def strlen1_def by (intro size_of_int_of_nat) simp

lemma pack_str_inner:
  "fits b n \<Longrightarrow> length d + length str + 5 < n \<Longrightarrow> wf_str str \<Longrightarrow>
     cfio_buf_pack_str str (appended b d) = Some (appended b (d @ str_bytes str))"
  unfolding cfio_buf_pack_str_def str_bytes_def
  by (rule pack_array_inner) (simp_all add: size_of_strlen1, linarith)

lemma pack_i32s_inner:
  "fits b n \<Longrightarrow> length d + 4 + 4 * length xs < n \<Longrightarrow> length xs < 2 ^ 31 \<Longrightarrow>
     cfio_buf_pack_data_array (enc_i32s xs) (word_of_nat (length xs)) 4 (appended b d) =
       Some (appended b (d @ i32_array xs))"
  unfolding i32_array_def by (rule pack_array_inner) (simp_all add: size_of_int_of_nat)

lemma pack_u64s_inner:
  "fits b n \<Longrightarrow> length d + 4 + 8 * length xs < n \<Longrightarrow> len = length xs \<Longrightarrow> length xs < 2 ^ 31 \<Longrightarrow>
     cfio_buf_pack_data_array (enc_u64s xs) (word_of_nat len) 8 (appended b d) =
       Some (appended b (d @ u64_array xs))"
  unfolding u64_array_def by (simp, rule pack_array_inner) (simp_all add: size_of_int_of_nat)

lemma pack_bytes_last:
  "fits b n \<Longrightarrow> length d + 4 + length data = n \<Longrightarrow> type_size t dvd length data \<Longrightarrow>
     length data div type_size t < 2 ^ 31 \<Longrightarrow>
     cfio_buf_pack_data_array data (word_of_nat (length data div type_size t)) (type_size t) (appended b d) =
       Some (pushed b (d @ data_array t data) (array_tail data))"
  unfolding data_array_def by (rule pack_array_last) (simp_all add: size_of_int_of_nat)

lemmas pack_message =
  pack_header_start pack_int_inner pack_int_last pack_u64_inner pack_str_inner pack_i32s_inner
  pack_u64s_inner pack_bytes_last

text \<open>
  What every call does: it makes room, possibly letting the server consume some of what was
  in the ring, and adds its message at the end. When there is room it only adds its message.
\<close>

definition emits :: "byte list \<Rightarrow> nat \<Rightarrow> client \<Rightarrow> cfio_buf \<Rightarrow> send_result \<Rightarrow> bool" where
  "emits d k c b result \<longleftrightarrow>
     (\<exists>c' b'. result = Some (CFIO_ERROR_NONE, c', pushed b' d k) \<and> fits b' (length d) \<and>
        client_good c' (pushed b' d k) \<and> bsize b' = bsize b \<and>
        (\<exists>j. contents b' = drop j (contents b)) \<and>
        (length d \<le> free_buf_size b \<longrightarrow> free_addr b + length d < bsize b \<longrightarrow> c' = c \<and> b' = b))"

lemma emitsI:
  assumes "client_good c b" "buf_inv b" "length d < bsize b" "k \<le> length d"
    and "\<And>b'. fits b' (length d) \<Longrightarrow> pack b' = Some (pushed b' d k)"
  shows "emits d k c b
    (Option.bind (ensure_free_space cfio_send_client_buf_free (length d) c b)
      (\<lambda>(c, b). Option.bind (pack b) (\<lambda>b. Some (CFIO_ERROR_NONE, c, b))))"
proof -
  from client_space.ensure_returns [OF assms(1-3)] obtain c' b' where
    e: "ensure_free_space cfio_send_client_buf_free (length d) c b = Some (c', b')"
    and g: "client_good c' b'" and f: "fits b' (length d)" and rest: "bsize b' = bsize b"
      "\<exists>j. contents b' = drop j (contents b)" by blast
  have "client_good c' (pushed b' d k)" using client_good_pushed [OF g f assms(4)] .
  moreover have "c' = c \<and> b' = b" if "length d \<le> free_buf_size b" "free_addr b + length d < bsize b"
    using ensure_space_there [of "length d" b cfio_send_client_buf_free c] that e by simp
  ultimately show ?thesis using e f rest assms(5) [OF f] unfolding emits_def by auto
qed

lemma size_sum_small: "sum_list ns < 2 ^ 64 \<Longrightarrow> size_sum ns = sum_list ns"
  by (simp add: size_sum_def)

lemma array_size_small: "len * sz + 4 < 2 ^ 64 \<Longrightarrow> cfio_buf_data_array_size len sz = len * sz + 4"
  by (simp add: cfio_buf_data_array_size_def)

lemma str_size_small: "wf_str str \<Longrightarrow> cfio_buf_str_size str = length str + 5"
  by (simp add: cfio_buf_str_size_def wf_str_def array_size_small)

lemma word_of_nat_eq_0: "n < 2 ^ 31 \<Longrightarrow> (word_of_nat n :: i32) = 0 \<longleftrightarrow> n = 0"
  using size_of_int_of_nat [of n] by (auto simp: size_of_int_def)

lemma message_small: "length (message r) < bsize b \<Longrightarrow> buf_inv b \<Longrightarrow> length (message r) < 2 ^ 63"
  by (simp add: buf_inv_def)

lemma emits_create:
  assumes "client_good c b" "buf_inv b" "wf_request (Create path cmode ncid)"
    and "length (message (Create path cmode ncid)) < bsize b"
  shows "emits (message (Create path cmode ncid)) 4 c b
    (cfio_send_create path cmode ncid c b)"
proof -
  let ?d = "message (Create path cmode ncid)"
  have len: "length ?d = length path + 25" by (simp add: message_def)
  have small: "length ?d < 2 ^ 63" using message_small [OF assms(4,2)] .
  have sz: "size_sum [8, 4, cfio_buf_str_size path, 4, 4] = length ?d"
    using small assms(3) by (simp add: len str_size_small size_sum_small)
  let ?pack = "\<lambda>b. do {
          b \<leftarrow> pack_header (length ?d) FUNC_NC_CREATE b;
          b \<leftarrow> cfio_buf_pack_str path b;
          b \<leftarrow> pack_int cmode b;
          pack_int ncid b
        }"
  have "emits ?d 4 c b
    (Option.bind (ensure_free_space cfio_send_client_buf_free (length ?d) c b)
      (\<lambda>(c, b). Option.bind (?pack b) (\<lambda>b. Some (CFIO_ERROR_NONE, c, b))))"
  proof (rule emitsI [OF assms(1,2,4)])
    fix b' assume f: "fits b' (length ?d)"
    show "?pack b' = Some (pushed b' ?d 4)"
      using assms(3) by (simp add: pack_message [OF f] len) (simp add: message_def ac_simps)
  qed (simp add: len array_tail_def)
  then show ?thesis using assms(3) by (simp add: cfio_send_create_def sz Let_def)
qed

lemma emits_def_dim:
  assumes "client_good c b" "buf_inv b" "wf_request (Def_dim ncid name len dimid)"
    and "length (message (Def_dim ncid name len dimid)) < bsize b"
  shows "emits (message (Def_dim ncid name len dimid)) 4 c b
    (cfio_send_def_dim ncid name len dimid c b)"
proof -
  let ?d = "message (Def_dim ncid name len dimid)"
  have len: "length ?d = length name + 33" by (simp add: message_def)
  have small: "length ?d < 2 ^ 63" using message_small [OF assms(4,2)] .
  have sz: "size_sum [8, 4, 4, cfio_buf_str_size name, 8, 4] = length ?d"
    using small assms(3) by (simp add: len str_size_small size_sum_small)
  let ?pack = "\<lambda>b. do {
          b \<leftarrow> pack_header (length ?d) FUNC_NC_DEF_DIM b;
          b \<leftarrow> pack_int ncid b;
          b \<leftarrow> cfio_buf_pack_str name b;
          b \<leftarrow> cfio_buf_pack_data (enc_u64 len) 8 b;
          pack_int dimid b
        }"
  have "emits ?d 4 c b
    (Option.bind (ensure_free_space cfio_send_client_buf_free (length ?d) c b)
      (\<lambda>(c, b). Option.bind (?pack b) (\<lambda>b. Some (CFIO_ERROR_NONE, c, b))))"
  proof (rule emitsI [OF assms(1,2,4)])
    fix b' assume f: "fits b' (length ?d)"
    show "?pack b' = Some (pushed b' ?d 4)"
      using assms(3) by (simp add: pack_message [OF f] len) (simp add: message_def ac_simps)
  qed (simp add: len array_tail_def)
  then show ?thesis using assms(3) by (simp add: cfio_send_def_dim_def sz Let_def)
qed

lemma emits_enddef:
  assumes "client_good c b" "buf_inv b" "wf_request (Enddef ncid)"
    and "length (message (Enddef ncid)) < bsize b"
  shows "emits (message (Enddef ncid)) 4 c b
    (cfio_send_enddef ncid c b)"
proof -
  let ?d = "message (Enddef ncid)"
  have len: "length ?d = 16" by (simp add: message_def)
  have small: "length ?d < 2 ^ 63" using message_small [OF assms(4,2)] .
  have sz: "size_sum [8, 4, 4] = length ?d"
    using small assms(3) by (simp add: len size_sum_small)
  let ?pack = "\<lambda>b. do {
          b \<leftarrow> pack_header (length ?d) FUNC_NC_ENDDEF b;
          pack_int ncid b
        }"
  have "emits ?d 4 c b
    (Option.bind (ensure_free_space cfio_send_client_buf_free (length ?d) c b)
      (\<lambda>(c, b). Option.bind (?pack b) (\<lambda>b. Some (CFIO_ERROR_NONE, c, b))))"
  proof (rule emitsI [OF assms(1,2,4)])
    fix b' assume f: "fits b' (length ?d)"
    show "?pack b' = Some (pushed b' ?d 4)"
      using assms(3) by (simp add: pack_message [OF f] len) (simp add: message_def ac_simps)
  qed (simp add: len array_tail_def)
  then show ?thesis using assms(3) by (simp add: cfio_send_enddef_def sz Let_def)
qed

lemma emits_close:
  assumes "client_good c b" "buf_inv b" "wf_request (Close ncid)"
    and "length (message (Close ncid)) < bsize b"
  shows "emits (message (Close ncid)) 4 c b
    (cfio_send_close ncid c b)"
proof -
  let ?d = "message (Close ncid)"
  have len: "length ?d = 16" by (simp add: message_def)
  have small: "length ?d < 2 ^ 63" using message_small [OF assms(4,2)] .
  have sz: "size_sum [8, 4, 4] = length ?d"
    using small assms(3) by (simp add: len size_sum_small)
  let ?pack = "\<lambda>b. do {
          b \<leftarrow> pack_header (length ?d) FUNC_NC_CLOSE b;
          pack_int ncid b
        }"
  have "emits ?d 4 c b
    (Option.bind (ensure_free_space cfio_send_client_buf_free (length ?d) c b)
      (\<lambda>(c, b). Option.bind (?pack b) (\<lambda>b. Some (CFIO_ERROR_NONE, c, b))))"
  proof (rule emitsI [OF assms(1,2,4)])
    fix b' assume f: "fits b' (length ?d)"
    show "?pack b' = Some (pushed b' ?d 4)"
      using assms(3) by (simp add: pack_message [OF f] len) (simp add: message_def ac_simps)
  qed (simp add: len array_tail_def)
  then show ?thesis using assms(3) by (simp add: cfio_send_close_def sz Let_def)
qed

lemma emits_def_var:
  assumes "client_good c b" "buf_inv b" "wf_request (Def_var ncid name xtype dimids varid)"
    and "length (message (Def_var ncid name xtype dimids varid)) < bsize b"
  shows "emits (message (Def_var ncid name xtype dimids varid)) 4 c b
    (cfio_send_def_var ncid name xtype (word_of_nat (length dimids)) dimids varid c b)"
proof -
  let ?d = "message (Def_var ncid name xtype dimids varid)" and ?n = "length dimids"
  have wf: "wf_str name" "?n < 2 ^ 31" using assms(3) by simp_all
  have zero: "(word_of_nat ?n :: i32) = 0 \<longleftrightarrow> dimids = []" using word_of_nat_eq_0 [OF wf(2)] by simp
  have n: "size_of_int (word_of_nat ?n) = ?n" using wf(2) by (rule size_of_int_of_nat)
  have len: "length ?d = length name + 33 + (if dimids = [] then 0 else 4 + 4 * ?n)"
    by (simp add: message_def)
  have small: "length ?d < 2 ^ 63" using message_small [OF assms(4,2)] .
  have sz: "size_sum ([8, 4, 4, cfio_buf_str_size name, 4, 4] @
      (if dimids = [] then [] else [cfio_buf_data_array_size ?n 4]) @ [4]) = length ?d"
    using small wf by (simp add: len str_size_small size_sum_small array_size_small)
  let ?pack = "\<lambda>b. do {
          b \<leftarrow> pack_header (length ?d) FUNC_NC_DEF_VAR b;
          b \<leftarrow> pack_int ncid b;
          b \<leftarrow> cfio_buf_pack_str name b;
          b \<leftarrow> pack_int xtype b;
          b \<leftarrow> pack_int (word_of_nat ?n) b;
          b \<leftarrow> (if dimids = [] then Some b
                else cfio_buf_pack_data_array (enc_i32s dimids) (word_of_nat ?n) 4 b);
          pack_int varid b
        }"
  have "emits ?d 4 c b
    (Option.bind (ensure_free_space cfio_send_client_buf_free (length ?d) c b)
      (\<lambda>(c, b). Option.bind (?pack b) (\<lambda>b. Some (CFIO_ERROR_NONE, c, b))))"
  proof (rule emitsI [OF assms(1,2,4)])
    fix b' assume f: "fits b' (length ?d)"
    show "?pack b' = Some (pushed b' ?d 4)"
    proof (cases "dimids = []")
      case True
      then have "fits b' (length name + 33)" using f [unfolded len] by simp
      with True wf show ?thesis by (simp add: pack_message [where n = "length name + 33"] len)
        (simp add: message_def ac_simps)
    next
      case False
      with wf show ?thesis by (simp add: pack_message [OF f] len) (simp add: message_def ac_simps)
    qed
  qed (simp add: len)
  then show ?thesis
    by (cases "dimids = []") (use zero n sz in \<open>simp_all add: cfio_send_def_var_def Let_def\<close>)
qed

lemma ucast_via_nat: "(ucast (w :: u64) :: i32) = word_of_nat (unat w)"
  by simp

lemma emits_put_att:
  assumes "client_good c b" "buf_inv b" "wf_request (Put_att ncid varid name t data)"
    and "length (message (Put_att ncid varid name t data)) < bsize b"
  shows "emits (message (Put_att ncid varid name t data)) (array_tail data) c b
    (cfio_send_put_att ncid varid name (cfio_type_code t)
       (word_of_nat (length data div type_size t)) data c b)"
proof -
  let ?d = "message (Put_att ncid varid name t data)" and ?n = "length data div type_size t"
  have wf: "wf_str name" "type_size t dvd length data" "?n < 2 ^ 31" using assms(3) by simp_all
  have n: "unat (word_of_nat ?n :: u64) = ?n" "?n * type_size t = length data"
    using wf by (simp_all add: unsigned_of_nat take_bit_nat_eq_self)
  have u: "(ucast (word_of_nat ?n :: u64) :: i32) = word_of_nat ?n"
    using ucast_via_nat [of "word_of_nat ?n"] by (simp only: n(1))
  have len: "length ?d = length name + length data + 33" by (simp add: message_def)
  have small: "length ?d < 2 ^ 63" using message_small [OF assms(4,2)] .
  have "cfio_buf_data_array_size ?n (type_size t) = length data + 4"
    using small n(2) by (simp add: array_size_small len)
  then have sz: "size_sum [8, 4, 4, 4, cfio_buf_str_size name, 4,
      cfio_buf_data_array_size ?n (type_size t)] = length ?d"
    using small wf by (simp add: len str_size_small size_sum_small)
  let ?pack = "\<lambda>b. do {
          b \<leftarrow> pack_header (length ?d) FUNC_PUT_ATT b;
          b \<leftarrow> pack_int ncid b;
          b \<leftarrow> pack_int varid b;
          b \<leftarrow> cfio_buf_pack_str name b;
          b \<leftarrow> pack_int (cfio_type_code t) b;
          cfio_buf_pack_data_array data (word_of_nat ?n) (type_size t) b
        }"
  have "emits ?d (array_tail data) c b
    (Option.bind (ensure_free_space cfio_send_client_buf_free (length ?d) c b)
      (\<lambda>(c, b). Option.bind (?pack b) (\<lambda>b. Some (CFIO_ERROR_NONE, c, b))))"
  proof (rule emitsI [OF assms(1,2,4)])
    fix b' assume f: "fits b' (length ?d)"
    show "?pack b' = Some (pushed b' ?d (array_tail data))"
      using wf by (simp add: pack_message [OF f] len) (simp add: message_def ac_simps)
  qed (simp add: len array_tail_def)
  then show ?thesis by (simp add: cfio_send_put_att_def Let_def n(1) u sz)
qed

lemma vara_len_small:
  "length count = n \<Longrightarrow> n < 2 ^ 31 \<Longrightarrow> vara_len (word_of_nat n) count = Some (prod_list count)"
  by (simp add: vara_len_def Let_def sint_word_of_nat_small)

lemma emits_put_vara:
  assumes "client_good c b" "buf_inv b" "wf_request (Put_vara ncid varid start count t data)"
    and "length (message (Put_vara ncid varid start count t data)) < bsize b"
  shows "emits (message (Put_vara ncid varid start count t data)) (array_tail data) c b
    (cfio_send_put_vara ncid varid (word_of_nat (length start)) start count (cfio_type_code t) data c b)"
proof -
  let ?d = "message (Put_vara ncid varid start count t data)" and ?n = "length data div type_size t"
  have wf: "length count = length start" "length start < 2 ^ 31"
    "length data = unat (prod_list count) * type_size t" "unat (prod_list count) < 2 ^ 31"
    using assms(3) by simp_all
  have n: "unat (prod_list count) = ?n" "type_size t dvd length data" "?n < 2 ^ 31"
    "?n * type_size t = length data"
    using wf by simp_all
  then have u: "(ucast (prod_list count) :: i32) = word_of_nat ?n"
    using ucast_via_nat [of "prod_list count"] by simp
  have s: "size_of_int (word_of_nat (length start)) = length start"
    using wf(2) by (rule size_of_int_of_nat)
  have len: "length ?d = 36 + 16 * length start + length data"
    by (simp add: message_def wf(1))
  have small: "length ?d < 2 ^ 63" using message_small [OF assms(4,2)] .
  have "cfio_buf_data_array_size ?n (type_size t) = length data + 4"
    using small n(4) by (simp add: array_size_small len)
  moreover have "cfio_buf_data_array_size (length start) 8 = 8 * length start + 4"
    using small by (simp add: array_size_small len)
  ultimately have sz: "size_sum [8, 4, 4, 4, cfio_buf_data_array_size (length start) 8,
      cfio_buf_data_array_size (length start) 8, 4,
      cfio_buf_data_array_size ?n (type_size t)] = length ?d"
    using small wf by (simp add: len size_sum_small)
  let ?pack = "\<lambda>b. do {
          b \<leftarrow> pack_header (length ?d) FUNC_NC_PUT_VARA b;
          b \<leftarrow> pack_int ncid b;
          b \<leftarrow> pack_int varid b;
          b \<leftarrow> cfio_buf_pack_data_array (enc_u64s start) (word_of_nat (length start)) 8 b;
          b \<leftarrow> cfio_buf_pack_data_array (enc_u64s count) (word_of_nat (length start)) 8 b;
          b \<leftarrow> pack_int (cfio_type_code t) b;
          cfio_buf_pack_data_array data (word_of_nat ?n) (type_size t) b
        }"
  have "emits ?d (array_tail data) c b
    (Option.bind (ensure_free_space cfio_send_client_buf_free (length ?d) c b)
      (\<lambda>(c, b). Option.bind (?pack b) (\<lambda>b. Some (CFIO_ERROR_NONE, c, b))))"
  proof (rule emitsI [OF assms(1,2,4)])
    fix b' assume f: "fits b' (length ?d)"
    show "?pack b' = Some (pushed b' ?d (array_tail data))"
      using wf(1,2) n(2,3) by (simp add: pack_message [OF f] len) (simp add: message_def ac_simps)
  qed (simp add: len array_tail_def)
  then show ?thesis
    by (simp add: cfio_send_put_vara_def Let_def vara_len_small [OF wf(1,2)] s n(1) u sz)
qed

lemma send_request_emits:
  assumes "client_good c b" "buf_inv b" "wf_request r" "length (message r) < bsize b"
  shows "emits (message r) (last_part r) c b (send_request r c b)"
  using assms
  by (cases r) (simp_all only: send_request.simps last_part.simps emits_create emits_def_dim
      emits_def_var emits_put_att emits_enddef emits_put_vara emits_close)

section \<open>Properties\<close>

lemma client_good_init:
  "cfio_send_init junk a0 = Some (c, b) \<Longrightarrow> client_good c b \<and> buf_inv b \<and> contents b = []"
  by (auto simp: cfio_send_init_def Let_def client_good_def last_ack_def in_region_def
      cfio_buf_open_def contents_def buf_inv_def magic_ok_def buf_sizes split: if_splits)

lemma last_part_pos: "0 < last_part r"
  by (cases r) (simp_all add: array_tail_def)

lemma emits_contents:
  assumes "emits d k c b result" "0 < k" "k \<le> length d"
  shows "\<exists>c' b' j. result = Some (CFIO_ERROR_NONE, c', b') \<and> client_good c' b' \<and> buf_inv b' \<and>
    bsize b' = bsize b \<and>
    contents b' = drop j (contents b) @ (if free_addr b' = 0 then take (length d - k) d else d)"
proof -
  from assms(1) obtain c' b' j where r: "result = Some (CFIO_ERROR_NONE, c', pushed b' d k)"
    and f: "fits b' (length d)" and g: "client_good c' (pushed b' d k)" and s: "bsize b' = bsize b"
    and c: "contents b' = drop j (contents b)" by (auto simp: emits_def)
  have bs: "bsize (pushed b' d k) = bsize b" using s by (simp add: pushed_def appended_def)
  have "contents (pushed b' d k) = contents b' @
      (if free_addr (pushed b' d k) = 0 then take (length d - k) d else d)"
  proof (cases "free_addr b' + length d < bsize b'")
    case True
    with f assms(2,3) show ?thesis using contents_pushed [OF f True, of k] by (auto simp: pushed_def)
  next
    case False
    with fits_room(2) [OF f] have "free_addr b' + length d = bsize b'" by simp
    with contents_pushed_exact [OF f this assms(2,3)] show ?thesis by (simp add: pushed_def)
  qed
  with r g bs c buf_inv_pushed [OF f, of k] show ?thesis by metis
qed

lemma emits_behind:
  assumes "emits d k c b result" "length d \<le> free_buf_size b" "free_addr b + length d < bsize b"
  shows "result = Some (CFIO_ERROR_NONE, c, appended b d)"
  using assms by (auto simp: emits_def pushed_def)


definition small_client :: client where
  "small_client =
     \<lparr>caddr = \<lparr>signal = 0, a_end = 0, a_free = 4, a_used = 4\<rparr>, inbound = [], outbound = [], itr = 1\<rparr>"

definition small_buf :: "nat \<Rightarrow> cfio_buf" where
  "small_buf n = (cfio_buf_open (replicate n 0))\<lparr>free_addr := 4, used_addr := 4\<rparr>"

lemma small_good: "4 < n \<Longrightarrow> 2 * n \<le> 2 ^ 64 \<Longrightarrow> client_good small_client (small_buf n) \<and> buf_inv (small_buf n)"
  by (simp add: client_good_def small_client_def small_buf_def last_ack_def in_region_def
      cfio_buf_open_def buf_inv_def magic_ok_def)



lemma io_end_hands:
  assumes "client_good c b" "buf_inv b"
  shows "\<exists>c' b' a. cfio_send_io_end c b = Some (CFIO_ERROR_NONE, c', b') \<and>
    b' = b\<lparr>used_addr := a_free (last_ack c)\<rparr> \<and> outbound c' = outbound c @ [a] \<and>
    signal a = 1 \<and> a_free a = free_addr b \<and> a_used a = used_addr b' \<and> a_end a = end_addr b \<and>
    client_good c' b' \<and> advanced b b' \<and> a_free (last_ack c') = free_addr b"
proof -
  have reg: "in_region b (a_free (last_ack c))" using assms(1) by (simp add: client_good_def)
  let ?b = "b\<lparr>used_addr := a_free (last_ack c)\<rparr>"
  let ?a = "cfio_rdma_addr_client_clear_signal (cfio_rdma_addr_init (Some ?b) (last_ack c))"
  have sel: "a_used ?a = a_free (last_ack c)" "a_end ?a = end_addr b"
    by (simp_all add: cfio_rdma_addr_client_clear_signal_def cfio_rdma_addr_init_def Let_def)
  let ?c = "c\<lparr>caddr := ?a, inbound := server_reply ?a, outbound := outbound c @ [?a], itr := itr c + 1\<rparr>"
  have "cfio_send_io_end c b = Some (CFIO_ERROR_NONE, ?c, ?b)"
    using wait_addr_good [OF assms(1)] by (simp add: cfio_send_io_end_def Let_def write_addr_def)
  moreover have "client_good ?c ?b"
    using reg ring_addrs [OF assms(2)]
    by (auto simp: client_good_def last_ack_def server_reply_def in_region_def split: if_splits)
  moreover have "a_free (last_ack ?c) = free_addr b"
    by (simp add: last_ack_def server_reply_def cfio_rdma_addr_server_test_def cfio_rdma_addr_server_clear_signal_def
        cfio_rdma_addr_client_clear_signal_def cfio_rdma_addr_init_def Let_def)
  ultimately show ?thesis using sel advanced_used [OF assms(2) reg] by fastforce
qed

text \<open>At the end of an output step the client waits for the last answer, releases what the
  server has read, and hands over exactly the rest: the record it writes has signal 1 and
  bounds the unread region, and the client is again in a good state.\<close>

theorem io_end_hands_over:
  assumes "client_good c b" "buf_inv b"
  shows "\<exists>c' b' a. cfio_send_io_end c b = Some (CFIO_ERROR_NONE, c', b') \<and>
    b' = b\<lparr>used_addr := a_free (last_ack c)\<rparr> \<and> outbound c' = outbound c @ [a] \<and>
    signal a = 1 \<and> a_free a = free_addr b \<and> a_used a = used_addr b' \<and> a_end a = end_addr b \<and>
    client_good c' b' \<and> advanced b b'"
  using io_end_hands [OF assms] by blast

theorem io_end_hands_over_witness:
  "\<exists>c' b' a. cfio_send_io_end small_client (small_buf 32) = Some (CFIO_ERROR_NONE, c', b') \<and>
    b' = (small_buf 32)\<lparr>used_addr := a_free (last_ack small_client)\<rparr> \<and>
    outbound c' = outbound small_client @ [a] \<and>
    signal a = 1 \<and> a_free a = free_addr (small_buf 32) \<and> a_used a = used_addr b' \<and>
    a_end a = end_addr (small_buf 32) \<and> client_good c' b' \<and> advanced (small_buf 32) b'"
  by (rule io_end_hands_over) (simp_all add: small_good)

end
