(* ===== verification/Recv.thy ===== *)
theory Recv
  imports Msg Send
begin

text \<open>
  The server's message queues (\<open>recv.c\<close>): one ring buffer and one queue of message
  descriptors for each client of the server, filled by \<open>cfio_recv_add_msg\<close>, emptied in turn
  by \<open>cfio_recv_get_first\<close>, and the functions that unpack the arguments of each call. The
  queues are \<open>quicklist\<close> lists, here HOL lists of descriptors; the process map is the state
  \<open>m\<close> of \<open>map.c\<close>.
\<close>

section \<open>State\<close>

record recv_state =
  msg_head :: "cfio_msg list list"
  rbuffer :: "cfio_buf list"
  rrank :: int
  client_num :: int
  client_get_index :: nat

text \<open>An index into the arrays \<open>msg_head\<close> and \<open>buffer\<close>; outside of them is undefined.\<close>

definition client_slot :: "map_state \<Rightarrow> int \<Rightarrow> recv_state \<Rightarrow> nat option" where
  "client_slot m client_rank s =
     do {
       client_index \<leftarrow> cfio_map_get_client_index_of_server m client_rank;
       if 0 \<le> client_index \<and> client_index < int (length (rbuffer s))
       then Some (nat client_index) else None
     }"

definition cfio_recv_init :: "map_state \<Rightarrow> int \<Rightarrow> byte list list \<Rightarrow> (int \<times> recv_state) option" where
  "cfio_recv_init m r junks =
     do {
       n \<leftarrow> cfio_map_get_client_num_of_server m r;
       if 0 < n \<and> length junks = nat n \<and> (\<forall>junk \<in> set junks. length junk = RECV_BUF_SIZE div nat n)
       then Some (CFIO_ERROR_NONE,
         \<lparr>msg_head = replicate (nat n) [], rbuffer = map cfio_buf_open junks, rrank = r,
          client_num = n, client_get_index = 0\<rparr>)
       else None
     }"

text \<open>The queues and buffers are freed.\<close>

definition cfio_recv_final :: "recv_state \<Rightarrow> int \<times> recv_state" where
  "cfio_recv_final s = (CFIO_ERROR_NONE, s\<lparr>msg_head := [], rbuffer := []\<rparr>)"

section \<open>Adding a message\<close>

text \<open>
  \<open>data\<close> is what lies behind the pointer argument. The message size is an \<open>int\<close> and is
  converted back to \<open>size_t\<close> where it is used. The result carries \<open>*func_code\<close> when it has
  been assigned.
\<close>

definition cfio_recv_add_msg ::
    "map_state \<Rightarrow> int \<Rightarrow> i32 \<Rightarrow> byte list \<Rightarrow> recv_state \<Rightarrow> (int \<times> u32 option \<times> recv_state) option" where
  "cfio_recv_add_msg m client_rank sz data s =
     do {
       i \<leftarrow> client_slot m client_rank s;
       let b = rbuffer s ! i;
       b \<leftarrow> (if cfio_buf_is_empty b then cfio_buf_clear b else Some b);
       let (answer, b) = is_free_space_enough b (size_of_int sz);
       let s = s\<lparr>rbuffer := (rbuffer s)[i := b]\<rparr>;
       if answer = CFIO_BUF_FREE_SPACE_NOT_ENOUGH then Some (CFIO_RECV_BUF_FULL, None, s)
       else do {
         code \<leftarrow> mem_read data sizeof_size_t sizeof_uint32;
         let func_code = dec_i32 code;
         if sz = 0 then Some (CFIO_ERROR_UNEXPECTED_MSG, Some func_code, s)
         else if FUNC_FINAL = func_code then Some (CFIO_ERROR_NONE, Some func_code, s)
         else do {
           d \<leftarrow> mem_read data 0 (size_of_int sz);
           mem \<leftarrow> mem_write (bmem b) (free_addr b) d;
           let b = b\<lparr>bmem := mem\<rparr>;
           let msg = cfio_msg_create\<lparr>maddr := free_addr b, msize := size_of_int sz,
                       src := client_rank, dst := rrank s, mfunc_code := func_code\<rparr>;
           let b = use_buf b (size_of_int sz);
           let s = s\<lparr>rbuffer := (rbuffer s)[i := b],
                      msg_head := (msg_head s)[i := msg_head s ! i @ [msg]]\<rparr>;
           Some (CFIO_ERROR_NONE, Some func_code, s)
         }
       }
     }"

section \<open>Taking the next message\<close>

definition with_client_buf ::
    "map_state \<Rightarrow> cfio_msg \<Rightarrow> (cfio_buf \<Rightarrow> ('a \<times> cfio_buf) option) \<Rightarrow> recv_state \<Rightarrow>
     ('a \<times> recv_state) option" where
  "with_client_buf m msg f s =
     do {
       i \<leftarrow> client_slot m (src msg) s;
       (r, b) \<leftarrow> f (rbuffer s ! i);
       Some (r, s\<lparr>rbuffer := (rbuffer s)[i := b]\<rparr>)
     }"

definition unpack_u64 :: "cfio_buf \<Rightarrow> (u64 \<times> cfio_buf) option" where
  "unpack_u64 b =
     do { (d, b) \<leftarrow> cfio_buf_unpack_data sizeof_size_t b; Some (dec_u64 d, b) }"

definition unpack_int :: "cfio_buf \<Rightarrow> (i32 \<times> cfio_buf) option" where
  "unpack_int b =
     do { (d, b) \<leftarrow> cfio_buf_unpack_data sizeof_int b; Some (dec_i32 d, b) }"

definition cfio_recv_unpack_msg_size ::
    "map_state \<Rightarrow> cfio_msg \<Rightarrow> recv_state \<Rightarrow> (u64 \<times> recv_state) option" where
  "cfio_recv_unpack_msg_size m msg =
     with_client_buf m msg (\<lambda>b. do {
       ok \<leftarrow> check_used_addr (maddr msg) b;
       if ok then unpack_u64 (b\<lparr>used_addr := maddr msg\<rparr>) else None
     })"

definition cfio_recv_get_first ::
    "map_state \<Rightarrow> recv_state \<Rightarrow> (cfio_msg option \<times> recv_state) option" where
  "cfio_recv_get_first m s =
     (let g = client_get_index s
      in if \<not> g < length (msg_head s) then None
         else case msg_head s ! g of
           [] \<Rightarrow> Some (None, s)
         | msg # rest \<Rightarrow>
             do {
               (sz, s) \<leftarrow> cfio_recv_unpack_msg_size m msg s;
               let (got, queue) =
                 (if msize msg = unat sz then (msg, rest)
                  else (cfio_msg_create\<lparr>maddr := maddr msg, src := src msg, dst := dst msg\<rparr>,
                        msg\<lparr>msize := nat ((int (msize msg) - uint sz) mod 2 ^ 64),
                            maddr := maddr msg + unat sz\<rparr> # rest));
               if client_num s = 0 then None
               else Some (Some got,
                 s\<lparr>msg_head := (msg_head s)[g := queue],
                   client_get_index := nat ((int g + 1) mod client_num s)\<rparr>)
             })"

section \<open>Unpacking the arguments\<close>

definition cfio_recv_unpack_func_code ::
    "map_state \<Rightarrow> cfio_msg \<Rightarrow> recv_state \<Rightarrow> (u32 \<times> recv_state) option" where
  "cfio_recv_unpack_func_code m msg = with_client_buf m msg unpack_int"

definition cfio_recv_unpack_create ::
    "map_state \<Rightarrow> cfio_msg \<Rightarrow> recv_state \<Rightarrow> ((byte list \<times> i32 \<times> i32) \<times> recv_state) option" where
  "cfio_recv_unpack_create m msg =
     with_client_buf m msg (\<lambda>b. do {
       (path, b) \<leftarrow> cfio_buf_unpack_str b;
       (cmode, b) \<leftarrow> unpack_int b;
       (ncid, b) \<leftarrow> unpack_int b;
       Some ((path, cmode, ncid), b)
     })"

definition cfio_recv_unpack_def_dim ::
    "map_state \<Rightarrow> cfio_msg \<Rightarrow> recv_state \<Rightarrow> ((i32 \<times> byte list \<times> u64 \<times> i32) \<times> recv_state) option" where
  "cfio_recv_unpack_def_dim m msg =
     with_client_buf m msg (\<lambda>b. do {
       (ncid, b) \<leftarrow> unpack_int b;
       (name, b) \<leftarrow> cfio_buf_unpack_str b;
       (len, b) \<leftarrow> unpack_u64 b;
       (dimid, b) \<leftarrow> unpack_int b;
       Some ((ncid, name, len, dimid), b)
     })"

text \<open>The array of an old-style definition carries its length, which overwrites \<open>*ndims\<close>.\<close>

definition unpack_i32s :: "cfio_buf \<Rightarrow> (i32 list \<times> i32 \<times> cfio_buf) option" where
  "unpack_i32s b =
     do {
       (data, n, b) \<leftarrow> cfio_buf_unpack_data_array sizeof_int b;
       Some (dec_i32s (length data div sizeof_int) data, n, b)
     }"

definition unpack_u64s :: "cfio_buf \<Rightarrow> (u64 list \<times> i32 \<times> cfio_buf) option" where
  "unpack_u64s b =
     do {
       (data, n, b) \<leftarrow> cfio_buf_unpack_data_array sizeof_size_t b;
       Some (dec_u64s (length data div sizeof_size_t) data, n, b)
     }"

definition cfio_recv_unpack_def_var_old ::
    "map_state \<Rightarrow> cfio_msg \<Rightarrow> recv_state \<Rightarrow>
     ((i32 \<times> byte list \<times> i32 \<times> i32 \<times> i32 list \<times> u64 list \<times> u64 list \<times> i32) \<times> recv_state) option" where
  "cfio_recv_unpack_def_var_old m msg =
     with_client_buf m msg (\<lambda>b. do {
       (ncid, b) \<leftarrow> unpack_int b;
       (name, b) \<leftarrow> cfio_buf_unpack_str b;
       (xtype, b) \<leftarrow> unpack_int b;
       (dimids, ndims, b) \<leftarrow> unpack_i32s b;
       (start, ndims, b) \<leftarrow> unpack_u64s b;
       (count, ndims, b) \<leftarrow> unpack_u64s b;
       (varid, b) \<leftarrow> unpack_int b;
       Some ((ncid, name, xtype, ndims, dimids, start, count, varid), b)
     })"

text \<open>\<open>*dimids\<close> is assigned only for \<open>ndims \<noteq> 0\<close>.\<close>

definition cfio_recv_unpack_def_var ::
    "map_state \<Rightarrow> cfio_msg \<Rightarrow> recv_state \<Rightarrow>
     ((i32 \<times> byte list \<times> i32 \<times> i32 \<times> i32 list option \<times> i32) \<times> recv_state) option" where
  "cfio_recv_unpack_def_var m msg =
     with_client_buf m msg (\<lambda>b. do {
       (ncid, b) \<leftarrow> unpack_int b;
       (name, b) \<leftarrow> cfio_buf_unpack_str b;
       (xtype, b) \<leftarrow> unpack_int b;
       (ndims, b) \<leftarrow> unpack_int b;
       (ndims, dimids, b) \<leftarrow>
         (if 0 \<noteq> ndims then do {
            (dimids, ndims, b) \<leftarrow> unpack_i32s b;
            Some (ndims, Some dimids, b)
          }
          else Some (ndims, None, b));
       (varid, b) \<leftarrow> unpack_int b;
       Some ((ncid, name, xtype, ndims, dimids, varid), b)
     })"

definition cfio_recv_unpack_put_att ::
    "map_state \<Rightarrow> cfio_msg \<Rightarrow> recv_state \<Rightarrow>
     ((i32 \<times> i32 \<times> byte list \<times> i32 \<times> i32 \<times> byte list) \<times> recv_state) option" where
  "cfio_recv_unpack_put_att m msg =
     with_client_buf m msg (\<lambda>b. do {
       (ncid, b) \<leftarrow> unpack_int b;
       (varid, b) \<leftarrow> unpack_int b;
       (name, b) \<leftarrow> cfio_buf_unpack_str b;
       (xtype, b) \<leftarrow> unpack_int b;
       att_size \<leftarrow> cfio_types_size xtype;
       (op, len, b) \<leftarrow> cfio_buf_unpack_data_array att_size b;
       Some ((ncid, varid, name, xtype, len, op), b)
     })"

definition cfio_recv_unpack_enddef ::
    "map_state \<Rightarrow> cfio_msg \<Rightarrow> recv_state \<Rightarrow> (i32 \<times> recv_state) option" where
  "cfio_recv_unpack_enddef m msg = with_client_buf m msg unpack_int"

text \<open>For a type without a case neither \<open>*data_len\<close> nor \<open>*fp\<close> is assigned.\<close>

definition cfio_recv_unpack_put_vara ::
    "map_state \<Rightarrow> cfio_msg \<Rightarrow> recv_state \<Rightarrow>
     ((i32 \<times> i32 \<times> i32 \<times> u64 list \<times> u64 list \<times> i32 \<times> (i32 \<times> byte list) option) \<times> recv_state) option" where
  "cfio_recv_unpack_put_vara m msg =
     with_client_buf m msg (\<lambda>b. do {
       (ncid, b) \<leftarrow> unpack_int b;
       (varid, b) \<leftarrow> unpack_int b;
       (start, ndims, b) \<leftarrow> unpack_u64s b;
       (count, ndims, b) \<leftarrow> unpack_u64s b;
       (fp_type, b) \<leftarrow> unpack_int b;
       (data, b) \<leftarrow>
         (case cfio_type_of fp_type of
            Some t \<Rightarrow> do {
              (fp, data_len, b) \<leftarrow> cfio_buf_unpack_data_array (type_size t) b;
              Some (Some (data_len, fp), b)
            }
          | None \<Rightarrow> Some (None, b));
       Some ((ncid, varid, ndims, start, count, fp_type, data), b)
     })"

definition cfio_recv_unpack_close ::
    "map_state \<Rightarrow> cfio_msg \<Rightarrow> recv_state \<Rightarrow> (i32 \<times> recv_state) option" where
  "cfio_recv_unpack_close m msg = with_client_buf m msg unpack_int"

section \<open>Messages in the ring\<close>

text \<open>
  A queued message lies in one piece in the unread part of its client's ring, behind the
  messages queued before it. \<open>ahead b a\<close> is the distance from \<open>used_addr\<close> to \<open>a\<close>.
\<close>

definition ahead :: "cfio_buf \<Rightarrow> nat \<Rightarrow> nat" where
  "ahead b a = (if used_addr b \<le> a then a - used_addr b else bsize b + a - used_addr b)"

definition holds :: "cfio_buf \<Rightarrow> nat \<Rightarrow> byte list \<Rightarrow> bool" where
  "holds b a d \<longleftrightarrow> d \<noteq> [] \<and> a + length d \<le> bsize b \<and> slice (bmem b) a (length d) = d"

fun chain :: "cfio_buf \<Rightarrow> nat \<Rightarrow> (nat \<times> byte list) list \<Rightarrow> bool" where
  "chain b lo [] \<longleftrightarrow> lo \<le> used_buf_size b"
| "chain b lo ((a, d) # q) \<longleftrightarrow> lo \<le> ahead b a \<and> holds b a d \<and> chain b (ahead b a + length d) q"

definition ring_queue :: "cfio_buf \<Rightarrow> (nat \<times> byte list) list \<Rightarrow> bool" where
  "ring_queue b q \<longleftrightarrow> buf_inv b \<and> chain b 0 q"

lemma used_size_ahead: "buf_inv b \<Longrightarrow> used_buf_size b = ahead b (free_addr b)"
  by (simp add: used_buf_size_eq ahead_def)

lemma chain_lo: "chain b lo q \<Longrightarrow> lo \<le> used_buf_size b"
proof (induction q arbitrary: lo)
  case (Cons x q)
  obtain a d where x: "x = (a, d)" by fastforce
  with Cons.prems have "lo \<le> ahead b a" "chain b (ahead b a + length d) q" by auto
  with Cons.IH [of "ahead b a + length d"] show ?case by simp
qed simp

lemma chain_mono: "chain b lo q \<Longrightarrow> lo' \<le> lo \<Longrightarrow> chain b lo' q"
  by (cases q) auto

text \<open>Steps of the writer that keep what is stored: each element is still held and the
  unread part has not shrunk.\<close>

lemma chain_keep:
  assumes "chain b lo q" "used_addr b' = used_addr b" "bsize b' = bsize b"
    and "used_buf_size b \<le> used_buf_size b'"
    and "\<And>a d. holds b a d \<Longrightarrow> ahead b a + length d \<le> used_buf_size b \<Longrightarrow> holds b' a d"
  shows "chain b' lo q"
  using assms(1)
proof (induction q arbitrary: lo)
  case Nil
  then show ?case using assms(4) by simp
next
  case (Cons x q)
  obtain a d where x: "x = (a, d)" by fastforce
  have ah: "ahead b' = ahead b" using assms(2,3) by (simp add: ahead_def fun_eq_iff)
  from Cons.prems x have c: "lo \<le> ahead b a" "holds b a d" "chain b (ahead b a + length d) q" by auto
  have "holds b' a d" using assms(5) [OF c(2)] chain_lo [OF c(3)] by simp
  with c Cons.IH [OF c(3)] x show ?case by (simp add: ah)
qed

lemma chain_snoc:
  assumes "chain b lo q" "used_buf_size b = n" "ahead b a = n"
    and "holds b a d" "n + length d \<le> n'"
  shows "(\<forall>b'. used_addr b' = used_addr b \<longrightarrow> bsize b' = bsize b \<longrightarrow> bmem b' = bmem b \<longrightarrow>
     used_buf_size b' = n' \<longrightarrow> chain b' lo (q @ [(a, d)]))"
proof (intro allI impI)
  fix b' assume b': "used_addr b' = used_addr b" "bsize b' = bsize b" "bmem b' = bmem b" "used_buf_size b' = n'"
  have ah: "ahead b' = ahead b" using b' by (simp add: ahead_def fun_eq_iff)
  have ho: "holds b' = holds b" using b' by (simp add: holds_def fun_eq_iff)
  show "chain b' lo (q @ [(a, d)])"
    using assms(1)
  proof (induction q arbitrary: lo)
    case Nil
    then show ?case using assms b' by (simp add: ah ho)
  next
    case (Cons x q)
    obtain a' d' where "x = (a', d')" by fastforce
    with Cons show ?case by (simp add: ah ho)
  qed
qed

lemma chain_nonempty: "chain b lo q \<Longrightarrow> used_buf_size b = 0 \<Longrightarrow> q = []"
proof (cases q)
  case (Cons x q')
  obtain a d where x: "x = (a, d)" by fastforce
  assume "chain b lo q" and z: "used_buf_size b = 0"
  with x Cons have "holds b a d" "chain b (ahead b a + length d) q'" by auto
  with chain_lo [OF this(2)] z show ?thesis by (simp add: holds_def)
qed

text \<open>The reader moves on: up to the start of the first element, and over its bytes.\<close>

lemma ahead_forward:
  assumes "buf_inv b" "a < bsize b" "x < bsize b" "ahead b a \<le> ahead b x"
  shows "ahead (b\<lparr>used_addr := a\<rparr>) x = ahead b x - ahead b a"
  using assms by (auto simp: ahead_def buf_inv_def split: if_splits)

lemma chain_forward:
  assumes "buf_inv b" "a < bsize b" "ahead b a \<le> lo" "chain b lo q"
  shows "chain (b\<lparr>used_addr := a\<rparr>) (lo - ahead b a) q"
  using assms(3,4)
proof (induction q arbitrary: lo)
  case Nil
  let ?b = "b\<lparr>used_addr := a\<rparr>"
  have inv: "buf_inv ?b" using assms(1,2) by (simp add: buf_inv_def magic_ok_def)
  have "ahead b a \<le> ahead b (free_addr b)" using Nil used_size_ahead [OF assms(1)] by simp
  then have "used_buf_size ?b = used_buf_size b - ahead b a"
    using used_size_ahead [OF inv] used_size_ahead [OF assms(1)]
      ahead_forward [OF assms(1,2), of "free_addr b"] ring_addrs [OF assms(1)] by simp
  with Nil show ?case by simp
next
  case (Cons x q)
  obtain a' d where x: "x = (a', d)" by fastforce
  with Cons.prems have c: "lo \<le> ahead b a'" "holds b a' d" "chain b (ahead b a' + length d) q" by auto
  have "a' < bsize b" using c(2) by (cases d) (auto simp: holds_def)
  then have ah: "ahead (b\<lparr>used_addr := a\<rparr>) a' = ahead b a' - ahead b a"
    using ahead_forward [OF assms(1,2)] c(1) Cons.prems(1) by simp
  have "chain (b\<lparr>used_addr := a\<rparr>) (ahead b a' + length d - ahead b a) q"
    using Cons.IH [OF _ c(3)] c(1) Cons.prems(1) by simp
  moreover have "ahead b a' + length d - ahead b a = ahead b a' - ahead b a + length d"
    using c(1) Cons.prems(1) by simp
  ultimately show ?case using x c ah by (simp add: holds_def diff_le_mono)
qed

lemma free_buf_ahead:
  assumes "buf_inv b" "used_addr b + k \<le> bsize b" "k < bsize b"
  shows "free_buf b k = b\<lparr>used_addr := (if used_addr b + k = bsize b then 0 else used_addr b + k)\<rparr>"
  using assms by (auto simp: free_buf_def buf_inv_def)

lemma chain_free_buf:
  assumes "buf_inv b" "used_addr b + k \<le> bsize b" "chain b k q"
  shows "chain (free_buf b k) 0 q"
proof -
  have k: "k < bsize b" using chain_lo [OF assms(3)] used_buf_size_less [OF assms(1)] by simp
  let ?a = "if used_addr b + k = bsize b then 0 else used_addr b + k"
  have "?a < bsize b" "ahead b ?a = k"
    using assms(1,2) k by (auto simp: buf_inv_def ahead_def)
  with chain_forward [OF assms(1) this(1) _ assms(3)] show ?thesis
    by (simp add: free_buf_ahead [OF assms(1,2) k])
qed

lemma check_used_addr_ahead:
  assumes "buf_inv b" "0 < l" "a + l \<le> bsize b" "ahead b a + l \<le> used_buf_size b"
  shows "check_used_addr a b = Some True"
  using assms ring_addrs [OF assms(1)]
  by (auto simp: check_used_addr_def used_size_ahead ahead_def split: if_splits)

lemma ring_queue_front:
  assumes "ring_queue b ((a, d) # q)"
  shows "check_used_addr a b = Some True" "front (b\<lparr>used_addr := a\<rparr>) d"
    "chain (b\<lparr>used_addr := a\<rparr>) (length d) q"
proof -
  from assms have inv: "buf_inv b" and h: "holds b a d" and c: "chain b (ahead b a + length d) q"
    by (auto simp: ring_queue_def)
  have d: "0 < length d" "a + length d \<le> bsize b" and a: "a < bsize b"
    using h by (cases d; simp add: holds_def)+
  have le: "ahead b a + length d \<le> used_buf_size b" using chain_lo [OF c] .
  with check_used_addr_ahead [OF inv d] show "check_used_addr a b = Some True" .
  let ?b = "b\<lparr>used_addr := a\<rparr>"
  have inv': "buf_inv ?b" using inv a by (simp add: buf_inv_def magic_ok_def)
  show c': "chain ?b (length d) q" using chain_forward [OF inv a _ c] by simp
  show "front ?b d" using inv' h chain_lo [OF c'] by (simp add: front_def holds_def)
qed

section \<open>Adding keeps the queue\<close>

lemma slice_kept:
  assumes "buf_inv b" "fits b n" "0 < l" "a + l \<le> bsize b" "ahead b a + l \<le> used_buf_size b"
    and "length e = n"
  shows "slice (blit (bmem b) (free_addr b) e) a l = slice (bmem b) a l"
proof -
  have len: "free_addr b + length e \<le> length (bmem b)"
    using assms(1,2,6) by (simp add: fits_def buf_inv_def)
  have "a + l \<le> free_addr b \<or> free_addr b + n \<le> a"
    using assms(3-5) fits_room [OF assms(2)] ring_addrs [OF assms(1)] used_size_ahead [OF assms(1)]
    by (auto simp: ahead_def split: if_splits)
  with len assms(6) show ?thesis by (auto simp: slice_blit_before slice_blit_after)
qed

lemma used_size_use_buf:
  assumes "fits b n" "free_addr b' = free_addr (use_buf b n)" "used_addr b' = used_addr b"
    and "bsize b' = bsize b" "buf_inv b'"
  shows "used_buf_size b' = used_buf_size b + n"
proof -
  have inv: "buf_inv b" using assms(1) by (simp add: fits_def)
  show ?thesis
    using assms(1-4) fits_room [OF assms(1)] ring_addrs [OF inv]
    by (auto simp: used_buf_size_eq [OF inv] used_buf_size_eq [OF assms(5)] use_buf_def Let_def
        split: if_splits)
qed

text \<open>A message written at \<open>free_addr\<close> of a buffer with room joins the queue.\<close>

lemma ring_queue_push:
  assumes q: "ring_queue b q" and f: "fits b (length d)" and d: "d \<noteq> []"
  shows "ring_queue (use_buf (b\<lparr>bmem := blit (bmem b) (free_addr b) d\<rparr>) (length d))
           (q @ [(free_addr b, d)])"
proof -
  let ?m = "b\<lparr>bmem := blit (bmem b) (free_addr b) d\<rparr>"
  let ?b = "use_buf ?m (length d)"
  have inv: "buf_inv b" and c: "chain b 0 q" using q by (simp_all add: ring_queue_def)
  have len: "free_addr b + length d \<le> length (bmem b)" using f inv by (simp add: fits_def buf_inv_def)
  have invm: "buf_inv ?m" using inv len by (simp add: buf_inv_def magic_ok_def)
  have "length d \<le> bsize b" using f free_buf_size_less [OF inv] by (simp add: fits_def)
  then have inv': "buf_inv ?b" using buf_inv_use_buf [OF invm] by simp
  have sel: "used_addr ?b = used_addr b" "bsize ?b = bsize b" "bmem ?b = blit (bmem b) (free_addr b) d"
    "free_addr ?b = free_addr (use_buf b (length d))"
    by (simp_all add: use_buf_def Let_def)
  have um: "used_buf_size ?m = used_buf_size b"
    by (simp add: used_buf_size_eq [OF inv] used_buf_size_eq [OF invm])
  have "chain ?m 0 q"
  proof (rule chain_keep [OF c])
    fix a e assume h: "holds b a e" "ahead b a + length e \<le> used_buf_size b"
    then have "0 < length e" "a + length e \<le> bsize b" by (auto simp: holds_def)
    from slice_kept [OF inv f this h(2) refl] h(1) show "holds ?m a e" by (simp add: holds_def)
  qed (simp_all add: um)
  moreover have "ahead ?m (free_addr b) = used_buf_size b"
    using used_size_ahead [OF inv] by (simp add: ahead_def)
  moreover have "holds ?m (free_addr b) d" using len d f by (simp add: holds_def fits_def)
  ultimately have "chain ?b 0 (q @ [(free_addr b, d)])"
    using chain_snoc [of ?m 0 q "used_buf_size b" "free_addr b" d "used_buf_size b + length d"]
      um sel used_size_use_buf [OF f sel(4,1,2) inv'] by simp
  with inv' show ?thesis by (simp add: ring_queue_def)
qed

lemma ring_queue_skip:
  assumes "ring_queue b q" "0 < used_addr b" "used_addr b \<le> free_addr b"
  shows "ring_queue (skip_tail b) q"
proof -
  have inv: "buf_inv b" and c: "chain b 0 q" using assms(1) by (simp_all add: ring_queue_def)
  have inv': "buf_inv (skip_tail b)" using skip_tail_inv [OF inv] .
  have "used_buf_size b \<le> used_buf_size (skip_tail b)"
    using assms(2,3) ring_addrs [OF inv]
    by (simp add: used_buf_size_eq [OF inv] skip_tail_eq [OF inv]
        used_buf_size_eq [OF inv' [unfolded skip_tail_eq [OF inv]]])
  with c have "chain (skip_tail b) 0 q"
    by (rule_tac chain_keep [OF c]) (simp_all add: skip_tail_eq [OF inv] holds_def)
  with inv' show ?thesis by (simp add: ring_queue_def)
qed

lemma ring_queue_clear:
  assumes "ring_queue b q" "cfio_buf_is_empty b"
  shows "\<exists>b'. cfio_buf_clear b = Some b' \<and> ring_queue b' q \<and> bsize b' = bsize b"
proof -
  have inv: "buf_inv b" and c: "chain b 0 q" using assms(1) by (simp_all add: ring_queue_def)
  have "used_buf_size b = 0" using assms(2) inv by (simp add: used_buf_size_eq cfio_buf_is_empty_def)
  with chain_nonempty [OF c] have "q = []" by simp
  moreover have "buf_inv (b\<lparr>free_addr := 0, used_addr := 0\<rparr>)"
    using inv by (simp add: buf_inv_def magic_ok_def)
  ultimately show ?thesis using inv by (simp add: cfio_buf_clear_def ring_queue_def buf_inv_def)
qed

lemma ring_queue_room:
  assumes "ring_queue b q" "is_free_space_enough b n = (answer, b')"
  shows "ring_queue b' q \<and> bsize b' = bsize b \<and>
    (if answer = CFIO_BUF_FREE_SPACE_ENOUGH then fits b' n else free_buf_size b' < n)"
proof -
  have inv: "buf_inv b" using assms(1) by (simp add: ring_queue_def)
  have "b' = b \<or> 0 < used_addr b \<and> used_addr b \<le> free_addr b \<and> b' = skip_tail b"
    using is_free_space_enough_ENOUGH [OF inv, of n b'] is_free_space_enough_NOT [OF inv, of n b'] assms(2)
    by (cases answer) auto
  moreover have "if answer = CFIO_BUF_FREE_SPACE_ENOUGH then fits b' n else free_buf_size b' < n"
    using is_free_space_enough_ENOUGH [OF inv, of n b'] is_free_space_enough_NOT [OF inv, of n b'] assms(2)
    by (cases answer) auto
  ultimately show ?thesis
    using assms(1) ring_queue_skip [OF assms(1)] by (auto simp: skip_tail_eq [OF inv])
qed

section \<open>The queues of all clients\<close>

text \<open>
  \<open>recv_queues s qs\<close>: the server holds, for its client number \<open>i\<close>, exactly the messages
  \<open>qs ! i\<close>, oldest first.
\<close>

definition describes :: "map_state \<Rightarrow> nat \<Rightarrow> cfio_msg \<Rightarrow> nat \<times> byte list \<Rightarrow> bool" where
  "describes m i msg ad \<longleftrightarrow>
     maddr msg = fst ad \<and> msize msg = length (snd ad) \<and> src msg < client_amount m \<and>
     cfio_map_get_client_index_of_server m (src msg) = Some (int i)"

definition slot_holds ::
    "map_state \<Rightarrow> nat \<Rightarrow> cfio_msg list \<Rightarrow> cfio_buf \<Rightarrow> byte list list \<Rightarrow> bool" where
  "slot_holds m i msgs b q \<longleftrightarrow>
     (\<exists>as. length as = length q \<and> ring_queue b (zip as q) \<and>
        list_all2 (describes m i) msgs (zip as q))"

definition recv_queues :: "map_state \<Rightarrow> recv_state \<Rightarrow> byte list list list \<Rightarrow> bool" where
  "recv_queues m s qs \<longleftrightarrow>
     length (msg_head s) = length qs \<and> length (rbuffer s) = length qs \<and>
     client_num s = int (length qs) \<and> client_get_index s < length qs \<and>
     (\<forall>i < length qs. slot_holds m i (msg_head s ! i) (rbuffer s ! i) (qs ! i))"

lemma recv_queues_slot:
  assumes "recv_queues m s qs" "i < length qs"
  obtains as where "length as = length (qs ! i)" "ring_queue (rbuffer s ! i) (zip as (qs ! i))"
    "list_all2 (describes m i) (msg_head s ! i) (zip as (qs ! i))"
  using assms by (auto simp: recv_queues_def slot_holds_def)

lemma recv_queues_update:
  assumes "recv_queues m s qs" "i < length qs" "slot_holds m i msgs b q"
    and "g < length qs"
  shows "recv_queues m (s\<lparr>msg_head := (msg_head s)[i := msgs], rbuffer := (rbuffer s)[i := b],
           client_get_index := g\<rparr>) (qs[i := q])"
  using assms by (auto simp: recv_queues_def nth_list_update)

lemma client_slot_eq:
  "recv_queues m s qs \<Longrightarrow> i < length qs \<Longrightarrow>
     cfio_map_get_client_index_of_server m r = Some (int i) \<Longrightarrow> client_slot m r s = Some i"
  by (simp add: client_slot_def recv_queues_def)

text \<open>The buffer that \<open>cfio_recv_add_msg\<close> works on, after it has made room.\<close>

lemma ring_queue_cleared:
  assumes "ring_queue b q"
  shows "\<exists>b'. (if cfio_buf_is_empty b then cfio_buf_clear b else Some b) = Some b' \<and> ring_queue b' q"
  using assms ring_queue_clear [OF assms] by auto

lemma slot_holds_push:
  assumes "ring_queue b (zip as q)" "length as = length q" "list_all2 (describes m i) msgs (zip as q)"
    and "fits b (length d)" "d \<noteq> []" "describes m i msg (free_addr b, d)"
  shows "slot_holds m i (msgs @ [msg])
    (use_buf (b\<lparr>bmem := blit (bmem b) (free_addr b) d\<rparr>) (length d)) (q @ [d])"
proof -
  have "zip (as @ [free_addr b]) (q @ [d]) = zip as q @ [(free_addr b, d)]" using assms(2) by simp
  with ring_queue_push [OF assms(1,4,5)] assms(2,3,6) show ?thesis
    unfolding slot_holds_def by (intro exI [where x = "as @ [free_addr b]"]) (simp add: list_all2_appendI)
qed

lemma add_msg_queue:
  assumes "recv_queues m s qs" "i < length qs"
    and "cfio_map_get_client_index_of_server m client = Some (int i)"
    and "size_of_int sz = length d" "12 \<le> length d" "dec_i32 (slice d 8 4) \<noteq> FUNC_FINAL" "client < client_amount m"
  shows "\<exists>ret code s'. cfio_recv_add_msg m client sz (d @ rest) s = Some (ret, code, s') \<and>
    (ret = CFIO_ERROR_NONE \<and> code = Some (dec_i32 (slice d 8 4)) \<and>
       recv_queues m s' (qs[i := qs ! i @ [d]]) \<or>
     ret = CFIO_RECV_BUF_FULL \<and> free_buf_size (rbuffer s' ! i) < length d \<and> recv_queues m s' qs)"
proof -
  from recv_queues_slot [OF assms(1,2)] obtain as where as: "length as = length (qs ! i)"
    "ring_queue (rbuffer s ! i) (zip as (qs ! i))" "list_all2 (describes m i) (msg_head s ! i) (zip as (qs ! i))" .
  from ring_queue_cleared [OF as(2)] obtain b where b: "ring_queue b (zip as (qs ! i))"
    "(if cfio_buf_is_empty (rbuffer s ! i) then cfio_buf_clear (rbuffer s ! i) else Some (rbuffer s ! i)) = Some b"
    by blast
  obtain answer b' where room: "is_free_space_enough b (length d) = (answer, b')" by fastforce
  note r = ring_queue_room [OF b(1) room]
  have slot: "client_slot m client s = Some i" using client_slot_eq [OF assms(1-3)] .
  have i: "i < length (rbuffer s)" using assms(1,2) by (simp add: recv_queues_def)
  have code: "mem_read (d @ rest) 8 4 = Some (slice d 8 4)"
    using assms(5) by (simp add: mem_read_def slice_def)
  have sz: "sz \<noteq> 0" using assms(4,5) by (auto simp: size_of_int_def)
  show ?thesis
  proof (cases "answer = CFIO_BUF_FREE_SPACE_ENOUGH")
    case False
    let ?s = "s\<lparr>rbuffer := (rbuffer s)[i := b']\<rparr>"
    have "cfio_recv_add_msg m client sz (d @ rest) s = Some (CFIO_RECV_BUF_FULL, None, ?s)"
      using False room slot assms(4) b(2) by (cases answer) (simp_all add: cfio_recv_add_msg_def)
    moreover have "slot_holds m i (msg_head s ! i) b' (qs ! i)"
      using as r unfolding slot_holds_def by blast
    then have "recv_queues m ?s qs" using assms(1,2) by (auto simp: recv_queues_def nth_list_update)
    moreover have "free_buf_size (rbuffer ?s ! i) < length d" using r False i by simp
    ultimately show ?thesis by blast
  next
    case True
    have f: "fits b' (length d)" using r True by simp
    then have len: "free_addr b' + length d \<le> length (bmem b')" by (simp add: fits_def buf_inv_def)
    define msg where "msg = cfio_msg_create\<lparr>maddr := free_addr b', msize := length d,
        src := client, dst := rrank s, mfunc_code := dec_i32 (slice d 8 4)\<rparr>"
    let ?b = "use_buf (b'\<lparr>bmem := blit (bmem b') (free_addr b') d\<rparr>) (length d)"
    let ?s = "s\<lparr>rbuffer := (rbuffer s)[i := ?b], msg_head := (msg_head s)[i := msg_head s ! i @ [msg]]\<rparr>"
    have "mem_read (d @ rest) 0 (length d) = Some d" by (simp add: mem_read_def slice_def)
    then have "cfio_recv_add_msg m client sz (d @ rest) s =
        Some (CFIO_ERROR_NONE, Some (dec_i32 (slice d 8 4)), ?s)"
      using True room slot assms(4,6) b(2) code sz len
      by (simp add: cfio_recv_add_msg_def Let_def mem_write_def msg_def)
    moreover have "slot_holds m i (msg_head s ! i @ [msg]) ?b (qs ! i @ [d])"
    proof (rule slot_holds_push [OF _ as(1,3) f])
      show "ring_queue b' (zip as (qs ! i))" using r ..
      show "describes m i msg (free_addr b', d)"
        using assms(3,7) by (simp add: describes_def msg_def cfio_msg_create_def)
    qed (use assms(5) in auto)
    then have "recv_queues m ?s (qs[i := qs ! i @ [d]])"
      using assms(1,2) by (auto simp: recv_queues_def nth_list_update)
    ultimately show ?thesis by blast
  qed
qed

text \<open>C17. Adding a message to the queue of a client either appends exactly its bytes to that
  client's queue and leaves every other message as it is, or reports a full buffer and changes
  no queue.\<close>

theorem add_msg_enqueues:
  assumes "recv_queues m s qs" "i < length qs"
    and "cfio_map_get_client_index_of_server m client = Some (int i)"
    and "size_of_int sz = length d" "12 \<le> length d" "dec_i32 (slice d 8 4) \<noteq> FUNC_FINAL" "client < client_amount m"
  shows "\<exists>ret code s'. cfio_recv_add_msg m client sz (d @ rest) s = Some (ret, code, s') \<and>
    (ret = CFIO_ERROR_NONE \<and> code = Some (dec_i32 (slice d 8 4)) \<and>
       recv_queues m s' (qs[i := qs ! i @ [d]]) \<or>
     ret = CFIO_RECV_BUF_FULL \<and> free_buf_size (rbuffer s' ! i) < length d \<and> recv_queues m s' qs)"
  by (rule add_msg_queue [OF assms])

section \<open>Reading a message back\<close>

text \<open>\<open>reads f x v\<close>: with the bytes \<open>x\<close> in front, \<open>f\<close> returns \<open>v\<close> and consumes \<open>x\<close>.\<close>

definition reads :: "(cfio_buf \<Rightarrow> ('a \<times> cfio_buf) option) \<Rightarrow> byte list \<Rightarrow> 'a \<Rightarrow> bool" where
  "reads f x v \<longleftrightarrow> (\<forall>b r. front b (x @ r) \<longrightarrow> f b = Some (v, free_buf b (length x)))"

definition reads_array ::
    "(cfio_buf \<Rightarrow> ('a \<times> i32 \<times> cfio_buf) option) \<Rightarrow> byte list \<Rightarrow> 'a \<Rightarrow> i32 \<Rightarrow> bool" where
  "reads_array f x v n \<longleftrightarrow> (\<forall>b r. front b (x @ r) \<longrightarrow> f b = Some (v, n, free_buf b (length x)))"

lemma free_buf_free_buf:
  assumes "front b (x @ y @ r)"
  shows "free_buf (free_buf b (length x)) (length y) = free_buf b (length x + length y)"
proof -
  have "used_addr b + length x + length y \<le> bsize b" "0 < bsize b"
    using assms by (simp_all add: front_def buf_inv_def)
  then have "bsize b \<le> used_addr b + length x \<Longrightarrow> used_addr b + length x = bsize b \<and> length y = 0"
    by linarith
  then show ?thesis by (auto simp: free_buf_def Let_def)
qed

lemma reads_bind:
  assumes "reads f x v" "reads (g v) y w"
  shows "reads (\<lambda>b. Option.bind (f b) (\<lambda>(v, b). g v b)) (x @ y) w"
  unfolding reads_def
proof (intro allI impI)
  fix b r assume b: "front b ((x @ y) @ r)"
  then have b': "front b (x @ y @ r)" by simp
  have "front (free_buf b (length x)) (y @ r)" using b' by (rule front_free_buf) simp
  then have "g v (free_buf b (length x)) = Some (w, free_buf b (length x + length y))"
    using assms(2) free_buf_free_buf [OF b'] unfolding reads_def by metis
  moreover have "f b = Some (v, free_buf b (length x))"
    using assms(1) b' unfolding reads_def by blast
  ultimately show "Option.bind (f b) (\<lambda>(v, b). g v b) = Some (w, free_buf b (length (x @ y)))"
    by simp
qed

lemma reads_array_bind:
  assumes "reads_array f x v n" "reads (g v n) y w"
  shows "reads (\<lambda>b. Option.bind (f b) (\<lambda>(v, n, b). g v n b)) (x @ y) w"
  unfolding reads_def
proof (intro allI impI)
  fix b r assume b: "front b ((x @ y) @ r)"
  then have b': "front b (x @ y @ r)" by simp
  have "front (free_buf b (length x)) (y @ r)" using b' by (rule front_free_buf) simp
  then have "g v n (free_buf b (length x)) = Some (w, free_buf b (length x + length y))"
    using assms(2) free_buf_free_buf [OF b'] unfolding reads_def by metis
  moreover have "f b = Some (v, n, free_buf b (length x))"
    using assms(1) b' unfolding reads_array_def by blast
  ultimately show "Option.bind (f b) (\<lambda>(v, n, b). g v n b) = Some (w, free_buf b (length (x @ y)))"
    by simp
qed

lemma reads_return: "reads (\<lambda>b. Some (v, b)) [] v"
  by (auto simp: reads_def front_def buf_inv_def free_buf_def)

lemma reads_u64: "reads unpack_u64 (enc_u64 w) w"
  using unpack_data_front [of _ "enc_u64 w" _ 8] by (auto simp: reads_def unpack_u64_def)

lemma reads_int: "reads unpack_int (enc_i32 w) w"
  using unpack_data_front [of _ "enc_i32 w" _ 4] by (auto simp: reads_def unpack_int_def)

lemma reads_array_data:
  assumes "size_of_int n * sz = length data"
  shows "reads_array (cfio_buf_unpack_data_array sz) (array_bytes n data) data n"
  unfolding reads_array_def
proof (intro allI impI)
  fix b r assume b: "front b (array_bytes n data @ r)"
  then have "free_buf (free_buf b 4) (length data) = free_buf b (4 + length data)"
    using free_buf_free_buf [of b "enc_i32 n" data r] by (simp add: array_bytes_def)
  with unpack_array_front [OF b assms]
  show "cfio_buf_unpack_data_array sz b = Some (data, n, free_buf b (length (array_bytes n data)))"
    by simp
qed

lemma reads_str:
  assumes "wf_str str"
  shows "reads cfio_buf_unpack_str (str_bytes str) str"
proof -
  have "size_of_int (strlen1 str) * 1 = length (str @ [0])" using assms by (simp add: size_of_strlen1)
  from reads_array_data [OF this] assms show ?thesis
    by (auto simp: reads_def reads_array_def cfio_buf_unpack_str_def str_bytes_def c_string_NUL wf_str_def)
qed

lemma reads_i32s:
  assumes "length xs < 2 ^ 31"
  shows "reads_array unpack_i32s (i32_array xs) xs (word_of_nat (length xs))"
proof -
  have "size_of_int (word_of_nat (length xs)) * 4 = length (enc_i32s xs)"
    using assms by (simp add: size_of_int_of_nat)
  from reads_array_data [OF this] show ?thesis
    by (auto simp: reads_array_def unpack_i32s_def i32_array_def)
qed

lemma reads_u64s:
  assumes "length xs < 2 ^ 31"
  shows "reads_array unpack_u64s (u64_array xs) xs (word_of_nat (length xs))"
proof -
  have "size_of_int (word_of_nat (length xs)) * 8 = length (enc_u64s xs)"
    using assms by (simp add: size_of_int_of_nat)
  from reads_array_data [OF this] show ?thesis
    by (auto simp: reads_array_def unpack_u64s_def u64_array_def)
qed

lemma reads_data:
  assumes "type_size t dvd length data" "length data div type_size t < 2 ^ 31"
  shows "reads_array (cfio_buf_unpack_data_array (type_size t)) (data_array t data) data
    (word_of_nat (length data div type_size t))"
  unfolding data_array_def using assms by (intro reads_array_data) (simp add: size_of_int_of_nat)

lemmas reads_intros =
  reads_bind reads_array_bind reads_return reads_u64 reads_int reads_str reads_i32s reads_u64s reads_data

text \<open>The dispatch on the function code, as \<open>decode\<close> of the server does it.\<close>

definition unpack_request ::
    "map_state \<Rightarrow> cfio_msg \<Rightarrow> recv_state \<Rightarrow> (request option \<times> recv_state) option" where
  "unpack_request m msg s =
     do {
       (code, s) \<leftarrow> cfio_recv_unpack_func_code m msg s;
       if code = FUNC_NC_CREATE
       then map_option (\<lambda>((path, cmode, ncid), s). (Some (Create path cmode ncid), s))
              (cfio_recv_unpack_create m msg s)
       else if code = FUNC_NC_DEF_DIM
       then map_option (\<lambda>((ncid, name, len, dimid), s). (Some (Def_dim ncid name len dimid), s))
              (cfio_recv_unpack_def_dim m msg s)
       else if code = FUNC_NC_DEF_VAR
       then map_option (\<lambda>((ncid, name, xtype, ndims, dimids, varid), s).
                (Some (Def_var ncid name xtype (case dimids of None \<Rightarrow> [] | Some ds \<Rightarrow> ds) varid), s))
              (cfio_recv_unpack_def_var m msg s)
       else if code = FUNC_PUT_ATT
       then map_option (\<lambda>((ncid, varid, name, xtype, len, op), s).
                (map_option (\<lambda>t. Put_att ncid varid name t op) (cfio_type_of xtype), s))
              (cfio_recv_unpack_put_att m msg s)
       else if code = FUNC_NC_ENDDEF
       then map_option (\<lambda>(ncid, s). (Some (Enddef ncid), s)) (cfio_recv_unpack_enddef m msg s)
       else if code = FUNC_NC_PUT_VARA
       then map_option (\<lambda>((ncid, varid, ndims, start, count, fp_type, data), s).
                (case (cfio_type_of fp_type, data) of
                   (Some t, Some (data_len, fp)) \<Rightarrow> Some (Put_vara ncid varid start count t fp)
                 | _ \<Rightarrow> None, s))
              (cfio_recv_unpack_put_vara m msg s)
       else if code = FUNC_NC_CLOSE
       then map_option (\<lambda>(ncid, s). (Some (Close ncid), s)) (cfio_recv_unpack_close m msg s)
       else Some (None, s)
     }"

lemma reads_last:
  "reads f x v \<Longrightarrow> reads (\<lambda>b. Option.bind (f b) (\<lambda>(v, b). Some (h v, b))) x (h v)"
  using reads_bind [of f x v "\<lambda>v b. Some (h v, b)" "[]" "h v"] reads_return [of "h v"] by simp

lemma reads_array_last:
  "reads_array f x v n \<Longrightarrow> reads (\<lambda>b. Option.bind (f b) (\<lambda>(v, n, b). Some (h v n, b))) x (h v n)"
  using reads_array_bind [of f x v n "\<lambda>v n b. Some (h v n, b)" "[]" "h v n"] reads_return [of "h v n"] by simp

lemma with_client_buf_reads:
  assumes "reads f x v" "client_slot m (src msg) s = Some i" "front (rbuffer s ! i) (x @ r)"
  shows "with_client_buf m msg f s =
    Some (v, s\<lparr>rbuffer := (rbuffer s)[i := free_buf (rbuffer s ! i) (length x)]\<rparr>)"
  using assms by (auto simp: with_client_buf_def reads_def)

lemma reads_create:
  "wf_str path \<Longrightarrow> reads (\<lambda>b. do {
       (path, b) \<leftarrow> cfio_buf_unpack_str b;
       (cmode, b) \<leftarrow> unpack_int b;
       (ncid, b) \<leftarrow> unpack_int b;
       Some ((path, cmode, ncid), b)
     }) (str_bytes path @ enc_i32 cmode @ enc_i32 ncid @ []) (path, cmode, ncid)"
  by (rule reads_intros | assumption)+

lemma reads_def_dim:
  "wf_str name \<Longrightarrow> reads (\<lambda>b. do {
       (ncid, b) \<leftarrow> unpack_int b;
       (name, b) \<leftarrow> cfio_buf_unpack_str b;
       (len, b) \<leftarrow> unpack_u64 b;
       (dimid, b) \<leftarrow> unpack_int b;
       Some ((ncid, name, len, dimid), b)
     }) (enc_i32 ncid @ str_bytes name @ enc_u64 len @ enc_i32 dimid @ []) (ncid, name, len, dimid)"
  by (rule reads_intros | assumption)+

lemma reads_def_var:
  assumes "wf_str name" "length dimids < 2 ^ 31"
  shows "reads (\<lambda>b. do {
       (ncid, b) \<leftarrow> unpack_int b;
       (name, b) \<leftarrow> cfio_buf_unpack_str b;
       (xtype, b) \<leftarrow> unpack_int b;
       (ndims, b) \<leftarrow> unpack_int b;
       (ndims, dimids, b) \<leftarrow>
         (if 0 \<noteq> ndims then do {
            (dimids, ndims, b) \<leftarrow> unpack_i32s b;
            Some (ndims, Some dimids, b)
          }
          else Some (ndims, None, b));
       (varid, b) \<leftarrow> unpack_int b;
       Some ((ncid, name, xtype, ndims, dimids, varid), b)
     }) (enc_i32 ncid @ str_bytes name @ enc_i32 xtype @ enc_i32 (word_of_nat (length dimids)) @
         (if dimids = [] then [] else i32_array dimids) @ enc_i32 varid @ [])
     (ncid, name, xtype, word_of_nat (length dimids), if dimids = [] then None else Some dimids, varid)"
proof (cases "dimids = []")
  case True
  then show ?thesis
    using assms by (intro reads_bind [OF reads_int] reads_bind [OF reads_str]) (simp_all, rule reads_last [OF reads_int])
next
  case False
  let ?n = "word_of_nat (length dimids) :: i32"
  have n: "?n \<noteq> 0" using word_of_nat_eq_0 [OF assms(2)] False by simp
  have "reads (\<lambda>b. do {
       (dimids, ndims, b) \<leftarrow> unpack_i32s b;
       (varid, b) \<leftarrow> unpack_int b;
       Some ((ncid, name, xtype, ndims, Some dimids, varid), b)
     }) (i32_array dimids @ enc_i32 varid @ []) (ncid, name, xtype, ?n, Some dimids, varid)"
    using assms by - (rule reads_intros | assumption)+
  then have "reads (\<lambda>b. do {
       (ndims, dimids, b) \<leftarrow>
         (if 0 \<noteq> ?n then do {
            (dimids, ndims, b) \<leftarrow> unpack_i32s b;
            Some (ndims, Some dimids, b)
          }
          else Some (?n, None, b));
       (varid, b) \<leftarrow> unpack_int b;
       Some ((ncid, name, xtype, ndims, dimids, varid), b)
     }) (i32_array dimids @ enc_i32 varid @ []) (ncid, name, xtype, ?n, Some dimids, varid)"
    using n by (simp add: case_prod_unfold)
  with False assms(1) show ?thesis
    by (simp only: if_False) (intro reads_bind [OF reads_int] reads_bind [OF reads_str], assumption+)
qed

lemma reads_put_att:
  assumes "wf_str name" "type_size t dvd length data" "length data div type_size t < 2 ^ 31"
  shows "reads (\<lambda>b. do {
       (ncid, b) \<leftarrow> unpack_int b;
       (varid, b) \<leftarrow> unpack_int b;
       (name, b) \<leftarrow> cfio_buf_unpack_str b;
       (xtype, b) \<leftarrow> unpack_int b;
       att_size \<leftarrow> cfio_types_size xtype;
       (op, len, b) \<leftarrow> cfio_buf_unpack_data_array att_size b;
       Some ((ncid, varid, name, xtype, len, op), b)
     }) (enc_i32 ncid @ enc_i32 varid @ str_bytes name @ enc_i32 (cfio_type_code t) @ data_array t data @ [])
     (ncid, varid, name, cfio_type_code t, word_of_nat (length data div type_size t), data)"
  using assms
  by (intro reads_bind [OF reads_int] reads_bind [OF reads_str])
     (simp_all, rule reads_array_last [OF reads_data], simp_all)

lemma reads_put_vara:
  assumes "length count = length start" "length start < 2 ^ 31"
    and "type_size t dvd length data" "length data div type_size t < 2 ^ 31"
  shows "reads (\<lambda>b. do {
       (ncid, b) \<leftarrow> unpack_int b;
       (varid, b) \<leftarrow> unpack_int b;
       (start, ndims, b) \<leftarrow> unpack_u64s b;
       (count, ndims, b) \<leftarrow> unpack_u64s b;
       (fp_type, b) \<leftarrow> unpack_int b;
       (data, b) \<leftarrow>
         (case cfio_type_of fp_type of
            Some t \<Rightarrow> do {
              (fp, data_len, b) \<leftarrow> cfio_buf_unpack_data_array (type_size t) b;
              Some (Some (data_len, fp), b)
            }
          | None \<Rightarrow> Some (None, b));
       Some ((ncid, varid, ndims, start, count, fp_type, data), b)
     }) (enc_i32 ncid @ enc_i32 varid @ u64_array start @ u64_array count @
         enc_i32 (cfio_type_code t) @ data_array t data @ [])
     (ncid, varid, word_of_nat (length count), start, count, cfio_type_code t,
        Some (word_of_nat (length data div type_size t), data))"
proof -
  have "reads (\<lambda>b. do {
       (fp, data_len, b) \<leftarrow> cfio_buf_unpack_data_array (type_size t) b;
       Some ((ncid, varid, word_of_nat (length count), start, count, cfio_type_code t, Some (data_len, fp)), b)
     }) (data_array t data @ [])
     (ncid, varid, word_of_nat (length count), start, count, cfio_type_code t,
        Some (word_of_nat (length data div type_size t), data))"
    using assms(3,4) by - (rule reads_intros | assumption)+
  then have last: "reads (\<lambda>b. do {
       (data, b) \<leftarrow>
         (case cfio_type_of (cfio_type_code t) of
            Some t \<Rightarrow> do {
              (fp, data_len, b) \<leftarrow> cfio_buf_unpack_data_array (type_size t) b;
              Some (Some (data_len, fp), b)
            }
          | None \<Rightarrow> Some (None, b));
       Some ((ncid, varid, word_of_nat (length count), start, count, cfio_type_code t, data), b)
     }) (data_array t data @ [])
     (ncid, varid, word_of_nat (length count), start, count, cfio_type_code t,
        Some (word_of_nat (length data div type_size t), data))"
    by (simp add: case_prod_unfold)
  show ?thesis
    using assms(1,2)
    by (intro reads_bind [OF reads_int] reads_array_bind [OF reads_u64s] last) simp_all
qed

text \<open>The arguments of every request come back from the bytes of its message: \<open>unpacked\<close> says
  what the function for its code answers.\<close>

primrec unpacked :: "request \<Rightarrow> map_state \<Rightarrow> cfio_msg \<Rightarrow> recv_state \<Rightarrow> recv_state \<Rightarrow> bool" where
  "unpacked (Create path cmode ncid) m msg s s' \<longleftrightarrow>
     cfio_recv_unpack_create m msg s = Some ((path, cmode, ncid), s')"
| "unpacked (Def_dim ncid name len dimid) m msg s s' \<longleftrightarrow>
     cfio_recv_unpack_def_dim m msg s = Some ((ncid, name, len, dimid), s')"
| "unpacked (Def_var ncid name xtype dimids varid) m msg s s' \<longleftrightarrow>
     cfio_recv_unpack_def_var m msg s =
       Some ((ncid, name, xtype, word_of_nat (length dimids), if dimids = [] then None else Some dimids, varid), s')"
| "unpacked (Put_att ncid varid name t data) m msg s s' \<longleftrightarrow>
     cfio_recv_unpack_put_att m msg s =
       Some ((ncid, varid, name, cfio_type_code t, word_of_nat (length data div type_size t), data), s')"
| "unpacked (Enddef ncid) m msg s s' \<longleftrightarrow> cfio_recv_unpack_enddef m msg s = Some (ncid, s')"
| "unpacked (Put_vara ncid varid start count t data) m msg s s' \<longleftrightarrow>
     cfio_recv_unpack_put_vara m msg s =
       Some ((ncid, varid, word_of_nat (length count), start, count, cfio_type_code t,
         Some (word_of_nat (length data div type_size t), data)), s')"
| "unpacked (Close ncid) m msg s s' \<longleftrightarrow> cfio_recv_unpack_close m msg s = Some (ncid, s')"

lemma unpack_parts:
  assumes slot: "client_slot m (src msg) s = Some i" and i: "i < length (rbuffer s)"
    and fr: "front (rbuffer s ! i) (enc_i32 (code_of r) @ payload r)" and wf: "wf_request r"
  shows "cfio_recv_unpack_func_code m msg s = Some (code_of r, s\<lparr>rbuffer := (rbuffer s)[i := free_buf (rbuffer s ! i) 4]\<rparr>)"
    "unpacked r m msg (s\<lparr>rbuffer := (rbuffer s)[i := free_buf (rbuffer s ! i) 4]\<rparr>)
       (s\<lparr>rbuffer := (rbuffer s)[i := free_buf (rbuffer s ! i) (4 + length (payload r))]\<rparr>)"
proof -
  let ?b = "rbuffer s ! i" and ?b' = "free_buf (rbuffer s ! i) 4"
  let ?s = "s\<lparr>rbuffer := (rbuffer s)[i := ?b']\<rparr>"
  let ?s' = "s\<lparr>rbuffer := (rbuffer s)[i := free_buf ?b (4 + length (payload r))]\<rparr>"
  show "cfio_recv_unpack_func_code m msg s = Some (code_of r, ?s)"
    using with_client_buf_reads [OF reads_int slot fr] by (simp add: cfio_recv_unpack_func_code_def)
  have fr': "front ?b' (payload r)" using fr by (rule front_free_buf) simp
  have slot': "client_slot m (src msg) ?s = Some i" using slot by (simp add: client_slot_def)
  have f2: "free_buf ?b' (length (payload r)) = free_buf ?b (4 + length (payload r))"
    using free_buf_free_buf [of ?b "enc_i32 (code_of r)" "payload r" "[]"] fr by simp
  have via: "with_client_buf m msg f ?s = Some (v, ?s')" if "reads f x v" "payload r = x" for f x and v :: 'a
    using with_client_buf_reads [OF that(1) slot', of "[]"] that(2) fr' i f2 by simp
  show "unpacked r m msg ?s ?s'"
  proof (cases r)
    case (Create path cmode ncid)
    then have "cfio_recv_unpack_create m msg ?s = Some ((path, cmode, ncid), ?s')"
      unfolding cfio_recv_unpack_create_def using wf
      by (intro via [OF reads_create [unfolded append_Nil2]]) simp_all
    with Create show ?thesis by simp
  next
    case (Def_dim ncid name len dimid)
    then have "cfio_recv_unpack_def_dim m msg ?s = Some ((ncid, name, len, dimid), ?s')"
      unfolding cfio_recv_unpack_def_dim_def using wf
      by (intro via [OF reads_def_dim [unfolded append_Nil2]]) simp_all
    with Def_dim show ?thesis by simp
  next
    case (Def_var ncid name xtype dimids varid)
    then have "cfio_recv_unpack_def_var m msg ?s = Some ((ncid, name, xtype, word_of_nat (length dimids),
          if dimids = [] then None else Some dimids, varid), ?s')"
      unfolding cfio_recv_unpack_def_var_def using wf
      by (intro via [OF reads_def_var [unfolded append_Nil2]]) simp_all
    with Def_var show ?thesis by simp
  next
    case (Put_att ncid varid name t data)
    then have "cfio_recv_unpack_put_att m msg ?s = Some ((ncid, varid, name, cfio_type_code t, word_of_nat (length data div type_size t), data), ?s')"
      unfolding cfio_recv_unpack_put_att_def using wf
      by (intro via [OF reads_put_att [unfolded append_Nil2]]) simp_all
    with Put_att show ?thesis by simp
  next
    case (Enddef ncid)
    then have "cfio_recv_unpack_enddef m msg ?s = Some (ncid, ?s')"
      unfolding cfio_recv_unpack_enddef_def
      by (intro via [OF reads_int]) simp
    with Enddef show ?thesis by simp
  next
    case (Put_vara ncid varid start count t data)
    then have "cfio_recv_unpack_put_vara m msg ?s = Some ((ncid, varid, word_of_nat (length count), start, count, cfio_type_code t,
          Some (word_of_nat (length data div type_size t), data)), ?s')"
      unfolding cfio_recv_unpack_put_vara_def using wf
      by (intro via [OF reads_put_vara [unfolded append_Nil2]]) simp_all
    with Put_vara show ?thesis by simp
  next
    case (Close ncid)
    then have "cfio_recv_unpack_close m msg ?s = Some (ncid, ?s')"
      unfolding cfio_recv_unpack_close_def
      by (intro via [OF reads_int]) simp
    with Close show ?thesis by simp
  qed
qed

lemma unpack_request_unpacked:
  assumes "cfio_recv_unpack_func_code m msg s = Some (code_of r, s1)" "unpacked r m msg s1 s2"
  shows "unpack_request m msg s = Some (Some r, s2)"
  using assms by (cases r) (simp_all add: unpack_request_def func_codes)

text \<open>Taking the first message of the client whose turn it is.\<close>

lemma get_first_message:
  assumes q: "recv_queues m s qs" and g: "g = client_get_index s" and d: "qs ! g = message r # rest"
  obtains msg ms b q' where "client_slot m (src msg) s = Some g" and "front b (message r)" and "src msg < client_amount m"
    and "chain b (length (message r)) q'" and "map snd q' = rest" and "list_all2 (describes m g) ms q'"
    and "cfio_recv_get_first m s = Some (Some msg, s\<lparr>msg_head := (msg_head s)[g := ms],
           rbuffer := (rbuffer s)[g := free_buf b 8], client_get_index := (g + 1) mod length qs\<rparr>)"
proof -
  have gl: "g < length qs" "g < length (rbuffer s)" "g < length (msg_head s)" "client_num s = int (length qs)"
    "qs \<noteq> []"
    using q by (auto simp: recv_queues_def g)
  from recv_queues_slot [OF q gl(1)] obtain as where as: "length as = length (qs ! g)"
    "ring_queue (rbuffer s ! g) (zip as (qs ! g))" "list_all2 (describes m g) (msg_head s ! g) (zip as (qs ! g))" .
  then obtain a as' where z: "as = a # as'" "length as' = length rest"
    "zip as (qs ! g) = (a, message r) # zip as' rest"
    by (cases as) (simp_all add: d)
  with as(3) obtain msg ms where msg: "msg_head s ! g = msg # ms" "describes m g msg (a, message r)"
    "list_all2 (describes m g) ms (zip as' rest)" by (auto simp: list_all2_Cons2)
  let ?b = "(rbuffer s ! g)\<lparr>used_addr := a\<rparr>"
  note f = ring_queue_front [OF as(2) [unfolded z(3)]]
  have slot: "client_slot m (src msg) s = Some g"
    using client_slot_eq [OF q gl(1)] msg(2) by (simp add: describes_def)
  have hd: "unpack_u64 ?b = Some (word_of_nat (12 + length (payload r)), free_buf ?b 8)"
    using f(2) reads_u64 [of "word_of_nat (12 + length (payload r))"]
    by (auto simp: reads_def message_def)
  have lt: "12 + length (payload r) < 2 ^ 63" using front_bound [OF f(2)] by (simp add: length_message)
  have un: "unat (word_of_nat (12 + length (payload r)) :: u64) = length (message r)"
    using lt by (simp add: unsigned_of_nat take_bit_nat_eq_self length_message del: of_nat_add)
  have md: "maddr msg = a" "msize msg = length (message r)" using msg(2) by (simp_all add: describes_def)
  have "cfio_recv_unpack_msg_size m msg s = Some (word_of_nat (12 + length (payload r)),
      s\<lparr>rbuffer := (rbuffer s)[g := free_buf ?b 8]\<rparr>)"
    using slot f(1) hd md by (simp add: cfio_recv_unpack_msg_size_def with_client_buf_def)
  moreover have "nat ((int g + 1) mod int (length qs)) = (g + 1) mod length qs"
    by (metis nat_int zmod_int of_nat_1 of_nat_add)
  ultimately have "cfio_recv_get_first m s = Some (Some msg, s\<lparr>msg_head := (msg_head s)[g := ms],
      rbuffer := (rbuffer s)[g := free_buf ?b 8], client_get_index := (g + 1) mod length qs\<rparr>)"
    using gl msg(1) md un by (simp add: cfio_recv_get_first_def Let_def g [symmetric] del: of_nat_add)
  with slot f(2,3) msg(2,3) z(2) show ?thesis by (intro that) (auto simp: describes_def)
qed

lemma round_trip_parts:
  assumes "recv_queues m s qs" "g = client_get_index s" "qs ! g = message r # rest" "wf_request r"
  shows "\<exists>msg s' s1 s''. cfio_recv_get_first m s = Some (Some msg, s') \<and>
    cfio_map_get_client_index_of_server m (src msg) = Some (int g) \<and> src msg < client_amount m \<and>
    cfio_recv_unpack_func_code m msg s' = Some (code_of r, s1) \<and> unpacked r m msg s1 s'' \<and>
    recv_queues m s'' (qs[g := rest]) \<and> client_get_index s'' = (g + 1) mod length qs"
proof -
  from get_first_message [OF assms(1-3)] obtain msg ms b q' where
    slot: "client_slot m (src msg) s = Some g" and fr: "front b (message r)" and am: "src msg < client_amount m"
    and ch: "chain b (length (message r)) q'" and q': "map snd q' = rest"
    and ms: "list_all2 (describes m g) ms q'"
    and get: "cfio_recv_get_first m s = Some (Some msg, s\<lparr>msg_head := (msg_head s)[g := ms],
           rbuffer := (rbuffer s)[g := free_buf b 8], client_get_index := (g + 1) mod length qs\<rparr>)" .
  let ?s = "s\<lparr>msg_head := (msg_head s)[g := ms], rbuffer := (rbuffer s)[g := free_buf b 8],
      client_get_index := (g + 1) mod length qs\<rparr>"
  have gl: "g < length qs" "g < length (rbuffer s)" using assms(1,2) by (simp_all add: recv_queues_def)
  have m: "message r = enc_u64 (word_of_nat (12 + length (payload r))) @ (enc_i32 (code_of r) @ payload r)"
    by (simp only: message_def)
  have fr8: "front (free_buf b 8) (enc_i32 (code_of r) @ payload r)"
    using fr unfolding m by (rule front_free_buf) simp
  have fb: "free_buf (free_buf b 8) (4 + length (payload r)) = free_buf b (length (message r))"
    using free_buf_free_buf [of b "enc_u64 (word_of_nat (12 + length (payload r)))"
        "enc_i32 (code_of r) @ payload r" "[]"] fr unfolding m by simp
  have slot': "client_slot m (src msg) ?s = Some g" using slot by (simp add: client_slot_def)
  let ?s' = "?s\<lparr>rbuffer := (rbuffer s)[g := free_buf b (length (message r))]\<rparr>"
  have same: "s\<lparr>msg_head := (msg_head s)[g := ms], rbuffer := X,
      client_get_index := (g + 1) mod length qs\<rparr> = ?s\<lparr>rbuffer := X\<rparr>" for X
    by (rule recv_state.equality) simp_all
  have un: "cfio_recv_unpack_func_code m msg ?s = Some (code_of r, ?s\<lparr>rbuffer := (rbuffer ?s)[g := free_buf (rbuffer ?s ! g) 4]\<rparr>)"
    "unpacked r m msg (?s\<lparr>rbuffer := (rbuffer ?s)[g := free_buf (rbuffer ?s ! g) 4]\<rparr>) ?s'"
    using unpack_parts [OF slot' _ _ assms(4)] fr8 gl fb by simp_all
  have inv: "buf_inv b" "used_addr b + length (message r) \<le> bsize b" "length (message r) \<le> bsize b"
    using fr by (simp_all add: front_def)
  have "ring_queue (free_buf b (length (message r))) q'"
    using chain_free_buf [OF inv(1,2) ch] buf_inv_free_buf [OF inv(1,3)] by (simp add: ring_queue_def)
  moreover have "zip (map fst q') rest = q'" unfolding q' [symmetric] by (simp add: zip_map_fst_snd)
  ultimately have "slot_holds m g ms (free_buf b (length (message r))) rest"
    using ms q' unfolding slot_holds_def by (intro exI [where x = "map fst q'"]) auto
  then have "recv_queues m ?s' (qs[g := rest])"
    unfolding same [symmetric] using gl(1) by (intro recv_queues_update [OF assms(1) gl(1)] mod_less_divisor) auto
  moreover have "cfio_map_get_client_index_of_server m (src msg) = Some (int g)"
    using slot by (auto simp: client_slot_def bind_eq_Some_conv split: if_splits)
  moreover have "client_get_index ?s' = (g + 1) mod length qs" by simp
  ultimately show ?thesis using get un am by blast
qed

text \<open>C15. What a client sends is what its server reads. When the queue whose turn it is starts
  with the message of a request, \<open>cfio_recv_get_first\<close> returns that message, the unpack
  functions give back exactly the request with all its arguments, the message leaves its queue,
  every other queue is unchanged, and the turn passes to the next client.\<close>

theorem recv_round_trip:
  assumes "recv_queues m s qs" "g = client_get_index s" "qs ! g = message r # rest" "wf_request r"
  shows "\<exists>msg s' s''. cfio_recv_get_first m s = Some (Some msg, s') \<and>
    cfio_map_get_client_index_of_server m (src msg) = Some (int g) \<and>
    unpack_request m msg s' = Some (Some r, s'') \<and>
    recv_queues m s'' (qs[g := rest]) \<and> client_get_index s'' = (g + 1) mod length qs"
  using round_trip_parts [OF assms] unpack_request_unpacked by meson

section \<open>Concrete states\<close>

text \<open>A server of the 4 by 6 map has four clients, 0, 1, 4 and 5 for server 24.\<close>

definition small_recv :: "cfio_msg list list \<Rightarrow> cfio_buf list \<Rightarrow> recv_state" where
  "small_recv msgs bufs =
     \<lparr>msg_head = msgs, rbuffer = bufs, rrank = 24, client_num = 4, client_get_index = 0\<rparr>"

definition empty_buf :: cfio_buf where
  "empty_buf = cfio_buf_open (replicate 64 0)"

definition one_msg_buf :: "byte list \<Rightarrow> cfio_buf" where
  "one_msg_buf d = (cfio_buf_open (d @ replicate 64 0))\<lparr>free_addr := length d\<rparr>"

definition msg_at_0 :: "byte list \<Rightarrow> cfio_msg" where
  "msg_at_0 d = cfio_msg_create\<lparr>msize := length d\<rparr>"

lemma client_0_index: "cfio_map_get_client_index_of_server map_4_6 0 = Some 0"
  by (simp add: cfio_map_get_client_index_of_server_def map_4_6_def)

lemma client_0_amount: "0 < client_amount map_4_6"
  by (simp add: map_4_6_def)

lemma slot_holds_empty: "buf_inv b \<Longrightarrow> slot_holds m i [] b []"
  by (simp add: slot_holds_def ring_queue_def)

lemma empty_buf_inv: "buf_inv empty_buf"
  by (simp add: empty_buf_def buf_inv_open)

lemma recv_queues_first:
  assumes "slot_holds map_4_6 0 msgs b q"
  shows "recv_queues map_4_6 (small_recv [msgs, [], [], []] [b, empty_buf, empty_buf, empty_buf]) [q, [], [], []]"
  using assms slot_holds_empty [OF empty_buf_inv, of map_4_6]
  by (auto simp: recv_queues_def small_recv_def less_Suc_eq)

lemma slot_holds_single:
  assumes "d \<noteq> []" "length d < 1000"
    and "cfio_map_get_client_index_of_server map_4_6 client = Some (int i)" "client < client_amount map_4_6"
  shows "slot_holds map_4_6 i [(msg_at_0 d)\<lparr>src := client\<rparr>] (one_msg_buf d) [d]"
proof -
  have inv: "buf_inv (one_msg_buf d)"
    using assms by (simp add: one_msg_buf_def cfio_buf_open_def buf_inv_def magic_ok_def)
  have "used_buf_size (one_msg_buf d) = length d"
    by (simp add: used_buf_size_eq [OF inv]) (simp add: one_msg_buf_def cfio_buf_open_def)
  moreover have "holds (one_msg_buf d) 0 d" "ahead (one_msg_buf d) 0 = 0"
    using assms by (simp_all add: holds_def ahead_def one_msg_buf_def cfio_buf_open_def slice_def)
  ultimately have "ring_queue (one_msg_buf d) [(0, d)]" using inv by (simp add: ring_queue_def)
  then show ?thesis unfolding slot_holds_def using assms(3,4)
    by (intro exI [where x = "[0]"]) (simp add: describes_def msg_at_0_def cfio_msg_create_def)
qed

lemma slot_holds_one:
  assumes "d \<noteq> []" "length d < 1000"
  shows "slot_holds map_4_6 0 [msg_at_0 d] (one_msg_buf d) [d]"
proof -
  have "(msg_at_0 d)\<lparr>src := 0\<rparr> = msg_at_0 d" by (simp add: msg_at_0_def cfio_msg_create_def)
  with slot_holds_single [of d 0 0] assms client_0_index client_0_amount show ?thesis by simp
qed

theorem add_msg_enqueues_witness:
  "\<exists>ret code s'. cfio_recv_add_msg map_4_6 0 16 (message (Enddef 7) @ [])
       (small_recv [[], [], [], []] [empty_buf, empty_buf, empty_buf, empty_buf]) = Some (ret, code, s') \<and>
    (ret = CFIO_ERROR_NONE \<and> code = Some (dec_i32 (slice (message (Enddef 7)) 8 4)) \<and>
       recv_queues map_4_6 s' ([[], [], [], []][0 := [[], [], [], []] ! 0 @ [message (Enddef 7)]]) \<or>
     ret = CFIO_RECV_BUF_FULL \<and> free_buf_size (rbuffer s' ! 0) < length (message (Enddef 7)) \<and>
       recv_queues map_4_6 s' [[], [], [], []])"
proof (rule add_msg_enqueues)
  show "recv_queues map_4_6 (small_recv [[], [], [], []] [empty_buf, empty_buf, empty_buf, empty_buf])
      [[], [], [], []]"
    by (rule recv_queues_first [OF slot_holds_empty [OF empty_buf_inv]])
  have "slice (message (Enddef 7)) 8 4 = enc_i32 FUNC_NC_ENDDEF"
    by (simp add: message_def slice_def)
  then show "dec_i32 (slice (message (Enddef 7)) 8 4) \<noteq> FUNC_FINAL" by (simp add: func_codes)
qed (simp_all add: client_0_index client_0_amount message_def size_of_int_def)

theorem recv_round_trip_witness:
  "\<exists>msg s' s''. cfio_recv_get_first map_4_6
       (small_recv [[msg_at_0 (message (Enddef 7))], [], [], []]
         [one_msg_buf (message (Enddef 7)), empty_buf, empty_buf, empty_buf]) = Some (Some msg, s') \<and>
    cfio_map_get_client_index_of_server map_4_6 (src msg) = Some (int 0) \<and>
    unpack_request map_4_6 msg s' = Some (Some (Enddef 7), s'') \<and>
    recv_queues map_4_6 s'' ([[message (Enddef 7)], [], [], []][0 := []]) \<and>
    client_get_index s'' = (0 + 1) mod length [[message (Enddef 7)], [], [], []]"
proof (rule recv_round_trip)
  show "recv_queues map_4_6 (small_recv [[msg_at_0 (message (Enddef 7))], [], [], []]
      [one_msg_buf (message (Enddef 7)), empty_buf, empty_buf, empty_buf]) [[message (Enddef 7)], [], [], []]"
    by (rule recv_queues_first [OF slot_holds_one]) (simp_all add: message_def)
qed (simp_all add: small_recv_def)

section \<open>A ring that never accepts\<close>

definition stuck_buf :: cfio_buf where
  "stuck_buf = (cfio_buf_open (replicate 100 0))\<lparr>used_addr := 40, end_addr := 40\<rparr>"

lemma stuck_buf_inv: "buf_inv stuck_buf"
  by (simp add: stuck_buf_def cfio_buf_open_def buf_inv_def magic_ok_def)

lemma stuck_buf_room: "is_free_space_enough stuck_buf 70 = (CFIO_BUF_FREE_SPACE_NOT_ENOUGH, stuck_buf)"
  by (simp add: is_free_space_enough_def Let_def free_buf_size_eq [OF stuck_buf_inv])
     (simp add: stuck_buf_def cfio_buf_open_def)


end
