(* ===== verification/QuickHash.thy ===== *)
theory QuickHash
  imports CFIO_Prelude
begin

text \<open>
  The chained hash tables of \<open>quickhash.h\<close>: the mixing macros and hash functions on machine
  words, the table operations with the table's \<open>hash\<close> and \<open>compare\<close> functions as arguments,
  and the contract under which a table is a finite map from keys to entries. The buckets are
  \<open>quicklist\<close> lists, here HOL lists; entries are pointers \<open>'p\<close>.
\<close>

unbundle bit_operations_syntax

section \<open>Mixing\<close>

text \<open>
  The macros are used on \<open>int\<close>: \<open>>>\<close> is arithmetic, and \<open><<\<close> and the arithmetic wrap as on
  the two's complement machines the code runs on.
\<close>

definition rot :: "i32 \<Rightarrow> nat \<Rightarrow> i32" where
  "rot x k = push_bit k x OR signed_drop_bit (32 - k) x"

definition final :: "i32 \<times> i32 \<times> i32 \<Rightarrow> i32 \<times> i32 \<times> i32" where
  "final abc =
     (let (a, b, c) = abc;
          c = c XOR b; c = c - rot b 14;
          a = a XOR c; a = a - rot c 11;
          b = b XOR a; b = b - rot a 25;
          c = c XOR b; c = c - rot b 16;
          a = a XOR c; a = a - rot c 4;
          b = b XOR a; b = b - rot a 14;
          c = c XOR b; c = c - rot b 24
      in (a, b, c))"

definition mix :: "i32 \<times> i32 \<times> i32 \<Rightarrow> i32 \<times> i32 \<times> i32" where
  "mix abc =
     (let (a, b, c) = abc;
          a = a - c; a = a XOR rot c 4; c = c + b;
          b = b - a; b = b XOR rot a 6; a = a + c;
          c = c - b; c = c XOR rot b 8; b = b + a;
          a = a - c; a = a XOR rot c 16; c = c + b;
          b = b - a; b = b XOR rot a 19; a = a + c;
          c = c - b; c = c XOR rot b 4; b = b + a
      in (a, b, c))"

text \<open>\<open>(int)(c & (table_size - 1))\<close>\<close>

definition mask_index :: "i32 \<Rightarrow> i32 \<Rightarrow> int" where
  "mask_index c table_size = sint (c AND (table_size - 1))"

definition quickhash_32bit_hash :: "i32 \<Rightarrow> i32 \<Rightarrow> int" where
  "quickhash_32bit_hash k table_size =
     (let key = k;
          key = NOT key + push_bit 15 key;
          key = key XOR signed_drop_bit 12 key;
          key = key + push_bit 2 key;
          key = key XOR signed_drop_bit 4 key;
          key = key * 2057;
          key = key XOR signed_drop_bit 16 key
      in mask_index key table_size)"

definition quickhash_64bit_hash :: "u64 \<Rightarrow> i32 \<Rightarrow> int" where
  "quickhash_64bit_hash k table_size =
     (let key = k;
          key = NOT key + push_bit 18 key;
          key = key XOR drop_bit 31 key;
          key = key * 21;
          key = key XOR drop_bit 11 key;
          key = key + push_bit 6 key;
          key = key XOR drop_bit 22 key
      in sint (ucast (key AND scast (table_size - 1)) :: i32))"

text \<open>The characters of the string without its NUL; \<open>char\<close> is signed.\<close>

definition string_hash_step :: "u32 \<Rightarrow> byte \<Rightarrow> u32" where
  "string_hash_step h ch =
     (let h = push_bit 4 h + scast ch;
          g = h AND 0xF0
      in if g \<noteq> 0 then (h XOR drop_bit 24 g) XOR g else h)"

definition quickhash_string_hash :: "byte list \<Rightarrow> i32 \<Rightarrow> int" where
  "quickhash_string_hash str table_size =
     (let h = foldl string_hash_step 0 str
      in sint (ucast (ucast h AND (scast (table_size - 1) :: u64)) :: i32))"

section \<open>Tables\<close>

record 'p qhash_table =
  qarray :: "'p list list"
  table_size :: int

definition qhash_init :: "int \<Rightarrow> 'p qhash_table" where
  "qhash_init n = \<lparr>qarray = replicate (nat n) [], table_size = n\<rparr>"

definition bucket :: "'p qhash_table \<Rightarrow> int \<Rightarrow> 'p list option" where
  "bucket t index =
     (if 0 \<le> index \<and> index < int (length (qarray t)) then Some (qarray t ! nat index) else None)"

definition qhash_add :: "('k \<Rightarrow> int \<Rightarrow> int) \<Rightarrow> 'k \<Rightarrow> 'p \<Rightarrow> 'p qhash_table \<Rightarrow> 'p qhash_table option" where
  "qhash_add hash key link t =
     do {
       let index = hash key (table_size t);
       b \<leftarrow> bucket t index;
       Some (t\<lparr>qarray := (qarray t)[nat index := b @ [link]]\<rparr>)
     }"

text \<open>\<open>compare\<close> looks into the entry; \<open>None\<close> is an entry that cannot be read.\<close>

fun search_bucket :: "('p \<Rightarrow> bool option) \<Rightarrow> 'p list \<Rightarrow> 'p option option" where
  "search_bucket compare [] = Some None"
| "search_bucket compare (p # ps) =
     do { hit \<leftarrow> compare p; if hit then Some (Some p) else search_bucket compare ps }"

definition qhash_search ::
    "('k \<Rightarrow> int \<Rightarrow> int) \<Rightarrow> ('k \<Rightarrow> 'p \<Rightarrow> bool option) \<Rightarrow> 'k \<Rightarrow> 'p qhash_table \<Rightarrow> 'p option option" where
  "qhash_search hash compare key t =
     do {
       b \<leftarrow> bucket t (hash key (table_size t));
       search_bucket (compare key) b
     }"

definition qhash_search_at_index :: "int \<Rightarrow> 'p qhash_table \<Rightarrow> 'p option option" where
  "qhash_search_at_index index t =
     (if index \<ge> table_size t then Some None
      else do {
        b \<leftarrow> bucket t index;
        Some (case b of [] \<Rightarrow> None | p # _ \<Rightarrow> Some p)
      })"

text \<open>
  \<open>qhash_del\<close> unlinks an entry from the one bucket that holds it; the caller need not know
  which.
\<close>

definition qhash_del :: "'p \<Rightarrow> 'p qhash_table \<Rightarrow> 'p qhash_table" where
  "qhash_del link t = t\<lparr>qarray := map (remove1 link) (qarray t)\<rparr>"

definition qhash_search_and_remove ::
    "('k \<Rightarrow> int \<Rightarrow> int) \<Rightarrow> ('k \<Rightarrow> 'p \<Rightarrow> bool option) \<Rightarrow> 'k \<Rightarrow> 'p qhash_table \<Rightarrow>
     ('p option \<times> 'p qhash_table) option" where
  "qhash_search_and_remove hash compare key t =
     do {
       found \<leftarrow> qhash_search hash compare key t;
       Some (found, case found of None \<Rightarrow> t | Some p \<Rightarrow> qhash_del p t)
     }"

definition qhash_search_and_remove_at_index ::
    "int \<Rightarrow> 'p qhash_table \<Rightarrow> ('p option \<times> 'p qhash_table) option" where
  "qhash_search_and_remove_at_index index t =
     do {
       found \<leftarrow> qhash_search_at_index index t;
       Some (found, case found of None \<Rightarrow> t | Some p \<Rightarrow> qhash_del p t)
     }"

text \<open>The entries in the order in which \<open>qhash_destroy_and_finalize\<close> hands them to the destructor.\<close>

definition qhash_destroy_and_finalize :: "'p qhash_table \<Rightarrow> 'p list" where
  "qhash_destroy_and_finalize t = concat (qarray t)"

section \<open>Hash values\<close>

lemma sint_mask:
  assumes "n < 31"
  shows "0 \<le> sint (c AND (mask n :: i32)) \<and> sint (c AND mask n) < 2 ^ n"
proof -
  have m: "uint (c AND mask n) = uint (take_bit n c)" by (simp add: take_bit_eq_mask)
  also have "\<dots> = uint c mod 2 ^ n" by (simp only: unsigned_take_bit_eq) (simp add: take_bit_eq_mod)
  finally have "uint (c AND mask n) = uint c mod 2 ^ n" .
  then have u: "0 \<le> uint (c AND mask n)" "uint (c AND mask n) < 2 ^ n" by (simp_all only: pos_mod_sign pos_mod_bound zero_less_power zero_less_numeral)
  have "(2::int) ^ n \<le> 2 ^ 31" using assms by (intro power_increasing) auto
  with u have "uint (c AND mask n) < 2 ^ 31" by linarith
  with u(1) have "sint (c AND mask n) = uint (c AND mask n)"
    unfolding sint_uint by (intro signed_take_bit_int_eq_self order_trans [OF _ u(1)]) simp_all
  with u show ?thesis by simp
qed

lemma mask_index_range: "n < 31 \<Longrightarrow> 0 \<le> mask_index c (2 ^ n) \<and> mask_index c (2 ^ n) < 2 ^ n"
  using sint_mask [of n c] by (simp add: mask_index_def mask_eq_exp_minus_1)

section \<open>The contract of a table\<close>

text \<open>
  \<open>entry_of key t k\<close> is the entry with key \<open>k\<close>. A table is in order when every entry sits
  in the bucket its key hashes to, and no key occurs twice.
\<close>

locale table_hash =
  fixes hash :: "'k \<Rightarrow> int \<Rightarrow> int" and n :: int
  assumes in_range: "0 \<le> hash k n" "hash k n < n"
begin

definition entry_of :: "('p \<Rightarrow> 'k) \<Rightarrow> 'p qhash_table \<Rightarrow> 'k \<Rightarrow> 'p option" where
  "entry_of key t k = List.find (\<lambda>p. key p = k) (qarray t ! nat (hash k n))"

definition table_ok :: "('p \<Rightarrow> 'k) \<Rightarrow> 'p qhash_table \<Rightarrow> bool" where
  "table_ok key t \<longleftrightarrow>
     table_size t = n \<and> length (qarray t) = nat n \<and>
     (\<forall>i < length (qarray t). distinct (map key (qarray t ! i)) \<and>
        (\<forall>p \<in> set (qarray t ! i). hash (key p) n = int i))"

definition entries :: "'p qhash_table \<Rightarrow> 'p set" where
  "entries t = \<Union> (set ` set (qarray t))"

lemma in_entries: "p \<in> entries t \<longleftrightarrow> (\<exists>i < length (qarray t). p \<in> set (qarray t ! i))"
  unfolding entries_def by (metis UN_iff in_set_conv_nth nth_mem)

lemma index_less: "table_ok key t \<Longrightarrow> nat (hash k n) < length (qarray t)"
  using in_range [of k] by (simp add: table_ok_def)

lemma bucket_hash: "table_ok key t \<Longrightarrow> bucket t (hash k (table_size t)) = Some (qarray t ! nat (hash k n))"
  using in_range [of k] by (simp add: table_ok_def bucket_def)

lemma find_Some_iff_distinct:
  "distinct (map f ps) \<Longrightarrow> List.find (\<lambda>p. f p = k) ps = Some p \<longleftrightarrow> p \<in> set ps \<and> f p = k"
  by (induction ps) (auto simp: image_iff)

lemma entry_of_Some:
  assumes "table_ok key t"
  shows "entry_of key t k = Some p \<longleftrightarrow> p \<in> entries t \<and> key p = k"
proof -
  have d: "distinct (map key (qarray t ! nat (hash k n)))"
    using assms index_less [OF assms, of k] by (simp add: table_ok_def)
  have "p \<in> set (qarray t ! nat (hash k n)) \<longleftrightarrow> p \<in> entries t" if "key p = k"
  proof
    assume "p \<in> set (qarray t ! nat (hash k n))"
    with index_less [OF assms] show "p \<in> entries t" by (auto simp: in_entries)
  next
    assume "p \<in> entries t"
    then obtain i where i: "i < length (qarray t)" "p \<in> set (qarray t ! i)"
      by (auto simp: in_entries)
    with assms that have "hash k n = int i" by (auto simp: table_ok_def)
    with i show "p \<in> set (qarray t ! nat (hash k n))" by simp
  qed
  with d show ?thesis by (auto simp: entry_of_def find_Some_iff_distinct)
qed

lemma table_ok_init: "table_ok key (qhash_init n)"
  by (auto simp: table_ok_def qhash_init_def)

lemma entry_of_init: "entry_of key (qhash_init n) = Map.empty"
proof
  fix k
  have "nat (hash k n) < nat n" using in_range [of k] by simp
  then show "entry_of key (qhash_init n) k = None" by (simp add: entry_of_def qhash_init_def)
qed

lemma entries_init: "entries (qhash_init n) = {}"
  by (auto simp: entries_def qhash_init_def)

text \<open>Only the keys of the entries matter.\<close>

lemma table_ok_cong:
  "(\<And>p. p \<in> entries t \<Longrightarrow> key p = key' p) \<Longrightarrow> table_ok key t \<Longrightarrow> table_ok key' t"
proof -
  assume eq: "\<And>p. p \<in> entries t \<Longrightarrow> key p = key' p" and ok: "table_ok key t"
  have same: "key p = key' p" if "i < length (qarray t)" "p \<in> set (qarray t ! i)" for i p
    using that eq by (auto simp: in_entries)
  have "distinct (map key' (qarray t ! i))" if "i < length (qarray t)" for i
  proof -
    have "map key' (qarray t ! i) = map key (qarray t ! i)" using same that by simp
    then show ?thesis using ok that by (simp only: table_ok_def)
  qed
  moreover have "hash (key' p) n = int i" if "i < length (qarray t)" "p \<in> set (qarray t ! i)" for i p
  proof -
    have "hash (key p) n = int i" using ok that by (simp add: table_ok_def)
    with same [OF that] show ?thesis by simp
  qed
  ultimately show "table_ok key' t" using ok by (simp add: table_ok_def)
qed

lemma search_bucket_find:
  "(\<And>p. p \<in> set ps \<Longrightarrow> compare p = Some (P p)) \<Longrightarrow> search_bucket compare ps = Some (List.find P ps)"
  by (induction ps) auto

text \<open>The operations in terms of \<open>entry_of\<close>, for a \<open>compare\<close> that reads the key.\<close>

lemma search_entry_of:
  assumes "table_ok key t" "\<And>p. p \<in> entries t \<Longrightarrow> compare k p = Some (key p = k)"
  shows "qhash_search hash compare k t = Some (entry_of key t k)"
proof -
  have "compare k p = Some (key p = k)" if "p \<in> set (qarray t ! nat (hash k n))" for p
    using assms(2) that index_less [OF assms(1)] by (auto simp: in_entries)
  then show ?thesis
    using search_bucket_find [of _ "compare k" "\<lambda>p. key p = k"] bucket_hash [OF assms(1)]
    by (simp add: qhash_search_def entry_of_def)
qed

lemma add_entry:
  assumes ok: "table_ok key t" and k: "key p = k" and new: "entry_of key t k = None"
  shows "\<exists>t'. qhash_add hash k p t = Some t' \<and> table_ok key t' \<and>
    entry_of key t' = (entry_of key t)(k := Some p) \<and> entries t' = insert p (entries t)"
proof -
  let ?i = "nat (hash k n)"
  let ?t = "t\<lparr>qarray := (qarray t)[?i := qarray t ! ?i @ [p]]\<rparr>"
  have i: "?i < length (qarray t)" using index_less [OF ok] .
  have sz: "table_size t = n" using ok by (simp add: table_ok_def)
  have add: "qhash_add hash k p t = Some ?t"
    using bucket_hash [OF ok, of k] by (simp add: qhash_add_def sz Let_def)
  have "key q \<noteq> key p" if "q \<in> set (qarray t ! ?i)" for q
    using new that k by (auto simp: entry_of_def find_None_iff)
  then have notin: "key p \<notin> key ` set (qarray t ! ?i)" by (metis imageE)
  have int_i: "hash (key p) n = int ?i" using in_range [of k] k by simp
  have ok': "table_ok key ?t"
    unfolding table_ok_def
  proof (intro conjI allI impI)
    fix j assume j: "j < length (qarray ?t)"
    then have okj: "distinct (map key (qarray t ! j))" "\<forall>q \<in> set (qarray t ! j). hash (key q) n = int j"
      using ok by (simp_all add: table_ok_def)
    show "distinct (map key (qarray ?t ! j))" "\<forall>q \<in> set (qarray ?t ! j). hash (key q) n = int j"
      using okj notin int_i i by (cases "j = ?i"; simp)+
  qed (use ok in \<open>simp_all add: table_ok_def\<close>)
  have ent: "entries ?t = insert p (entries t)"
    using i by (auto simp: in_entries nth_list_update set_eq_iff split: if_splits)
  have "entry_of key ?t k' = ((entry_of key t)(k := Some p)) k'" for k'
  proof (cases "k' = k")
    case True
    then show ?thesis using entry_of_Some [OF ok', of k p] ent k by simp
  next
    case False
    have "entry_of key ?t k' = Some q \<longleftrightarrow> entry_of key t k' = Some q" for q
      using entry_of_Some [OF ok'] entry_of_Some [OF ok] ent k False by auto
    with False show ?thesis by (metis fun_upd_other option.exhaust)
  qed
  with add ok' ent show ?thesis by blast
qed

lemma del_entry:
  assumes ok: "table_ok key t" and p: "entry_of key t k = Some p"
  shows "table_ok key (qhash_del p t)" "entry_of key (qhash_del p t) = (entry_of key t)(k := None)"
    "entries (qhash_del p t) = entries t - {p}"
proof -
  have d: "distinct (qarray t ! i)" if "i < length (qarray t)" for i
    using ok that by (auto simp: table_ok_def distinct_map)
  show ok': "table_ok key (qhash_del p t)"
    using ok d by (auto simp: table_ok_def qhash_del_def distinct_map intro: inj_on_subset)
  show ent: "entries (qhash_del p t) = entries t - {p}"
    using d by (auto simp: in_entries qhash_del_def set_eq_iff)
  show "entry_of key (qhash_del p t) = (entry_of key t)(k := None)"
  proof
    fix k'
    have "entry_of key (qhash_del p t) k' = Some q \<longleftrightarrow> ((entry_of key t)(k := None)) k' = Some q" for q
      using entry_of_Some [OF ok', of k' q] entry_of_Some [OF ok, of k' q] entry_of_Some [OF ok, of k p]
        ent p by (cases "k' = k") auto
    then show "entry_of key (qhash_del p t) k' = ((entry_of key t)(k := None)) k'"
      by (metis option.exhaust)
  qed
qed

end

end
