(* ===== verification/Ident.thy ===== *)
theory Ident
  imports QuickHash CTypes
begin

text \<open>
  The identifiers of files, dimensions and variables (\<open>id.h\<close>, \<open>id.c\<close>). The client assigns
  them in \<open>assign_table\<close>; the server maps them to the objects of the output library in
  \<open>map_table\<close>. The values \<open>cfio_id_val_t\<close> live in a store of pointers, because the table, the
  list of children of a file and the caller of \<open>cfio_id_get_*\<close> share them. The nc, dim and var
  parts of a value are reached only through it, so they are fields; a NULL pointer is \<open>None\<close>.
  Dereferencing a NULL or freed pointer is \<open>None\<close> of the outer option.
\<close>

section \<open>State\<close>

type_synonym id_key = "i32 \<times> i32 \<times> i32"
type_synonym ptr = nat

datatype nc_status = DEFINE_MODE | DATA_MODE

record id_nc =
  nc_id :: i32
  nc_status :: nc_status

record id_dim =
  dim_name :: "byte list"
  dim_nc_id :: i32
  dim_id :: i32
  dim_len :: i32
  global_dim_len :: i32

record id_data =
  dbuf :: "byte list option"
  dstart :: "u64 list option"
  dcount :: "u64 list option"

record id_att =
  att_name :: "byte list"
  att_xtype :: i32
  att_len :: i32
  att_data :: "byte list"

record id_var =
  var_name :: "byte list"
  var_nc_id :: i32
  var_id :: i32
  ndims :: i32
  var_client_num :: int
  dim_ids :: "i32 list option"
  var_start :: "u64 list option"
  var_count :: "u64 list option"
  recv_data :: "id_data list option"
  data_type :: i32
  att_head :: "id_att list option"

record id_val =
  client_nc_id :: i32
  client_dim_id :: i32
  client_var_id :: i32
  client_var_a :: i32
  client_dim_a :: i32
  var_head :: "(byte list \<times> i32) list option"
  dim_head :: "(byte list \<times> i32) list option"
  nc :: "id_nc option"
  dim :: "id_dim option"
  var :: "id_var option"
  children :: "ptr list"

record id_state =
  open_nc_a :: i32
  assign_table :: "ptr qhash_table option"
  map_table :: "ptr qhash_table option"
  heap :: "ptr \<Rightarrow> id_val option"
  brk :: ptr

definition ASSIGN_HASH_TABLE_SIZE :: int where "ASSIGN_HASH_TABLE_SIZE = 1024"
definition MAP_HASH_TABLE_SIZE :: int where "MAP_HASH_TABLE_SIZE = 1024"
definition CFIO_ID_NC_INVALID :: i32 where "CFIO_ID_NC_INVALID = -1"
definition CFIO_ID_DIM_INVALID :: i32 where "CFIO_ID_DIM_INVALID = -1"
definition CFIO_ID_VAR_INVALID :: i32 where "CFIO_ID_VAR_INVALID = -1"
definition CFIO_ID_DIM_LOCAL_NULL :: i32 where "CFIO_ID_DIM_LOCAL_NULL = -1"

text \<open>The name under which the global attributes are kept, the string \<open>NC_GLOBAL\<close>.\<close>

definition NC_GLOBAL_NAME :: "byte list" where
  "NC_GLOBAL_NAME = [78, 67, 95, 71, 76, 79, 66, 65, 76]"

definition zero_val :: id_val where
  "zero_val = \<lparr>client_nc_id = 0, client_dim_id = 0, client_var_id = 0, client_var_a = 0,
     client_dim_a = 0, var_head = None, dim_head = None, nc = None, dim = None, var = None,
     children = []\<rparr>"

definition zero_var :: id_var where
  "zero_var = \<lparr>var_name = [], var_nc_id = 0, var_id = 0, ndims = 0, var_client_num = 0,
     dim_ids = None, var_start = None, var_count = None, recv_data = None, data_type = 0,
     att_head = None\<rparr>"

definition zero_data :: id_data where
  "zero_data = \<lparr>dbuf = None, dstart = None, dcount = None\<rparr>"

section \<open>Tables of identifiers\<close>

definition key_of :: "id_val \<Rightarrow> id_key" where
  "key_of v = (client_nc_id v, client_dim_id v, client_var_id v)"

definition id_compare :: "id_state \<Rightarrow> id_key \<Rightarrow> ptr \<Rightarrow> bool option" where
  "id_compare s key p = map_option (\<lambda>v. key_of v = key) (heap s p)"

definition id_hash :: "id_key \<Rightarrow> int \<Rightarrow> int" where
  "id_hash key size' = (let (a, b, c) = final key in mask_index c (word_of_int size'))"

definition id_search :: "id_state \<Rightarrow> ptr qhash_table option \<Rightarrow> id_key \<Rightarrow> ptr option option" where
  "id_search s table key = do { t \<leftarrow> table; qhash_search id_hash (id_compare s) key t }"

definition alloc_val :: "id_val \<Rightarrow> id_state \<Rightarrow> ptr \<times> id_state" where
  "alloc_val v s = (brk s, s\<lparr>heap := (heap s)(brk s := Some v), brk := brk s + 1\<rparr>)"

definition update_val :: "ptr \<Rightarrow> (id_val \<Rightarrow> id_val) \<Rightarrow> id_state \<Rightarrow> id_state" where
  "update_val p f s = s\<lparr>heap := (heap s)(p := map_option f (heap s p))\<rparr>"

definition add_assign :: "id_key \<Rightarrow> ptr \<Rightarrow> id_state \<Rightarrow> id_state option" where
  "add_assign key p s =
     do {
       t \<leftarrow> assign_table s;
       t \<leftarrow> qhash_add id_hash key p t;
       Some (s\<lparr>assign_table := Some t\<rparr>)
     }"

definition add_map :: "id_key \<Rightarrow> ptr \<Rightarrow> id_state \<Rightarrow> id_state option" where
  "add_map key p s =
     do {
       t \<leftarrow> map_table s;
       t \<leftarrow> qhash_add id_hash key p t;
       Some (s\<lparr>map_table := Some t\<rparr>)
     }"

definition cfio_id_init :: "int \<Rightarrow> id_state \<Rightarrow> int \<times> id_state" where
  "cfio_id_init flag s =
     (let s = s\<lparr>open_nc_a := 0, assign_table := None, map_table := None\<rparr>
      in if flag = 0 then (CFIO_ERROR_NONE, s\<lparr>assign_table := Some (qhash_init ASSIGN_HASH_TABLE_SIZE)\<rparr>)
         else if flag = 1 then (CFIO_ERROR_NONE, s\<lparr>map_table := Some (qhash_init MAP_HASH_TABLE_SIZE)\<rparr>)
         else (CFIO_ERROR_NONE, s))"

text \<open>\<open>_val_free\<close> and \<open>cfio_id_val_free\<close> give back the value and all it owns.\<close>

definition cfio_id_val_free :: "ptr \<Rightarrow> id_state \<Rightarrow> id_state" where
  "cfio_id_val_free p s = s\<lparr>heap := (heap s)(p := None)\<rparr>"

definition free_table :: "ptr qhash_table option \<Rightarrow> id_state \<Rightarrow> id_state" where
  "free_table table s =
     (case table of None \<Rightarrow> s
      | Some t \<Rightarrow> fold cfio_id_val_free (qhash_destroy_and_finalize t) s)"

definition cfio_id_final :: "id_state \<Rightarrow> int \<times> id_state" where
  "cfio_id_final s =
     (let s = (free_table (assign_table s) s)\<lparr>assign_table := None\<rparr>;
          s = (free_table (map_table s) s)\<lparr>map_table := None\<rparr>
      in (CFIO_ERROR_NONE, s))"

section \<open>The client: assigning identifiers\<close>

definition find_name :: "byte list \<Rightarrow> (byte list \<times> i32) list \<Rightarrow> i32 option" where
  "find_name name names = map_option snd (List.find (\<lambda>entry. fst entry = name) names)"

text \<open>
  The result carries \<open>*var_id\<close> when it has been assigned. A \<open>dimids\<close> array shorter than
  \<open>ndims\<close> is read out of bounds.
\<close>

definition cfio_id_assign_var ::
    "i32 \<Rightarrow> byte list \<Rightarrow> i32 \<Rightarrow> i32 list \<Rightarrow> id_state \<Rightarrow> (int \<times> i32 option \<times> id_state) option" where
  "cfio_id_assign_var ncid name n dimids s =
     do {
       link \<leftarrow> id_search s (assign_table s) (ncid, 0, 0);
       case link of
         None \<Rightarrow> Some (CFIO_ERROR_NC_NO_EXIST, None, s)
       | Some nc_ptr \<Rightarrow> do {
           nc_val \<leftarrow> heap s nc_ptr;
           names \<leftarrow> var_head nc_val;
           case find_name name names of
             Some varid \<Rightarrow> Some (CFIO_ERROR_NONE, Some varid, s)
           | None \<Rightarrow> do {
               let (varid, nc_val) =
                 (if name \<noteq> NC_GLOBAL_NAME
                  then (client_var_a nc_val + 1, nc_val\<lparr>client_var_a := client_var_a nc_val + 1\<rparr>)
                  else (NC_GLOBAL, nc_val));
               let s = update_val nc_ptr (\<lambda>_. nc_val\<lparr>var_head := Some ((name, varid) # names)\<rparr>) s;
               ids \<leftarrow> (if n = 0 then Some None
                       else if size_of_int n \<le> length dimids then Some (Some (take (size_of_int n) dimids))
                       else None);
               let new_var = zero_var\<lparr>var_name := name, var_nc_id := ncid, var_id := varid, ndims := n,
                               dim_ids := ids, att_head := Some []\<rparr>;
               let val = zero_val\<lparr>client_nc_id := ncid, client_var_id := varid, var := Some new_var\<rparr>;
               let (p, s) = alloc_val val s;
               s \<leftarrow> add_assign (ncid, 0, varid) p s;
               Some (CFIO_ERROR_NONE, Some varid,
                 update_val nc_ptr (\<lambda>v. v\<lparr>children := children v @ [p]\<rparr>) s)
             }
         }
     }"

definition cfio_id_assign_nc :: "id_state \<Rightarrow> (int \<times> i32 \<times> id_state) option" where
  "cfio_id_assign_nc s =
     do {
       let s = s\<lparr>open_nc_a := open_nc_a s + 1\<rparr>;
       let ncid = open_nc_a s;
       let (p, s) = alloc_val (zero_val\<lparr>client_nc_id := ncid, var_head := Some [], dim_head := Some []\<rparr>) s;
       s \<leftarrow> add_assign (ncid, 0, 0) p s;
       (ret, global_varid, s) \<leftarrow> cfio_id_assign_var ncid NC_GLOBAL_NAME 0 [] s;
       Some (CFIO_ERROR_NONE, ncid, s)
     }"

definition drop_child :: "ptr \<Rightarrow> id_state \<Rightarrow> id_state" where
  "drop_child p s =
     cfio_id_val_free p (s\<lparr>assign_table := map_option (qhash_del p) (assign_table s)\<rparr>)"

definition cfio_id_remove_nc :: "i32 \<Rightarrow> id_state \<Rightarrow> (int \<times> id_state) option" where
  "cfio_id_remove_nc ncid s =
     do {
       link \<leftarrow> id_search s (assign_table s) (ncid, 0, 0);
       case link of
         None \<Rightarrow> Some (CFIO_ERROR_NC_NO_EXIST, s)
       | Some nc_ptr \<Rightarrow> do {
           nc_val \<leftarrow> heap s nc_ptr;
           let s = fold drop_child (children nc_val) s;
           Some (CFIO_ERROR_NONE, drop_child nc_ptr s)
         }
     }"

definition cfio_id_assign_dim ::
    "i32 \<Rightarrow> byte list \<Rightarrow> id_state \<Rightarrow> (int \<times> i32 option \<times> id_state) option" where
  "cfio_id_assign_dim ncid name s =
     do {
       link \<leftarrow> id_search s (assign_table s) (ncid, 0, 0);
       case link of
         None \<Rightarrow> Some (CFIO_ERROR_NC_NO_EXIST, None, s)
       | Some nc_ptr \<Rightarrow> do {
           val \<leftarrow> heap s nc_ptr;
           names \<leftarrow> dim_head val;
           case find_name name names of
             Some dimid \<Rightarrow> Some (CFIO_ERROR_NONE, Some dimid, s)
           | None \<Rightarrow>
               (let dimid = client_dim_a val + 1
                in Some (CFIO_ERROR_NONE, Some dimid,
                     update_val nc_ptr (\<lambda>v. v\<lparr>client_dim_a := dimid,
                       dim_head := Some ((name, dimid) # names)\<rparr>) s))
         }
     }"

section \<open>The client: inquiries\<close>

definition cfio_id_inq_dim :: "i32 \<Rightarrow> byte list \<Rightarrow> id_state \<Rightarrow> (int \<times> i32 option) option" where
  "cfio_id_inq_dim ncid name s =
     do {
       link \<leftarrow> id_search s (assign_table s) (ncid, 0, 0);
       case link of
         None \<Rightarrow> Some (CFIO_ERROR_NC_NO_EXIST, None)
       | Some p \<Rightarrow> do {
           val \<leftarrow> heap s p;
           names \<leftarrow> dim_head val;
           Some (case find_name name names of
                   None \<Rightarrow> (CFIO_ERROR_VAR_NO_EXIST, None)
                 | Some dimid \<Rightarrow> (CFIO_ERROR_NONE, Some dimid))
         }
     }"

definition cfio_id_inq_var :: "i32 \<Rightarrow> byte list \<Rightarrow> id_state \<Rightarrow> (int \<times> i32 option) option" where
  "cfio_id_inq_var ncid name s =
     do {
       link \<leftarrow> id_search s (assign_table s) (ncid, 0, 0);
       case link of
         None \<Rightarrow> Some (CFIO_ERROR_NC_NO_EXIST, None)
       | Some p \<Rightarrow> do {
           val \<leftarrow> heap s p;
           names \<leftarrow> var_head val;
           Some (case find_name name names of
                   None \<Rightarrow> (CFIO_ERROR_VAR_NO_EXIST, None)
                 | Some varid \<Rightarrow> (CFIO_ERROR_NONE, Some varid))
         }
     }"

definition cfio_id_inq_att :: "i32 \<Rightarrow> i32 \<Rightarrow> byte list \<Rightarrow> id_state \<Rightarrow> int option" where
  "cfio_id_inq_att ncid varid name s =
     do {
       link \<leftarrow> id_search s (assign_table s) (ncid, 0, varid);
       case link of
         None \<Rightarrow> Some CFIO_ID_HASH_GET_NULL
       | Some p \<Rightarrow> do {
           val \<leftarrow> heap s p;
           v \<leftarrow> var val;
           atts \<leftarrow> att_head v;
           Some (if List.find (\<lambda>att. att_name att = name) atts = None then CFIO_ERROR_VAR_NO_EXIST
                 else CFIO_ERROR_NONE)
         }
     }"

definition cfio_id_inq_varndims :: "i32 \<Rightarrow> i32 \<Rightarrow> id_state \<Rightarrow> (int \<times> i32 option) option" where
  "cfio_id_inq_varndims ncid varid s =
     do {
       link \<leftarrow> id_search s (assign_table s) (ncid, 0, varid);
       case link of
         None \<Rightarrow> Some (CFIO_ERROR_NC_NO_EXIST, None)
       | Some p \<Rightarrow> do {
           val \<leftarrow> heap s p;
           v \<leftarrow> var val;
           Some (CFIO_ERROR_NONE, Some (ndims v))
         }
     }"

text \<open>The \<open>ndims\<close> values copied into the caller's array.\<close>

definition cfio_id_inq_vardimid :: "i32 \<Rightarrow> i32 \<Rightarrow> id_state \<Rightarrow> (int \<times> i32 list) option" where
  "cfio_id_inq_vardimid ncid varid s =
     do {
       link \<leftarrow> id_search s (assign_table s) (ncid, 0, varid);
       case link of
         None \<Rightarrow> Some (CFIO_ERROR_NC_NO_EXIST, [])
       | Some p \<Rightarrow> do {
           val \<leftarrow> heap s p;
           v \<leftarrow> var val;
           ids \<leftarrow> (if ndims v = 0 then Some [] else dim_ids v);
           if size_of_int (ndims v) \<le> length ids
           then Some (CFIO_ERROR_NONE, take (size_of_int (ndims v)) ids) else None
         }
     }"

text \<open>The client's record of an attribute keeps the first \<open>len\<close> bytes of its data.\<close>

definition cfio_id_assign_att ::
    "i32 \<Rightarrow> i32 \<Rightarrow> byte list \<Rightarrow> i32 \<Rightarrow> i32 \<Rightarrow> byte list \<Rightarrow> id_state \<Rightarrow> (int \<times> id_state) option" where
  "cfio_id_assign_att ncid varid name xtype len data s =
     do {
       link \<leftarrow> id_search s (assign_table s) (ncid, 0, varid);
       case link of
         None \<Rightarrow> Some (CFIO_ERROR_NC_NO_EXIST, s)
       | Some p \<Rightarrow> do {
           val \<leftarrow> heap s p;
           v \<leftarrow> var val;
           atts \<leftarrow> att_head v;
           d \<leftarrow> mem_read data 0 (size_of_int len);
           let att = \<lparr>att_name = name, att_xtype = xtype, att_len = len, att_data = d\<rparr>;
           Some (CFIO_ERROR_NONE,
             update_val p (\<lambda>val. val\<lparr>var := Some (v\<lparr>att_head := Some (atts @ [att])\<rparr>)\<rparr>) s)
         }
     }"

section \<open>The server: mapping identifiers\<close>

definition cfio_id_map_nc :: "i32 \<Rightarrow> i32 \<Rightarrow> id_state \<Rightarrow> (int \<times> id_state) option" where
  "cfio_id_map_nc cnc server_nc_id s =
     do {
       let (p, s) = alloc_val (zero_val\<lparr>client_nc_id := cnc,
                      nc := Some \<lparr>nc_id = server_nc_id, nc_status = DEFINE_MODE\<rparr>\<rparr>) s;
       s \<leftarrow> add_map (cnc, 0, 0) p s;
       Some (CFIO_ERROR_NONE, s)
     }"

definition add_child :: "ptr \<Rightarrow> ptr \<Rightarrow> id_state \<Rightarrow> id_state option" where
  "add_child nc_ptr p s =
     do {
       nc_val \<leftarrow> heap s nc_ptr;
       Some (update_val nc_ptr (\<lambda>v. v\<lparr>children := children v @ [p]\<rparr>) s)
     }"

text \<open>Both functions use the file's value without checking that the search found it.\<close>

definition cfio_id_map_dim ::
    "i32 \<Rightarrow> i32 \<Rightarrow> i32 \<Rightarrow> i32 \<Rightarrow> byte list \<Rightarrow> i32 \<Rightarrow> id_state \<Rightarrow> (int \<times> id_state) option" where
  "cfio_id_map_dim cnc cdim server_nc_id server_dim_id name len s =
     do {
       link \<leftarrow> id_search s (map_table s) (cnc, 0, 0);
       nc_ptr \<leftarrow> link;
       let (p, s) = alloc_val (zero_val\<lparr>client_nc_id := cnc, client_dim_id := cdim,
                      dim := Some \<lparr>dim_name = name, dim_nc_id = server_nc_id, dim_id = server_dim_id,
                        dim_len = CFIO_ID_DIM_LOCAL_NULL, global_dim_len = len\<rparr>\<rparr>) s;
       s \<leftarrow> add_map (cnc, cdim, 0) p s;
       s \<leftarrow> add_child nc_ptr p s;
       Some (CFIO_ERROR_NONE, s)
     }"

definition cfio_id_map_var ::
    "byte list \<Rightarrow> i32 \<Rightarrow> i32 \<Rightarrow> i32 \<Rightarrow> i32 \<Rightarrow> i32 \<Rightarrow> i32 list option \<Rightarrow> i32 \<Rightarrow> int \<Rightarrow> id_state \<Rightarrow>
     (int \<times> id_state) option" where
  "cfio_id_map_var name cnc cvar server_nc_id server_var_id n ids type client_num s =
     do {
       link \<leftarrow> id_search s (map_table s) (cnc, 0, 0);
       nc_ptr \<leftarrow> link;
       if client_num > 0 then do {
         let (p, s) = alloc_val (zero_val\<lparr>client_nc_id := cnc, client_var_id := cvar,
                        var := Some \<lparr>var_name = name, var_nc_id = server_nc_id, var_id = server_var_id,
                          ndims = n, var_client_num = client_num, dim_ids = ids, var_start = None,
                          var_count = None, recv_data = Some (replicate (nat client_num) zero_data),
                          data_type = type, att_head = Some []\<rparr>\<rparr>) s;
         s \<leftarrow> add_map (cnc, 0, cvar) p s;
         s \<leftarrow> add_child nc_ptr p s;
         Some (CFIO_ERROR_NONE, s)
       }
       else None
     }"

definition cfio_id_get_val :: "i32 \<Rightarrow> i32 \<Rightarrow> i32 \<Rightarrow> id_state \<Rightarrow> (int \<times> ptr option) option" where
  "cfio_id_get_val cnc cvar cdim s =
     do {
       link \<leftarrow> id_search s (map_table s) (cnc, cdim, cvar);
       Some (case link of None \<Rightarrow> (CFIO_ID_HASH_GET_NULL, None) | Some p \<Rightarrow> (CFIO_ERROR_NONE, Some p))
     }"

text \<open>
  The pointer to the nc, dim or var part is represented by the pointer to its value; that the
  part is there is asserted.
\<close>

definition get_part ::
    "(id_val \<Rightarrow> 'a option) \<Rightarrow> id_key \<Rightarrow> id_state \<Rightarrow> (int \<times> ptr option) option" where
  "get_part part key s =
     do {
       link \<leftarrow> id_search s (map_table s) key;
       case link of
         None \<Rightarrow> Some (CFIO_ID_HASH_GET_NULL, None)
       | Some p \<Rightarrow> do {
           val \<leftarrow> heap s p;
           if part val = None then None else Some (CFIO_ERROR_NONE, Some p)
         }
     }"

definition cfio_id_get_nc :: "i32 \<Rightarrow> id_state \<Rightarrow> (int \<times> ptr option) option" where
  "cfio_id_get_nc cnc = get_part nc (cnc, 0, 0)"

definition cfio_id_get_dim :: "i32 \<Rightarrow> i32 \<Rightarrow> id_state \<Rightarrow> (int \<times> ptr option) option" where
  "cfio_id_get_dim cnc cdim = get_part dim (cnc, cdim, 0)"

definition cfio_id_get_var :: "i32 \<Rightarrow> i32 \<Rightarrow> id_state \<Rightarrow> (int \<times> ptr option) option" where
  "cfio_id_get_var cnc cvar = get_part var (cnc, 0, cvar)"

definition cfio_id_put_var ::
    "i32 \<Rightarrow> i32 \<Rightarrow> int \<Rightarrow> u64 list \<Rightarrow> u64 list \<Rightarrow> byte list option \<Rightarrow> id_state \<Rightarrow>
     (int \<times> id_state) option" where
  "cfio_id_put_var cnc cvar client_index start count data s =
     do {
       link \<leftarrow> id_search s (map_table s) (cnc, 0, cvar);
       case link of
         None \<Rightarrow> Some (CFIO_ID_HASH_GET_NULL, s)
       | Some p \<Rightarrow> do {
           val \<leftarrow> heap s p;
           v \<leftarrow> var val;
           ds \<leftarrow> recv_data v;
           if 0 \<le> client_index \<and> client_index < int (length ds)
           then do {
             let d = \<lparr>dbuf = data, dstart = Some start, dcount = Some count\<rparr>;
             let v = v\<lparr>recv_data := Some (ds[nat client_index := d])\<rparr>;
             Some (CFIO_ERROR_NONE, update_val p (\<lambda>val. val\<lparr>var := Some v\<rparr>) s)
           }
           else None
         }
     }"

definition cfio_id_put_att ::
    "i32 \<Rightarrow> i32 \<Rightarrow> byte list \<Rightarrow> i32 \<Rightarrow> i32 \<Rightarrow> byte list \<Rightarrow> id_state \<Rightarrow> (int \<times> id_state) option" where
  "cfio_id_put_att cnc cvar name xtype len data s =
     do {
       link \<leftarrow> id_search s (map_table s) (cnc, 0, cvar);
       case link of
         None \<Rightarrow> Some (CFIO_ID_HASH_GET_NULL, s)
       | Some p \<Rightarrow> do {
           val \<leftarrow> heap s p;
           v \<leftarrow> var val;
           atts \<leftarrow> att_head v;
           let att = \<lparr>att_name = name, att_xtype = xtype, att_len = len, att_data = data\<rparr>;
           Some (CFIO_ERROR_NONE,
             update_val p (\<lambda>val. val\<lparr>var := Some (v\<lparr>att_head := Some (atts @ [att])\<rparr>)\<rparr>) s)
         }
     }"

section \<open>The tables as maps from keys to values\<close>

lemma id_hash_range: "0 \<le> id_hash k 1024 \<and> id_hash k 1024 < 1024"
proof -
  obtain a b c where abc: "final k = (a, b, c)" by (cases "final k")
  show ?thesis using mask_index_range [of 10 c] by (simp add: id_hash_def abc)
qed

interpretation id_table: table_hash id_hash 1024
  by unfold_locales (simp_all add: id_hash_range)

definition hkey :: "id_state \<Rightarrow> ptr \<Rightarrow> id_key" where
  "hkey s p = (case heap s p of Some v \<Rightarrow> key_of v | None \<Rightarrow> (0, 0, 0))"

text \<open>A table is sound when its entries are live, below the allocation mark and well placed.\<close>

definition sound :: "id_state \<Rightarrow> ptr qhash_table \<Rightarrow> bool" where
  "sound s t \<longleftrightarrow>
     id_table.table_ok (hkey s) t \<and> (\<forall>p \<in> id_table.entries t. heap s p \<noteq> None \<and> p < brk s)"

definition entry :: "id_state \<Rightarrow> ptr qhash_table \<Rightarrow> id_key \<Rightarrow> ptr option" where
  "entry s t = id_table.entry_of (hkey s) t"

definition lookup :: "id_state \<Rightarrow> ptr qhash_table \<Rightarrow> id_key \<Rightarrow> id_val option" where
  "lookup s t k = Option.bind (entry s t k) (heap s)"

lemma entry_Some:
  "sound s t \<Longrightarrow> entry s t k = Some p \<longleftrightarrow> p \<in> id_table.entries t \<and> hkey s p = k"
  by (simp add: sound_def entry_def id_table.entry_of_Some)

lemma entryD:
  assumes "sound s t" "entry s t k = Some p"
  obtains v where "heap s p = Some v" "key_of v = k" "p < brk s" "lookup s t k = Some v"
proof -
  have "p \<in> id_table.entries t" "hkey s p = k" using assms entry_Some by blast+
  moreover from this(1) obtain v where "heap s p = Some v" "p < brk s"
    using assms(1) by (auto simp: sound_def)
  ultimately show ?thesis using assms(2) by (intro that [of v]) (simp_all add: hkey_def lookup_def)
qed

lemma lookup_None: "sound s t \<Longrightarrow> lookup s t k = None \<longleftrightarrow> entry s t k = None"
  by (cases "entry s t k") (auto simp: lookup_def elim: entryD)

lemma id_search_entry:
  assumes "sound s t"
  shows "id_search s (Some t) k = Some (entry s t k)"
proof -
  have "id_compare s k p = Some (hkey s p = k)" if "p \<in> id_table.entries t" for p
    using assms that by (auto simp: sound_def id_compare_def hkey_def)
  with assms id_table.search_entry_of [of "hkey s" t "id_compare s" k] show ?thesis
    by (simp add: sound_def id_search_def entry_def)
qed

text \<open>Allocating changes nothing that a sound table can see.\<close>

lemma sound_alloc:
  assumes "sound s t"
  shows "sound (snd (alloc_val v s)) t" "entry (snd (alloc_val v s)) t = entry s t"
    "lookup (snd (alloc_val v s)) t = lookup s t"
proof -
  let ?s = "snd (alloc_val v s)"
  have key: "hkey s p = hkey ?s p" if "p \<in> id_table.entries t" for p
    using assms that by (auto simp: sound_def hkey_def alloc_val_def)
  then have ok: "id_table.table_ok (hkey ?s) t"
    using assms id_table.table_ok_cong [of t "hkey s" "hkey ?s"] by (simp add: sound_def)
  with assms show so: "sound ?s t" by (auto simp: sound_def alloc_val_def)
  have "entry ?s t k = Some p \<longleftrightarrow> entry s t k = Some p" for k p
    using entry_Some [OF so] entry_Some [OF assms] key by auto
  then show en: "entry ?s t = entry s t" by (metis ext option.exhaust)
  show "lookup ?s t = lookup s t"
  proof
    fix k
    show "lookup ?s t k = lookup s t k"
    proof (cases "entry s t k")
      case (Some p)
      then have "p < brk s" using entryD [OF assms] by blast
      then show ?thesis using Some by (simp add: lookup_def en) (simp add: alloc_val_def)
    qed (simp add: lookup_def en)
  qed
qed

text \<open>Updating a value without changing its key.\<close>

lemma sound_update:
  assumes "sound s t" "\<And>v. key_of (f v) = key_of v"
  shows "sound (update_val p f s) t" "entry (update_val p f s) t = entry s t"
    "lookup (update_val p f s) t = (\<lambda>k. if entry s t k = Some p then map_option f (lookup s t k) else lookup s t k)"
proof -
  let ?s = "update_val p f s"
  have key: "hkey ?s = hkey s"
    using assms(2) by (auto simp: hkey_def update_val_def fun_eq_iff split: option.splits)
  show so: "sound ?s t" using assms(1) key by (auto simp: sound_def update_val_def)
  show en: "entry ?s t = entry s t" by (simp add: entry_def key)
  have hp: "heap ?s = (heap s)(p := map_option f (heap s p))" by (simp add: update_val_def)
  show "lookup ?s t = (\<lambda>k. if entry s t k = Some p then map_option f (lookup s t k) else lookup s t k)"
    unfolding lookup_def en hp by (auto simp: fun_eq_iff split: bind_splits)
qed

text \<open>A fresh value enters the table under its key.\<close>

lemma sound_add:
  assumes so: "sound s t" and new: "lookup s t k = None" and k: "key_of v = k"
  defines "s' \<equiv> snd (alloc_val v s)"
  shows "\<exists>t'. qhash_add id_hash k (brk s) t = Some t' \<and> sound s' t' \<and>
    entry s' t' = (entry s t)(k := Some (brk s)) \<and> lookup s' t' = (lookup s t)(k := Some v)"
proof -
  note al = sound_alloc [OF so, of v, folded s'_def]
  have hk: "hkey s' (brk s) = k" using k by (simp add: hkey_def s'_def alloc_val_def)
  have "entry s' t k = None" using new lookup_None [OF so] al(2) by simp
  with hk al(1) obtain t' where t': "qhash_add id_hash k (brk s) t = Some t'"
    "id_table.table_ok (hkey s') t'"
    "id_table.entry_of (hkey s') t' = (id_table.entry_of (hkey s') t)(k := Some (brk s))"
    "id_table.entries t' = insert (brk s) (id_table.entries t)"
    using id_table.add_entry [of "hkey s'" t "brk s" k] by (auto simp: sound_def entry_def)
  have so': "sound s' t'" using t' al(1) by (auto simp: sound_def) (auto simp: s'_def alloc_val_def)
  have en: "entry s' t' = (entry s t)(k := Some (brk s))" using t'(3) al(2) by (simp add: entry_def)
  have "lookup s' t' k' = ((lookup s t)(k := Some v)) k'" for k'
  proof (cases "k' = k")
    case True
    then show ?thesis by (simp add: lookup_def en) (simp add: s'_def alloc_val_def)
  next
    case False
    then have "lookup s' t' k' = lookup s' t k'" using en al(2) by (simp add: lookup_def)
    with False al(3) show ?thesis by simp
  qed
  with t'(1) so' en show ?thesis by blast
qed

text \<open>An entry leaves the table and its value is freed.\<close>

lemma sound_drop:
  assumes so: "sound s t" and p: "entry s t k = Some p" and s': "heap s' = (heap s)(p := None)" "brk s' = brk s"
  shows "sound s' (qhash_del p t)" "entry s' (qhash_del p t) = (entry s t)(k := None)"
    "lookup s' (qhash_del p t) = (lookup s t)(k := None)"
proof -
  have ok: "id_table.table_ok (hkey s) t" using so by (simp add: sound_def)
  have en: "id_table.entry_of (hkey s) t k = Some p" using p by (simp add: entry_def)
  note del = id_table.del_entry [OF ok en]
  have same: "hkey s q = hkey s' q" if "q \<in> id_table.entries (qhash_del p t)" for q
    using that del(3) s' by (simp add: hkey_def)
  note ok' = id_table.table_ok_cong [OF same del(1)]
  show so': "sound s' (qhash_del p t)" using ok' so del(3) s' by (auto simp: sound_def)
  have "entry s' (qhash_del p t) k' = ((entry s t)(k := None)) k'" for k'
  proof -
    have "id_table.entry_of (hkey s') (qhash_del p t) k' = Some q \<longleftrightarrow>
        id_table.entry_of (hkey s) (qhash_del p t) k' = Some q" for q
      using id_table.entry_of_Some [OF ok'] id_table.entry_of_Some [OF del(1)] same by auto
    then have "id_table.entry_of (hkey s') (qhash_del p t) k' = id_table.entry_of (hkey s) (qhash_del p t) k'"
      by (metis option.exhaust)
    then show ?thesis using del(2) by (simp add: entry_def)
  qed
  then show ent: "entry s' (qhash_del p t) = (entry s t)(k := None)" by blast
  show "lookup s' (qhash_del p t) = (lookup s t)(k := None)"
  proof
    fix k'
    have "q \<noteq> p" if "entry s t k' = Some q" "k' \<noteq> k" for q
      using entryD [OF so that(1)] entryD [OF so p] that(2) by (metis option.inject)
    then show "lookup s' (qhash_del p t) k' = ((lookup s t)(k := None)) k'"
      using s' by (cases "entry s t k'") (auto simp: lookup_def ent)
  qed
qed

section \<open>A table of the state\<close>

text \<open>
  The client works on \<open>assign_table\<close> and the server on \<open>map_table\<close>; what the operations of a
  table do is the same for both: \<open>tbl\<close> selects the table and \<open>put\<close> replaces it.
\<close>

definition tab_ok :: "(id_state \<Rightarrow> ptr qhash_table option) \<Rightarrow> id_state \<Rightarrow> bool" where
  "tab_ok tbl s \<longleftrightarrow> (\<exists>t. tbl s = Some t \<and> sound s t)"

definition tab_map :: "(id_state \<Rightarrow> ptr qhash_table option) \<Rightarrow> id_state \<Rightarrow> id_key \<Rightarrow> id_val option" where
  "tab_map tbl s = lookup s (the (tbl s))"

definition tab_entry :: "(id_state \<Rightarrow> ptr qhash_table option) \<Rightarrow> id_state \<Rightarrow> id_key \<Rightarrow> ptr option" where
  "tab_entry tbl s = entry s (the (tbl s))"

locale id_view =
  fixes tbl :: "id_state \<Rightarrow> ptr qhash_table option"
    and put :: "ptr qhash_table \<Rightarrow> id_state \<Rightarrow> id_state"
  assumes tbl_put: "tbl (put t s) = Some t"
    and heap_put: "heap (put t s) = heap s" and brk_put: "brk (put t s) = brk s"
    and tbl_store: "tbl (s\<lparr>heap := h, brk := b\<rparr>) = tbl s"
begin

lemma tbl_alloc: "tbl (snd (alloc_val v s)) = tbl s"
  by (simp add: alloc_val_def tbl_store)

lemma tbl_heap: "tbl (s\<lparr>heap := h\<rparr>) = tbl s"
proof -
  have "s\<lparr>heap := h\<rparr> = s\<lparr>heap := h, brk := brk s\<rparr>" by simp
  then show ?thesis using tbl_store [where s = s and h = h and b = "brk s"] by metis
qed

lemma tbl_update: "tbl (update_val p f s) = tbl s"
  by (simp add: update_val_def tbl_heap)

lemma search: "tab_ok tbl s \<Longrightarrow> id_search s (tbl s) k = Some (tab_entry tbl s k)"
  by (auto simp: tab_ok_def tab_entry_def id_search_entry)

lemma entryE:
  assumes "tab_ok tbl s" "tab_map tbl s k = Some v"
  obtains p where "tab_entry tbl s k = Some p" "heap s p = Some v" "key_of v = k" "p < brk s"
proof -
  from assms obtain p where p: "tab_entry tbl s k = Some p" "heap s p = Some v"
    by (auto simp: tab_map_def lookup_def tab_entry_def bind_eq_Some_conv)
  with assms(1) have "key_of v = k" "p < brk s" by (auto simp: tab_ok_def tab_entry_def elim!: entryD)
  with p that show ?thesis by blast
qed

lemma entry_map:
  assumes "tab_ok tbl s" "tab_entry tbl s k = Some p"
  shows "\<exists>v. tab_map tbl s k = Some v \<and> heap s p = Some v \<and> key_of v = k"
  using assms by (auto simp: tab_ok_def tab_entry_def tab_map_def elim!: entryD)

lemma map_None: "tab_ok tbl s \<Longrightarrow> tab_map tbl s k = None \<longleftrightarrow> tab_entry tbl s k = None"
  by (auto simp: tab_ok_def tab_map_def tab_entry_def lookup_None)

lemma add:
  assumes "tab_ok tbl s" "tab_map tbl s k = None" "key_of v = k"
  shows "\<exists>t t'. tbl (snd (alloc_val v s)) = Some t \<and> qhash_add id_hash k (brk s) t = Some t' \<and>
    (let s' = put t' (snd (alloc_val v s)) in tab_ok tbl s' \<and>
       tab_map tbl s' = (tab_map tbl s)(k := Some v) \<and> tab_entry tbl s' = (tab_entry tbl s)(k := Some (brk s)) \<and>
       heap s' = (heap s)(brk s := Some v) \<and> brk s' = brk s + 1)"
proof -
  from assms(1) obtain t where t: "tbl s = Some t" "sound s t" by (auto simp: tab_ok_def)
  let ?s = "snd (alloc_val v s)"
  from sound_add [OF t(2) _ assms(3)] assms(2) t(1) obtain t' where t':
    "qhash_add id_hash k (brk s) t = Some t'" "sound ?s t'"
    "entry ?s t' = (entry s t)(k := Some (brk s))" "lookup ?s t' = (lookup s t)(k := Some v)"
    by (auto simp: tab_map_def)
  have hk: "hkey (put t' ?s) = hkey ?s" by (simp add: hkey_def heap_put fun_eq_iff)
  have "sound (put t' ?s) t'" "entry (put t' ?s) t' = entry ?s t'" "lookup (put t' ?s) t' = lookup ?s t'"
    using t'(2) by (simp_all add: sound_def entry_def lookup_def hk heap_put brk_put fun_eq_iff)
  then have "tab_ok tbl (put t' ?s)" "tab_map tbl (put t' ?s) = (tab_map tbl s)(k := Some v)"
    "tab_entry tbl (put t' ?s) = (tab_entry tbl s)(k := Some (brk s))"
    using t' t(1) by (simp_all add: tab_ok_def tab_map_def tab_entry_def tbl_put)
  moreover have "heap (put t' ?s) = (heap s)(brk s := Some v)" "brk (put t' ?s) = brk s + 1"
    by (simp_all add: heap_put brk_put alloc_val_def)
  ultimately show ?thesis using t(1) t'(1) by (simp add: tbl_alloc Let_def)
qed

lemma update:
  assumes "tab_ok tbl s" "tab_entry tbl s k = Some p" "\<And>v. key_of (f v) = key_of v"
  shows "tab_ok tbl (update_val p f s)" "tab_entry tbl (update_val p f s) = tab_entry tbl s"
    "tab_map tbl (update_val p f s) = (tab_map tbl s)(k := map_option f (tab_map tbl s k))"
proof -
  from assms(1) obtain t where t: "tbl s = Some t" "sound s t" by (auto simp: tab_ok_def)
  note u = sound_update [OF t(2) assms(3), of p]
  have m: "tbl (update_val p f s) = Some t" using t by (simp add: tbl_update)
  show "tab_ok tbl (update_val p f s)" "tab_entry tbl (update_val p f s) = tab_entry tbl s"
    using u t m by (simp_all add: tab_ok_def tab_entry_def)
  have "entry s t k' = Some p \<longleftrightarrow> k' = k" for k'
    using assms(2) t entry_Some [OF t(2)] by (auto simp: tab_entry_def)
  with u(3) t m show "tab_map tbl (update_val p f s) = (tab_map tbl s)(k := map_option f (tab_map tbl s k))"
    by (auto simp: tab_map_def fun_eq_iff)
qed

lemma drop_entry:
  assumes "tab_ok tbl s" "tab_entry tbl s k = Some p" "tbl s = Some t"
  defines "s' \<equiv> cfio_id_val_free p (put (qhash_del p t) s)"
  shows "tab_ok tbl s'" "tab_entry tbl s' = (tab_entry tbl s)(k := None)"
    "tab_map tbl s' = (tab_map tbl s)(k := None)" "heap s' = (heap s)(p := None)" "brk s' = brk s"
proof -
  have so: "sound s t" and p: "entry s t k = Some p" using assms(1-3) by (auto simp: tab_ok_def tab_entry_def)
  have h: "heap s' = (heap s)(p := None)" and b: "brk s' = brk s" and t: "tbl s' = Some (qhash_del p t)"
    by (simp_all add: s'_def cfio_id_val_free_def heap_put brk_put tbl_heap tbl_put)
  note d = sound_drop [OF so p h b]
  show "tab_ok tbl s'" "tab_entry tbl s' = (tab_entry tbl s)(k := None)"
    "tab_map tbl s' = (tab_map tbl s)(k := None)" "heap s' = (heap s)(p := None)" "brk s' = brk s"
    using d h b t assms(3) by (simp_all add: tab_ok_def tab_entry_def tab_map_def)
qed

text \<open>A child of a file is allocated, entered and linked.\<close>

lemma add_linked:
  assumes ok: "tab_ok tbl s" and f: "tab_map tbl s kf = Some f" and new: "tab_map tbl s k = None"
    and k: "key_of v = k"
  shows "\<exists>nc_ptr t t'. tab_entry tbl s kf = Some nc_ptr \<and> nc_ptr < brk s \<and> heap s nc_ptr = Some f \<and>
    tbl (snd (alloc_val v s)) = Some t \<and> qhash_add id_hash k (brk s) t = Some t' \<and>
    (let s1 = put t' (snd (alloc_val v s));
         s2 = update_val nc_ptr (\<lambda>v. v\<lparr>children := children v @ [brk s]\<rparr>) s1 in
       heap s1 nc_ptr = Some f \<and> tab_ok tbl s2 \<and> tab_entry tbl s2 = (tab_entry tbl s)(k := Some (brk s)) \<and>
       tab_map tbl s2 = (tab_map tbl s)(k := Some v, kf := Some (f\<lparr>children := children f @ [brk s]\<rparr>)) \<and>
       brk s2 = brk s + 1)"
proof -
  from entryE [OF ok f] obtain p where p: "tab_entry tbl s kf = Some p" "heap s p = Some f" "p < brk s" by metis
  from add [OF ok new k] obtain t t' where t': "tbl (snd (alloc_val v s)) = Some t"
    "qhash_add id_hash k (brk s) t = Some t'" and
    s1: "tab_ok tbl (put t' (snd (alloc_val v s)))" (is "tab_ok tbl ?s1")
      "tab_map tbl (put t' (snd (alloc_val v s))) = (tab_map tbl s)(k := Some v)"
      "tab_entry tbl (put t' (snd (alloc_val v s))) = (tab_entry tbl s)(k := Some (brk s))"
      "heap (put t' (snd (alloc_val v s))) = (heap s)(brk s := Some v)"
      "brk (put t' (snd (alloc_val v s))) = brk s + 1"
    by (auto simp: Let_def)
  have ne: "kf \<noteq> k" using f new by auto
  let ?s1 = "put t' (snd (alloc_val v s))"
  have hp: "heap ?s1 p = Some f" using s1(4) p(2,3) by simp
  have e: "tab_entry tbl ?s1 kf = Some p" using s1(3) p(1) ne by simp
  let ?f = "\<lambda>v. v\<lparr>children := children v @ [brk s]\<rparr>"
  have kf: "key_of (?f v) = key_of v" for v by (simp add: key_of_def)
  have b: "brk (update_val p ?f ?s1) = brk s + 1" using s1(5) by (simp add: update_val_def)
  note u = update [OF s1(1) e, of ?f, OF kf]
  have m: "tab_map tbl (update_val p ?f ?s1) = (tab_map tbl s)(k := Some v, kf := Some (?f f))"
    using u(3) s1(2) f ne by simp
  have en: "tab_entry tbl (update_val p ?f ?s1) = (tab_entry tbl s)(k := Some (brk s))"
    using u(2) s1(3) by simp
  show ?thesis unfolding Let_def
    by (intro exI [of _ p] exI [of _ t] exI [of _ t'] conjI p t' hp u(1) en m b)
qed

end

interpretation client: id_view assign_table "\<lambda>t s. s\<lparr>assign_table := Some t\<rparr>"
  by unfold_locales simp_all

interpretation server: id_view map_table "\<lambda>t s. s\<lparr>map_table := Some t\<rparr>"
  by unfold_locales simp_all

section \<open>The server's map\<close>

definition map_ok :: "id_state \<Rightarrow> bool" where
  "map_ok = tab_ok map_table"

definition server_map :: "id_state \<Rightarrow> id_key \<Rightarrow> id_val option" where
  "server_map = tab_map map_table"

definition server_entry :: "id_state \<Rightarrow> id_key \<Rightarrow> ptr option" where
  "server_entry = tab_entry map_table"

lemmas server_defs = map_ok_def server_map_def server_entry_def
lemmas server_search = server.search [folded server_defs]
lemmas server_entryE = server.entryE [folded server_defs]
lemmas server_entry_map = server.entry_map [folded server_defs]
lemmas server_map_None = server.map_None [folded server_defs]
lemmas server_update = server.update [folded server_defs]

lemma server_add:
  assumes "map_ok s" "server_map s k = None" "key_of v = k"
  shows "\<exists>s'. add_map k (brk s) (snd (alloc_val v s)) = Some s' \<and> map_ok s' \<and>
    server_map s' = (server_map s)(k := Some v) \<and>
    server_entry s' = (server_entry s)(k := Some (brk s)) \<and> heap s' = (heap s)(brk s := Some v)"
  using server.add [folded server_defs, OF assms] by (auto simp: add_map_def Let_def)

lemma server_add_child:
  assumes "map_ok s" "server_map s kf = Some f" "server_map s k = None" "key_of v = k"
  shows "\<exists>nc_ptr s1 s2. server_entry s kf = Some nc_ptr \<and>
    add_map k (brk s) (snd (alloc_val v s)) = Some s1 \<and> add_child nc_ptr (brk s) s1 = Some s2 \<and>
    map_ok s2 \<and> server_entry s2 = (server_entry s)(k := Some (brk s)) \<and>
    server_map s2 = (server_map s)(k := Some v, kf := Some (f\<lparr>children := children f @ [brk s]\<rparr>))"
  using server.add_linked [folded server_defs, OF assms] by (auto simp: add_map_def add_child_def Let_def)

text \<open>The values that the server enters.\<close>

definition nc_val :: "i32 \<Rightarrow> i32 \<Rightarrow> id_val" where
  "nc_val c i = zero_val\<lparr>client_nc_id := c, nc := Some \<lparr>nc_id = i, nc_status = DEFINE_MODE\<rparr>\<rparr>"

definition dim_val :: "i32 \<Rightarrow> i32 \<Rightarrow> i32 \<Rightarrow> i32 \<Rightarrow> byte list \<Rightarrow> i32 \<Rightarrow> id_val" where
  "dim_val c d i j name len = zero_val\<lparr>client_nc_id := c, client_dim_id := d,
     dim := Some \<lparr>dim_name = name, dim_nc_id = i, dim_id = j,
       dim_len = CFIO_ID_DIM_LOCAL_NULL, global_dim_len = len\<rparr>\<rparr>"

definition var_val ::
    "byte list \<Rightarrow> i32 \<Rightarrow> i32 \<Rightarrow> i32 \<Rightarrow> i32 \<Rightarrow> i32 \<Rightarrow> i32 list option \<Rightarrow> i32 \<Rightarrow> int \<Rightarrow> id_val" where
  "var_val name c v i j n ids type m = zero_val\<lparr>client_nc_id := c, client_var_id := v,
     var := Some \<lparr>var_name = name, var_nc_id = i, var_id = j, ndims = n, var_client_num = m,
       dim_ids = ids, var_start = None, var_count = None,
       recv_data = Some (replicate (nat m) zero_data), data_type = type, att_head = Some []\<rparr>\<rparr>"

lemma key_of_new_vals [simp]:
  "key_of (nc_val c i) = (c, 0, 0)" "key_of (dim_val c d i j name len) = (c, d, 0)"
  "key_of (var_val name c v i j n ids type m) = (c, 0, v)"
  by (simp_all add: key_of_def nc_val_def dim_val_def var_val_def zero_val_def)

lemma case_alloc: "(case alloc_val w s of (p, s') \<Rightarrow> F p s') = F (brk s) (snd (alloc_val w s))"
  by (simp add: alloc_val_def)

lemma map_nc_binds:
  assumes "map_ok s" "server_map s (c, 0, 0) = None"
  shows "\<exists>s'. cfio_id_map_nc c i s = Some (CFIO_ERROR_NONE, s') \<and> map_ok s' \<and>
    server_map s' = (server_map s)((c, 0, 0) \<mapsto> nc_val c i) \<and>
    server_entry s' = (server_entry s)((c, 0, 0) \<mapsto> brk s)"
  using server_add [OF assms, of "nc_val c i"]
  by (auto simp: cfio_id_map_nc_def nc_val_def [symmetric] case_alloc Let_def)

lemma map_dim_binds:
  assumes "map_ok s" "server_map s (c, 0, 0) = Some f" "server_map s (c, d, 0) = None"
  shows "\<exists>s'. cfio_id_map_dim c d i j name len s = Some (CFIO_ERROR_NONE, s') \<and> map_ok s' \<and>
    server_map s' = (server_map s)((c, d, 0) \<mapsto> dim_val c d i j name len,
      (c, 0, 0) \<mapsto> f\<lparr>children := children f @ [brk s]\<rparr>) \<and>
    server_entry s' = (server_entry s)((c, d, 0) \<mapsto> brk s)"
  using server_add_child [OF assms, of "dim_val c d i j name len"]
  by (auto simp: cfio_id_map_dim_def server_search [OF assms(1)] dim_val_def [symmetric]
      case_alloc Let_def)

lemma map_var_binds:
  assumes "map_ok s" "server_map s (c, 0, 0) = Some f" "server_map s (c, 0, v) = None" "0 < m"
  shows "\<exists>s'. cfio_id_map_var name c v i j n ids type m s = Some (CFIO_ERROR_NONE, s') \<and> map_ok s' \<and>
    server_map s' = (server_map s)((c, 0, v) \<mapsto> var_val name c v i j n ids type m,
      (c, 0, 0) \<mapsto> f\<lparr>children := children f @ [brk s]\<rparr>) \<and>
    server_entry s' = (server_entry s)((c, 0, v) \<mapsto> brk s)"
  using server_add_child [OF assms(1-3), of "var_val name c v i j n ids type m"] assms(4)
  by (auto simp: cfio_id_map_var_def server_search [OF assms(1)] var_val_def [symmetric]
      case_alloc Let_def)

text \<open>C24. Registering a file, a dimension or a variable on the server binds exactly its own
  key: afterwards the key holds the new object with the given fields, the object has joined the
  children of its file, and every other key of the table looks up what it did before.\<close>

theorem id_map_binds:
  assumes "map_ok s" "server_map s (c, 0, 0) = Some f" "server_map s (c', 0, 0) = None"
    and "server_map s (c, d, 0) = None" "server_map s (c, 0, v) = None" "0 < m"
  shows "(\<exists>s'. cfio_id_map_nc c' i s = Some (CFIO_ERROR_NONE, s') \<and> map_ok s' \<and>
      server_map s' = (server_map s)((c', 0, 0) \<mapsto> nc_val c' i)) \<and>
    (\<exists>s'. cfio_id_map_dim c d i j name len s = Some (CFIO_ERROR_NONE, s') \<and> map_ok s' \<and>
      server_map s' = (server_map s)((c, d, 0) \<mapsto> dim_val c d i j name len,
        (c, 0, 0) \<mapsto> f\<lparr>children := children f @ [brk s]\<rparr>)) \<and>
    (\<exists>s'. cfio_id_map_var name c v i j n ids type m s = Some (CFIO_ERROR_NONE, s') \<and> map_ok s' \<and>
      server_map s' = (server_map s)((c, 0, v) \<mapsto> var_val name c v i j n ids type m,
        (c, 0, 0) \<mapsto> f\<lparr>children := children f @ [brk s]\<rparr>))"
  using map_nc_binds [OF assms(1,3)] map_dim_binds [OF assms(1,2,4)] map_var_binds [OF assms(1,2,5,6)]
  by blast

definition id_state_0 :: id_state where
  "id_state_0 = \<lparr>open_nc_a = 0, assign_table = Some (qhash_init 1024), map_table = Some (qhash_init 1024),
     heap = Map.empty, brk = 0\<rparr>"

lemma sound_init: "sound s (qhash_init 1024)" "lookup s (qhash_init 1024) = Map.empty"
  "entry s (qhash_init 1024) = Map.empty"
  by (simp_all add: sound_def lookup_def entry_def id_table.table_ok_init id_table.entries_init
      id_table.entry_of_init fun_eq_iff)

lemma id_state_0_ok: "map_ok id_state_0" "server_map id_state_0 = Map.empty"
  by (simp_all add: server_defs tab_ok_def tab_map_def id_state_0_def sound_init)

lemma state_with_file:
  "\<exists>s f. map_ok s \<and> server_map s = [(1, 0, 0) \<mapsto> f] \<and> f = nc_val 1 9"
  using map_nc_binds [OF id_state_0_ok(1), of 1 9] by (auto simp: id_state_0_ok)

theorem id_map_binds_witness:
  "\<exists>s f. server_map s = [(1, 0, 0) \<mapsto> f] \<and>
    (\<exists>s'. cfio_id_map_nc 2 7 s = Some (CFIO_ERROR_NONE, s') \<and> map_ok s' \<and>
      server_map s' = (server_map s)((2, 0, 0) \<mapsto> nc_val 2 7)) \<and>
    (\<exists>s'. cfio_id_map_dim 1 1 7 8 [120] 10 s = Some (CFIO_ERROR_NONE, s') \<and> map_ok s' \<and>
      server_map s' = (server_map s)((1, 1, 0) \<mapsto> dim_val 1 1 7 8 [120] 10,
        (1, 0, 0) \<mapsto> f\<lparr>children := children f @ [brk s]\<rparr>)) \<and>
    (\<exists>s'. cfio_id_map_var [120] 1 1 7 8 0 None 4 4 s = Some (CFIO_ERROR_NONE, s') \<and> map_ok s' \<and>
      server_map s' = (server_map s)((1, 0, 1) \<mapsto> var_val [120] 1 1 7 8 0 None 4 4,
        (1, 0, 0) \<mapsto> f\<lparr>children := children f @ [brk s]\<rparr>))"
proof -
  from state_with_file obtain s f where s: "map_ok s" "server_map s = [(1, 0, 0) \<mapsto> f]" by blast
  with id_map_binds [OF s(1), of 1 f 2 1 1 4 7 8 "[120]" 10 0 None 4] show ?thesis by fastforce
qed

text \<open>What the lookups of the server return.\<close>

lemma get_part_found:
  assumes "map_ok s" "server_map s k = Some v" "part v \<noteq> None"
  shows "\<exists>p. get_part part k s = Some (CFIO_ERROR_NONE, Some p) \<and> heap s p = Some v \<and>
    server_entry s k = Some p"
  by (rule server_entryE [OF assms(1,2)]) (use assms(3) in \<open>simp add: get_part_def server_search [OF assms(1)]\<close>)

lemma get_part_null:
  "map_ok s \<Longrightarrow> server_map s k = None \<Longrightarrow> get_part part k s = Some (CFIO_ID_HASH_GET_NULL, None)"
  by (simp add: get_part_def server_search server_map_None)

end
