(* ===== verification/IoReq.thy ===== *)
theory IoReq
  imports QuickHash Procmap Ident
begin

text \<open>
  The pending requests of a server (\<open>io.c\<close>): a request stays in \<open>io_table\<close> until every client
  of the server has sent its part, which a bitmap records. The values \<open>cfio_io_val_t\<close> live in a
  store of pointers, since the caller holds the pointer that is later removed from the table.
\<close>

unbundle bit_operations_syntax

section \<open>State and operations\<close>

type_synonym io_key = "i32 \<times> i32 \<times> i32 \<times> i32"

record io_val =
  io_key :: io_key
  client_bitmap :: "8 word list"

record io_state =
  io_table :: "ptr qhash_table option"
  io_heap :: "ptr \<Rightarrow> io_val option"
  io_brk :: ptr
  server_id :: int

definition IO_HASH_TABLE_SIZE :: int where "IO_HASH_TABLE_SIZE = 32"

definition io_compare :: "io_state \<Rightarrow> io_key \<Rightarrow> ptr \<Rightarrow> bool option" where
  "io_compare s key link = map_option (\<lambda>val. io_key val = key) (io_heap s link)"

definition io_hash :: "io_key \<Rightarrow> int \<Rightarrow> int" where
  "io_hash key sz =
     (let (func_code, client_nc_id, client_dim_id, client_var_id) = key;
          (a, b, c) = mix (func_code, client_nc_id, client_dim_id);
          a = a + client_var_id;
          (a, b, c) = final (a, b, c)
      in mask_index c (word_of_int sz))"

definition io_free :: "ptr \<Rightarrow> io_state \<Rightarrow> io_state" where
  "io_free val s = s\<lparr>io_heap := (io_heap s)(val := None)\<rparr>"

definition add_bitmap :: "map_state \<Rightarrow> 8 word list \<Rightarrow> int \<Rightarrow> 8 word list option" where
  "add_bitmap m bitmap client_id =
     (if client_id < client_amount m
      then do {
        client_index \<leftarrow> cfio_map_get_client_index_of_server m client_id;
        let i = client_index div 2 ^ 3;
        let j = client_index - i * 2 ^ 3;
        if 0 \<le> i \<and> i < int (length bitmap)
        then Some (bitmap[nat i := bitmap ! nat i OR push_bit (nat j) 1])
        else None
      }
      else None)"

text \<open>The bitmap has one byte more than the whole bytes it needs; a shorter one is read out of bounds.\<close>

definition bitmap_full :: "map_state \<Rightarrow> int \<Rightarrow> 8 word list \<Rightarrow> bool option" where
  "bitmap_full m server bitmap =
     do {
       client_num \<leftarrow> cfio_map_get_client_num_of_server m server;
       let head = client_num div 2 ^ 3;
       let tail = client_num - head * 2 ^ 3;
       if 0 \<le> head \<and> head < int (length bitmap)
       then Some ((\<forall>i \<in> set [0 ..< nat head]. bitmap ! i = 255) \<and>
                  uint (bitmap ! nat head) = 2 ^ nat tail - 1)
       else None
     }"

definition recv_client_io ::
    "map_state \<Rightarrow> int \<Rightarrow> io_key \<Rightarrow> io_state \<Rightarrow> (ptr \<times> io_state) option" where
  "recv_client_io m client_id key s =
     do {
       client_num \<leftarrow> cfio_map_get_client_num_of_server m (server_id s);
       t \<leftarrow> io_table s;
       link \<leftarrow> qhash_search io_hash (io_compare s) key t;
       (val, s) \<leftarrow>
         (case link of
            None \<Rightarrow> do {
              let val = io_brk s;
              let v = \<lparr>io_key = key, client_bitmap = replicate (nat (client_num div 2 ^ 3 + 1)) 0\<rparr>;
              t \<leftarrow> qhash_add io_hash key val t;
              Some (val, s\<lparr>io_heap := (io_heap s)(val := Some v), io_brk := val + 1, io_table := Some t\<rparr>)
            }
          | Some val \<Rightarrow> Some (val, s));
       v \<leftarrow> io_heap s val;
       bitmap \<leftarrow> add_bitmap m (client_bitmap v) client_id;
       Some (val, s\<lparr>io_heap := (io_heap s)(val := Some (v\<lparr>client_bitmap := bitmap\<rparr>))\<rparr>)
     }"

definition remove_client_io :: "ptr \<Rightarrow> io_state \<Rightarrow> io_state option" where
  "remove_client_io io_info s =
     do {
       t \<leftarrow> io_table s;
       v \<leftarrow> io_heap s io_info;
       Some (io_free io_info (s\<lparr>io_table := Some (qhash_del io_info t)\<rparr>))
     }"

text \<open>\<open>_bitmap_full(io_info->client_bitmap)\<close>\<close>

definition io_full :: "map_state \<Rightarrow> ptr \<Rightarrow> io_state \<Rightarrow> bool option" where
  "io_full m io_info s =
     do { v \<leftarrow> io_heap s io_info; bitmap_full m (server_id s) (client_bitmap v) }"

definition cfio_io_init :: "int \<Rightarrow> io_state \<Rightarrow> int \<times> io_state" where
  "cfio_io_init rank s =
     (CFIO_ERROR_NONE, s\<lparr>io_table := Some (qhash_init IO_HASH_TABLE_SIZE), server_id := rank\<rparr>)"

definition cfio_io_final :: "io_state \<Rightarrow> int \<times> io_state" where
  "cfio_io_final s =
     (case io_table s of
        None \<Rightarrow> (CFIO_ERROR_NONE, s)
      | Some t \<Rightarrow>
          (CFIO_ERROR_NONE, (fold io_free (qhash_destroy_and_finalize t) s)\<lparr>io_table := None\<rparr>))"

section \<open>Bitmaps as sets\<close>

definition members :: "8 word list \<Rightarrow> nat set" where
  "members bm = {k. k < 8 * length bm \<and> bit (bm ! (k div 8)) (k mod 8)}"

lemma members_zero [simp]: "members (replicate n 0) = {}"
  by (auto simp: members_def)

lemma members_or:
  assumes "k < 8 * length bm"
  shows "members (bm[k div 8 := bm ! (k div 8) OR push_bit (k mod 8) 1]) = insert k (members bm)"
proof -
  let ?bm = "bm[k div 8 := bm ! (k div 8) OR push_bit (k mod 8) 1]"
  have k: "k div 8 < length bm" using assms by simp
  have "x \<in> members ?bm \<longleftrightarrow> x = k \<or> x \<in> members bm" for x
  proof (cases "x div 8 = k div 8")
    case True
    have "x = k \<longleftrightarrow> x mod 8 = k mod 8" using True by (metis div_mult_mod_eq)
    moreover have "bit (push_bit (k mod 8) (1 :: 8 word)) (x mod 8) \<longleftrightarrow> x mod 8 = k mod 8"
      by (auto simp: bit_simps)
    ultimately show ?thesis using True k assms by (auto simp: members_def bit_or_iff)
  next
    case False
    then have "x \<noteq> k" by auto
    then show ?thesis using False k by (simp add: members_def)
  qed
  then show ?thesis by auto
qed

lemma byte_eq_iff: "(v :: 8 word) = w \<longleftrightarrow> (\<forall>j < 8. bit v j \<longleftrightarrow> bit w j)"
  by (auto intro: bit_word_eqI)

lemma byte_full: "(w :: 8 word) = 255 \<longleftrightarrow> (\<forall>j < 8. bit w j)"
proof -
  have "(255 :: 8 word) = mask 8" by (simp add: mask_eq_exp_minus_1)
  then show ?thesis by (auto simp: byte_eq_iff bit_simps)
qed

lemma byte_tail:
  assumes "t < 8" shows "uint (w :: 8 word) = 2 ^ t - 1 \<longleftrightarrow> (\<forall>j < 8. bit w j \<longleftrightarrow> j < t)"
proof -
  have "(2 ^ t - 1 :: int) = uint (mask t :: 8 word)"
    by (subst uint_mask_eq) (use assms in \<open>simp add: min_def mask_eq_exp_minus_1\<close>)
  then have "uint w = 2 ^ t - 1 \<longleftrightarrow> w = mask t" by (simp only: word_eq_iff_unsigned [where ?'a = int])
  also have "\<dots> \<longleftrightarrow> (\<forall>j < 8. bit w j \<longleftrightarrow> j < t)" by (auto simp: byte_eq_iff bit_simps)
  finally show ?thesis .
qed

text \<open>The bitmap of a server with \<open>n\<close> clients.\<close>

definition bitmap_ok :: "nat \<Rightarrow> 8 word list \<Rightarrow> bool" where
  "bitmap_ok n bm \<longleftrightarrow> length bm = n div 8 + 1 \<and> members bm \<subseteq> {..<n}"

lemma full_iff:
  assumes ok: "bitmap_ok n bm" and num: "cfio_map_get_client_num_of_server m s = Some (int n)"
  shows "bitmap_full m s bm = Some (members bm = {..<n})"
proof -
  have len: "length bm = n div 8 + 1" and sub: "members bm \<subseteq> {..<n}" using ok by (simp_all add: bitmap_ok_def)
  have h: "int n div 8 = int (n div 8)" "int n - int (n div 8) * 8 = int (n mod 8)"
    by (simp_all add: zdiv_int zmod_int minus_mult_div_eq_mod [symmetric] mult.commute)
  have "(\<forall>i \<in> set [0 ..< n div 8]. bm ! i = 255) \<and> uint (bm ! (n div 8)) = 2 ^ (n mod 8) - 1 \<longleftrightarrow>
      members bm = {..<n}" (is "?l \<longleftrightarrow> _")
  proof
    assume l: ?l
    have "k \<in> members bm" if "k < n" for k
    proof (cases "k div 8 < n div 8")
      case True
      then have "bit (bm ! (k div 8)) (k mod 8)" using l by (simp add: byte_full)
      then show ?thesis using True len by (simp add: members_def)
    next
      case False
      then have eq: "k div 8 = n div 8" using that by (meson div_le_mono le_antisym less_imp_le not_less)
      then have "k mod 8 < n mod 8" using that by (metis add_less_cancel_left div_mult_mod_eq)
      then have "bit (bm ! (k div 8)) (k mod 8)" using l eq by (simp add: byte_tail)
      then show ?thesis using eq len by (simp add: members_def)
    qed
    with sub show "members bm = {..<n}" by auto
  next
    assume r: "members bm = {..<n}"
    have bits: "bit (bm ! i) j \<longleftrightarrow> 8 * i + j < n" if "i \<le> n div 8" "j < 8" for i j
    proof -
      have "8 * i + j \<in> members bm \<longleftrightarrow> bit (bm ! i) j" using that len by (simp add: members_def)
      with r show ?thesis by auto
    qed
    have "8 * i + j < n" if "i < n div 8" "j < 8" for i j :: nat
    proof -
      have "8 * i + 8 \<le> 8 * (n div 8)" using that by simp
      then show ?thesis using that(2) times_div_less_eq_dividend [of 8 n] by linarith
    qed
    moreover have "8 * (n div 8) + j < n \<longleftrightarrow> j < n mod 8" for j
      by (metis add_less_cancel_left mult_div_mod_eq)
    ultimately show ?l using bits by (simp add: byte_full byte_tail)
  qed
  then show ?thesis using len by (simp add: bitmap_full_def num h Let_def del: of_nat_div)
qed

lemma add_bitmap_member:
  assumes "bitmap_ok n bm" "k < n" "c < client_amount m"
    and "cfio_map_get_client_index_of_server m c = Some (int k)"
  shows "\<exists>bm'. add_bitmap m bm c = Some bm' \<and> bitmap_ok n bm' \<and> members bm' = insert k (members bm)"
proof -
  have len: "length bm = n div 8 + 1" using assms(1) by (simp add: bitmap_ok_def)
  have kd: "k div 8 < length bm" using assms(2) len by (simp add: div_le_mono less_Suc_eq_le)
  then have k8: "k < 8 * length bm" by (simp add: div_less_iff_less_mult mult.commute)
  have h: "int k div 8 = int (k div 8)" "int k - int (k div 8) * 8 = int (k mod 8)"
    by (simp_all add: zdiv_int zmod_int minus_mult_div_eq_mod [symmetric] mult.commute)
  have "add_bitmap m bm c = Some (bm[k div 8 := bm ! (k div 8) OR push_bit (k mod 8) 1])"
    using assms(3,4) kd by (simp add: add_bitmap_def h Let_def del: of_nat_div)
  then show ?thesis using members_or [OF k8] assms(1,2) by (auto simp: bitmap_ok_def)
qed


section \<open>The requests as a map from keys to sets of clients\<close>

lemma io_hash_range: "0 \<le> io_hash k 32 \<and> io_hash k 32 < 32"
proof -
  obtain f i d v where k: "k = (f, i, d, v)" by (cases k)
  obtain a b c where abc: "mix (f, i, d) = (a, b, c)" by (cases "mix (f, i, d)")
  obtain a' b' c' where "final (a + v, b, c) = (a', b', c')" by (cases "final (a + v, b, c)")
  then show ?thesis using mask_index_range [of 5 c'] by (simp add: io_hash_def k abc)
qed

interpretation io_requests: table_hash io_hash 32
  by unfold_locales (simp_all add: io_hash_range)

definition pkey :: "io_state \<Rightarrow> ptr \<Rightarrow> io_key" where
  "pkey s p = (case io_heap s p of Some v \<Rightarrow> io_key v | None \<Rightarrow> (0, 0, 0, 0))"

text \<open>\<open>n\<close> is the number of clients of the server.\<close>

definition io_ok :: "nat \<Rightarrow> io_state \<Rightarrow> bool" where
  "io_ok n s \<longleftrightarrow>
     (\<exists>t. io_table s = Some t \<and> io_requests.table_ok (pkey s) t \<and>
        (\<forall>p \<in> io_requests.entries t. p < io_brk s \<and>
           (\<exists>v. io_heap s p = Some v \<and> bitmap_ok n (client_bitmap v))))"

definition pending :: "io_state \<Rightarrow> io_key \<Rightarrow> ptr option" where
  "pending s = io_requests.entry_of (pkey s) (the (io_table s))"

text \<open>The clients that have sent their part of a pending request.\<close>

definition reported :: "io_state \<Rightarrow> io_key \<Rightarrow> nat set" where
  "reported s k =
     (case Option.bind (pending s k) (io_heap s) of None \<Rightarrow> {} | Some v \<Rightarrow> members (client_bitmap v))"

lemma pendingD:
  assumes "io_ok n s" "pending s k = Some p"
  obtains v where "io_heap s p = Some v" "io_key v = k" "p < io_brk s" "bitmap_ok n (client_bitmap v)"
    "reported s k = members (client_bitmap v)"
proof -
  from assms(1) obtain t where t: "io_table s = Some t" "io_requests.table_ok (pkey s) t"
    "\<forall>p \<in> io_requests.entries t. p < io_brk s \<and> (\<exists>v. io_heap s p = Some v \<and> bitmap_ok n (client_bitmap v))"
    by (auto simp: io_ok_def)
  with assms(2) have "p \<in> io_requests.entries t" "pkey s p = k"
    by (auto simp: pending_def io_requests.entry_of_Some)
  with t(3) assms(2) that show ?thesis by (fastforce simp: pkey_def reported_def)
qed

lemma io_search:
  assumes "io_ok n s" "io_table s = Some t"
  shows "qhash_search io_hash (io_compare s) k t = Some (pending s k)"
proof -
  have "io_compare s k p = Some (pkey s p = k)" if "p \<in> io_requests.entries t" for p
    using assms that by (fastforce simp: io_ok_def io_compare_def pkey_def)
  with assms io_requests.search_entry_of [of "pkey s" t "io_compare s" k] show ?thesis
    by (simp add: io_ok_def pending_def)
qed

text \<open>Changing the bitmap of a pending request.\<close>

lemma io_set_bitmap:
  assumes ok: "io_ok n s" and p: "pending s k = Some p" "io_heap s p = Some v" and bm: "bitmap_ok n bm"
  defines "s' \<equiv> s\<lparr>io_heap := (io_heap s)(p := Some (v\<lparr>client_bitmap := bm\<rparr>))\<rparr>"
  shows "io_ok n s'" "pending s' = pending s" "reported s' = (reported s)(k := members bm)"
proof -
  have key: "pkey s' = pkey s" using p(2) by (auto simp: s'_def pkey_def fun_eq_iff)
  show "io_ok n s'" using ok key bm by (auto simp: io_ok_def s'_def)
  show pe: "pending s' = pending s" by (simp add: pending_def key) (simp add: s'_def)
  have "reported s' k' = ((reported s)(k := members bm)) k'" for k'
  proof (cases "pending s k' = Some p")
    case True
    then have "k' = k" using pendingD [OF ok True] pendingD [OF ok p(1)] by (metis option.inject)
    then show ?thesis using p by (simp add: reported_def pe) (simp add: s'_def)
  next
    case False
    then have "k' \<noteq> k" using p(1) by auto
    then show ?thesis using False by (cases "pending s k'") (simp_all add: reported_def pe, simp add: s'_def)
  qed
  then show "reported s' = (reported s)(k := members bm)" by blast
qed

text \<open>A new request.\<close>

lemma io_add:
  assumes ok: "io_ok n s" and t: "io_table s = Some t" and new: "pending s k = None"
    and bm: "bitmap_ok n bm"
  defines "h' \<equiv> (io_heap s)(io_brk s := Some \<lparr>io_key = k, client_bitmap = bm\<rparr>)"
  shows "\<exists>t'. qhash_add io_hash k (io_brk s) t = Some t' \<and>
    (let s' = s\<lparr>io_heap := h', io_brk := io_brk s + 1, io_table := Some t'\<rparr> in
       io_ok n s' \<and> pending s' = (pending s)(k := Some (io_brk s)) \<and>
       reported s' = (reported s)(k := members bm))"
proof -
  let ?p = "io_brk s"
  let ?s = "s\<lparr>io_heap := h', io_brk := ?p + 1\<rparr>"
  from ok t have tok: "io_requests.table_ok (pkey s) t"
    and live: "\<And>p. p \<in> io_requests.entries t \<Longrightarrow> p < ?p \<and> (\<exists>v. io_heap s p = Some v \<and> bitmap_ok n (client_bitmap v))"
    by (auto simp: io_ok_def)
  have same: "pkey s p = pkey ?s p" if "p \<in> io_requests.entries t" for p
    using live [OF that] by (auto simp: pkey_def h'_def)
  have tok': "io_requests.table_ok (pkey ?s) t" by (rule io_requests.table_ok_cong [OF same tok])
  have en: "io_requests.entry_of (pkey ?s) t = pending s"
  proof
    fix k'
    have "io_requests.entry_of (pkey ?s) t k' = Some p \<longleftrightarrow> pending s k' = Some p" for p
      using io_requests.entry_of_Some [OF tok'] io_requests.entry_of_Some [OF tok] same t
      by (auto simp: pending_def)
    then show "io_requests.entry_of (pkey ?s) t k' = pending s k'" by (metis option.exhaust)
  qed
  have "pkey ?s ?p = k" by (simp add: pkey_def h'_def)
  from io_requests.add_entry [OF tok' this, unfolded en] new obtain t' where t':
    "qhash_add io_hash k ?p t = Some t'" "io_requests.table_ok (pkey ?s) t'"
    "io_requests.entry_of (pkey ?s) t' = (pending s)(k := Some ?p)"
    "io_requests.entries t' = insert ?p (io_requests.entries t)"
    by auto
  let ?s' = "s\<lparr>io_heap := h', io_brk := ?p + 1, io_table := Some t'\<rparr>"
  have key: "pkey ?s' = pkey ?s" by (simp add: pkey_def fun_eq_iff)
  have "io_requests.table_ok (pkey ?s') t'" using t'(2) by (simp only: key)
  moreover have "\<forall>p \<in> io_requests.entries t'. p < io_brk ?s' \<and>
      (\<exists>v. io_heap ?s' p = Some v \<and> bitmap_ok n (client_bitmap v))"
    using t'(4) live bm by (auto simp: h'_def less_Suc_eq)
  ultimately have "io_ok n ?s'" by (simp add: io_ok_def)
  moreover have pe: "pending ?s' = (pending s)(k := Some ?p)"
    using t'(3) by (simp only: pending_def [of ?s'] key) simp
  note pek = fun_cong [OF pe]
  moreover have "reported ?s' k' = ((reported s)(k := members bm)) k'" for k'
  proof (cases "k' = k")
    case True
    with pek show ?thesis by (simp add: reported_def h'_def)
  next
    case False
    have "p < ?p" if "pending s k' = Some p" for p using pendingD [OF ok that] by blast
    with False pek show ?thesis by (cases "pending s k'") (auto simp: reported_def h'_def)
  qed
  ultimately show ?thesis using t'(1) by (simp add: Let_def fun_eq_iff)
qed


section \<open>A client reports\<close>

text \<open>Client \<open>c\<close> is number \<open>k\<close> of the \<open>n\<close> clients of the server.\<close>

definition client_of :: "map_state \<Rightarrow> int \<Rightarrow> nat \<Rightarrow> int \<Rightarrow> nat \<Rightarrow> bool" where
  "client_of m server n c k \<longleftrightarrow>
     cfio_map_get_client_num_of_server m server = Some (int n) \<and> k < n \<and> c < client_amount m \<and>
     cfio_map_get_client_index_of_server m c = Some (int k)"

lemma recv_client_io_spec:
  assumes ok: "io_ok n s" and c: "client_of m (server_id s) n c k"
  shows "\<exists>p s'. recv_client_io m c key s = Some (p, s') \<and> io_ok n s' \<and> server_id s' = server_id s \<and>
    pending s' key = Some p \<and> (\<forall>key'. key' \<noteq> key \<longrightarrow> pending s' key' = pending s key') \<and>
    reported s' = (reported s)(key := insert k (reported s key))"
proof -
  have num: "cfio_map_get_client_num_of_server m (server_id s) = Some (int n)"
    and k: "k < n" "c < client_amount m" "cfio_map_get_client_index_of_server m c = Some (int k)"
    using c by (simp_all add: client_of_def)
  from ok obtain t where t: "io_table s = Some t" by (auto simp: io_ok_def)
  note search = io_search [OF ok t, of key]
  have finish: ?thesis
    if s1: "io_ok n s1" "server_id s1 = server_id s" "pending s1 key = Some p"
      "\<forall>key'. key' \<noteq> key \<longrightarrow> pending s1 key' = pending s key'" "reported s1 = reported s"
      and step: "recv_client_io m c key s =
        do { v \<leftarrow> io_heap s1 p; bitmap \<leftarrow> add_bitmap m (client_bitmap v) c;
             Some (p, s1\<lparr>io_heap := (io_heap s1)(p := Some (v\<lparr>client_bitmap := bitmap\<rparr>))\<rparr>) }"
    for s1 p
  proof -
    from pendingD [OF s1(1,3)] obtain v where v: "io_heap s1 p = Some v" "bitmap_ok n (client_bitmap v)"
      "reported s1 key = members (client_bitmap v)" by metis
    from add_bitmap_member [OF v(2) k] obtain bm where bm: "add_bitmap m (client_bitmap v) c = Some bm"
      "bitmap_ok n bm" "members bm = insert k (members (client_bitmap v))" by blast
    note io_set_bitmap [OF s1(1,3) v(1) bm(2)]
    with s1 v bm step show ?thesis by auto
  qed
  show ?thesis
  proof (cases "pending s key")
    case (Some p)
    with ok t search show ?thesis
      by (intro finish [of s p]) (simp_all add: recv_client_io_def num)
  next
    case None
    let ?bm = "replicate (nat (int n div 2 ^ 3 + 1)) (0 :: 8 word)"
    have "nat (int n div 2 ^ 3 + 1) = n div 8 + 1" by (simp add: zdiv_int [symmetric] nat_add_distrib)
    then have bm: "bitmap_ok n ?bm"
      by (simp only: bitmap_ok_def length_replicate members_zero empty_subsetI simp_thms)
    let ?st = "\<lambda>t'. s\<lparr>io_heap := (io_heap s)(io_brk s := Some \<lparr>io_key = key, client_bitmap = ?bm\<rparr>),
          io_brk := io_brk s + 1, io_table := Some t'\<rparr>"
    from io_add [OF ok t None bm] obtain t' where t': "qhash_add io_hash key (io_brk s) t = Some t'"
      and s1: "io_ok n (?st t')"
        "pending (?st t') = (pending s)(key := Some (io_brk s))"
        "reported (?st t') = (reported s)(key := members ?bm)"
      by (auto simp: Let_def)
    let ?s1 = "?st t'"
    have "reported s key = {}" using None by (simp add: reported_def)
    then have "reported ?s1 = reported s" using s1(3) by (simp only: members_zero) (metis fun_upd_triv)
    with s1 t t' search None show ?thesis
      by (intro finish [of ?s1 "io_brk s"]) (simp_all add: recv_client_io_def num Let_def)
  qed
qed

lemma io_full_spec:
  assumes ok: "io_ok n s" and p: "pending s key = Some p"
    and num: "cfio_map_get_client_num_of_server m (server_id s) = Some (int n)"
  shows "io_full m p s = Some (reported s key = {..<n})"
  by (rule pendingD [OF ok p]) (use num in \<open>simp add: io_full_def full_iff\<close>)

lemma remove_client_io_spec:
  assumes ok: "io_ok n s" and p: "pending s key = Some p"
  shows "\<exists>s'. remove_client_io p s = Some s' \<and> io_ok n s' \<and> server_id s' = server_id s \<and>
    pending s' = (pending s)(key := None) \<and> reported s' = (reported s)(key := {})"
proof -
  from ok obtain t where t: "io_table s = Some t" and tok: "io_requests.table_ok (pkey s) t"
    and live: "\<And>p. p \<in> io_requests.entries t \<Longrightarrow> p < io_brk s \<and> (\<exists>v. io_heap s p = Some v \<and> bitmap_ok n (client_bitmap v))"
    by (auto simp: io_ok_def)
  from pendingD [OF ok p] obtain v where v: "io_heap s p = Some v" by blast
  have en: "io_requests.entry_of (pkey s) t key = Some p" using p t by (simp add: pending_def)
  note del = io_requests.del_entry [OF tok en]
  let ?s = "io_free p (s\<lparr>io_table := Some (qhash_del p t)\<rparr>)"
  have same: "pkey s q = pkey ?s q" if "q \<in> io_requests.entries (qhash_del p t)" for q
    using that del(3) by (auto simp: pkey_def io_free_def)
  have tok': "io_requests.table_ok (pkey ?s) (qhash_del p t)"
    by (rule io_requests.table_ok_cong [OF same del(1)])
  have "io_ok n ?s" using tok' live del(3) by (auto simp: io_ok_def) (auto simp: io_free_def)
  moreover have pe: "pending ?s = (pending s)(key := None)"
  proof
    fix k'
    have "io_requests.entry_of (pkey ?s) (qhash_del p t) k' = Some q \<longleftrightarrow>
        io_requests.entry_of (pkey s) (qhash_del p t) k' = Some q" for q
      using io_requests.entry_of_Some [OF tok'] io_requests.entry_of_Some [OF del(1)] same by auto
    then have "io_requests.entry_of (pkey ?s) (qhash_del p t) k' = io_requests.entry_of (pkey s) (qhash_del p t) k'"
      by (metis option.exhaust)
    then show "pending ?s k' = ((pending s)(key := None)) k'"
      using fun_cong [OF del(2), of k'] t by (simp add: pending_def io_free_def split: if_splits)
  qed
  moreover have "reported ?s k' = ((reported s)(key := {})) k'" for k'
  proof (cases "k' = key")
    case False
    have "q \<noteq> p" if "pending s k' = Some q" for q
      using pendingD [OF ok that] pendingD [OF ok p] False by (metis option.inject)
    with False show ?thesis by (cases "pending s k'") (simp_all add: reported_def pe, simp add: io_free_def)
  qed (simp add: reported_def pe)
  ultimately show ?thesis using t v by (auto simp: remove_client_io_def io_free_def)
qed

lemma io_init_ok:
  "io_ok n (snd (cfio_io_init r s))" "pending (snd (cfio_io_init r s)) = Map.empty"
  "reported (snd (cfio_io_init r s)) = (\<lambda>_. {})" "server_id (snd (cfio_io_init r s)) = r"
proof -
  let ?s = "snd (cfio_io_init r s)"
  have t: "io_table ?s = Some (qhash_init 32)" by (simp add: cfio_io_init_def IO_HASH_TABLE_SIZE_def)
  show "io_ok n ?s" by (simp add: io_ok_def t io_requests.table_ok_init io_requests.entries_init)
  show pe: "pending ?s = Map.empty" by (simp add: pending_def t io_requests.entry_of_init)
  show "reported ?s = (\<lambda>_. {})" by (simp add: reported_def pe fun_eq_iff)
  show "server_id ?s = r" by (simp add: cfio_io_init_def)
qed


text \<open>C23. Pending requests form a barrier over the clients of the server: when client number \<open>k\<close>
  reports a request, the set of clients that have reported it grows by exactly \<open>k\<close>, every other
  request keeps its set, the bitmap is judged full exactly when all \<open>n\<close> clients have reported,
  and removing the request empties its set, so that it can be collected again.\<close>

theorem request_barrier:
  assumes "io_ok n s" "client_of m (server_id s) n c k"
  shows "\<exists>p s'. recv_client_io m c key s = Some (p, s') \<and> io_ok n s' \<and>
    reported s' = (reported s)(key := insert k (reported s key)) \<and>
    io_full m p s' = Some (insert k (reported s key) = {..<n}) \<and>
    (\<exists>s''. remove_client_io p s' = Some s'' \<and> io_ok n s'' \<and> reported s'' = (reported s)(key := {}))"
proof -
  from recv_client_io_spec [OF assms] obtain p s' where s': "recv_client_io m c key s = Some (p, s')"
    "io_ok n s'" "server_id s' = server_id s" "pending s' key = Some p"
    "reported s' = (reported s)(key := insert k (reported s key))" by blast
  moreover have "io_full m p s' = Some (insert k (reported s key) = {..<n})"
    using io_full_spec [OF s'(2,4)] assms(2) s'(3,5) by (simp add: client_of_def)
  moreover from remove_client_io_spec [OF s'(2,4)] obtain s'' where
    "remove_client_io p s' = Some s''" "io_ok n s''" "reported s'' = (reported s')(key := {})" by blast
  ultimately show ?thesis by (intro exI conjI) simp_all
qed

definition io_state_0 :: io_state where
  "io_state_0 = \<lparr>io_table = None, io_heap = Map.empty, io_brk = 0, server_id = 0\<rparr>"

lemma client_of_4_6: "client_of map_4_6 24 4 5 3"
proof -
  have "client_at map_4_6 0 3 = 5" "px map_4_6 = 2" "py map_4_6 = 2"
    by (simp_all add: client_at_def px_def py_def map_4_6_def)
  then have "cfio_map_get_client_index_of_server map_4_6 5 = Some 3"
    using client_at_server(2) [OF map_4_6_inv, of 0 3] by (simp add: map_4_6_def)
  moreover have "cfio_map_get_client_num_of_server map_4_6 24 = Some 4"
    by (simp add: cfio_map_get_client_num_of_server_def cfio_map_proc_type_def cdiv_def map_4_6_def)
  ultimately show ?thesis by (simp add: client_of_def map_4_6_def)
qed

theorem request_barrier_witness:
  "\<exists>s. reported s (2, 1, 0, 0) = {} \<and> (\<exists>p s'. recv_client_io map_4_6 5 (2, 1, 0, 0) s = Some (p, s') \<and>
     reported s' (2, 1, 0, 0) = {3} \<and> io_full map_4_6 p s' = Some False)"
proof -
  let ?s = "snd (cfio_io_init 24 io_state_0)"
  have "client_of map_4_6 (server_id ?s) 4 5 3" using client_of_4_6 by (simp add: io_init_ok)
  from request_barrier [OF io_init_ok(1) this, of "(2, 1, 0, 0)", unfolded io_init_ok(3)]
  obtain p s' where b: "recv_client_io map_4_6 5 (2, 1, 0, 0) ?s = Some (p, s')"
    "reported s' = (\<lambda>_. {}) ((2, 1, 0, 0) := {3})"
    "io_full map_4_6 p s' = Some ({3} = {..<4 :: nat})"
    by (elim exE conjE) (rule that)
  have "0 \<in> {..<4 :: nat}" "0 \<notin> {3 :: nat}" by simp_all
  then have "({3} = {..<4 :: nat}) = False" by blast
  with b(3) have "io_full map_4_6 p s' = Some False" by simp
  moreover have "reported s' (2, 1, 0, 0) = {3}" unfolding b(2) by simp
  moreover have "reported ?s (2, 1, 0, 0) = {}" unfolding io_init_ok(3) by simp
  ultimately show ?thesis using b(1) by blast
qed

end
