(* ===== verification/IoData.thy ===== *)
theory IoData
  imports Ident
begin

text \<open>
  Assembling the pieces of a variable (\<open>io.c\<close>): each client sends a block of an array, and the
  server copies the blocks into one array that covers them all. \<open>size_t\<close> values are \<open>nat\<close>s
  below \<open>2 ^ 64\<close>, with the wrap written out in the products and differences; a pointer into an
  array is the \<open>int\<close> distance from its start, and using one outside of the array is \<open>None\<close>.
\<close>

section \<open>Copying a block\<close>

text \<open>The conversions of C between \<open>size_t\<close> and \<open>int\<close>.\<close>

definition c_int :: "nat \<Rightarrow> int" where
  "c_int n = sint (word_of_nat n :: i32)"

definition c_size :: "int \<Rightarrow> nat" where
  "c_size i = nat (i mod 2 ^ 64)"

text \<open>
  \<open>_inc_src_index\<close> steps a multi-index through the source block, last dimension fastest, and
  moves the destination pointer along. The carry runs towards dimension 0; past it the code
  would use \<open>src_index[-1]\<close>. An index is at most its count, so it does not wrap.
\<close>

fun inc_carry ::
    "nat list \<Rightarrow> nat list \<Rightarrow> nat \<Rightarrow> nat \<Rightarrow> int \<Rightarrow> nat list \<Rightarrow> (int \<times> nat list) option" where
  "inc_carry dst_dims_len src_dims_len d0 sub_size dst_addr src_index =
     (if src_index ! d0 \<ge> src_dims_len ! d0
      then (case d0 of
              0 \<Rightarrow> None
            | Suc d \<Rightarrow>
                (let dst_addr = dst_addr - int ((src_dims_len ! d0 + (2 ^ 64 - 1)) * sub_size mod 2 ^ 64);
                     src_index = src_index[d0 := 0];
                     sub_size = sub_size * dst_dims_len ! d0 mod 2 ^ 64;
                     src_index = src_index[d := src_index ! d + 1]
                 in inc_carry dst_dims_len src_dims_len d sub_size dst_addr src_index))
      else Some (dst_addr + int sub_size, src_index))"

declare inc_carry.simps [simp del]

definition inc_src_index ::
    "nat \<Rightarrow> nat \<Rightarrow> nat list \<Rightarrow> int \<Rightarrow> nat list \<Rightarrow> nat list \<Rightarrow> (int \<times> nat list) option" where
  "inc_src_index n ele_size dst_dims_len dst_addr src_dims_len src_index =
     (case n of
        0 \<Rightarrow> None
      | Suc d0 \<Rightarrow>
          inc_carry dst_dims_len src_dims_len d0 ele_size dst_addr (src_index[d0 := src_index ! d0 + 1]))"

definition write_at :: "byte list \<Rightarrow> int \<Rightarrow> byte list \<Rightarrow> byte list option" where
  "write_at d addr e = (if addr < 0 then None else mem_write d (nat addr) e)"

text \<open>The copying loop: \<open>k\<close> more elements, each followed by a step of the index.\<close>

primrec copy_elems ::
    "nat \<Rightarrow> nat \<Rightarrow> nat \<Rightarrow> nat list \<Rightarrow> nat list \<Rightarrow> byte list \<Rightarrow> byte list \<Rightarrow> int \<Rightarrow> nat list \<Rightarrow> nat \<Rightarrow>
     (byte list \<times> int \<times> nat) option" where
  "copy_elems 0 n ele_size dst_count src_count src dst dst_addr src_index src_pos =
     Some (dst, dst_addr, src_pos)"
| "copy_elems (Suc k) n ele_size dst_count src_count src dst dst_addr src_index src_pos =
     do {
       e \<leftarrow> mem_read src src_pos ele_size;
       dst \<leftarrow> write_at dst dst_addr e;
       (dst_addr, src_index) \<leftarrow> inc_src_index n ele_size dst_count dst_addr src_count src_index;
       copy_elems k n ele_size dst_count src_count src dst dst_addr src_index (src_pos + ele_size)
     }"

definition size_prod :: "nat list \<Rightarrow> nat" where
  "size_prod xs = foldl (\<lambda>p x. p * x mod 2 ^ 64) 1 xs"

text \<open>\<open>dst_offset\<close> and \<open>sub_size\<close> after the loop from the last dimension down to the first.\<close>

fun dst_offset :: "nat list \<Rightarrow> nat list \<Rightarrow> nat list \<Rightarrow> nat \<times> nat" where
  "dst_offset (ss # sss) (ds # dss) (dc # dcs) =
     (let (off, sub) = dst_offset sss dss dcs
      in ((off + (ss + (2 ^ 64 - ds)) * sub) mod 2 ^ 64, sub * dc mod 2 ^ 64))"
| "dst_offset _ _ _ = (0, 1)"

definition put_var ::
    "nat \<Rightarrow> nat \<Rightarrow> nat list \<Rightarrow> nat list \<Rightarrow> byte list \<Rightarrow> nat list \<Rightarrow> nat list \<Rightarrow> byte list option \<Rightarrow>
     byte list option" where
  "put_var n ele_size dst_start dst_count dst src_start src_count src_data =
     (if n \<le> length dst_start \<and> n \<le> length dst_count \<and> n \<le> length src_start \<and> n \<le> length src_count
      then do {
        let src_len = size_prod (take n src_count);
        let (off, sub) = dst_offset (take n src_start) (take n dst_start) (take n dst_count);
        let dst_addr = int (ele_size * off mod 2 ^ 64);
        if src_len = 0 then Some dst
        else do {
          src \<leftarrow> src_data;
          (dst, dst_addr, src_pos) \<leftarrow>
            copy_elems (nat (c_int src_len - 1)) n ele_size dst_count src_count src dst dst_addr
              (replicate n 0) 0;
          e \<leftarrow> mem_read src src_pos ele_size;
          write_at dst dst_addr e
        }
      }
      else None)"

section \<open>Merging the blocks\<close>

fun update_start_and_count ::
    "nat list \<Rightarrow> nat list \<Rightarrow> nat list \<Rightarrow> nat list \<Rightarrow> (nat \<times> nat) list" where
  "update_start_and_count (cs # css) (cc # ccs) (ns # nss) (n1 # ncs) =
     (let min_start = c_int (if cs < ns then cs else ns);
          cur_end = (cs + cc) mod 2 ^ 64;
          new_end = (ns + n1) mod 2 ^ 64;
          max_end = c_int (if cur_end > new_end then cur_end else new_end)
      in (c_size min_start, c_size (max_end - min_start)) # update_start_and_count css ccs nss ncs)"
| "update_start_and_count _ _ _ _ = []"

text \<open>A block that a client has sent, as the arrays the loops read.\<close>

definition block_of :: "nat \<Rightarrow> id_data \<Rightarrow> (nat list \<times> nat list) option" where
  "block_of n d =
     (if n = 0 then Some ([], [])
      else do {
        st \<leftarrow> dstart d;
        ct \<leftarrow> dcount d;
        if n \<le> length st \<and> n \<le> length ct then Some (map unat (take n st), map unat (take n ct)) else None
      })"

fun bounding_box :: "nat list \<Rightarrow> nat list \<Rightarrow> (nat list \<times> nat list) list \<Rightarrow> nat list \<times> nat list" where
  "bounding_box st ct [] = (st, ct)"
| "bounding_box st ct ((s, c) # bs) =
     (let sc = update_start_and_count st ct s c in bounding_box (map fst sc) (map snd sc) bs)"

fun put_blocks ::
    "nat \<Rightarrow> nat \<Rightarrow> nat list \<Rightarrow> nat list \<Rightarrow> byte list \<Rightarrow> ((nat list \<times> nat list) \<times> byte list option) list \<Rightarrow>
     byte list option" where
  "put_blocks n ele_size st ct data [] = Some data"
| "put_blocks n ele_size st ct data (((s, c), src) # bs) =
     do {
       data \<leftarrow> put_var n ele_size st ct data s c src;
       put_blocks n ele_size st ct data bs
     }"

text \<open>
  \<open>junk\<close> is the content of the fresh allocation. The pieces are freed when they have been
  copied.
\<close>

definition merge_var_data ::
    "(nat \<Rightarrow> byte) \<Rightarrow> id_var \<Rightarrow> (nat list \<times> nat list \<times> byte list \<times> id_var) option" where
  "merge_var_data junk v =
     do {
       ds \<leftarrow> recv_data v;
       let n = nat (sint (ndims v));
       let m = nat (var_client_num v);
       if 0 < m \<and> m \<le> length ds then do {
         blocks \<leftarrow> those (map (block_of n) (take m ds));
         let (st, ct) = bounding_box (fst (hd blocks)) (snd (hd blocks)) (tl blocks);
         let data_size = size_prod ct;
         ele_size \<leftarrow> cfio_types_size (data_type v);
         let data = map junk [0 ..< ele_size * data_size mod 2 ^ 64];
         data \<leftarrow> put_blocks n ele_size st ct data (zip blocks (map dbuf (take m ds)));
         Some (st, ct, data,
           v\<lparr>recv_data := Some (replicate m zero_data @ drop m ds)\<rparr>)
       }
       else None
     }"

section \<open>Row-major positions\<close>

fun lin :: "nat list \<Rightarrow> nat list \<Rightarrow> nat" where
  "lin (c # cs) (x # xs) = x * prod_list cs + lin cs xs"
| "lin _ _ = 0"

definition inside :: "nat list \<Rightarrow> nat list \<Rightarrow> bool" where
  "inside xs cs \<longleftrightarrow> list_all2 (<) xs cs"

lemma inside_Cons [simp]: "inside (x # xs) (c # cs) \<longleftrightarrow> x < c \<and> inside xs cs"
  by (simp add: inside_def)

lemma inside_Nil [simp]: "inside [] cs \<longleftrightarrow> cs = []" "inside xs [] \<longleftrightarrow> xs = []"
  by (auto simp: inside_def)

lemma inside_length: "inside xs cs \<Longrightarrow> length xs = length cs"
  by (simp add: inside_def list_all2_lengthD)

lemma inside_nth: "inside xs cs \<longleftrightarrow> length xs = length cs \<and> (\<forall>i < length cs. xs ! i < cs ! i)"
  by (auto simp: inside_def list_all2_conv_all_nth)

lemma lin_less: "inside xs cs \<Longrightarrow> lin cs xs < prod_list cs"
proof (induction cs xs rule: lin.induct)
  case (1 c cs x xs)
  then have "x < c" and lt: "lin cs xs < prod_list cs" by auto
  then have "(x + 1) * prod_list cs \<le> c * prod_list cs" by (intro mult_le_mono1) simp
  with lt show ?case by simp
qed auto

lemma lin_inj: "inside xs cs \<Longrightarrow> inside ys cs \<Longrightarrow> lin cs xs = lin cs ys \<Longrightarrow> xs = ys"
proof (induction cs arbitrary: xs ys)
  case (Cons c cs)
  then obtain x xs' y ys' where xy: "xs = x # xs'" "ys = y # ys'" "inside xs' cs" "inside ys' cs"
    by (auto simp: inside_def list_all2_Cons2)
  with Cons.prems(3) have eq: "x * prod_list cs + lin cs xs' = y * prod_list cs + lin cs ys'" by simp
  have "0 < prod_list cs" using lin_less [OF xy(3)] by simp
  then have "(x * prod_list cs + lin cs xs') div prod_list cs = x"
    "(y * prod_list cs + lin cs ys') div prod_list cs = y"
    using lin_less [OF xy(3)] lin_less [OF xy(4)] by simp_all
  with eq have "x = y" by simp
  with eq Cons.IH [OF xy(3,4)] xy show ?case by simp
qed simp

lemma lin_add:
  "length a = length cs \<Longrightarrow> length b = length cs \<Longrightarrow>
     lin cs (map2 (+) a b) = lin cs a + lin cs b"
proof (induction cs arbitrary: a b)
  case (Cons c cs)
  then obtain x a' y b' where "a = x # a'" "b = y # b'" by (metis length_Suc_conv)
  with Cons show ?case by (simp add: algebra_simps)
qed simp

lemma lin_zero: "lin cs (replicate (length cs) 0) = 0"
  by (induction cs) auto

lemma inside_zero: "0 < prod_list cs \<Longrightarrow> inside (replicate (length cs) 0) cs"
  by (induction cs) auto

lemma lin_update:
  "length xs = length cs \<Longrightarrow> d < length cs \<Longrightarrow>
     int (lin cs (xs[d := v])) = int (lin cs xs) + (int v - int (xs ! d)) * int (prod_list (drop (Suc d) cs))"
proof (induction cs arbitrary: xs d)
  case (Cons c cs)
  then obtain x xs' where "xs = x # xs'" by (metis length_Suc_conv)
  with Cons show ?case by (cases d) (simp_all add: algebra_simps)
qed simp

lemma prod_list_drop:
  "d < length cs \<Longrightarrow> prod_list (drop d cs) = cs ! d * prod_list (drop (Suc d) cs)"
  by (simp add: Cons_nth_drop_Suc [symmetric])

lemma lin_first_full:
  "length xs = length cs \<Longrightarrow> cs \<noteq> [] \<Longrightarrow> cs ! 0 \<le> xs ! 0 \<Longrightarrow> prod_list cs \<le> lin cs xs"
  by (cases cs; cases xs) (auto intro: order_trans [OF mult_le_mono1])


section \<open>The step of the index\<close>

text \<open>A block of shape \<open>src\<close> fits an array of shape \<open>dst\<close> that \<open>size_t\<close> can address.\<close>

definition fits :: "nat \<Rightarrow> nat list \<Rightarrow> nat list \<Rightarrow> bool" where
  "fits ele src dst \<longleftrightarrow> list_all2 (\<lambda>s d. 0 < s \<and> s \<le> d) src dst \<and> ele * prod_list dst < 2 ^ 64"

lemma fits_length: "fits ele src dst \<Longrightarrow> length src = length dst"
  by (auto simp: fits_def dest: list_all2_lengthD)

lemma fits_nth:
  "fits ele src dst \<Longrightarrow> k < length dst \<Longrightarrow> 0 < src ! k"
  "fits ele src dst \<Longrightarrow> k < length dst \<Longrightarrow> src ! k \<le> dst ! k"
  by (auto simp: fits_def list_all2_conv_all_nth)

lemma prod_drop_le:
  assumes "\<forall>k < length cs. 0 < cs ! k"
  shows "prod_list (drop d cs) \<le> prod_list (cs :: nat list)"
proof -
  have "0 < prod_list (take d cs)"
    using assms by (metis in_set_conv_nth in_set_takeD not_gr_zero prod_list_zero_iff)
  moreover have "prod_list cs = prod_list (take d cs) * prod_list (drop d cs)"
    by (metis append_take_drop_id prod_list.append)
  ultimately show ?thesis by simp
qed

lemma fits_drop_less:
  assumes "fits ele src dst"
  shows "ele * prod_list (drop d dst) < 2 ^ 64"
proof -
  have "\<forall>k < length dst. 0 < dst ! k" using fits_nth [OF assms] by (metis less_le_trans)
  then have "ele * prod_list (drop d dst) \<le> ele * prod_list dst" by (intro mult_le_mono2 prod_drop_le)
  then show ?thesis using assms unfolding fits_def by linarith
qed

text \<open>Going back over a full line does not wrap.\<close>

lemma back_step:
  assumes "fits ele src dst" "d < length dst"
  shows "(src ! d + (2 ^ 64 - 1)) * (ele * prod_list (drop (Suc d) dst)) mod 2 ^ 64 =
         (src ! d - 1) * (ele * prod_list (drop (Suc d) dst))" (is "?l * ?s mod _ = _")
proof -
  have "0 < src ! d" "src ! d \<le> dst ! d" using assms by (simp_all add: fits_nth)
  then have split: "src ! d + (2 ^ 64 - 1) = (src ! d - 1) + 2 ^ 64" by simp
  have "(src ! d - 1) * ?s \<le> dst ! d * ?s" using \<open>src ! d \<le> dst ! d\<close> by (intro mult_le_mono1) simp
  also have "\<dots> = ele * prod_list (drop d dst)" using assms(2) by (simp add: prod_list_drop)
  also have "\<dots> < 2 ^ 64" by (rule fits_drop_less [OF assms(1)])
  finally have "(src ! d - 1) * ?s mod 2 ^ 64 = (src ! d - 1) * ?s" by (rule mod_less)
  then show ?thesis unfolding split add_mult_distrib by (metis mod_mult_self1 mult.commute)
qed

lemma inside_but:
  "length idx = length src \<Longrightarrow> \<forall>k < length src. k \<noteq> d \<longrightarrow> idx ! k < src ! k \<Longrightarrow>
     idx ! d < src ! d \<Longrightarrow> inside idx src"
  by (simp add: inside_nth) metis

lemma inc_carry_spec:
  assumes "fits ele src dst" "length idx = length dst" "d < length dst"
    and "\<forall>k < length dst. k \<noteq> d \<longrightarrow> idx ! k < src ! k" "idx ! d \<le> src ! d"
    and "lin src idx < prod_list src" "s1 = ele * prod_list (drop (Suc d) dst)"
  shows "\<exists>idx'. inside idx' src \<and> lin src idx' = lin src idx \<and>
           inc_carry dst src d s1 a idx =
             Some (a + int s1 + int ele * (int (lin dst idx') - int (lin dst idx)), idx')"
  using assms(2-7)
proof (induction d arbitrary: idx a s1)
  case 0
  have "\<not> src ! 0 \<le> idx ! 0"
    using lin_first_full [of idx src] 0 fits_length [OF assms(1)] by (metis leD length_greater_0_conv)
  then have "inside idx src"
    using 0(1,3) fits_length [OF assms(1)] by (intro inside_but [of _ _ 0]) auto
  then show ?case using \<open>\<not> src ! 0 \<le> idx ! 0\<close> by (intro exI [of _ idx]) (simp add: inc_carry.simps)
next
  case (Suc d)
  note len = fits_length [OF assms(1)]
  show ?case
  proof (cases "src ! Suc d \<le> idx ! Suc d")
    case False
    then have "inside idx src" using Suc.prems(1,3) len by (intro inside_but [of _ _ "Suc d"]) auto
    with False show ?thesis by (intro exI [of _ idx]) (simp add: inc_carry.simps)
  next
    case True
    with Suc.prems have at: "idx ! Suc d = src ! Suc d" by simp
    define idx2 where "idx2 = idx[Suc d := 0, d := idx ! d + 1]"
    define s2 where "s2 = s1 * dst ! Suc d"
    have s2: "s2 = ele * prod_list (drop (Suc d) dst)"
      using Suc.prems(2) by (simp add: s2_def Suc.prems(6) prod_list_drop [of "Suc d"])
    have s2m: "s1 * dst ! Suc d mod 2 ^ 64 = s2"
      using fits_drop_less [OF assms(1), of "Suc d"] by (simp add: s2_def [symmetric] s2)
    have pos: "0 < src ! Suc d" using assms(1) Suc.prems(2) by (simp add: fits_nth)
    have idxd: "idx ! d < src ! d" using Suc.prems(2,3) by simp
    have linstep: "int (lin cs idx2) = int (lin cs idx) + int (prod_list (drop (Suc d) cs))
        - int (src ! Suc d) * int (prod_list (drop (Suc (Suc d)) cs))" if "length cs = length dst" for cs
      using Suc.prems(1,2) that at by (simp add: idx2_def lin_update algebra_simps)
    have linsrc: "lin src idx2 = lin src idx"
      using linstep [of src] len Suc.prems(2) by (simp add: prod_list_drop [of "Suc d" src])
    have le2: "idx2 ! d \<le> src ! d" using Suc.prems(1,2) idxd by (simp add: idx2_def)
    have ih: "\<exists>idx'. inside idx' src \<and> lin src idx' = lin src idx2 \<and>
       inc_carry dst src d s2 (a - int ((src ! Suc d - 1) * s1)) idx2 =
         Some (a - int ((src ! Suc d - 1) * s1) + int s2 + int ele * (int (lin dst idx') - int (lin dst idx2)), idx')"
    proof (rule Suc.IH)
      show "\<forall>k < length dst. k \<noteq> d \<longrightarrow> idx2 ! k < src ! k"
        using Suc.prems(1,2,3) pos by (auto simp: idx2_def nth_list_update)
    qed (use Suc.prems le2 linsrc s2 in \<open>simp_all add: idx2_def\<close>)
    have addr: "a - int ((src ! Suc d - 1) * s1) + int s2 + int ele * (x - int (lin dst idx2)) =
        a + int s1 + int ele * (x - int (lin dst idx))" for x
      using pos by (simp add: linstep s2 Suc.prems(6) of_nat_diff Suc_le_eq algebra_simps)
    have "inc_carry dst src (Suc d) s1 a idx =
        inc_carry dst src d s2 (a - int ((src ! Suc d - 1) * s1)) idx2"
      using True back_step [OF assms(1) Suc.prems(2)] Suc.prems(6) s2m
      by (subst inc_carry.simps) (simp add: Let_def idx2_def)
    with ih linsrc addr show ?thesis by auto
  qed
qed


lemma inc_src_index_spec:
  assumes "fits ele src dst" "inside idx src" "Suc (lin src idx) < prod_list src"
  shows "\<exists>idx'. inside idx' src \<and> lin src idx' = Suc (lin src idx) \<and>
           inc_src_index (length dst) ele dst a src idx =
             Some (a + int ele * (int (lin dst idx') - int (lin dst idx)), idx')"
proof (cases "length dst")
  case 0
  then have "src = []" using fits_length [OF assms(1)] by simp
  then show ?thesis using assms(3) by simp
next
  case (Suc d)
  let ?idx = "idx[d := idx ! d + 1]"
  have len: "length idx = Suc d" "length src = Suc d"
    using Suc fits_length [OF assms(1)] inside_length [OF assms(2)] by simp_all
  have step: "lin cs ?idx = Suc (lin cs idx)" if "length cs = Suc d" for cs
  proof -
    have "int (lin cs ?idx) = int (lin cs idx) + 1" using len that by (simp add: lin_update)
    then show ?thesis by linarith
  qed
  have lt: "\<forall>k < Suc d. idx ! k < src ! k" using assms(2) len by (simp add: inside_nth)
  have "\<exists>idx'. inside idx' src \<and> lin src idx' = lin src ?idx \<and>
      inc_carry dst src d ele a ?idx =
        Some (a + int ele + int ele * (int (lin dst idx') - int (lin dst ?idx)), idx')"
  proof (rule inc_carry_spec [OF assms(1)])
    show "\<forall>k < length dst. k \<noteq> d \<longrightarrow> ?idx ! k < src ! k" using lt Suc by simp
    show "?idx ! d \<le> src ! d" using lt len by (simp add: Suc_leI)
    show "lin src ?idx < prod_list src" using assms(3) step len by simp
  qed (use Suc len in simp_all)
  then show ?thesis using Suc len step by (auto simp: inc_src_index_def algebra_simps)
qed

section \<open>Elements of an array\<close>

text \<open>
  An array is the triple of its start, its count and its data; it covers the positions of a box,
  and \<open>at ele st ct data g\<close> is the element at the position \<open>g\<close> of the variable.
\<close>

definition elem :: "nat \<Rightarrow> byte list \<Rightarrow> nat \<Rightarrow> byte list" where
  "elem ele d p = slice d (ele * p) ele"

definition covers :: "nat list \<Rightarrow> nat list \<Rightarrow> nat list \<Rightarrow> bool" where
  "covers st ct g \<longleftrightarrow> list_all2 (\<le>) st g \<and> inside (map2 (-) g st) ct"

definition at :: "nat \<Rightarrow> nat list \<Rightarrow> nat list \<Rightarrow> byte list \<Rightarrow> nat list \<Rightarrow> byte list" where
  "at ele st ct data g = elem ele data (lin ct (map2 (-) g st))"

lemma elem_bound: "p < n \<Longrightarrow> ele * p + ele \<le> ele * (n :: nat)"
  by (metis Suc_leI mult_Suc_right mult_le_mono2 add.commute)

lemma read_elem: "p < n \<Longrightarrow> ele * n \<le> length d \<Longrightarrow> mem_read d (ele * p) ele = Some (elem ele d p)"
  using elem_bound [of p n ele] by (simp add: mem_read_def elem_def)

lemma length_elem: "p < n \<Longrightarrow> ele * n \<le> length d \<Longrightarrow> length (elem ele d p) = ele"
  using elem_bound [of p n ele] by (simp add: elem_def)

lemma elem_blit:
  assumes "p < n" "q < n" "length d = ele * n" "length e = ele"
  shows "elem ele (blit d (ele * p) e) q = (if q = p then e else elem ele d q)"
proof -
  have in_d: "ele * p + length e \<le> length d" using elem_bound [OF assms(1), of ele] assms(3,4) by simp
  consider "q = p" | "q < p" | "p < q" by linarith
  then show ?thesis
  proof cases
    case 1
    then show ?thesis using slice_blit_same [OF in_d] assms(4) by (simp add: elem_def)
  next
    case 2
    then show ?thesis using slice_blit_before [OF _ in_d] elem_bound [OF 2, of ele] by (simp add: elem_def)
  next
    case 3
    then show ?thesis using slice_blit_after [OF _ in_d] elem_bound [OF 3, of ele] assms(4)
      by (simp add: elem_def)
  qed
qed

lemma write_elem:
  "p < n \<Longrightarrow> length d = ele * n \<Longrightarrow> length e = ele \<Longrightarrow>
     write_at d (int (ele * p)) e = Some (blit d (ele * p) e)"
  using elem_bound [of p n ele] by (simp add: write_at_def mem_write_def del: of_nat_mult)


section \<open>The copying loop\<close>

text \<open>
  A block of shape \<open>c\<close> placed at \<open>sh\<close> in an array of shape \<open>ct\<close>, and the effect of having copied
  its elements number \<open>lo\<close> to \<open>hi - 1\<close>.
\<close>

definition placed :: "nat \<Rightarrow> nat list \<Rightarrow> nat list \<Rightarrow> nat list \<Rightarrow> bool" where
  "placed ele sh c ct \<longleftrightarrow> fits ele c ct \<and> length sh = length ct \<and>
     (\<forall>k < length ct. sh ! k + c ! k \<le> ct ! k)"

definition place :: "nat list \<Rightarrow> nat list \<Rightarrow> nat list \<Rightarrow> nat" where
  "place sh ct x = lin ct (map2 (+) sh x)"

definition copied ::
    "nat \<Rightarrow> nat list \<Rightarrow> nat list \<Rightarrow> nat list \<Rightarrow> byte list \<Rightarrow> nat \<Rightarrow> nat \<Rightarrow> byte list \<Rightarrow> byte list \<Rightarrow> bool" where
  "copied ele sh c ct src lo hi d d' \<longleftrightarrow>
     length d' = length d \<and>
     (\<forall>x. inside x c \<longrightarrow> elem ele d' (place sh ct x) =
        (if lo \<le> lin c x \<and> lin c x < hi then elem ele src (lin c x) else elem ele d (place sh ct x))) \<and>
     (\<forall>q < prod_list ct. (\<forall>x. inside x c \<longrightarrow> q \<noteq> place sh ct x) \<longrightarrow> elem ele d' q = elem ele d q)"

lemma placed_inside:
  assumes "placed ele sh c ct" "inside x c" shows "inside (map2 (+) sh x) ct"
proof -
  have len: "length sh = length ct" "length c = length ct" "length x = length ct"
    using assms fits_length inside_length by (auto simp: placed_def)
  have "sh ! k + x ! k < ct ! k" if "k < length ct" for k
  proof -
    have "x ! k < c ! k" using assms(2) that len by (simp add: inside_nth)
    moreover have "sh ! k + c ! k \<le> ct ! k" using assms(1) that by (simp add: placed_def)
    ultimately show ?thesis by linarith
  qed
  then show ?thesis using len by (simp add: inside_nth)
qed

lemma place_less: "placed ele sh c ct \<Longrightarrow> inside x c \<Longrightarrow> place sh ct x < prod_list ct"
  by (simp add: place_def lin_less placed_inside)

lemma place_inj:
  assumes "placed ele sh c ct" "inside x c" "inside y c" "place sh ct x = place sh ct y"
  shows "x = y"
proof -
  have "map2 (+) sh x = map2 (+) sh y"
    using assms(4) placed_inside [OF assms(1,2)] placed_inside [OF assms(1,3)] lin_inj
    by (auto simp: place_def)
  moreover have "length sh = length x" "length sh = length y"
    using assms(1-3) fits_length inside_length by (fastforce simp: placed_def)+
  ultimately show ?thesis by (auto simp: list_eq_iff_nth_eq)
qed

lemma place_add: "length sh = length ct \<Longrightarrow> length x = length ct \<Longrightarrow> place sh ct x = lin ct sh + lin ct x"
  by (simp add: place_def lin_add)

lemma copied_refl: "copied ele sh c ct src lo lo d d"
  by (auto simp: copied_def)

lemma copied_trans:
  assumes "copied ele sh c ct src lo mid d d1" "copied ele sh c ct src mid hi d1 d2"
    and "lo \<le> mid" "mid \<le> hi"
  shows "copied ele sh c ct src lo hi d d2"
proof -
  have "elem ele d2 (place sh ct x) =
      (if lo \<le> lin c x \<and> lin c x < hi then elem ele src (lin c x) else elem ele d (place sh ct x))"
    if "inside x c" for x
    using assms that by (auto simp: copied_def)
  then show ?thesis using assms by (auto simp: copied_def)
qed

lemma copied_one:
  assumes "placed ele sh c ct" "inside idx c" "length d = ele * prod_list ct"
    and "ele * prod_list c \<le> length src"
  shows "copied ele sh c ct src (lin c idx) (Suc (lin c idx)) d
           (blit d (ele * place sh ct idx) (elem ele src (lin c idx)))"
proof -
  let ?e = "elem ele src (lin c idx)" and ?p = "place sh ct idx"
  note lt = place_less [OF assms(1)]
  have e: "length ?e = ele" by (rule length_elem [OF lin_less [OF assms(2)] assms(4)])
  have in_d: "ele * ?p + length ?e \<le> length d"
    using elem_bound [OF lt [OF assms(2)], of ele] e assms(3) by simp
  have other: "elem ele (blit d (ele * ?p) ?e) q = (if q = ?p then ?e else elem ele d q)"
    if "q < prod_list ct" for q
    by (rule elem_blit [OF lt [OF assms(2)] that assms(3) e])
  have "place sh ct x = ?p \<longleftrightarrow> lin c idx \<le> lin c x \<and> lin c x < Suc (lin c idx)" if "inside x c" for x
  proof -
    have "place sh ct x = ?p \<longleftrightarrow> x = idx" using place_inj [OF assms(1) that assms(2)] by auto
    also have "\<dots> \<longleftrightarrow> lin c x = lin c idx" using lin_inj [OF that assms(2)] by auto
    finally show ?thesis by auto
  qed
  moreover have "lin c idx \<le> lin c x \<and> lin c x < Suc (lin c idx) \<longleftrightarrow> lin c x = lin c idx" for x by auto
  ultimately show ?thesis using other lt in_d assms(2) unfolding copied_def by auto
qed

lemma copy_elems_spec:
  assumes "placed ele sh c ct" "ele * prod_list c \<le> length src"
    and "length d = ele * prod_list ct" "inside idx c" "lin c idx + k < prod_list c"
  shows "\<exists>d' idx'. inside idx' c \<and> lin c idx' = lin c idx + k \<and>
           copied ele sh c ct src (lin c idx) (lin c idx + k) d d' \<and>
           copy_elems k (length ct) ele ct c src d (int (ele * place sh ct idx)) idx (ele * lin c idx) =
             Some (d', int (ele * place sh ct idx'), ele * (lin c idx + k))"
  using assms(3-5)
proof (induction k arbitrary: d idx)
  case 0
  then show ?case using copied_refl by auto
next
  case (Suc k)
  let ?e = "elem ele src (lin c idx)"
  let ?d = "blit d (ele * place sh ct idx) ?e"
  have fits: "fits ele c ct" and lsh: "length sh = length ct" using assms(1) by (simp_all add: placed_def)
  have lc: "length c = length ct" by (rule fits_length [OF fits])
  have lt: "lin c idx < prod_list c" by (rule lin_less [OF Suc.prems(2)])
  have read: "mem_read src (ele * lin c idx) ele = Some ?e" by (rule read_elem [OF lt assms(2)])
  have "length ?e = ele" by (rule length_elem [OF lt assms(2)])
  then have wr: "write_at d (int (ele * place sh ct idx)) ?e = Some ?d"
    by (rule write_elem [OF place_less [OF assms(1) Suc.prems(2)] Suc.prems(1)])
  have one: "copied ele sh c ct src (lin c idx) (Suc (lin c idx)) d ?d"
    by (rule copied_one [OF assms(1) Suc.prems(2,1) assms(2)])
  then have len: "length ?d = ele * prod_list ct" using Suc.prems(1) by (simp add: copied_def)
  have "Suc (lin c idx) < prod_list c" using Suc.prems(3) by simp
  from inc_src_index_spec [OF fits Suc.prems(2) this, of "int (ele * place sh ct idx)"]
  obtain idx2 where idx2: "inside idx2 c" "lin c idx2 = Suc (lin c idx)"
    and "inc_src_index (length ct) ele ct (int (ele * place sh ct idx)) c idx =
      Some (int (ele * place sh ct idx) + int ele * (int (lin ct idx2) - int (lin ct idx)), idx2)"
    by auto
  moreover have "length idx = length ct" "length idx2 = length ct"
    using inside_length [OF Suc.prems(2)] inside_length [OF idx2(1)] lc by simp_all
  ultimately have inc: "inc_src_index (length ct) ele ct (int (ele * place sh ct idx)) c idx =
      Some (int (ele * place sh ct idx2), idx2)"
    using lsh by (simp add: place_add algebra_simps)
  have "lin c idx2 + k < prod_list c" using Suc.prems(3) idx2(2) by simp
  from Suc.IH [OF len idx2(1) this] obtain d' idx' where d': "inside idx' c"
    "lin c idx' = lin c idx2 + k" "copied ele sh c ct src (lin c idx2) (lin c idx2 + k) ?d d'"
    "copy_elems k (length ct) ele ct c src ?d (int (ele * place sh ct idx2)) idx2 (ele * lin c idx2) =
       Some (d', int (ele * place sh ct idx'), ele * (lin c idx2 + k))"
    by auto
  have "copied ele sh c ct src (lin c idx) (lin c idx + Suc k) d d'"
    using copied_trans [OF one d'(3) [unfolded idx2(2)]] by simp
  moreover have "copy_elems (Suc k) (length ct) ele ct c src d (int (ele * place sh ct idx)) idx (ele * lin c idx) =
      Some (d', int (ele * place sh ct idx'), ele * (lin c idx + Suc k))"
    using d'(4) idx2(2) by (simp add: read wr inc add.commute del: of_nat_mult)
  ultimately show ?case using d'(1,2) idx2(2) by auto
qed


section \<open>Putting a block\<close>

lemma size_prod: "size_prod xs = prod_list xs mod 2 ^ 64" if "xs \<noteq> []"
proof -
  have key: "foldl (\<lambda>p x. p * x mod m) (a mod m) ys = a * prod_list ys mod m" for a m and ys :: "nat list"
    by (induction ys arbitrary: a) (simp_all add: mod_mult_left_eq mult.assoc)
  from that obtain x ys where xs: "xs = x # ys" by (cases xs) auto
  show ?thesis using key [of "2 ^ 64" x ys] by (simp add: xs size_prod_def)
qed

lemma size_prod_less: "prod_list xs < 2 ^ 64 \<Longrightarrow> size_prod xs = prod_list xs"
  by (cases "xs = []") (simp_all add: size_prod, simp add: size_prod_def)

lemma c_int_small: "n < 2 ^ 31 \<Longrightarrow> c_int n = int n"
  by (simp add: c_int_def signed_take_bit_int_eq_self sint_word_of_nat_small)

lemma offset_mod: "(a mod m + (x + m) * (p mod m)) mod m = (x * p + a) mod (m :: nat)"
proof -
  have "(x + m) * (p mod m) mod m = x * p mod m" by (simp add: mod_mult_right_eq add_mult_distrib)
  then show ?thesis by (metis add.commute mod_add_eq mod_mod_trivial)
qed

lemma dst_offset:
  assumes "length ss = length dc" "length ds = length dc" "\<forall>k < length dc. ds ! k \<le> ss ! k \<and> ds ! k < 2 ^ 64"
  shows "fst (dst_offset ss ds dc) = lin dc (map2 (-) ss ds) mod 2 ^ 64 \<and>
         snd (dst_offset ss ds dc) = prod_list dc mod 2 ^ 64"
  using assms
proof (induction ss ds dc rule: dst_offset.induct)
  case (1 s ss d ds c cs)
  have "\<forall>k < length cs. ds ! k \<le> ss ! k \<and> ds ! k < 2 ^ 64" using 1(4) by auto
  then have ih: "fst (dst_offset ss ds cs) = lin cs (map2 (-) ss ds) mod 2 ^ 64"
    "snd (dst_offset ss ds cs) = prod_list cs mod 2 ^ 64"
    using 1 by auto
  have "d \<le> s" "d < 2 ^ 64" using 1(4) by auto
  then have "s + (2 ^ 64 - d) = (s - d) + 2 ^ 64" by simp
  then have "(lin cs (map2 (-) ss ds) mod 2 ^ 64 + (s + (2 ^ 64 - d)) * (prod_list cs mod 2 ^ 64)) mod 2 ^ 64 =
      ((s - d) * prod_list cs + lin cs (map2 (-) ss ds)) mod 2 ^ 64"
    by (simp only: offset_mod)
  then show ?case using ih by (simp add: Let_def case_prod_unfold mod_mult_left_eq mod_mult_right_eq mult.commute)
qed auto

text \<open>The box \<open>(s, c)\<close> is part of the box \<open>(st, ct)\<close>.\<close>

definition within :: "nat list \<Rightarrow> nat list \<Rightarrow> nat list \<Rightarrow> nat list \<Rightarrow> bool" where
  "within s c st ct \<longleftrightarrow> length s = length ct \<and> length c = length ct \<and> length st = length ct \<and>
     (\<forall>k < length ct. st ! k \<le> s ! k \<and> s ! k + c ! k \<le> st ! k + ct ! k)"

lemma within_placed:
  assumes "within s c st ct" "0 < prod_list c" "ele * prod_list ct < 2 ^ 64"
  shows "placed ele (map2 (-) s st) c ct"
proof -
  have w: "length s = length ct" "length c = length ct" "length st = length ct"
    "\<forall>k < length ct. st ! k \<le> s ! k \<and> s ! k + c ! k \<le> st ! k + ct ! k"
    using assms(1) by (auto simp: within_def)
  have "0 < c ! k" if "k < length ct" for k
    using assms(2) that w(2) by (metis gr0I nth_mem prod_list_zero_iff)
  moreover have "c ! k \<le> ct ! k" "(s ! k - st ! k) + c ! k \<le> ct ! k" if "k < length ct" for k
    using w(4) [rule_format, OF that] by linarith+
  ultimately show ?thesis using w(1-3) assms(3) by (auto simp: placed_def fits_def list_all2_conv_all_nth)
qed

lemma covers_nth:
  "length st = length ct \<Longrightarrow> covers st ct g \<longleftrightarrow>
     length g = length ct \<and> (\<forall>k < length ct. st ! k \<le> g ! k \<and> g ! k < st ! k + ct ! k)"
  by (auto simp: covers_def inside_nth list_all2_conv_all_nth less_diff_conv2 add.commute)

lemma copied_covers:
  assumes "within s c st ct" "0 < prod_list c" "ele * prod_list ct < 2 ^ 64"
    and "copied ele (map2 (-) s st) c ct src 0 (prod_list c) d d'" "covers st ct g"
  shows "at ele st ct d' g = (if covers s c g then at ele s c src g else at ele st ct d g)"
proof -
  let ?sh = "map2 (-) s st" and ?y = "map2 (-) g st" and ?x = "map2 (-) g s"
  have w: "length s = length ct" "length c = length ct" "length st = length ct"
    "\<And>k. k < length ct \<Longrightarrow> st ! k \<le> s ! k"
    using assms(1) by (auto simp: within_def)
  have g: "length g = length ct" "\<And>k. k < length ct \<Longrightarrow> st ! k \<le> g ! k"
    using assms(5) w by (auto simp: covers_nth)
  have pl: "placed ele ?sh c ct" by (rule within_placed [OF assms(1-3)])
  have y: "inside ?y ct" using assms(5) by (simp add: covers_def)
  show ?thesis
  proof (cases "covers s c g")
    case True
    then have x: "inside ?x c" by (simp add: covers_def)
    have "s ! k \<le> g ! k" if "k < length ct" for k using True that w by (simp add: covers_nth)
    then have "map2 (+) ?sh ?x = ?y"
      using w g by (auto simp: list_eq_iff_nth_eq)
    then have "place ?sh ct ?x = lin ct ?y" by (simp add: place_def)
    then show ?thesis using assms(4) x True lin_less [OF x] by (auto simp: copied_def at_def)
  next
    case False
    have "lin ct ?y \<noteq> place ?sh ct x" if x: "inside x c" for x
    proof
      assume "lin ct ?y = place ?sh ct x"
      then have eq: "?y = map2 (+) ?sh x"
        using lin_inj [OF y placed_inside [OF pl x]] by (simp add: place_def)
      have lx: "length x = length ct" using inside_length [OF x] w by simp
      have "s ! k \<le> g ! k \<and> g ! k < s ! k + c ! k" if "k < length ct" for k
      proof -
        have "?y ! k = map2 (+) ?sh x ! k" by (simp add: eq)
        then have "g ! k - st ! k = s ! k - st ! k + x ! k" using that w g lx by simp
        moreover have "x ! k < c ! k" using x that w by (simp add: inside_nth)
        ultimately show ?thesis using w(4) [OF that] g(2) [OF that] by linarith
      qed
      then show False using False w g by (simp add: covers_nth)
    qed
    then show ?thesis using assms(4) False lin_less [OF y] by (auto simp: copied_def at_def)
  qed
qed


lemma elem_prefix: "p < n \<Longrightarrow> ele * n \<le> length d \<Longrightarrow> elem ele (take (ele * n) d) p = elem ele d p"
  using elem_bound [of p n ele] by (simp add: elem_def slice_def drop_take min_def)

lemma copy_all:
  assumes "placed ele sh c ct" "ele * prod_list c \<le> length src" "length d = ele * prod_list ct"
    and "0 < prod_list c"
  shows "\<exists>d1 a p. copy_elems (prod_list c - 1) (length ct) ele ct c src d (int (ele * lin ct sh))
             (replicate (length ct) 0) 0 = Some (d1, a, p) \<and>
           (\<exists>e d'. mem_read src p ele = Some e \<and> write_at d1 a e = Some d' \<and>
              copied ele sh c ct src 0 (prod_list c) d d')"
proof -
  let ?z = "replicate (length ct) (0 :: nat)"
  have len: "length c = length ct" "length sh = length ct"
    using assms(1) fits_length by (auto simp: placed_def)
  have z: "inside ?z c" using inside_zero [OF assms(4)] len by simp
  have lz: "lin c ?z = 0" "place sh ct ?z = lin ct sh"
    using lin_zero [of c] lin_zero [of ct] len by (simp_all add: place_add)
  from copy_elems_spec [OF assms(1-3) z, of "prod_list c - 1"] lz assms(4)
  obtain d1 i where d1: "inside i c" "lin c i = prod_list c - 1"
    "copied ele sh c ct src 0 (prod_list c - 1) d d1"
    "copy_elems (prod_list c - 1) (length ct) ele ct c src d (int (ele * lin ct sh)) ?z 0 =
       Some (d1, int (ele * place sh ct i), ele * (prod_list c - 1))"
    by (auto simp del: of_nat_mult)
  let ?e = "elem ele src (lin c i)"
  have lt: "lin c i < prod_list c" by (rule lin_less [OF d1(1)])
  have l1: "length d1 = ele * prod_list ct" using d1(3) assms(3) by (simp add: copied_def)
  have "length ?e = ele" by (rule length_elem [OF lt assms(2)])
  then have "write_at d1 (int (ele * place sh ct i)) ?e = Some (blit d1 (ele * place sh ct i) ?e)"
    by (rule write_elem [OF place_less [OF assms(1) d1(1)] l1])
  moreover have "mem_read src (ele * (prod_list c - 1)) ele = Some ?e"
    using read_elem [OF lt assms(2)] d1(2) by simp
  moreover have "copied ele sh c ct src 0 (prod_list c) d (blit d1 (ele * place sh ct i) ?e)"
    using copied_trans [OF d1(3), of "prod_list c"] copied_one [OF assms(1) d1(1) l1 assms(2)] d1(2) assms(4)
    by simp
  ultimately show ?thesis using d1(4) by blast
qed

lemma put_var_block:
  assumes "within s c st ct" "ele * prod_list ct < 2 ^ 64" "prod_list c < 2 ^ 31"
    and "\<forall>k < length st. st ! k < 2 ^ 64" "length data = ele * prod_list ct"
    and "0 < prod_list c \<Longrightarrow> src = Some bytes \<and> ele * prod_list c \<le> length bytes"
  shows "\<exists>data'. put_var (length ct) ele st ct data s c src = Some data' \<and> length data' = length data \<and>
           (\<forall>g. covers st ct g \<longrightarrow>
              at ele st ct data' g = (if covers s c g then at ele s c bytes g else at ele st ct data g))"
proof (cases "prod_list c = 0")
  case True
  have len: "length s = length ct" "length c = length ct" "length st = length ct"
    using assms(1) by (auto simp: within_def)
  have "\<not> covers s c g" for g
    using lin_less [of "map2 (-) g s" c] True by (auto simp: covers_def)
  moreover have "size_prod c = 0" using True by (simp add: size_prod_less)
  ultimately show ?thesis using len by (simp add: put_var_def Let_def case_prod_unfold)
next
  case False
  then have pos: "0 < prod_list c" and src: "src = Some bytes" "ele * prod_list c \<le> length bytes"
    using assms(6) by auto
  have len: "length s = length ct" "length c = length ct" "length st = length ct"
    using assms(1) by (auto simp: within_def)
  note pl = within_placed [OF assms(1) pos assms(2)]
  let ?sh = "map2 (-) s st"
  have "lin ct ?sh = place ?sh ct (replicate (length ct) 0)"
    using len lin_zero [of ct] by (simp add: place_add)
  also have "\<dots> < prod_list ct"
    using place_less [OF pl inside_zero [OF pos]] len by simp
  finally have off: "lin ct ?sh < prod_list ct" .
  have cases: "ele = 0 \<or> lin ct ?sh < 2 ^ 64"
  proof (cases "ele = 0")
    case False
    then have "prod_list ct \<le> ele * prod_list ct" by simp
    then show ?thesis using assms(2) off by linarith
  qed simp
  have "ele * lin ct ?sh \<le> ele * prod_list ct" using off by simp
  then have "ele * lin ct ?sh < 2 ^ 64" using assms(2) by linarith
  moreover have "fst (dst_offset s st ct) = lin ct ?sh mod 2 ^ 64"
    using dst_offset [of s ct st] assms(1,4) by (auto simp: within_def)
  ultimately have addr: "ele * fst (dst_offset s st ct) mod 2 ^ 64 = ele * lin ct ?sh"
    using cases by auto
  have cnt: "nat (c_int (size_prod c) - 1) = prod_list c - 1" "size_prod c \<noteq> 0"
    using assms(3) pos by (simp_all add: size_prod_less c_int_small)
  from copy_all [OF pl src(2) assms(5) pos] obtain data' where data':
    "put_var (length ct) ele st ct data s c src = Some data'"
    "copied ele ?sh c ct bytes 0 (prod_list c) data data'"
    using len src(1) cnt addr
    by (auto simp: put_var_def Let_def case_prod_unfold simp del: of_nat_mult)
  show ?thesis using data' copied_covers [OF assms(1) pos assms(2) data'(2)] by (auto simp: copied_def)
qed


text \<open>C14. \<open>_put_var\<close> is correct: copying a block that lies within an array makes every element of
  the array that the block covers the block's element of the same position, and leaves every other
  element as it was; the one-dimensional walk with its carries over the destination is a
  multi-dimensional assignment. An empty block (its data may be NULL) changes nothing.\<close>

theorem put_var_assigns_block:
  assumes "within s c st ct" "ele * prod_list ct < 2 ^ 64" "prod_list c < 2 ^ 31"
    and "\<forall>k < length st. st ! k < 2 ^ 64" "length data = ele * prod_list ct"
    and "0 < prod_list c \<Longrightarrow> src = Some bytes \<and> ele * prod_list c \<le> length bytes"
  shows "\<exists>data'. put_var (length ct) ele st ct data s c src = Some data' \<and> length data' = length data \<and>
           (\<forall>g. covers st ct g \<longrightarrow>
              at ele st ct data' g = (if covers s c g then at ele s c bytes g else at ele st ct data g))"
  using assms by (rule put_var_block)

lemma all_less_2: "(\<forall>k < Suc (Suc 0). P k) \<longleftrightarrow> P 0 \<and> P (Suc 0)"
  by (auto simp: less_Suc_eq)

theorem put_var_assigns_block_witness:
  "\<exists>data'. put_var 2 1 [10, 20] [2, 3] [0, 0, 0, 0, 0, 0] [11, 21] [1, 2] (Some [7, 8]) = Some data' \<and>
     at 1 [10, 20] [2, 3] data' [11, 21] = [7] \<and> at 1 [10, 20] [2, 3] data' [11, 22] = [8] \<and>
     at 1 [10, 20] [2, 3] data' [10, 22] = [0]"
proof -
  have "within [11, 21] [1, 2] [10, 20] [2, 3]" "\<forall>k < length [10, 20]. [10, 20] ! k < (2 :: nat) ^ 64"
    by (simp_all add: within_def all_less_2)
  moreover have len: "length [2, 3 :: nat] = 2" "length [10, 20 :: nat] = 2" by simp_all
  ultimately obtain data' where "put_var 2 1 [10, 20] [2, 3] [0, 0, 0, 0, 0, 0] [11, 21] [1, 2] (Some [7, 8]) = Some data'"
    "\<And>g. covers [10, 20] [2, 3] g \<Longrightarrow> at 1 [10, 20] [2, 3] data' g =
       (if covers [11, 21] [1, 2] g then at 1 [11, 21] [1, 2] [7, 8] g
        else at 1 [10, 20] [2, 3] [0, 0, 0, 0, 0, 0] g)"
    using put_var_assigns_block [of "[11, 21]" "[1, 2]" "[10, 20]" "[2, 3]" 1 "[0, 0, 0, 0, 0, 0]" "Some [7, 8]" "[7, 8]",
      unfolded len]
    by auto
  note put = this
  have "covers [10, 20] [2, 3] [11, 21]" "covers [10, 20] [2, 3] [11, 22]" "covers [10, 20] [2, 3] [10, 22]"
    by (simp_all add: covers_def)
  from this [THEN put(2)] put(1) show ?thesis
    by (simp add: covers_def at_def [of _ "[11, 21]"]) (simp add: at_def elem_def slice_def)
qed

section \<open>The box of a variable\<close>

text \<open>The smallest box that holds all the blocks.\<close>

definition box_start :: "nat \<Rightarrow> (nat list \<times> nat list) list \<Rightarrow> nat list" where
  "box_start n bs = map (\<lambda>k. Min (set (map (\<lambda>b. fst b ! k) bs))) [0 ..< n]"

definition box_end :: "nat \<Rightarrow> (nat list \<times> nat list) list \<Rightarrow> nat list" where
  "box_end n bs = map (\<lambda>k. Max (set (map (\<lambda>b. fst b ! k + snd b ! k) bs))) [0 ..< n]"

definition box_count :: "nat \<Rightarrow> (nat list \<times> nat list) list \<Rightarrow> nat list" where
  "box_count n bs = map2 (-) (box_end n bs) (box_start n bs)"

definition small_block :: "nat \<Rightarrow> nat list \<times> nat list \<Rightarrow> bool" where
  "small_block n b \<longleftrightarrow> length (fst b) = n \<and> length (snd b) = n \<and> (\<forall>k < n. fst b ! k + snd b ! k < 2 ^ 31)"

lemma update_nth:
  assumes "small_block n (st, ct)" "small_block n (s, c)"
  shows "length (update_start_and_count st ct s c) = n \<and>
    (\<forall>k < n. fst (update_start_and_count st ct s c ! k) = min (st ! k) (s ! k) \<and>
       snd (update_start_and_count st ct s c ! k) = max (st ! k + ct ! k) (s ! k + c ! k) - min (st ! k) (s ! k))"
  using assms
proof (induction st ct s c arbitrary: n rule: update_start_and_count.induct)
  case (1 cs css cc ccs ns nss n1 ncs)
  from 1(2) have n: "n = Suc (length css)" by (simp add: small_block_def)
  have lt: "cs + cc < 2 ^ 31" "ns + n1 < 2 ^ 31"
    using 1(2,3) n by (auto simp: small_block_def)
  have "small_block (length css) (css, ccs)" "small_block (length css) (nss, ncs)"
    using 1(2,3) n by (auto simp: small_block_def)
  note ih = 1(1) [OF refl refl refl refl this]
  have conv: "c_int (min cs ns) = int (min cs ns)" "c_int (max (cs + cc) (ns + n1)) = int (max (cs + cc) (ns + n1))"
    using lt by (auto intro!: c_int_small)
  have "c_size (int (min cs ns)) = min cs ns" "c_size (int (max (cs + cc) (ns + n1)) - int (min cs ns)) =
     max (cs + cc) (ns + n1) - min cs ns"
    using lt by (auto simp: c_size_def min_def max_def nat_diff_distrib)
  moreover have "(if cs < ns then cs else ns) = min cs ns"
    "(if (cs + cc) mod 2 ^ 64 > (ns + n1) mod 2 ^ 64 then (cs + cc) mod 2 ^ 64 else (ns + n1) mod 2 ^ 64) =
       max (cs + cc) (ns + n1)"
    using lt by auto
  ultimately have "update_start_and_count (cs # css) (cc # ccs) (ns # nss) (n1 # ncs) =
      (min cs ns, max (cs + cc) (ns + n1) - min cs ns) # update_start_and_count css ccs nss ncs"
    by (simp only: update_start_and_count.simps Let_def conv)
  then show ?case using ih by (auto simp: n nth_Cons split: nat.splits)
qed (auto simp: small_block_def)

lemma Min_insert_min:
  "finite A \<Longrightarrow> Min (insert (min a b) A) = Min (insert a (insert b A))" for a :: nat
  by (cases "A = {}") (simp_all add: min.assoc)

lemma Max_insert_max:
  "finite A \<Longrightarrow> Max (insert (max a b) A) = Max (insert a (insert b A))" for a :: nat
  by (cases "A = {}") (simp_all add: max.assoc)

lemma bounding_box_nth:
  assumes "small_block n (st, ct)" "\<forall>b \<in> set bs. small_block n b"
  shows "length (fst (bounding_box st ct bs)) = n \<and> length (snd (bounding_box st ct bs)) = n \<and>
    (\<forall>k < n. fst (bounding_box st ct bs) ! k = Min (insert (st ! k) (set (map (\<lambda>b. fst b ! k) bs))) \<and>
       fst (bounding_box st ct bs) ! k + snd (bounding_box st ct bs) ! k =
         Max (insert (st ! k + ct ! k) (set (map (\<lambda>b. fst b ! k + snd b ! k) bs))))"
  using assms
proof (induction bs arbitrary: st ct)
  case Nil
  then show ?case by (simp add: small_block_def)
next
  case (Cons b bs)
  obtain s c where b: "b = (s, c)" by (cases b)
  let ?u = "update_start_and_count st ct s c"
  have sb: "small_block n (s, c)" using Cons.prems(2) b by simp
  note u = update_nth [OF Cons.prems(1) sb]
  have st: "map fst ?u ! k = min (st ! k) (s ! k)"
    "map fst ?u ! k + map snd ?u ! k = max (st ! k + ct ! k) (s ! k + c ! k)" if "k < n" for k
    using u that by auto
  then have "small_block n (map fst ?u, map snd ?u)"
    using u Cons.prems(1) sb by (simp add: small_block_def)
  then have ih: "length (fst (bounding_box (map fst ?u) (map snd ?u) bs)) = n \<and>
    length (snd (bounding_box (map fst ?u) (map snd ?u) bs)) = n \<and>
    (\<forall>k < n. fst (bounding_box (map fst ?u) (map snd ?u) bs) ! k =
         Min (insert (map fst ?u ! k) (set (map (\<lambda>b. fst b ! k) bs))) \<and>
       fst (bounding_box (map fst ?u) (map snd ?u) bs) ! k + snd (bounding_box (map fst ?u) (map snd ?u) bs) ! k =
         Max (insert (map fst ?u ! k + map snd ?u ! k) (set (map (\<lambda>b. fst b ! k + snd b ! k) bs))))"
    by (rule Cons.IH) (use Cons.prems(2) in simp)
  have eqB: "bounding_box st ct (b # bs) = bounding_box (map fst ?u) (map snd ?u) bs"
    by (simp add: b Let_def)
  have mm: "Min (insert (map fst ?u ! k) (set (map (\<lambda>b. fst b ! k) bs))) =
      Min (insert (st ! k) (set (map (\<lambda>b. fst b ! k) (b # bs))))"
    "Max (insert (map fst ?u ! k + map snd ?u ! k) (set (map (\<lambda>b. fst b ! k + snd b ! k) bs))) =
      Max (insert (st ! k + ct ! k) (set (map (\<lambda>b. fst b ! k + snd b ! k) (b # bs))))" if "k < n" for k
  proof -
    show "Min (insert (map fst ?u ! k) (set (map (\<lambda>b. fst b ! k) bs))) =
        Min (insert (st ! k) (set (map (\<lambda>b. fst b ! k) (b # bs))))"
      unfolding st(1) [OF that] b
      by (simp only: Min_insert_min finite_set list.map set_simps fst_conv)
    show "Max (insert (map fst ?u ! k + map snd ?u ! k) (set (map (\<lambda>b. fst b ! k + snd b ! k) bs))) =
        Max (insert (st ! k + ct ! k) (set (map (\<lambda>b. fst b ! k + snd b ! k) (b # bs))))"
      unfolding st(2) [OF that] b
      by (simp only: Max_insert_max finite_set list.map set_simps fst_conv snd_conv)
  qed
  show ?case unfolding eqB
  proof (intro conjI allI impI)
    fix k assume k: "k < n"
    show "fst (bounding_box (map fst ?u) (map snd ?u) bs) ! k =
        Min (insert (st ! k) (set (map (\<lambda>b. fst b ! k) (b # bs))))"
      unfolding mm(1) [OF k, symmetric] using ih k by blast
    show "fst (bounding_box (map fst ?u) (map snd ?u) bs) ! k + snd (bounding_box (map fst ?u) (map snd ?u) bs) ! k =
        Max (insert (st ! k + ct ! k) (set (map (\<lambda>b. fst b ! k + snd b ! k) (b # bs))))"
      unfolding mm(2) [OF k, symmetric] using ih k by blast
  qed (use ih in blast)+
qed

lemma bounding_box:
  assumes "\<forall>b \<in> set (b0 # bs). small_block n b"
  shows "bounding_box (fst b0) (snd b0) bs = (box_start n (b0 # bs), box_count n (b0 # bs))"
proof -
  let ?b = "bounding_box (fst b0) (snd b0) bs"
  have sb: "small_block n (fst b0, snd b0)" "\<forall>b \<in> set bs. small_block n b" using assms by simp_all
  have len: "length (fst ?b) = n" "length (snd ?b) = n"
    using bounding_box_nth [OF sb] by blast+
  have st: "fst ?b ! k = Min (insert (fst b0 ! k) (set (map (\<lambda>b. fst b ! k) bs)))"
    and en: "fst ?b ! k + snd ?b ! k =
           Max (insert (fst b0 ! k + snd b0 ! k) (set (map (\<lambda>b. fst b ! k + snd b ! k) bs)))"
    if "k < n" for k
    using bounding_box_nth [OF sb] that by blast+
  have "fst ?b ! k = box_start n (b0 # bs) ! k" "snd ?b ! k = box_count n (b0 # bs) ! k" if "k < n" for k
  proof -
    show "fst ?b ! k = box_start n (b0 # bs) ! k" using that st [of k] by (simp add: box_start_def)
    have "snd ?b ! k =
        Max (insert (fst b0 ! k + snd b0 ! k) (set (map (\<lambda>b. fst b ! k + snd b ! k) bs))) -
        Min (insert (fst b0 ! k) (set (map (\<lambda>b. fst b ! k) bs)))" unfolding st [OF that, symmetric] en [OF that, symmetric] by simp
    then show "snd ?b ! k = box_count n (b0 # bs) ! k"
      using that by (simp add: box_start_def box_end_def box_count_def)
  qed
  moreover have "length (box_start n bs) = n" "length (box_count n bs) = n" for bs
    by (simp_all add: box_start_def box_count_def box_end_def)
  ultimately have "fst ?b = box_start n (b0 # bs)" "snd ?b = box_count n (b0 # bs)"
    using len by (auto intro: nth_equalityI)
  then show ?thesis by (simp add: prod_eq_iff)
qed

lemma within_box:
  assumes "b \<in> set bs" "small_block n b"
  shows "within (fst b) (snd b) (box_start n bs) (box_count n bs)"
proof -
  have bound: "Min ((\<lambda>b. fst b ! k) ` set bs) \<le> fst b ! k"
    "fst b ! k + snd b ! k \<le> Max ((\<lambda>b. fst b ! k + snd b ! k) ` set bs)" for k
    using assms(1) by (auto intro!: Min_le Max_ge)
  have "box_start n bs ! k \<le> fst b ! k \<and>
      fst b ! k + snd b ! k \<le> box_start n bs ! k + box_count n bs ! k" if "k < n" for k
  proof -
    have nth: "box_start n bs ! k = Min ((\<lambda>b. fst b ! k) ` set bs)" "box_count n bs ! k =
        Max ((\<lambda>b. fst b ! k + snd b ! k) ` set bs) - Min ((\<lambda>b. fst b ! k) ` set bs)"
      using that by (simp_all add: box_start_def box_end_def box_count_def)
    show ?thesis using bound [of k] unfolding nth by linarith
  qed
  then show ?thesis using assms(2) by (simp add: within_def small_block_def box_start_def box_count_def box_end_def)
qed


section \<open>All the blocks of a variable\<close>

definition piece_ok :: "nat \<Rightarrow> (nat list \<times> nat list) \<times> byte list option \<Rightarrow> bool" where
  "piece_ok ele p \<longleftrightarrow> (case p of ((s, c), src) \<Rightarrow>
     prod_list c < 2 ^ 31 \<and> (0 < prod_list c \<longrightarrow> (\<exists>bytes. src = Some bytes \<and> ele * prod_list c \<le> length bytes)))"

definition overwrite :: "nat \<Rightarrow> nat list \<Rightarrow> byte list \<Rightarrow> (nat list \<times> nat list) \<times> byte list option \<Rightarrow> byte list" where
  "overwrite ele g v p = (case p of ((s, c), src) \<Rightarrow> if covers s c g then at ele s c (the src) g else v)"

lemma overwrite_piece [simp]:
  "overwrite ele g v ((s, c), src) = (if covers s c g then at ele s c (the src) g else v)"
  by (simp add: overwrite_def)

lemma those_Some_list [simp]: "those (map Some xs) = Some xs"
  by (induction xs) simp_all

lemma covers_within:
  assumes "within s c st ct" "covers s c g" shows "covers st ct g"
proof -
  have w: "length s = length ct" "length c = length ct" "length st = length ct"
    "\<And>k. k < length ct \<Longrightarrow> st ! k \<le> s ! k \<and> s ! k + c ! k \<le> st ! k + ct ! k"
    using assms(1) by (auto simp: within_def)
  have g: "length g = length ct" "\<And>k. k < length ct \<Longrightarrow> s ! k \<le> g ! k \<and> g ! k < s ! k + c ! k"
    using assms(2) w by (auto simp: covers_nth)
  have "st ! k \<le> g ! k \<and> g ! k < st ! k + ct ! k" if "k < length ct" for k
    using w(4) [OF that] g(2) [OF that] by linarith
  then show ?thesis using w g by (simp add: covers_nth)
qed

lemma put_blocks_spec:
  assumes "ele * prod_list ct < 2 ^ 64" "\<forall>k < length st. st ! k < 2 ^ 64" "length data = ele * prod_list ct"
    and "\<forall>p \<in> set ps. piece_ok ele p \<and> within (fst (fst p)) (snd (fst p)) st ct"
  shows "\<exists>data'. put_blocks (length ct) ele st ct data ps = Some data' \<and> length data' = length data \<and>
           (\<forall>g. covers st ct g \<longrightarrow> at ele st ct data' g = foldl (overwrite ele g) (at ele st ct data g) ps)"
  using assms(3,4)
proof (induction ps arbitrary: data)
  case (Cons p ps)
  obtain s c src where p: "p = ((s, c), src)" by (metis prod.exhaust)
  have w: "within s c st ct" and ok: "piece_ok ele ((s, c), src)" using Cons.prems(2) p by auto
  then obtain data1 where data1: "put_var (length ct) ele st ct data s c src = Some data1"
    "length data1 = length data"
    "\<forall>g. covers st ct g \<longrightarrow>
       at ele st ct data1 g = (if covers s c g then at ele s c (the src) g else at ele st ct data g)"
    using put_var_block [OF w assms(1) _ assms(2) Cons.prems(1), of src "the src"]
    by (auto simp: piece_ok_def)
  have "length data1 = ele * prod_list ct" using data1(2) Cons.prems(1) by simp
  from Cons.IH [OF this] Cons.prems(2) obtain data2 where
    "put_blocks (length ct) ele st ct data1 ps = Some data2" "length data2 = length data1"
    "\<forall>g. covers st ct g \<longrightarrow> at ele st ct data2 g = foldl (overwrite ele g) (at ele st ct data1 g) ps"
    by auto
  with data1 show ?case by (auto simp: p)
qed simp

lemma foldl_overwrite:
  assumes "i < length ps" "ps ! i = ((s, c), src)" "covers s c g"
    and "\<forall>j. i < j \<and> j < length ps \<longrightarrow> \<not> covers (fst (fst (ps ! j))) (snd (fst (ps ! j))) g"
  shows "foldl (overwrite ele g) v ps = at ele s c (the src) g"
  using assms
proof (induction ps rule: rev_induct)
  case (snoc p ps)
  show ?case
  proof (cases "i = length ps")
    case True
    then show ?thesis using snoc.prems by simp
  next
    case False
    then have i: "i < length ps" using snoc.prems(1) by simp
    have "\<not> covers (fst (fst p)) (snd (fst p)) g" using snoc.prems(4) i by auto
    moreover have "foldl (overwrite ele g) v ps = at ele s c (the src) g"
      using snoc.prems i by (intro snoc.IH) (auto simp: nth_append)
    ultimately show ?thesis by (cases p) (auto simp: case_prod_unfold overwrite_def [of ele g _ p])
  qed
qed simp

lemma blocks_in_box:
  fixes B :: "nat \<Rightarrow> nat list \<times> nat list"
  assumes "0 < m" "\<forall>i < m. small_block n (B i) \<and> piece_ok ele (B i, D i)" "bs = map B [0 ..< m]"
  shows "\<forall>p \<in> set (map (\<lambda>i. (B i, D i)) [0 ..< m]).
      piece_ok ele p \<and> within (fst (fst p)) (snd (fst p)) (box_start n bs) (box_count n bs)"
    and "k < n \<Longrightarrow> box_start n bs ! k < 2 ^ 64"
proof -
  have within: "within (fst (B i)) (snd (B i)) (box_start n bs) (box_count n bs)" if "i < m" for i
    using within_box [of "B i" bs n] assms(2) that by (auto simp: assms(3))
  then show "\<forall>p \<in> set (map (\<lambda>i. (B i, D i)) [0 ..< m]).
      piece_ok ele p \<and> within (fst (fst p)) (snd (fst p)) (box_start n bs) (box_count n bs)"
    using assms(2) by auto
  show "box_start n bs ! k < 2 ^ 64" if "k < n"
  proof -
    have "box_start n bs ! k \<le> fst (B 0) ! k" "fst (B 0) ! k + snd (B 0) ! k < 2 ^ 31"
      using within [OF assms(1)] assms(1,2) that by (auto simp: within_def small_block_def box_start_def)
    then show ?thesis by simp
  qed
qed

lemma merge_blocks:
  fixes B :: "nat \<Rightarrow> nat list \<times> nat list"
  assumes "recv_data v = Some ds" "0 < nat (var_client_num v)" "nat (var_client_num v) \<le> length ds"
    and "cfio_types_size (data_type v) = Some ele"
    and "\<forall>i < nat (var_client_num v). block_of (nat (sint (ndims v))) (ds ! i) = Some (B i) \<and>
           small_block (nat (sint (ndims v))) (B i) \<and> piece_ok ele (B i, dbuf (ds ! i))"
    and "bs = map B [0 ..< nat (var_client_num v)]" "st = box_start (nat (sint (ndims v))) bs"
    and "ct = box_count (nat (sint (ndims v))) bs" "ele * prod_list ct < 2 ^ 64"
  shows "\<exists>data. merge_var_data junk v =
             Some (st, ct, data, v\<lparr>recv_data := Some (replicate (nat (var_client_num v)) zero_data
                                                   @ drop (nat (var_client_num v)) ds)\<rparr>) \<and>
           length data = ele * prod_list ct \<and>
           (\<forall>g i. i < nat (var_client_num v) \<and> covers (fst (B i)) (snd (B i)) g \<and>
              (\<forall>j. i < j \<and> j < nat (var_client_num v) \<longrightarrow> \<not> covers (fst (B j)) (snd (B j)) g) \<longrightarrow>
              at ele st ct data g = at ele (fst (B i)) (snd (B i)) (the (dbuf (ds ! i))) g)"
proof -
  define n m where "n = nat (sint (ndims v))" and "m = nat (var_client_num v)"
  note defs = n_def [symmetric] m_def [symmetric]
  have B: "block_of n (ds ! i) = Some (B i)" "small_block n (B i)" "piece_ok ele (B i, dbuf (ds ! i))"
    if "i < m" for i
    using assms(5) that by (simp_all add: defs)
  have m: "0 < m" "m \<le> length ds" and bs: "bs = map B [0 ..< m]"
    using assms(2,3,6) by (simp_all add: defs)
  have st: "st = box_start n bs" and ct: "ct = box_count n bs" using assms(7,8) by (simp_all add: defs)
  have len: "length ct = n" "length st = n" by (simp_all add: st ct box_start_def box_count_def box_end_def)
  have blocks: "those (map (block_of n) (take m ds)) = Some bs"
  proof -
    have "map (block_of n) (take m ds) = map Some bs" using B(1) m by (auto simp: bs list_eq_iff_nth_eq)
    then show ?thesis by simp
  qed
  have ne: "bs = hd bs # tl bs" using m by (simp add: bs)
  have sb: "\<forall>b \<in> set bs. small_block n b" using B(2) by (auto simp: bs)
  then have box: "bounding_box (fst (hd bs)) (snd (hd bs)) (tl bs) = (st, ct)"
    using bounding_box [of "hd bs" "tl bs" n] ne by (simp add: st ct)
  define ps where "ps = zip bs (map dbuf (take m ds))"
  define d0 where "d0 = map junk [0 ..< ele * size_prod ct mod 2 ^ 64]"
  have l0: "length d0 = ele * prod_list ct"
  proof -
    have "ele * size_prod ct mod 2 ^ 64 = ele * prod_list ct mod 2 ^ 64"
      by (cases "ct = []") (simp_all add: size_prod mod_mult_right_eq, simp add: size_prod_def)
    then show ?thesis using assms(9) by (simp add: d0_def)
  qed
  have nth: "length ps = m" "\<And>i. i < m \<Longrightarrow> ps ! i = (B i, dbuf (ds ! i))"
    using m by (auto simp: ps_def bs)
  then have ps: "ps = map (\<lambda>i. (B i, dbuf (ds ! i))) [0 ..< m]" by (intro nth_equalityI) simp_all
  note box_facts = blocks_in_box [where m = m and n = n and ele = ele and B = B and D = "\<lambda>i. dbuf (ds ! i)" and bs = bs, OF m(1) _ bs]
  have ok: "\<forall>p \<in> set ps. piece_ok ele p \<and> within (fst (fst p)) (snd (fst p)) st ct"
    unfolding ps st ct by (rule box_facts(1)) (use B(2,3) in simp)
  have "st ! k < 2 ^ 64" if "k < length st" for k
    unfolding st by (rule box_facts(2)) (use B(2,3) that len(2) in simp_all)
  then obtain data where data: "put_blocks n ele st ct d0 ps = Some data" "length data = length d0"
    "\<And>g. covers st ct g \<Longrightarrow> at ele st ct data g = foldl (overwrite ele g) (at ele st ct d0 g) ps"
    using put_blocks_spec [OF assms(9) _ l0 ok] len by auto
  have "at ele st ct data g = at ele (fst (B i)) (snd (B i)) (the (dbuf (ds ! i))) g"
    if i: "i < m" "covers (fst (B i)) (snd (B i)) g"
      "\<forall>j. i < j \<and> j < m \<longrightarrow> \<not> covers (fst (B j)) (snd (B j)) g" for g i
  proof -
    have "ps ! i \<in> set ps" using i(1) nth(1) by (intro nth_mem) simp
    then have "within (fst (B i)) (snd (B i)) st ct" using ok i(1) nth by fastforce
    then have "covers st ct g" using i(2) by (rule covers_within)
    moreover have "foldl (overwrite ele g) v ps = at ele (fst (B i)) (snd (B i)) (the (dbuf (ds ! i))) g" for v
      using i nth by (intro foldl_overwrite) auto
    ultimately show ?thesis using data(3) by simp
  qed
  moreover have "merge_var_data junk v = Some (st, ct, data, v\<lparr>recv_data := Some (replicate m zero_data @ drop m ds)\<rparr>)"
    using assms(1,4) m blocks box data(1) [unfolded d0_def]
    by (simp add: merge_var_data_def defs ps_def [symmetric])
  ultimately show ?thesis using data(2) l0 by (auto simp: defs)
qed


text \<open>C7. The merge of a variable's pieces is complete and last-writer-wins: when every client of the
  server has sent its block (elements present, ends below \<open>2 ^ 31\<close>, the total addressable), the
  server's array is the smallest box that holds all the blocks, and every position that some
  client's block covers holds the element of the last client, in server order, whose block
  covers it; the pieces are then released.\<close>

theorem merge_var_data_assembles:
  fixes B :: "nat \<Rightarrow> nat list \<times> nat list"
  assumes "recv_data v = Some ds" "0 < nat (var_client_num v)" "nat (var_client_num v) \<le> length ds"
    and "cfio_types_size (data_type v) = Some ele"
    and "\<forall>i < nat (var_client_num v). block_of (nat (sint (ndims v))) (ds ! i) = Some (B i) \<and>
           small_block (nat (sint (ndims v))) (B i) \<and> piece_ok ele (B i, dbuf (ds ! i))"
    and "bs = map B [0 ..< nat (var_client_num v)]" "st = box_start (nat (sint (ndims v))) bs"
    and "ct = box_count (nat (sint (ndims v))) bs" "ele * prod_list ct < 2 ^ 64"
  shows "\<exists>data. merge_var_data junk v =
             Some (st, ct, data, v\<lparr>recv_data := Some (replicate (nat (var_client_num v)) zero_data
                                                   @ drop (nat (var_client_num v)) ds)\<rparr>) \<and>
           length data = ele * prod_list ct \<and>
           (\<forall>g i. i < nat (var_client_num v) \<and> covers (fst (B i)) (snd (B i)) g \<and>
              (\<forall>j. i < j \<and> j < nat (var_client_num v) \<longrightarrow> \<not> covers (fst (B j)) (snd (B j)) g) \<longrightarrow>
              at ele st ct data g = at ele (fst (B i)) (snd (B i)) (the (dbuf (ds ! i))) g)"
  using assms by (rule merge_blocks)

text \<open>Two clients, one variable of shape two by three: the first sends the first row and the middle
  of the second, the second the last column.\<close>

definition merge_example :: id_var where
  "merge_example =
     \<lparr>var_name = [], var_nc_id = 1, var_id = 1, ndims = 2, var_client_num = 2, dim_ids = None,
      var_start = None, var_count = None,
      recv_data = Some
        [\<lparr>dbuf = Some [1, 2, 3, 4], dstart = Some [0, 0], dcount = Some [2, 2]\<rparr>,
         \<lparr>dbuf = Some [5, 6], dstart = Some [0, 2], dcount = Some [2, 1]\<rparr>],
      data_type = cfio_type_code CFIO_BYTE, att_head = Some []\<rparr>"

theorem merge_var_data_witness:
  "\<exists>data v'. merge_var_data (\<lambda>_. 0) merge_example = Some ([0, 0], [2, 3], data, v') \<and> length data = 6 \<and>
     at 1 [0, 0] [2, 3] data [1, 1] = [4] \<and> at 1 [0, 0] [2, 3] data [0, 2] = [5]"
proof -
  let ?B = "\<lambda>i :: nat. if i = 0 then ([0, 0 :: nat], [2, 2]) else ([0, 2], [2, 1 :: nat])"
  have two: "nat (var_client_num merge_example) = Suc (Suc 0)" "nat (sint (ndims merge_example)) = Suc (Suc 0)"
    by (simp_all add: merge_example_def)
  have rd: "recv_data merge_example = Some
        [\<lparr>dbuf = Some [1, 2, 3, 4], dstart = Some [0, 0], dcount = Some [2, 2]\<rparr>,
         \<lparr>dbuf = Some [5, 6], dstart = Some [0, 2], dcount = Some [2, 1]\<rparr>]" (is "_ = Some ?ds")
    by (simp add: merge_example_def)
  have blocks: "map ?B [0 ..< Suc (Suc 0)] = [([0, 0], [2, 2]), ([0, 2], [2, 1])]" by (simp add: upt_rec)
  have box: "box_start (Suc (Suc 0)) [([0, 0], [2, 2]), ([0, 2], [2, 1])] = [0, 0]"
    "box_count (Suc (Suc 0)) [([0, 0], [2, 2]), ([0, 2], [2, 1])] = [2, 3]"
    by (simp_all add: box_start_def box_count_def box_end_def upt_rec)
  have all: "\<forall>i < Suc (Suc 0). block_of (Suc (Suc 0)) (?ds ! i) = Some (?B i) \<and>
          small_block (Suc (Suc 0)) (?B i) \<and> piece_ok 1 (?B i, dbuf (?ds ! i))"
    by (simp add: all_less_2 block_of_def small_block_def piece_ok_def)
  have ty: "cfio_types_size (data_type merge_example) = Some 1"
    using cfio_types_size_code [of CFIO_BYTE] by (simp add: merge_example_def)
  have sz: "0 < Suc (Suc 0)" "Suc (Suc 0) \<le> length ?ds" "1 * prod_list [2, 3 :: nat] < 2 ^ 64" by simp_all
  note T = merge_var_data_assembles [of merge_example ?ds 1 ?B _ _ _ "\<lambda>_. 0", unfolded two,
      OF rd sz(1,2) ty all refl refl refl, unfolded blocks box, OF sz(3)]
  obtain data where D: "merge_var_data (\<lambda>_. 0) merge_example =
      Some ([0, 0], [2, 3], data, merge_example\<lparr>recv_data :=
        Some (replicate (Suc (Suc 0)) zero_data @ drop (Suc (Suc 0)) ?ds)\<rparr>) \<and>
    length data = 1 * prod_list [2, 3] \<and> (\<forall>g i. i < Suc (Suc 0) \<and> covers (fst (?B i)) (snd (?B i)) g \<and>
       (\<forall>j. i < j \<and> j < Suc (Suc 0) \<longrightarrow> \<not> covers (fst (?B j)) (snd (?B j)) g) \<longrightarrow>
       at 1 [0, 0] [2, 3] data g = at 1 (fst (?B i)) (snd (?B i)) (the (dbuf (?ds ! i))) g)"
    using T by (rule exE) (rule that)
  note m = D [THEN conjunct1] D [THEN conjunct2, THEN conjunct1]
    D [THEN conjunct2, THEN conjunct2, rule_format]
  have "at 1 [0, 0] [2, 3] data [1, 1] = [4]"
    using m(3) [of 0 "[1, 1]"] by (simp add: covers_def at_def [of _ "[0, 0]" "[2, 2]"] elem_def slice_def less_Suc_eq)
  moreover have "at 1 [0, 0] [2, 3] data [0, 2] = [5]"
    using m(3) [of "Suc 0" "[0, 2]"] by (simp add: covers_def at_def [of _ "[0, 2]"] elem_def slice_def)
  ultimately show ?thesis using m(1,2) by auto
qed

end
