(* ===== verification/IoHandlers.thy ===== *)
theory IoHandlers
  imports Recv IoReq IoData
begin

text \<open>
  The handlers of the forwarded calls (\<open>io.c\<close>). The PnetCDF library is the parameter \<open>P\<close>, a
  record of functions over a state \<open>'f\<close> of its own; each answers a status, \<open>NC_NOERR\<close> for
  success, and the calls that make an identifier answer it when they assign it.
\<close>

section \<open>State\<close>

record 'f pnetcdf =
  ncmpi_create :: "byte list \<Rightarrow> i32 \<Rightarrow> 'f \<Rightarrow> int \<times> i32 \<times> 'f"
  ncmpi_def_dim :: "i32 \<Rightarrow> byte list \<Rightarrow> int \<Rightarrow> 'f \<Rightarrow> int \<times> i32 option \<times> 'f"
  ncmpi_def_var :: "i32 \<Rightarrow> byte list \<Rightarrow> i32 \<Rightarrow> i32 \<Rightarrow> i32 list \<Rightarrow> 'f \<Rightarrow> int \<times> i32 option \<times> 'f"
  ncmpi_put_att_text :: "i32 \<Rightarrow> i32 \<Rightarrow> byte list \<Rightarrow> i32 \<Rightarrow> byte list \<Rightarrow> 'f \<Rightarrow> int \<times> 'f"
  ncmpi_put_att_int :: "i32 \<Rightarrow> i32 \<Rightarrow> byte list \<Rightarrow> i32 \<Rightarrow> i32 \<Rightarrow> byte list \<Rightarrow> 'f \<Rightarrow> int \<times> 'f"
  ncmpi_put_att_float :: "i32 \<Rightarrow> i32 \<Rightarrow> byte list \<Rightarrow> i32 \<Rightarrow> i32 \<Rightarrow> byte list \<Rightarrow> 'f \<Rightarrow> int \<times> 'f"
  ncmpi_put_att_double :: "i32 \<Rightarrow> i32 \<Rightarrow> byte list \<Rightarrow> i32 \<Rightarrow> i32 \<Rightarrow> byte list \<Rightarrow> 'f \<Rightarrow> int \<times> 'f"
  ncmpi_enddef :: "i32 \<Rightarrow> 'f \<Rightarrow> int \<times> 'f"
  ncmpi_put_vara_short_all :: "i32 \<Rightarrow> i32 \<Rightarrow> int list \<Rightarrow> int list \<Rightarrow> byte list \<Rightarrow> 'f \<Rightarrow> int \<times> 'f"
  ncmpi_put_vara_int_all :: "i32 \<Rightarrow> i32 \<Rightarrow> int list \<Rightarrow> int list \<Rightarrow> byte list \<Rightarrow> 'f \<Rightarrow> int \<times> 'f"
  ncmpi_put_vara_float_all :: "i32 \<Rightarrow> i32 \<Rightarrow> int list \<Rightarrow> int list \<Rightarrow> byte list \<Rightarrow> 'f \<Rightarrow> int \<times> 'f"
  ncmpi_put_vara_double_all :: "i32 \<Rightarrow> i32 \<Rightarrow> int list \<Rightarrow> int list \<Rightarrow> byte list \<Rightarrow> 'f \<Rightarrow> int \<times> 'f"
  ncmpi_close :: "i32 \<Rightarrow> 'f \<Rightarrow> int \<times> 'f"
  nc_type_code :: "nc_type \<Rightarrow> i32"

definition NC_NOERR :: int where "NC_NOERR = 0"

record 'f server_state =
  rcv :: recv_state
  ids :: id_state
  io :: io_state
  lib :: 'f

definition set_nc :: "(id_nc \<Rightarrow> id_nc) \<Rightarrow> ptr \<Rightarrow> id_state \<Rightarrow> id_state" where
  "set_nc f p = update_val p (\<lambda>v. v\<lparr>nc := map_option f (nc v)\<rparr>)"

definition set_dim :: "(id_dim \<Rightarrow> id_dim) \<Rightarrow> ptr \<Rightarrow> id_state \<Rightarrow> id_state" where
  "set_dim f p = update_val p (\<lambda>v. v\<lparr>dim := map_option f (dim v)\<rparr>)"

definition set_var :: "(id_var \<Rightarrow> id_var) \<Rightarrow> ptr \<Rightarrow> id_state \<Rightarrow> id_state" where
  "set_var f p = update_val p (\<lambda>v. v\<lparr>var := map_option f (var v)\<rparr>)"

text \<open>Reading a part through its pointer; \<open>None\<close> for a pointer that was not assigned.\<close>

definition the_nc :: "ptr option \<Rightarrow> id_state \<Rightarrow> (ptr \<times> id_nc) option" where
  "the_nc q s = do { p \<leftarrow> q; v \<leftarrow> heap s p; x \<leftarrow> nc v; Some (p, x) }"

definition the_dim :: "ptr option \<Rightarrow> id_state \<Rightarrow> (ptr \<times> id_dim) option" where
  "the_dim q s = do { p \<leftarrow> q; v \<leftarrow> heap s p; x \<leftarrow> dim v; Some (p, x) }"

definition the_var :: "ptr option \<Rightarrow> id_state \<Rightarrow> (ptr \<times> id_var) option" where
  "the_var q s = do { p \<leftarrow> q; v \<leftarrow> heap s p; x \<leftarrow> var v; Some (p, x) }"

section \<open>Definitions of files, dimensions and variables\<close>

text \<open>Each handler unpacks its message and then works on the values: \<open>io_create\<close> and so on.\<close>

definition io_create ::
    "'f pnetcdf \<Rightarrow> byte list \<Rightarrow> i32 \<Rightarrow> i32 \<Rightarrow> 'f server_state \<Rightarrow> (int \<times> 'f server_state) option" where
  "io_create P path cmode cnc s =
     do {
       (ret, q) \<leftarrow> cfio_id_get_nc cnc (ids s);
       if ret = CFIO_ID_HASH_GET_NULL then do {
         (ret, is') \<leftarrow> cfio_id_map_nc cnc CFIO_ID_NC_INVALID (ids s);
         let (ret, ncid, f) = ncmpi_create P path cmode (lib s);
         let s = s\<lparr>ids := is', lib := f\<rparr>;
         if ret \<noteq> NC_NOERR then Some (CFIO_ERROR_NC, s)
         else do {
           (ret, q) \<leftarrow> cfio_id_get_nc cnc (ids s);
           if ret = CFIO_ID_HASH_GET_NULL then Some (CFIO_ERROR_NONE, s)
           else do {
             (p, x) \<leftarrow> the_nc q (ids s);
             if nc_id x = CFIO_ID_NC_INVALID
             then Some (CFIO_ERROR_NONE, s\<lparr>ids := set_nc (\<lambda>x. x\<lparr>nc_id := ncid\<rparr>) p (ids s)\<rparr>)
             else None
           }
         }
       }
       else Some (CFIO_ERROR_NONE, s)
     }"

definition cfio_io_create ::
    "'f pnetcdf \<Rightarrow> map_state \<Rightarrow> cfio_msg \<Rightarrow> 'f server_state \<Rightarrow> (int \<times> 'f server_state) option" where
  "cfio_io_create P m msg s =
     do {
       ((path, cmode, cnc), r) \<leftarrow> cfio_recv_unpack_create m msg (rcv s);
       io_create P path cmode cnc (s\<lparr>rcv := r\<rparr>)
     }"

text \<open>The length travels as a \<open>size_t\<close> and is kept as an \<open>int\<close>.\<close>

definition io_def_dim ::
    "i32 \<Rightarrow> byte list \<Rightarrow> u64 \<Rightarrow> i32 \<Rightarrow> 'f server_state \<Rightarrow> (int \<times> 'f server_state) option" where
  "io_def_dim cnc name len cdim s =
     do {
       (ret, q) \<leftarrow> cfio_id_get_nc cnc (ids s);
       if ret = CFIO_ID_HASH_GET_NULL then Some (CFIO_ERROR_INVALID_NC, s)
       else do {
         (ret, q) \<leftarrow> cfio_id_get_dim cnc cdim (ids s);
         if ret = CFIO_ID_HASH_GET_NULL then do {
           (ret, is') \<leftarrow> cfio_id_map_dim cnc cdim CFIO_ID_NC_INVALID CFIO_ID_DIM_INVALID name (ucast len) (ids s);
           Some (CFIO_ERROR_NONE, s\<lparr>ids := is'\<rparr>)
         }
         else Some (CFIO_ERROR_NONE, s)
       }
     }"

definition cfio_io_def_dim ::
    "map_state \<Rightarrow> cfio_msg \<Rightarrow> 'f server_state \<Rightarrow> (int \<times> 'f server_state) option" where
  "cfio_io_def_dim m msg s =
     do {
       ((cnc, name, len, cdim), r) \<leftarrow> cfio_recv_unpack_def_dim m msg (rcv s);
       io_def_dim cnc name len cdim (s\<lparr>rcv := r\<rparr>)
     }"

fun dims_known :: "i32 \<Rightarrow> id_state \<Rightarrow> i32 list \<Rightarrow> bool option" where
  "dims_known cnc s [] = Some True"
| "dims_known cnc s (d # ds) =
     do {
       (ret, q) \<leftarrow> cfio_id_get_dim cnc d s;
       if ret = CFIO_ID_HASH_GET_NULL then Some False else dims_known cnc s ds
     }"

text \<open>The first \<open>n\<close> values of an array that a loop reads; \<open>None\<close> behind its end.\<close>

definition array_take :: "i32 \<Rightarrow> 'a list option \<Rightarrow> 'a list option" where
  "array_take n xs =
     (if sint n \<le> 0 then Some []
      else do { xs \<leftarrow> xs; if nat (sint n) \<le> length xs then Some (take (nat (sint n)) xs) else None })"

definition io_def_var ::
    "map_state \<Rightarrow> i32 \<Rightarrow> byte list \<Rightarrow> i32 \<Rightarrow> i32 \<Rightarrow> i32 list option \<Rightarrow> i32 \<Rightarrow> 'f server_state \<Rightarrow>
     (int \<times> 'f server_state) option" where
  "io_def_var m cnc name xtype n dimids cvar s =
     do {
       (ret, q) \<leftarrow> cfio_id_get_nc cnc (ids s);
       if ret = CFIO_ID_HASH_GET_NULL then Some (CFIO_ERROR_INVALID_NC, s)
       else do {
         ds \<leftarrow> array_take n dimids;
         known \<leftarrow> dims_known cnc (ids s) ds;
         if \<not> known then Some (CFIO_ERROR_INVALID_DIM, s)
         else do {
           (ret, q) \<leftarrow> cfio_id_get_var cnc cvar (ids s);
           if ret = CFIO_ID_HASH_GET_NULL then do {
             client_num \<leftarrow> cfio_map_get_client_num_of_server m (server_id (io s));
             (ret, is') \<leftarrow> cfio_id_map_var name cnc cvar CFIO_ID_NC_INVALID CFIO_ID_VAR_INVALID
                              n dimids xtype client_num (ids s);
             Some (CFIO_ERROR_NONE, s\<lparr>ids := is'\<rparr>)
           }
           else Some (CFIO_ERROR_NONE, s)
         }
       }
     }"

definition cfio_io_def_var ::
    "map_state \<Rightarrow> cfio_msg \<Rightarrow> 'f server_state \<Rightarrow> (int \<times> 'f server_state) option" where
  "cfio_io_def_var m msg s =
     do {
       ((cnc, name, xtype, n, dimids, cvar), r) \<leftarrow> cfio_recv_unpack_def_var m msg (rcv s);
       io_def_var m cnc name xtype n dimids cvar (s\<lparr>rcv := r\<rparr>)
     }"

section \<open>Attributes\<close>

text \<open>The switch over the type; a type without a case leaves \<open>ret\<close> as it was.\<close>

definition put_att_call ::
    "'f pnetcdf \<Rightarrow> i32 \<Rightarrow> i32 \<Rightarrow> byte list \<Rightarrow> i32 \<Rightarrow> i32 \<Rightarrow> i32 \<Rightarrow> byte list \<Rightarrow> int \<Rightarrow> 'f \<Rightarrow> int \<times> 'f" where
  "put_att_call P ncid varid name xtype code len data ret f =
     (case cfio_type_of xtype of
        Some CFIO_CHAR \<Rightarrow> ncmpi_put_att_text P ncid varid name len data f
      | Some CFIO_INT \<Rightarrow> ncmpi_put_att_int P ncid varid name code len data f
      | Some CFIO_FLOAT \<Rightarrow> ncmpi_put_att_float P ncid varid name code len data f
      | Some CFIO_DOUBLE \<Rightarrow> ncmpi_put_att_double P ncid varid name code len data f
      | _ \<Rightarrow> (ret, f))"

text \<open>What happens when the last client of the server has reported the attribute.\<close>

definition put_att_last ::
    "'f pnetcdf \<Rightarrow> i32 \<Rightarrow> i32 \<Rightarrow> byte list \<Rightarrow> i32 \<Rightarrow> i32 \<Rightarrow> byte list \<Rightarrow> ptr option \<Rightarrow> ptr \<Rightarrow> 'f server_state \<Rightarrow>
     (int \<times> 'f server_state) option" where
  "put_att_last P cnc cvar name xtype len data q info s =
     do {
       (ret, s) \<leftarrow>
         (if cvar = NC_GLOBAL then do {
            (p, x) \<leftarrow> the_nc q (ids s);
            let (ret, f) = put_att_call P (nc_id x) NC_GLOBAL name xtype xtype len data CFIO_ERROR_NONE (lib s);
            Some (if ret \<noteq> NC_NOERR then CFIO_ERROR_NC else CFIO_ERROR_NONE, s\<lparr>lib := f\<rparr>)
          }
          else do {
            (ret, is') \<leftarrow> cfio_id_put_att cnc cvar name xtype len data (ids s);
            Some (if ret = CFIO_ID_HASH_GET_NULL then CFIO_ERROR_INVALID_NC else CFIO_ERROR_NONE,
                  s\<lparr>ids := is'\<rparr>)
          });
       if ret \<noteq> CFIO_ERROR_NONE then Some (ret, s)
       else do {
         i \<leftarrow> remove_client_io info (io s);
         Some (CFIO_ERROR_NONE, s\<lparr>io := i\<rparr>)
       }
     }"

definition io_put_att ::
    "'f pnetcdf \<Rightarrow> map_state \<Rightarrow> int \<Rightarrow> i32 \<Rightarrow> i32 \<Rightarrow> byte list \<Rightarrow> i32 \<Rightarrow> i32 \<Rightarrow> byte list \<Rightarrow> 'f server_state \<Rightarrow>
     (int \<times> 'f server_state) option" where
  "io_put_att P m client_id cnc cvar name xtype len data s =
     do {
       (info, i) \<leftarrow> recv_client_io m client_id (FUNC_PUT_ATT, cnc, 0, cvar) (io s);
       let s = s\<lparr>io := i\<rparr>;
       (ret, q) \<leftarrow> cfio_id_get_nc cnc (ids s);
       if ret = CFIO_ID_HASH_GET_NULL then Some (CFIO_ERROR_INVALID_NC, s)
       else do {
         full \<leftarrow> io_full m info (io s);
         if full then put_att_last P cnc cvar name xtype len data q info s
         else Some (CFIO_ERROR_NONE, s)
       }
     }"

definition cfio_io_put_att ::
    "'f pnetcdf \<Rightarrow> map_state \<Rightarrow> cfio_msg \<Rightarrow> 'f server_state \<Rightarrow> (int \<times> 'f server_state) option" where
  "cfio_io_put_att P m msg s =
     do {
       ((cnc, cvar, name, xtype, len, data), r) \<leftarrow> cfio_recv_unpack_put_att m msg (rcv s);
       io_put_att P m (src msg) cnc cvar name xtype len data (s\<lparr>rcv := r\<rparr>)
     }"


section \<open>End of the definitions\<close>

text \<open>
  \<open>_handle_def\<close> defines one recorded dimension or variable in the library. In the loop over the
  dimension ids a lookup that fails leaves the pointer of the round before.
\<close>

fun resolve_dims :: "i32 \<Rightarrow> id_state \<Rightarrow> ptr option \<Rightarrow> i32 list \<Rightarrow> i32 list option" where
  "resolve_dims cnc s d0 [] = Some []"
| "resolve_dims cnc s d0 (x # xs) =
     do {
       (ret, q) \<leftarrow> cfio_id_get_dim cnc x s;
       let d0 = (if ret = CFIO_ID_HASH_GET_NULL then d0 else q);
       (p, d) \<leftarrow> the_dim d0 s;
       rest \<leftarrow> resolve_dims cnc s d0 xs;
       Some (dim_id d # rest)
     }"

fun put_atts :: "'f pnetcdf \<Rightarrow> i32 \<Rightarrow> i32 \<Rightarrow> id_att list \<Rightarrow> int \<Rightarrow> 'f \<Rightarrow> int \<times> 'f" where
  "put_atts P ncid varid [] ret f = (CFIO_ERROR_NONE, f)"
| "put_atts P ncid varid (att # atts) ret f =
     (let (ret, f) = put_att_call P ncid varid (att_name att) (att_xtype att)
                       (nc_type_code P (cfio_type_to_nc (att_xtype att))) (att_len att) (att_data att) ret f
      in if ret \<noteq> NC_NOERR then (CFIO_ERROR_NC, f) else put_atts P ncid varid atts ret f)"

definition handle_def :: "'f pnetcdf \<Rightarrow> ptr \<Rightarrow> 'f server_state \<Rightarrow> (int \<times> 'f server_state) option" where
  "handle_def P p s =
     do {
       val \<leftarrow> heap (ids s) p;
       case dim val of
         Some d \<Rightarrow> do {
           (ret, q) \<leftarrow> cfio_id_get_nc (client_nc_id val) (ids s);
           (np, x) \<leftarrow> the_nc q (ids s);
           if nc_id x = CFIO_ID_NC_INVALID then None
           else do {
             let (ret, new_id, f) = ncmpi_def_dim P (nc_id x) (dim_name d) (sint (global_dim_len d)) (lib s);
             let d = d\<lparr>dim_nc_id := nc_id x,
                       dim_id := (case new_id of None \<Rightarrow> dim_id d | Some i \<Rightarrow> i)\<rparr>;
             Some (CFIO_ERROR_NONE, s\<lparr>ids := set_dim (\<lambda>_. d) p (ids s), lib := f\<rparr>)
           }
         }
       | None \<Rightarrow> (case var val of
         Some v \<Rightarrow> do {
           old \<leftarrow> array_take (ndims v) (dim_ids v);
           new \<leftarrow> resolve_dims (client_nc_id val) (ids s) None old;
           (ret, q) \<leftarrow> cfio_id_get_nc (client_nc_id val) (ids s);
           (np, x) \<leftarrow> the_nc q (ids s);
           if nc_id x = CFIO_ID_NC_INVALID then None
           else do {
             let v = v\<lparr>dim_ids := map_option (\<lambda>all. new @ drop (length new) all) (dim_ids v),
                       var_nc_id := nc_id x\<rparr>;
             let (ret, new_id, f) = ncmpi_def_var P (nc_id x) (var_name v)
                   (nc_type_code P (cfio_type_to_nc (data_type v))) (ndims v) new (lib s);
             let v = v\<lparr>var_id := (case new_id of None \<Rightarrow> var_id v | Some i \<Rightarrow> i)\<rparr>;
             atts \<leftarrow> att_head v;
             let (ret, f) = put_atts P (nc_id x) (var_id v) atts ret f;
             Some (ret, s\<lparr>ids := set_var (\<lambda>_. v) p (ids s), lib := f\<rparr>)
           }
         }
       | None \<Rightarrow> Some (CFIO_ERROR_NC, s))
     }"

fun handle_defs :: "'f pnetcdf \<Rightarrow> ptr list \<Rightarrow> 'f server_state \<Rightarrow> (int \<times> 'f server_state) option" where
  "handle_defs P [] s = Some (CFIO_ERROR_NONE, s)"
| "handle_defs P (p # ps) s =
     do {
       (ret, s) \<leftarrow> handle_def P p s;
       if ret < 0 then Some (ret, s) else handle_defs P ps s
     }"

text \<open>What happens when the last client of the server has ended its definitions.\<close>

definition enddef_last ::
    "'f pnetcdf \<Rightarrow> i32 \<Rightarrow> ptr \<Rightarrow> 'f server_state \<Rightarrow> (int \<times> 'f server_state) option" where
  "enddef_last P cnc info s =
     do {
       (ret, q) \<leftarrow> cfio_id_get_nc cnc (ids s);
       if ret = CFIO_ID_HASH_GET_NULL then Some (CFIO_ERROR_INVALID_NC, s)
       else do {
         (p, x) \<leftarrow> the_nc q (ids s);
         (ret, s) \<leftarrow>
           (if nc_status x = DEFINE_MODE then do {
              (ret, vp) \<leftarrow> cfio_id_get_val cnc 0 0 (ids s);
              vp \<leftarrow> vp;
              val \<leftarrow> heap (ids s) vp;
              (ret, s) \<leftarrow> handle_defs P (children val) s;
              if ret < 0 then Some (ret, s)
              else do {
                let (ret, f) = ncmpi_enddef P (nc_id x) (lib s);
                let s = s\<lparr>lib := f\<rparr>;
                if ret < 0 then Some (CFIO_ERROR_NC, s)
                else Some (CFIO_ERROR_NONE,
                       s\<lparr>ids := set_nc (\<lambda>x. x\<lparr>nc_status := DATA_MODE\<rparr>) p (ids s)\<rparr>)
              }
            }
            else Some (CFIO_ERROR_NONE, s));
         if ret \<noteq> CFIO_ERROR_NONE then Some (ret, s)
         else do {
           i \<leftarrow> remove_client_io info (io s);
           Some (CFIO_ERROR_NONE, s\<lparr>io := i\<rparr>)
         }
       }
     }"

definition io_enddef ::
    "'f pnetcdf \<Rightarrow> map_state \<Rightarrow> int \<Rightarrow> i32 \<Rightarrow> 'f server_state \<Rightarrow> (int \<times> 'f server_state) option" where
  "io_enddef P m client_id cnc s =
     do {
       (info, i) \<leftarrow> recv_client_io m client_id (FUNC_NC_ENDDEF, cnc, 0, 0) (io s);
       let s = s\<lparr>io := i\<rparr>;
       full \<leftarrow> io_full m info (io s);
       if full then enddef_last P cnc info s else Some (CFIO_ERROR_NONE, s)
     }"

definition cfio_io_enddef ::
    "'f pnetcdf \<Rightarrow> map_state \<Rightarrow> cfio_msg \<Rightarrow> 'f server_state \<Rightarrow> (int \<times> 'f server_state) option" where
  "cfio_io_enddef P m msg s =
     do {
       (cnc, r) \<leftarrow> cfio_recv_unpack_enddef m msg (rcv s);
       io_enddef P m (src msg) cnc (s\<lparr>rcv := r\<rparr>)
     }"

section \<open>Writing a variable\<close>

text \<open>\<open>BYTE\<close> and \<open>CHAR\<close> have empty cases, and a type without a case leaves \<open>ret\<close> as well.\<close>

definition put_vara_call ::
    "'f pnetcdf \<Rightarrow> i32 \<Rightarrow> i32 \<Rightarrow> i32 \<Rightarrow> int list \<Rightarrow> int list \<Rightarrow> byte list \<Rightarrow> int \<Rightarrow> 'f \<Rightarrow> int \<times> 'f" where
  "put_vara_call P ncid varid type st ct data ret f =
     (case cfio_type_of type of
        Some CFIO_SHORT \<Rightarrow> ncmpi_put_vara_short_all P ncid varid st ct data f
      | Some CFIO_INT \<Rightarrow> ncmpi_put_vara_int_all P ncid varid st ct data f
      | Some CFIO_FLOAT \<Rightarrow> ncmpi_put_vara_float_all P ncid varid st ct data f
      | Some CFIO_DOUBLE \<Rightarrow> ncmpi_put_vara_double_all P ncid varid st ct data f
      | _ \<Rightarrow> (ret, f))"

definition mpi_offset :: "nat \<Rightarrow> int" where
  "mpi_offset n = sint (word_of_nat n :: 64 word)"

text \<open>
  \<open>junk\<close> is the content of the allocation for the merged data. \<open>ret\<close> still holds the answer of
  the unpacking, \<open>CFIO_ERROR_NONE\<close>, when the switch is reached. The library's status is
  assigned to \<open>return_code\<close>, which is overwritten before the return.
\<close>

definition io_put_vara ::
    "'f pnetcdf \<Rightarrow> (nat \<Rightarrow> byte) \<Rightarrow> map_state \<Rightarrow> int \<Rightarrow> i32 \<Rightarrow> i32 \<Rightarrow> i32 \<Rightarrow> u64 list \<Rightarrow> u64 list \<Rightarrow>
     byte list option \<Rightarrow> 'f server_state \<Rightarrow> (int \<times> 'f server_state) option" where
  "io_put_vara P junk m client_id cnc cvar n start count data s =
     do {
       (info, i) \<leftarrow> recv_client_io m client_id (FUNC_NC_PUT_VARA, cnc, 0, cvar) (io s);
       let s = s\<lparr>io := i\<rparr>;
       client_index \<leftarrow> cfio_map_get_client_index_of_server m client_id;
       (ret, is') \<leftarrow> cfio_id_put_var cnc cvar client_index start count data (ids s);
       let s = s\<lparr>ids := is'\<rparr>;
       if ret = CFIO_ID_HASH_GET_NULL then Some (CFIO_ERROR_INVALID_VAR, s)
       else do {
         full \<leftarrow> io_full m info (io s);
         if \<not> full then Some (CFIO_ERROR_NONE, s)
         else do {
           (ret, q) \<leftarrow> cfio_id_get_nc cnc (ids s);
           ncid \<leftarrow> (if ret = CFIO_ID_HASH_GET_NULL then Some CFIO_ID_NC_INVALID
                    else map_option (\<lambda>px. nc_id (snd px)) (the_nc q (ids s)));
           if ncid = CFIO_ID_NC_INVALID then Some (CFIO_ERROR_INVALID_NC, s)
           else do {
             (ret, q) \<leftarrow> cfio_id_get_var cnc cvar (ids s);
             if ret = CFIO_ID_HASH_GET_NULL then Some (CFIO_ERROR_INVALID_VAR, s)
             else do {
               (p, v) \<leftarrow> the_var q (ids s);
               if var_id v = CFIO_ID_VAR_INVALID then Some (CFIO_ERROR_INVALID_VAR, s)
               else if n \<noteq> ndims v then Some (CFIO_ERROR_WRONG_NDIMS, s)
               else do {
                 (st, ct, total, v) \<leftarrow> merge_var_data junk v;
                 let (ret, f) = put_vara_call P ncid (var_id v) (data_type v) (map mpi_offset st)
                                  (map mpi_offset ct) total CFIO_ERROR_NONE (lib s);
                 i \<leftarrow> remove_client_io info (io s);
                 Some (CFIO_ERROR_NONE, s\<lparr>ids := set_var (\<lambda>_. v) p (ids s), lib := f, io := i\<rparr>)
               }
             }
           }
         }
       }
     }"

definition cfio_io_put_vara ::
    "'f pnetcdf \<Rightarrow> (nat \<Rightarrow> byte) \<Rightarrow> map_state \<Rightarrow> cfio_msg \<Rightarrow> 'f server_state \<Rightarrow>
     (int \<times> 'f server_state) option" where
  "cfio_io_put_vara P junk m msg s =
     do {
       ((cnc, cvar, n, start, count, type, data), r) \<leftarrow> cfio_recv_unpack_put_vara m msg (rcv s);
       io_put_vara P junk m (src msg) cnc cvar n start count (map_option snd data) (s\<lparr>rcv := r\<rparr>)
     }"

section \<open>Closing a file\<close>

definition free_child :: "ptr \<Rightarrow> id_state \<Rightarrow> id_state" where
  "free_child p s = cfio_id_val_free p (s\<lparr>map_table := map_option (qhash_del p) (map_table s)\<rparr>)"

text \<open>What happens when the last client of the server has closed the file.\<close>

definition close_last ::
    "'f pnetcdf \<Rightarrow> i32 \<Rightarrow> ptr \<Rightarrow> 'f server_state \<Rightarrow> (int \<times> 'f server_state) option" where
  "close_last P cnc info s =
     do {
       (ret, q) \<leftarrow> cfio_id_get_nc cnc (ids s);
       if ret = CFIO_ID_HASH_GET_NULL then Some (CFIO_ERROR_INVALID_NC, s)
       else do {
         (p, x) \<leftarrow> the_nc q (ids s);
         let (ret, f) = ncmpi_close P (nc_id x) (lib s);
         let s = s\<lparr>lib := f\<rparr>;
         if ret \<noteq> NC_NOERR then Some (CFIO_ERROR_NC, s)
         else do {
           i \<leftarrow> remove_client_io info (io s);
           (ret, vp) \<leftarrow> cfio_id_get_val cnc 0 0 (ids s);
           vp \<leftarrow> vp;
           val \<leftarrow> heap (ids s) vp;
           let is' = fold free_child (children val) (ids s);
           Some (CFIO_ERROR_NONE, s\<lparr>ids := free_child vp is', io := i\<rparr>)
         }
       }
     }"

definition io_close ::
    "'f pnetcdf \<Rightarrow> map_state \<Rightarrow> int \<Rightarrow> i32 \<Rightarrow> 'f server_state \<Rightarrow> (int \<times> 'f server_state) option" where
  "io_close P m client_id cnc s =
     do {
       (info, i) \<leftarrow> recv_client_io m client_id (FUNC_NC_CLOSE, cnc, 0, 0) (io s);
       let s = s\<lparr>io := i\<rparr>;
       full \<leftarrow> io_full m info (io s);
       if full then close_last P cnc info s else Some (CFIO_ERROR_NONE, s)
     }"

definition cfio_io_close ::
    "'f pnetcdf \<Rightarrow> map_state \<Rightarrow> cfio_msg \<Rightarrow> 'f server_state \<Rightarrow> (int \<times> 'f server_state) option" where
  "cfio_io_close P m msg s =
     do {
       (cnc, r) \<leftarrow> cfio_recv_unpack_close m msg (rcv s);
       io_close P m (src msg) cnc (s\<lparr>rcv := r\<rparr>)
     }"

end
