(* ===== verification/IoCollective.thy ===== *)
theory IoCollective
  imports IoHandlers
begin

text \<open>
  What the handlers of \<open>IoHandlers\<close> do for a call that all clients of a server forward: the
  library is called once, when the last client has sent its part, with everybody's parts.
\<close>

section \<open>Values behind the keys\<close>

lemma id_put_var_found:
  assumes ok: "map_ok s" and e: "server_map s (c, 0, v) = Some val" "var val = Some x" "recv_data x = Some ds"
    and k: "k < length ds"
  shows "\<exists>s'. cfio_id_put_var c v (int k) start count data s = Some (CFIO_ERROR_NONE, s') \<and> map_ok s' \<and>
    server_map s' = (server_map s)((c, 0, v) \<mapsto> val\<lparr>var := Some (x\<lparr>recv_data := Some
      (ds[k := \<lparr>dbuf = data, dstart = Some start, dcount = Some count\<rparr>])\<rparr>)\<rparr>) \<and>
    server_entry s' = server_entry s"
proof -
  obtain p where p: "server_entry s (c, 0, v) = Some p" "heap s p = Some val"
    using server_entryE [OF ok e(1)] by blast
  let ?x = "x\<lparr>recv_data := Some (ds[k := \<lparr>dbuf = data, dstart = Some start, dcount = Some count\<rparr>])\<rparr>"
  let ?f = "\<lambda>val. val\<lparr>var := Some ?x\<rparr>"
  have "key_of (?f w) = key_of w" for w by (simp add: key_of_def)
  note u = server_update [OF ok p(1), of ?f, OF this]
  have "cfio_id_put_var c v (int k) start count data s = Some (CFIO_ERROR_NONE, update_val p ?f s)"
    using p e k by (simp add: cfio_id_put_var_def server_search [OF ok])
  with u e(1) show ?thesis by simp
qed

lemma get_nc_found:
  assumes "map_ok s" "server_map s (c, 0, 0) = Some val" "nc val = Some x"
  shows "\<exists>p. cfio_id_get_nc c s = Some (CFIO_ERROR_NONE, Some p) \<and> the_nc (Some p) s = Some (p, x) \<and>
    server_entry s (c, 0, 0) = Some p"
  using get_part_found [OF assms(1,2), of nc] assms(3) by (auto simp: cfio_id_get_nc_def the_nc_def)

lemma get_var_found:
  assumes "map_ok s" "server_map s (c, 0, v) = Some val" "var val = Some x"
  shows "\<exists>p. cfio_id_get_var c v s = Some (CFIO_ERROR_NONE, Some p) \<and> the_var (Some p) s = Some (p, x) \<and>
    server_entry s (c, 0, v) = Some p"
  using get_part_found [OF assms(1,2), of var] assms(3) by (auto simp: cfio_id_get_var_def the_var_def)

lemma set_var_server:
  assumes "map_ok s" "server_entry s k = Some p" "server_map s k = Some val" "var val = Some x"
  shows "map_ok (set_var f p s)" "server_map (set_var f p s) = (server_map s)(k \<mapsto> val\<lparr>var := Some (f x)\<rparr>)"
proof -
  have "key_of (w\<lparr>var := map_option f (var w)\<rparr>) = key_of w" for w by (simp add: key_of_def)
  note u = server_update [OF assms(1,2), of "\<lambda>w. w\<lparr>var := map_option f (var w)\<rparr>", OF this]
  show "map_ok (set_var f p s)" "server_map (set_var f p s) = (server_map s)(k \<mapsto> val\<lparr>var := Some (f x)\<rparr>)"
    using u assms(3,4) by (simp_all add: set_var_def)
qed

section \<open>A collective write\<close>

text \<open>The part of client number \<open>k\<close>: what its message carries.\<close>

record part =
  from_client :: int
  part_start :: "u64 list"
  part_count :: "u64 list"
  part_data :: "byte list option"

definition data_of :: "part \<Rightarrow> id_data" where
  "data_of b = \<lparr>dbuf = part_data b, dstart = Some (part_start b), dcount = Some (part_count b)\<rparr>"

abbreviation put_key :: "i32 \<Rightarrow> i32 \<Rightarrow> io_key" where
  "put_key c v \<equiv> (FUNC_NC_PUT_VARA, c, 0, v)"

text \<open>The state of the server between two parts: the file and the variable are defined in the
  library, and the clients in \<open>R\<close> have sent their part of the write.\<close>

definition collecting ::
    "map_state \<Rightarrow> nat \<Rightarrow> i32 \<Rightarrow> i32 \<Rightarrow> i32 \<Rightarrow> id_val \<Rightarrow> id_var \<Rightarrow> id_data list \<Rightarrow> nat set \<Rightarrow> 'f server_state \<Rightarrow> bool" where
  "collecting m n c v ncid val x ds R s \<longleftrightarrow>
     map_ok (ids s) \<and> v \<noteq> 0 \<and>
     (\<exists>f y. server_map (ids s) (c, 0, 0) = Some f \<and> nc f = Some y \<and> nc_id y = ncid) \<and> ncid \<noteq> CFIO_ID_NC_INVALID \<and>
     server_map (ids s) (c, 0, v) = Some val \<and> var val = Some x \<and> var_id x \<noteq> CFIO_ID_VAR_INVALID \<and>
     recv_data x = Some ds \<and> length ds = n \<and> io_ok n (io s) \<and> reported (io s) (put_key c v) = R"

text \<open>Recording the part of one client, in the table of requests and in the variable.\<close>

lemma put_vara_records:
  assumes col: "collecting m n c v ncid val x ds R s"
    and cl: "client_of m (server_id (io s)) n (from_client b) k"
  defines "x' \<equiv> x\<lparr>recv_data := Some (ds[k := data_of b])\<rparr>"
  obtains p i j where "recv_client_io m (from_client b) (put_key c v) (io s) = Some (p, i)" "io_ok n i"
    "server_id i = server_id (io s)" "pending i (put_key c v) = Some p"
    "reported i = (reported (io s))(put_key c v := insert k R)"
    "cfio_map_get_client_index_of_server m (from_client b) = Some (int k)"
    "cfio_id_put_var c v (int k) (part_start b) (part_count b) (part_data b) (ids s) = Some (CFIO_ERROR_NONE, j)"
    "map_ok j" "server_map j = (server_map (ids s))((c, 0, v) \<mapsto> val\<lparr>var := Some x'\<rparr>)"
    "io_full m p i = Some (insert k R = {..<n})"
proof -
  from col have ok: "map_ok (ids s)" and x: "server_map (ids s) (c, 0, v) = Some val" "var val = Some x"
      "recv_data x = Some ds" "length ds = n" and iok: "io_ok n (io s)" and R: "reported (io s) (put_key c v) = R"
    by (auto simp: collecting_def)
  have k: "k < length ds" and idx: "cfio_map_get_client_index_of_server m (from_client b) = Some (int k)"
    and num: "cfio_map_get_client_num_of_server m (server_id (io s)) = Some (int n)"
    using cl x(4) by (simp_all add: client_of_def)
  from recv_client_io_spec [OF iok cl] obtain p i where
    io: "recv_client_io m (from_client b) (put_key c v) (io s) = Some (p, i)" "io_ok n i"
      "server_id i = server_id (io s)" "pending i (put_key c v) = Some p"
      "reported i = (reported (io s))(put_key c v := insert k R)"
    using R by blast
  from id_put_var_found [OF ok x(1,2,3) k] obtain j where
    put: "cfio_id_put_var c v (int k) (part_start b) (part_count b) (part_data b) (ids s) = Some (CFIO_ERROR_NONE, j)"
      "map_ok j" "server_map j = (server_map (ids s))((c, 0, v) \<mapsto> val\<lparr>var := Some x'\<rparr>)"
    unfolding x'_def data_of_def by blast
  have "io_full m p i = Some (insert k R = {..<n})"
    using io_full_spec [OF io(2,4)] num io(3,5) by simp
  then show thesis by (rule that [OF io idx put])
qed

lemma put_vara_waits:
  assumes col: "collecting m n c v ncid val x ds R s"
    and cl: "client_of m (server_id (io s)) n (from_client b) k"
  defines "ds' \<equiv> ds[k := data_of b]" and "R' \<equiv> insert k R"
  defines "x' \<equiv> x\<lparr>recv_data := Some ds'\<rparr>"
  shows "R' \<noteq> {..<n} \<Longrightarrow>
      \<exists>s'. io_put_vara P junk m (from_client b) c v (ndims x) (part_start b) (part_count b) (part_data b) s =
          Some (CFIO_ERROR_NONE, s') \<and>
        collecting m n c v ncid (val\<lparr>var := Some x'\<rparr>) x' ds' R' s' \<and>
        server_map (ids s') = (server_map (ids s))((c, 0, v) \<mapsto> val\<lparr>var := Some x'\<rparr>) \<and>
        server_id (io s') = server_id (io s) \<and> lib s' = lib s \<and> rcv s' = rcv s"
proof -
  assume R: "R' \<noteq> {..<n}"
  obtain p i j where io: "recv_client_io m (from_client b) (put_key c v) (io s) = Some (p, i)" "io_ok n i"
      "server_id i = server_id (io s)" "pending i (put_key c v) = Some p" "reported i = (reported (io s))(put_key c v := R')"
    and idx: "cfio_map_get_client_index_of_server m (from_client b) = Some (int k)"
    and put: "cfio_id_put_var c v (int k) (part_start b) (part_count b) (part_data b) (ids s) = Some (CFIO_ERROR_NONE, j)"
      "map_ok j" "server_map j = (server_map (ids s))((c, 0, v) \<mapsto> val\<lparr>var := Some x'\<rparr>)"
    and full: "io_full m p i = Some (R' = {..<n})"
    unfolding R'_def x'_def ds'_def by (rule put_vara_records [OF col cl])
  have "io_put_vara P junk m (from_client b) c v (ndims x) (part_start b) (part_count b) (part_data b) s =
      Some (CFIO_ERROR_NONE, s\<lparr>io := i, ids := j\<rparr>)"
    using R by (simp add: io_put_vara_def io(1) idx put(1) full error_codes)
  moreover have "collecting m n c v ncid (val\<lparr>var := Some x'\<rparr>) x' ds' R' (s\<lparr>io := i, ids := j\<rparr>)"
    using col put(2,3) io(2,5) by (auto simp: collecting_def x'_def ds'_def)
  ultimately show ?thesis using put(3) io(3) by simp
qed

lemma put_vara_writes:
  assumes col: "collecting m n c v ncid val x ds R s"
    and cl: "client_of m (server_id (io s)) n (from_client b) k"
  defines "ds' \<equiv> ds[k := data_of b]" and "R' \<equiv> insert k R"
  defines "x' \<equiv> x\<lparr>recv_data := Some ds'\<rparr>"
  shows "R' = {..<n} \<Longrightarrow> merge_var_data junk x' = Some (st, ct, whole, x'') \<Longrightarrow>
      \<exists>s'. io_put_vara P junk m (from_client b) c v (ndims x) (part_start b) (part_count b) (part_data b) s =
          Some (CFIO_ERROR_NONE, s') \<and> map_ok (ids s') \<and> io_ok n (io s') \<and>
        server_map (ids s') = (server_map (ids s))((c, 0, v) \<mapsto> val\<lparr>var := Some x''\<rparr>) \<and>
        reported (io s') (put_key c v) = {} \<and> rcv s' = rcv s \<and>
        lib s' = snd (put_vara_call P ncid (var_id x'') (data_type x'') (map mpi_offset st)
                        (map mpi_offset ct) whole CFIO_ERROR_NONE (lib s))"
proof -
  assume R: "R' = {..<n}" and merged: "merge_var_data junk x' = Some (st, ct, whole, x'')"
  obtain p i j where io: "recv_client_io m (from_client b) (put_key c v) (io s) = Some (p, i)" "io_ok n i"
      "server_id i = server_id (io s)" "pending i (put_key c v) = Some p" "reported i = (reported (io s))(put_key c v := R')"
    and idx: "cfio_map_get_client_index_of_server m (from_client b) = Some (int k)"
    and put: "cfio_id_put_var c v (int k) (part_start b) (part_count b) (part_data b) (ids s) = Some (CFIO_ERROR_NONE, j)"
      "map_ok j" "server_map j = (server_map (ids s))((c, 0, v) \<mapsto> val\<lparr>var := Some x'\<rparr>)"
    and full: "io_full m p i = Some (R' = {..<n})"
    unfolding R'_def x'_def ds'_def by (rule put_vara_records [OF col cl])
  from col put(3) obtain f y where f': "server_map j (c, 0, 0) = Some f" and f: "nc f = Some y" "nc_id y = ncid"
    and nv: "ncid \<noteq> CFIO_ID_NC_INVALID" and x: "var_id x \<noteq> CFIO_ID_VAR_INVALID"
    by (auto simp: collecting_def)
  have x1: "server_map j (c, 0, v) = Some (val\<lparr>var := Some x'\<rparr>)" using put(3) by simp
  from get_nc_found [OF put(2) f' f(1)] obtain q where
    q: "cfio_id_get_nc c j = Some (CFIO_ERROR_NONE, Some q)" "the_nc (Some q) j = Some (q, y)" by blast
  from get_var_found [OF put(2) x1, of x'] obtain r where
    r: "cfio_id_get_var c v j = Some (CFIO_ERROR_NONE, Some r)" "the_var (Some r) j = Some (r, x')"
      "server_entry j (c, 0, v) = Some r" by auto
  from remove_client_io_spec [OF io(2,4)] obtain i' where
    i': "remove_client_io p i = Some i'" "io_ok n i'" "reported i' = (reported i)(put_key c v := {})" by blast
  from set_var_server [OF put(2) r(3) x1, of x' "\<lambda>_. x''"] have
    j': "map_ok (set_var (\<lambda>_. x'') r j)"
      "server_map (set_var (\<lambda>_. x'') r j) = (server_map (ids s))((c, 0, v) \<mapsto> val\<lparr>var := Some x''\<rparr>)"
    using put(3) by simp_all
  have xv: "var_id x' = var_id x" "ndims x' = ndims x" by (simp_all add: x'_def)
  have "io_put_vara P junk m (from_client b) c v (ndims x) (part_start b) (part_count b) (part_data b) s =
      Some (CFIO_ERROR_NONE, s\<lparr>ids := set_var (\<lambda>_. x'') r j, io := i',
        lib := snd (put_vara_call P ncid (var_id x'') (data_type x'') (map mpi_offset st)
                      (map mpi_offset ct) whole CFIO_ERROR_NONE (lib s))\<rparr>)"
    using R f(2) nv x by (simp add: io_put_vara_def io(1) idx put(1) full q r(1,2) merged i'(1)
        error_codes xv case_prod_unfold)
  then show ?thesis using j' i'(2,3) by simp
qed

lemmas put_vara_step = put_vara_waits put_vara_writes


text \<open>The messages of the clients arrive in the order \<open>ks\<close>; each is handled without an error.\<close>

fun put_all ::
    "'f pnetcdf \<Rightarrow> (nat \<Rightarrow> byte) \<Rightarrow> map_state \<Rightarrow> i32 \<Rightarrow> i32 \<Rightarrow> i32 \<Rightarrow> (nat \<Rightarrow> part) \<Rightarrow> nat list \<Rightarrow> 'f server_state \<Rightarrow>
     'f server_state option" where
  "put_all P junk m c v n B [] s = Some s"
| "put_all P junk m c v n B (k # ks) s =
     do {
       (ret, s) \<leftarrow> io_put_vara P junk m (from_client (B k)) c v n (part_start (B k)) (part_count (B k))
                    (part_data (B k)) s;
       if ret = CFIO_ERROR_NONE then put_all P junk m c v n B ks s else None
     }"

abbreviation gather :: "(nat \<Rightarrow> part) \<Rightarrow> nat list \<Rightarrow> id_data list \<Rightarrow> id_data list" where
  "gather B ks ds \<equiv> foldl (\<lambda>ds k. ds[k := data_of (B k)]) ds ks"

lemma gather_nth:
  "length (gather B ks ds) = length ds \<and>
   (\<forall>i < length ds. gather B ks ds ! i = (if i \<in> set ks then data_of (B i) else ds ! i))"
proof (induction ks arbitrary: ds)
  case (Cons k ks)
  have "gather B ks (ds[k := data_of (B k)]) ! i = (if i \<in> set (k # ks) then data_of (B i) else ds ! i)"
    if "i < length ds" for i
    using Cons.IH [of "ds[k := data_of (B k)]"] that by (cases "i = k") simp_all
  then show ?case using Cons.IH [of "ds[k := data_of (B k)]"] by simp
qed simp

lemma gather_all: "set ks = {..<length ds} \<Longrightarrow> gather B ks ds = map (\<lambda>k. data_of (B k)) [0 ..< length ds]"
  using gather_nth [of B ds ks] by (intro nth_equalityI) auto

lemma upd_twice:
  "y\<lparr>recv_data := a\<rparr>\<lparr>recv_data := b\<rparr> = y\<lparr>recv_data := b\<rparr>" "w\<lparr>var := a'\<rparr>\<lparr>var := b'\<rparr> = w\<lparr>var := b'\<rparr>"
  "ndims (y\<lparr>recv_data := a\<rparr>) = ndims y"
  by simp_all

lemma put_all_spec:
  assumes "collecting m n c v ncid val x ds R s" "distinct ks" "ks \<noteq> []" "set ks \<inter> R = {}"
    and "set ks \<union> R = {..<n}" "\<forall>k \<in> set ks. client_of m (server_id (io s)) n (from_client (B k)) k"
    and "merge_var_data junk (x\<lparr>recv_data := Some (gather B ks ds)\<rparr>) = Some (st, ct, whole, x'')"
  shows "\<exists>s'. put_all P junk m c v (ndims x) B ks s = Some s' \<and> map_ok (ids s') \<and> io_ok n (io s') \<and>
    server_map (ids s') = (server_map (ids s))((c, 0, v) \<mapsto> val\<lparr>var := Some x''\<rparr>) \<and>
    reported (io s') (put_key c v) = {} \<and> rcv s' = rcv s \<and>
    lib s' = snd (put_vara_call P ncid (var_id x'') (data_type x'') (map mpi_offset st)
                    (map mpi_offset ct) whole CFIO_ERROR_NONE (lib s))"
  using assms
proof (induction ks arbitrary: s R x ds val)
  case (Cons k ks)
  have cl: "client_of m (server_id (io s)) n (from_client (B k)) k" using Cons.prems(6) by simp
  note step = put_vara_step [OF Cons.prems(1) cl, where P = P and junk = junk]
  show ?case
  proof (cases "ks = []")
    case True
    then have "insert k R = {..<n}" using Cons.prems(5) by simp
    from step(2) [OF this] Cons.prems(7) True show ?thesis by auto
  next
    case False
    then obtain k' where "k' \<in> set ks" by (cases ks) auto
    then have "k' \<noteq> k" "k' \<notin> R" "k' < n" using Cons.prems(2,4,5) by auto
    then have "insert k R \<noteq> {..<n}" by blast
    from step(1) [OF this] obtain s1 where s1:
      "io_put_vara P junk m (from_client (B k)) c v (ndims x) (part_start (B k)) (part_count (B k)) (part_data (B k)) s =
         Some (CFIO_ERROR_NONE, s1)"
      and col: "collecting m n c v ncid (val\<lparr>var := Some (x\<lparr>recv_data := Some (ds[k := data_of (B k)])\<rparr>)\<rparr>)
        (x\<lparr>recv_data := Some (ds[k := data_of (B k)])\<rparr>) (ds[k := data_of (B k)]) (insert k R) s1"
      and same: "server_map (ids s1) = (server_map (ids s))((c, 0, v) \<mapsto>
          val\<lparr>var := Some (x\<lparr>recv_data := Some (ds[k := data_of (B k)])\<rparr>)\<rparr>)"
        "server_id (io s1) = server_id (io s)" "lib s1 = lib s" "rcv s1 = rcv s"
      by auto
    have "set ks \<inter> insert k R = {}" "set ks \<union> insert k R = {..<n}" "distinct ks"
      "\<forall>k \<in> set ks. client_of m (server_id (io s1)) n (from_client (B k)) k"
      using Cons.prems(2,4,5,6) same(2) by auto
    from Cons.IH [OF col this(3) False this(1,2,4)] Cons.prems(7)
    obtain s2 where s2: "put_all P junk m c v (ndims x) B ks s1 = Some s2" "map_ok (ids s2)" "io_ok n (io s2)"
      "server_map (ids s2) = (server_map (ids s1))((c, 0, v) \<mapsto> val\<lparr>var := Some x''\<rparr>)"
      "reported (io s2) (put_key c v) = {}" "rcv s2 = rcv s1"
      "lib s2 = snd (put_vara_call P ncid (var_id x'') (data_type x'') (map mpi_offset st)
                    (map mpi_offset ct) whole CFIO_ERROR_NONE (lib s1))"
      by (simp only: foldl_Cons upd_twice simp_thms True_implies_equals) (elim exE conjE, rule that)
    have "put_all P junk m c v (ndims x) B (k # ks) s = Some s2" using s1 s2(1) by simp
    moreover have "server_map (ids s2) = (server_map (ids s))((c, 0, v) \<mapsto> val\<lparr>var := Some x''\<rparr>)"
      unfolding s2(4) same(1) by (rule fun_upd_upd)
    ultimately show ?thesis using s2(2,3,5-7) same(3,4) by metis
  qed
qed simp



section \<open>An example\<close>

text \<open>A library that counts its calls, and four clients that each write one element of a row.\<close>

definition counting_library :: "nat pnetcdf" where
  "counting_library =
     \<lparr>ncmpi_create = \<lambda>path cmode f. (0, 9, f + 1),
      ncmpi_def_dim = \<lambda>nc name len f. (0, Some 1, f + 1),
      ncmpi_def_var = \<lambda>nc name type n ids f. (0, Some 1, f + 1),
      ncmpi_put_att_text = \<lambda>nc v name len d f. (0, f + 1),
      ncmpi_put_att_int = \<lambda>nc v name type len d f. (0, f + 1),
      ncmpi_put_att_float = \<lambda>nc v name type len d f. (0, f + 1),
      ncmpi_put_att_double = \<lambda>nc v name type len d f. (0, f + 1),
      ncmpi_enddef = \<lambda>nc f. (0, f + 1),
      ncmpi_put_vara_short_all = \<lambda>nc v st ct d f. (0, f + 1),
      ncmpi_put_vara_int_all = \<lambda>nc v st ct d f. (0, f + 1),
      ncmpi_put_vara_float_all = \<lambda>nc v st ct d f. (0, f + 1),
      ncmpi_put_vara_double_all = \<lambda>nc v st ct d f. (0, f + 1),
      ncmpi_close = \<lambda>nc f. (0, f + 1),
      nc_type_code = \<lambda>_. 0\<rparr>"

definition row_part :: "nat \<Rightarrow> part" where
  "row_part k = \<lparr>from_client = client_at map_4_6 0 (int k), part_start = [word_of_nat k], part_count = [1],
                 part_data = Some [1, 2, 3, 4]\<rparr>"

lemma row_client: "k < 4 \<Longrightarrow> client_of map_4_6 24 4 (from_client (row_part k)) k"
proof -
  assume k: "k < 4"
  have p: "px map_4_6 = 2" "py map_4_6 = 2" "server_amount map_4_6 = 6" "client_amount map_4_6 = 24"
    by (simp_all add: px_def py_def map_4_6_def)
  have "cfio_map_get_client_index_of_server map_4_6 (client_at map_4_6 0 (int k)) = Some (int k)"
    using client_at_server(2) [OF map_4_6_inv, of 0 "int k"] k p by simp
  moreover have "client_at map_4_6 0 (int k) < client_amount map_4_6"
    using client_at_coordinates(4) [OF map_4_6_inv, of 0 "int k"] k p by simp
  ultimately show ?thesis using client_of_4_6 k by (simp add: client_of_def row_part_def)
qed

definition row_var :: id_var where
  "row_var = the (var (var_val [120] 1 1 9 7 1 (Some [1]) 4 4))"

lemma row_var_fields:
  "var_id row_var = 7" "ndims row_var = 1" "var_client_num row_var = 4" "data_type row_var = cfio_type_code CFIO_INT"
  "recv_data row_var = Some (replicate 4 zero_data)" "var (var_val [120] 1 1 9 7 1 (Some [1]) 4 4) = Some row_var"
  by (simp_all add: row_var_def var_val_def)

lemma state_with_var:
  "\<exists>s f. map_ok s \<and> server_map s (1, 0, 0) = Some f \<and> nc f = Some \<lparr>nc_id = 9, nc_status = DEFINE_MODE\<rparr> \<and>
     server_map s (1, 0, 1) = Some (var_val [120] 1 1 9 7 1 (Some [1]) 4 4)"
proof -
  from map_nc_binds [OF id_state_0_ok(1), of 1 9] obtain s where s: "map_ok s"
    "server_map s = [(1, 0, 0) \<mapsto> nc_val 1 9]" by (auto simp: id_state_0_ok)
  then have "server_map s (1, 0, 0) = Some (nc_val 1 9)" "server_map s (1, 0, 1) = None" by simp_all
  from map_var_binds [OF s(1) this, of 4 "[120]" 9 7 1 "Some [1]" 4] show ?thesis
    by (fastforce simp: nc_val_def)
qed

lemma row_merge:
  "\<exists>whole x'. merge_var_data (\<lambda>_. 0) (row_var\<lparr>recv_data := Some (map (\<lambda>k. data_of (row_part k)) [0 ..< 4])\<rparr>) =
     Some ([0], [4], whole, x') \<and> data_type x' = cfio_type_code CFIO_INT"
proof -
  let ?ds = "map (\<lambda>k. data_of (row_part k)) [0 ..< 4]" and ?v = "row_var\<lparr>recv_data := Some (map (\<lambda>k. data_of (row_part k)) [0 ..< 4])\<rparr>"
  let ?B = "\<lambda>k :: nat. ([k], [1 :: nat])"
  have num: "nat (var_client_num ?v) = 4" "nat (sint (ndims ?v)) = 1" by (simp_all add: row_var_fields)
  have rd: "recv_data ?v = Some ?ds" by simp
  have ty: "cfio_types_size (data_type ?v) = Some 4"
    using cfio_types_size_code [of CFIO_INT] by (simp add: row_var_fields)
  have blocks: "\<forall>i < 4. block_of 1 (?ds ! i) = Some (?B i) \<and> small_block 1 (?B i) \<and> piece_ok 4 (?B i, dbuf (?ds ! i))"
    by (simp add: block_of_def data_of_def row_part_def small_block_def piece_ok_def unat_of_nat take_bit_eq_mod)
  have bs: "map ?B [0 ..< 4] = [([0], [1]), ([1], [1]), ([2], [1]), ([3], [1])]" by (simp add: upt_rec)
  have box: "box_start 1 (map ?B [0 ..< 4]) = [0]" "box_count 1 (map ?B [0 ..< 4]) = [4]"
    unfolding bs by (simp_all add: box_start_def box_count_def box_end_def)
  have sz: "0 < (4 :: nat)" "4 \<le> length ?ds" "4 * prod_list [4 :: nat] < 2 ^ 64" by simp_all
  from merge_blocks [of ?v ?ds 4 ?B _ _ _ "\<lambda>_. 0", unfolded num, OF rd sz(1,2) ty blocks refl refl refl, unfolded box, OF sz(3)]
  show ?thesis by (elim exE conjE) (simp add: row_var_fields)
qed


end
