(* ===== verification/IdTree.thy ===== *)
theory IdTree
  imports Ident
begin

text \<open>
  Files and their children in a table of identifiers: every entry belongs to a file of the
  table, and the list of a file holds exactly the entries of its dimensions and variables.
  The lemmas hold for the client's and the server's table.
\<close>

definition tree_ok :: "(id_state \<Rightarrow> ptr qhash_table option) \<Rightarrow> id_state \<Rightarrow> bool" where
  "tree_ok tbl s \<longleftrightarrow> tab_ok tbl s \<and>
     (\<forall>c d v. tab_map tbl s (c, d, v) \<noteq> None \<longrightarrow> tab_map tbl s (c, 0, 0) \<noteq> None) \<and>
     (\<forall>c f. tab_map tbl s (c, 0, 0) = Some f \<longrightarrow> distinct (children f) \<and>
        set (children f) = {p. \<exists>d v. tab_entry tbl s (c, d, v) = Some p \<and> (d, v) \<noteq> (0, 0)})"

definition forget :: "i32 \<Rightarrow> (id_key \<Rightarrow> 'a option) \<Rightarrow> id_key \<Rightarrow> 'a option" where
  "forget c m k = (if fst k = c then None else m k)"

context id_view
begin

lemma tree_tab: "tree_ok tbl s \<Longrightarrow> tab_ok tbl s"
  by (simp add: tree_ok_def)

lemma tree_file: "tree_ok tbl s \<Longrightarrow> tab_map tbl s (c, d, w) = Some v \<Longrightarrow> \<exists>f. tab_map tbl s (c, 0, 0) = Some f"
  unfolding tree_ok_def by blast

lemma tree_children:
  assumes "tree_ok tbl s" "tab_map tbl s (c, 0, 0) = Some f"
  shows "distinct (children f)"
    "set (children f) = {p. \<exists>d v. tab_entry tbl s (c, d, v) = Some p \<and> (d, v) \<noteq> (0, 0)}"
  using assms unfolding tree_ok_def by blast+

lemma tree_okI:
  assumes "tab_ok tbl s" "\<And>c d w v. tab_map tbl s (c, d, w) = Some v \<Longrightarrow> \<exists>f. tab_map tbl s (c, 0, 0) = Some f"
    and "\<And>c f. tab_map tbl s (c, 0, 0) = Some f \<Longrightarrow> distinct (children f)"
    and "\<And>c f. tab_map tbl s (c, 0, 0) = Some f \<Longrightarrow>
      set (children f) = {p. \<exists>d v. tab_entry tbl s (c, d, v) = Some p \<and> (d, v) \<noteq> (0, 0)}"
  shows "tree_ok tbl s"
  unfolding tree_ok_def using assms by blast

lemma entry_inj:
  assumes "tab_ok tbl s" "tab_entry tbl s k = Some p" "tab_entry tbl s k' = Some p"
  shows "k = k'"
  using entry_map [OF assms(1,2)] entry_map [OF assms(1,3)] by auto

lemma entry_less: "tab_ok tbl s \<Longrightarrow> tab_entry tbl s k = Some p \<Longrightarrow> p < brk s"
  by (auto simp: tab_ok_def tab_entry_def elim: entryD)

text \<open>A new file.\<close>

lemma tree_add_file:
  assumes ok: "tree_ok tbl s" and new: "tab_map tbl s (c, 0, 0) = None" and v: "children v = []"
    and s': "tab_ok tbl s'" "tab_map tbl s' = (tab_map tbl s)((c, 0, 0) := Some v)"
      "tab_entry tbl s' = (tab_entry tbl s)((c, 0, 0) := Some p)"
  shows "tree_ok tbl s'"
proof (rule tree_okI)
  have none: "tab_map tbl s (c, d, w) = None" for d w using tree_file [OF ok, of c d w] new by (cases "tab_map tbl s (c, d, w)") auto
  then have e: "tab_entry tbl s (c, d, w) = None" for d w using map_None tree_tab [OF ok] by blast
  fix c' d w v' assume m: "tab_map tbl s' (c', d, w) = Some v'"
  show "\<exists>f. tab_map tbl s' (c', 0, 0) = Some f"
  proof (cases "c' = c")
    case False
    then have "tab_map tbl s (c', d, w) = Some v'" using m s'(2) by simp
    then show ?thesis using tree_file [OF ok] False s'(2) by auto
  qed (simp add: s'(2))
next
  have none: "tab_map tbl s (c, d, w) = None" for d w using tree_file [OF ok, of c d w] new by (cases "tab_map tbl s (c, d, w)") auto
  then have e: "tab_entry tbl s (c, d, w) = None" for d w using map_None tree_tab [OF ok] by blast
  fix c' f assume f: "tab_map tbl s' (c', 0, 0) = Some f"
  have cases: "c' = c \<and> f = v \<or> c' \<noteq> c \<and> tab_map tbl s (c', 0, 0) = Some f" using f s'(2) by (auto split: if_splits)
  then show "distinct (children f)" using v tree_children(1) [OF ok] by auto
  from cases show "set (children f) = {p. \<exists>d v. tab_entry tbl s' (c', d, v) = Some p \<and> (d, v) \<noteq> (0, 0)}"
  proof (elim disjE conjE)
    assume "c' = c" "f = v"
    then show ?thesis using v e s'(3) by simp
  next
    assume "c' \<noteq> c" "tab_map tbl s (c', 0, 0) = Some f"
    then show ?thesis using tree_children(2) [OF ok, of c' f] s'(3) by simp
  qed
qed (rule s'(1))

text \<open>A new child.\<close>

lemma tree_add_child:
  assumes ok: "tree_ok tbl s" and f: "tab_map tbl s (c, 0, 0) = Some f"
    and new: "tab_map tbl s (c, d, w) = None" and p: "p = brk s"
    and s': "tab_ok tbl s'" "tab_entry tbl s' = (tab_entry tbl s)((c, d, w) := Some p)"
      "tab_map tbl s' = (tab_map tbl s)((c, d, w) := Some v, (c, 0, 0) := Some (g\<lparr>children := children f @ [p]\<rparr>))"
  shows "tree_ok tbl s'"
proof (rule tree_okI)
  fix c' d' w' v' assume m: "tab_map tbl s' (c', d', w') = Some v'"
  show "\<exists>f. tab_map tbl s' (c', 0, 0) = Some f"
  proof (cases "c' = c")
    case False
    then have "tab_map tbl s (c', d', w') = Some v'" using m s'(3) by simp
    then show ?thesis using tree_file [OF ok] False s'(3) by auto
  qed (simp add: s'(3))
next
  have ne: "(d, w) \<noteq> (0, 0)" using f new by auto
  have e: "tab_entry tbl s (c, d, w) = None" using map_None tree_tab [OF ok] new by blast
  have fresh: "tab_entry tbl s k \<noteq> Some p" for k
    using entry_less [OF tree_tab [OF ok], of k p] p by auto
  note old = tree_children [OF ok f]
  fix c' h assume h: "tab_map tbl s' (c', 0, 0) = Some h"
  have cases: "c' = c \<and> children h = children f @ [p] \<or> c' \<noteq> c \<and> tab_map tbl s (c', 0, 0) = Some h"
    using h s'(3) by (auto split: if_splits)
  moreover have "p \<notin> set (children f)" unfolding old(2) using fresh by auto
  ultimately show "distinct (children h)" using old(1) tree_children(1) [OF ok] by auto
  from cases show "set (children h) = {p. \<exists>d v. tab_entry tbl s' (c', d, v) = Some p \<and> (d, v) \<noteq> (0, 0)}"
  proof (elim disjE conjE)
    assume "c' = c" "children h = children f @ [p]"
    then have "set (children h) = insert p (set (children f))" by simp
    moreover have "{q. \<exists>d' v. tab_entry tbl s' (c, d', v) = Some q \<and> (d', v) \<noteq> (0, 0)} =
        insert p {q. \<exists>d' v. tab_entry tbl s (c, d', v) = Some q \<and> (d', v) \<noteq> (0, 0)}" (is "?l = ?r")
    proof (intro equalityI subsetI)
      fix q assume "q \<in> ?l"
      then obtain d' v where "tab_entry tbl s' (c, d', v) = Some q" "(d', v) \<noteq> (0, 0)" by blast
      moreover from this(1) have "q = p \<or> tab_entry tbl s (c, d', v) = Some q"
        using s'(2) by (auto split: if_splits)
      ultimately show "q \<in> ?r" by blast
    next
      fix q assume "q \<in> ?r"
      then consider "q = p" | d' v where "tab_entry tbl s (c, d', v) = Some q" "(d', v) \<noteq> (0, 0)" by blast
      then show "q \<in> ?l"
      proof cases
        case 1
        then have "tab_entry tbl s' (c, d, w) = Some q" using s'(2) by simp
        with ne show ?thesis by blast
      next
        case 2
        then have "tab_entry tbl s' (c, d', v) = Some q" using s'(2) e by auto
        with 2(2) show ?thesis by blast
      qed
    qed
    ultimately show ?thesis unfolding old(2) \<open>c' = c\<close> by simp
  next
    assume "c' \<noteq> c" "tab_map tbl s (c', 0, 0) = Some h"
    then show ?thesis using tree_children(2) [OF ok, of c' h] s'(2) by auto
  qed
qed (rule s'(1))

text \<open>Changes of values that keep their keys and their children.\<close>

lemma tree_cong:
  assumes ok: "tree_ok tbl s" and s': "tab_ok tbl s'" "tab_entry tbl s' = tab_entry tbl s"
    and ch: "\<And>k. map_option children (tab_map tbl s' k) = map_option children (tab_map tbl s k)"
  shows "tree_ok tbl s'"
proof -
  have old: "\<exists>h. tab_map tbl s k = Some h \<and> children g = children h" if "tab_map tbl s' k = Some g" for k g
    using ch [of k] that by (cases "tab_map tbl s k") auto
  show ?thesis
  proof (rule tree_okI)
    fix c d w v assume "tab_map tbl s' (c, d, w) = Some v"
    then obtain h where "tab_map tbl s (c, d, w) = Some h" using old by blast
    then obtain g where "tab_map tbl s (c, 0, 0) = Some g" using tree_file [OF ok] by blast
    then show "\<exists>g. tab_map tbl s' (c, 0, 0) = Some g" using ch [of "(c, 0, 0)"] by auto
  next
    fix c g assume "tab_map tbl s' (c, 0, 0) = Some g"
    from old [OF this] obtain h where h: "tab_map tbl s (c, 0, 0) = Some h" "children g = children h" by blast
    show "distinct (children g)" using tree_children(1) [OF ok h(1)] h(2) by simp
    show "set (children g) = {p'. \<exists>d v. tab_entry tbl s' (c, d, v) = Some p' \<and> (d, v) \<noteq> (0, 0)}"
      unfolding s'(2) h(2) by (rule tree_children(2) [OF ok h(1)])
  qed (rule s'(1))
qed

lemma tree_update:
  assumes ok: "tree_ok tbl s" and e: "tab_entry tbl s k = Some p"
    and f: "\<And>v. key_of (f v) = key_of v" "\<And>v. children (f v) = children v"
  shows "tree_ok tbl (update_val p f s)"
proof -
  note u = update [OF tree_tab [OF ok] e f(1)]
  show ?thesis
    by (rule tree_cong [OF ok u(1,2)]) (simp add: u(3) f(2) option.map_comp comp_def)
qed

text \<open>Entries that are dropped one after the other.\<close>

lemma drop_list:
  assumes step: "\<And>p s t. tbl s = Some t \<Longrightarrow> step p s = cfio_id_val_free p (put (qhash_del p t) s)"
    and ok: "tab_ok tbl s" "distinct ps" "\<forall>p \<in> set ps. \<exists>k. tab_entry tbl s k = Some p"
  shows "tab_ok tbl (fold step ps s) \<and>
    tab_entry tbl (fold step ps s) = (\<lambda>k. if tab_entry tbl s k \<in> Some ` set ps then None else tab_entry tbl s k) \<and>
    tab_map tbl (fold step ps s) = (\<lambda>k. if tab_entry tbl s k \<in> Some ` set ps then None else tab_map tbl s k)"
  using ok
proof (induction ps arbitrary: s)
  case (Cons p ps)
  from Cons.prems(1) obtain t where t: "tbl s = Some t" by (auto simp: tab_ok_def)
  from Cons.prems(3) obtain k where k: "tab_entry tbl s k = Some p" by auto
  note d = drop_entry [OF Cons.prems(1) k t, folded step [OF t]]
  have inj: "tab_entry tbl s k' = Some p \<longleftrightarrow> k' = k" for k' using entry_inj [OF Cons.prems(1)] k by blast
  have "\<exists>k'. tab_entry tbl (step p s) k' = Some q" if "q \<in> set ps" for q
  proof -
    obtain k' where "tab_entry tbl s k' = Some q" using Cons.prems(3) \<open>q \<in> set ps\<close> by auto
    moreover have "q \<noteq> p" using Cons.prems(2) that by auto
    moreover have "k' \<noteq> k" using calculation k by auto
    ultimately show ?thesis using d(2) by (intro exI [of _ k']) simp
  qed
  then have rest: "\<forall>q \<in> set ps. \<exists>k'. tab_entry tbl (step p s) k' = Some q" by blast
  have dist: "distinct ps" using Cons.prems(2) by simp
  note ih = Cons.IH [OF d(1) dist rest]
  have "tab_entry tbl (fold step (p # ps) s) k' =
      (if tab_entry tbl s k' \<in> Some ` set (p # ps) then None else tab_entry tbl s k')"
    "tab_map tbl (fold step (p # ps) s) k' =
      (if tab_entry tbl s k' \<in> Some ` set (p # ps) then None else tab_map tbl s k')" for k'
    using ih d(2,3) inj by auto
  with ih show ?case by (simp add: fun_eq_iff)
qed (auto simp: fun_eq_iff)

text \<open>A file is dropped after its children: every key of the file is gone, and no other.\<close>

lemma drop_file:
  assumes step: "\<And>p s t. tbl s = Some t \<Longrightarrow> step p s = cfio_id_val_free p (put (qhash_del p t) s)"
    and ok: "tree_ok tbl s" and f: "tab_map tbl s (c, 0, 0) = Some f" and p: "tab_entry tbl s (c, 0, 0) = Some p"
  defines "s' \<equiv> step p (fold step (children f) s)"
  shows "tree_ok tbl s'" "tab_map tbl s' = forget c (tab_map tbl s)" "tab_entry tbl s' = forget c (tab_entry tbl s)"
proof -
  note tab = tree_tab [OF ok]
  note ch = tree_children [OF ok f]
  have all_in: "\<forall>q \<in> set (children f). \<exists>k. tab_entry tbl s k = Some q" unfolding ch(2) by blast
  let ?cs = "fold step (children f) s"
  have dl: "tab_ok tbl ?cs"
    "tab_entry tbl ?cs = (\<lambda>k. if tab_entry tbl s k \<in> Some ` set (children f) then None else tab_entry tbl s k)"
    "tab_map tbl ?cs = (\<lambda>k. if tab_entry tbl s k \<in> Some ` set (children f) then None else tab_map tbl s k)"
    using drop_list [of step, OF step tab ch(1) all_in] by (simp_all only: simp_thms)
  have "p \<notin> set (children f)" using entry_inj [OF tab p] by (fastforce simp: ch(2))
  then have p1: "tab_entry tbl (fold step (children f) s) (c, 0, 0) = Some p" using dl(2) p by auto
  from dl(1) obtain t where t: "tbl (fold step (children f) s) = Some t" by (auto simp: tab_ok_def)
  have s': "s' = cfio_id_val_free p (put (qhash_del p t) (fold step (children f) s))"
    unfolding s'_def by (rule step [OF t])
  note de = drop_entry [OF dl(1) p1 t, folded s']
  have all: "tab_entry tbl s k \<in> Some ` set (children f) \<longleftrightarrow> (fst k = c \<and> k \<noteq> (c, 0, 0) \<and> tab_entry tbl s k \<noteq> None)" for k
  proof
    assume "tab_entry tbl s k \<in> Some ` set (children f)"
    then obtain q d v where "tab_entry tbl s k = Some q" "tab_entry tbl s (c, d, v) = Some q" "(d, v) \<noteq> (0, 0)"
      unfolding ch(2) by blast
    moreover from this(1,2) have "k = (c, d, v)" by (rule entry_inj [OF tab])
    ultimately show "fst k = c \<and> k \<noteq> (c, 0, 0) \<and> tab_entry tbl s k \<noteq> None" by simp
  next
    assume "fst k = c \<and> k \<noteq> (c, 0, 0) \<and> tab_entry tbl s k \<noteq> None"
    then show "tab_entry tbl s k \<in> Some ` set (children f)" unfolding ch(2) by (cases k) auto
  qed
  show en: "tab_entry tbl s' = forget c (tab_entry tbl s)"
  proof
    fix k
    have "tab_entry tbl s' k = (if k = (c, 0, 0) \<or> tab_entry tbl s k \<in> Some ` set (children f) then None else tab_entry tbl s k)"
      unfolding de(2) dl(2) by simp
    then show "tab_entry tbl s' k = forget c (tab_entry tbl s) k"
      using all [of k] by (cases "tab_entry tbl s k") (auto simp: forget_def)
  qed
  show mp: "tab_map tbl s' = forget c (tab_map tbl s)"
  proof
    fix k
    have "tab_map tbl s' k = (if k = (c, 0, 0) \<or> tab_entry tbl s k \<in> Some ` set (children f) then None else tab_map tbl s k)"
      unfolding de(3) dl(3) by simp
    then show "tab_map tbl s' k = forget c (tab_map tbl s) k"
      using all [of k] map_None [OF tab, of k] by (cases "tab_entry tbl s k") (auto simp: forget_def)
  qed
  show "tree_ok tbl s'"
  proof (rule tree_okI)
    fix c' d w v assume "tab_map tbl s' (c', d, w) = Some v"
    then have "c' \<noteq> c" "tab_map tbl s (c', d, w) = Some v" by (auto simp: mp forget_def split: if_splits)
    then show "\<exists>f. tab_map tbl s' (c', 0, 0) = Some f" using tree_file [OF ok] by (simp add: mp forget_def)
  next
    fix c' g assume "tab_map tbl s' (c', 0, 0) = Some g"
    then have g: "c' \<noteq> c" "tab_map tbl s (c', 0, 0) = Some g" by (auto simp: mp forget_def split: if_splits)
    show "distinct (children g)" by (rule tree_children(1) [OF ok g(2)])
    show "set (children g) = {p. \<exists>d v. tab_entry tbl s' (c', d, v) = Some p \<and> (d, v) \<noteq> (0, 0)}"
      using tree_children(2) [OF ok g(2)] g(1) by (simp add: en forget_def)
  qed (rule de(1))
qed

end

end
