(* ===== verification/IoBarrier.thy ===== *)
theory IoBarrier
  imports IoCollective IdTree
begin

text \<open>
  The calls that a server carries out once, when all its clients have made them: the end of the
  definitions, a close and an attribute. Their handlers share one shape, the locale
  \<open>barrier\<close>: report the client in the table of requests, and act only when the request is full.
\<close>

section \<open>The shape of a collective handler\<close>

text \<open>The calls of several clients, one after the other, up to the first error.\<close>

fun collect ::
    "(map_state \<Rightarrow> int \<Rightarrow> 's \<Rightarrow> (int \<times> 's) option) \<Rightarrow> map_state \<Rightarrow> int list \<Rightarrow> 's \<Rightarrow> (int \<times> 's) option" where
  "collect h m [] s = Some (CFIO_ERROR_NONE, s)"
| "collect h m (c # cs) s =
     do {
       (ret, s) \<leftarrow> h m c s;
       if ret \<noteq> CFIO_ERROR_NONE then Some (ret, s) else collect h m cs s
     }"

text \<open>A request that all clients of the server have reported, next to what was there before.\<close>

definition complete :: "nat \<Rightarrow> io_key \<Rightarrow> io_state \<Rightarrow> ptr \<Rightarrow> io_state \<Rightarrow> bool" where
  "complete n key i0 info i \<longleftrightarrow> io_ok n i \<and> server_id i = server_id i0 \<and> pending i key = Some info \<and>
     reported i = (reported i0)(key := {..<n})"

locale barrier =
  fixes handle :: "map_state \<Rightarrow> int \<Rightarrow> 'f server_state \<Rightarrow> (int \<times> 'f server_state) option"
    and key :: io_key
    and act :: "ptr \<Rightarrow> 'f server_state \<Rightarrow> (int \<times> 'f server_state) option"
    and ready :: "'f server_state \<Rightarrow> bool"
  assumes handle_eq: "ready s \<Longrightarrow> handle m c s =
      do {
        (info, i) \<leftarrow> recv_client_io m c key (io s);
        full \<leftarrow> io_full m info i;
        if full then act info (s\<lparr>io := i\<rparr>) else Some (CFIO_ERROR_NONE, s\<lparr>io := i\<rparr>)
      }"
    and ready_io: "ready s \<Longrightarrow> ready (s\<lparr>io := i\<rparr>)"
begin

lemma report:
  assumes "ready s" "io_ok n (io s)" "client_of m (server_id (io s)) n c k"
  defines "R \<equiv> insert k (reported (io s) key)"
  shows "\<exists>info i. io_ok n i \<and> server_id i = server_id (io s) \<and> pending i key = Some info \<and>
    reported i = (reported (io s))(key := R) \<and>
    handle m c s = (if R = {..<n} then act info (s\<lparr>io := i\<rparr>) else Some (CFIO_ERROR_NONE, s\<lparr>io := i\<rparr>))"
proof -
  from recv_client_io_spec [OF assms(2,3)] obtain info i where
    i: "recv_client_io m c key (io s) = Some (info, i)" "io_ok n i" "server_id i = server_id (io s)"
      "pending i key = Some info" "reported i = (reported (io s))(key := R)"
    unfolding R_def by blast
  have num: "cfio_map_get_client_num_of_server m (server_id i) = Some (int n)"
    using assms(3) i(3) by (simp add: client_of_def)
  have "io_full m info i = Some (R = {..<n})" using io_full_spec [OF i(2,4) num] i(5) by simp
  then have "handle m c s = (if R = {..<n} then act info (s\<lparr>io := i\<rparr>) else Some (CFIO_ERROR_NONE, s\<lparr>io := i\<rparr>))"
    using handle_eq [OF assms(1)] i(1) by simp
  with i(2-5) show ?thesis by blast
qed

lemma report_all:
  assumes "ready s" "io_ok n (io s)" "\<And>k. k < n \<Longrightarrow> client_of m (server_id (io s)) n (C k) k"
    and "reported (io s) key = R" "R \<inter> set ks = {}" "R \<union> set ks = {..<n}" "distinct ks" "ks \<noteq> []"
  shows "\<exists>info i. complete n key (io s) info i \<and> collect handle m (map C ks) s = act info (s\<lparr>io := i\<rparr>)"
  using assms
proof (induction ks arbitrary: s R)
  case (Cons k ks)
  then have k: "k < n" by auto
  from report [OF Cons.prems(1,2) Cons.prems(3) [OF k]] obtain info i where
    i: "io_ok n i" "server_id i = server_id (io s)" "pending i key = Some info"
      "reported i = (reported (io s))(key := insert k R)"
    and h: "handle m (C k) s = (if insert k R = {..<n} then act info (s\<lparr>io := i\<rparr>)
        else Some (CFIO_ERROR_NONE, s\<lparr>io := i\<rparr>))"
    using Cons.prems(4) by blast
  show ?case
  proof (cases "ks = []")
    case True
    then have full: "insert k R = {..<n}" using Cons.prems(6) by auto
    have "complete n key (io s) info i" using i full by (simp add: complete_def)
    moreover have "handle m (C k) s = act info (s\<lparr>io := i\<rparr>)" using h unfolding full by simp
    then have "collect handle m (map C (k # ks)) s = act info (s\<lparr>io := i\<rparr>)"
      using True by (cases "act info (s\<lparr>io := i\<rparr>)") auto
    ultimately show ?thesis by blast
  next
    case False
    then obtain k' where k': "k' \<in> set ks" by (cases ks) auto
    then have "k' \<in> {..<n}" using Cons.prems(6) by auto
    moreover have "k' \<notin> insert k R" using Cons.prems(5,7) k' by auto
    ultimately have "insert k R \<noteq> {..<n}" by blast
    then have step: "collect handle m (map C (k # ks)) s = collect handle m (map C ks) (s\<lparr>io := i\<rparr>)"
      using h by simp
    have "\<exists>info i'. complete n key (io (s\<lparr>io := i\<rparr>)) info i' \<and>
        collect handle m (map C ks) (s\<lparr>io := i\<rparr>) = act info ((s\<lparr>io := i\<rparr>)\<lparr>io := i'\<rparr>)"
    proof (rule Cons.IH)
      show "ready (s\<lparr>io := i\<rparr>)" by (rule ready_io [OF Cons.prems(1)])
      show "reported (io (s\<lparr>io := i\<rparr>)) key = insert k R" using i(4) by simp
      show "insert k R \<inter> set ks = {}" "insert k R \<union> set ks = {..<n}" using Cons.prems(5-7) by auto
    qed (use i Cons.prems False in simp_all)
    then obtain info' i' where "complete n key i info' i'"
      "collect handle m (map C ks) (s\<lparr>io := i\<rparr>) = act info' (s\<lparr>io := i'\<rparr>)"
      by auto
    moreover from this(1) have "complete n key (io s) info' i'" using i(2,4) by (simp add: complete_def)
    ultimately show ?thesis using step by auto
  qed
qed simp

text \<open>All clients make the call, in any order: the server acts once.\<close>

lemma once:
  assumes "ready s" "io_ok n (io s)" "\<And>k. k < n \<Longrightarrow> client_of m (server_id (io s)) n (C k) k" "0 < n"
    and "reported (io s) key = {}" "set ks = {..<n}" "distinct ks"
  shows "\<exists>info i. complete n key (io s) info i \<and> collect handle m (map C ks) s = act info (s\<lparr>io := i\<rparr>)"
  using report_all [OF assms(1-3,5), of ks] assms(4,6,7) by fastforce

end

text \<open>The request is removed after a successful call.\<close>

lemma complete_remove:
  assumes "complete n key i0 info i" "reported i0 key = {}"
  shows "\<exists>i'. remove_client_io info i = Some i' \<and> io_ok n i' \<and> server_id i' = server_id i0 \<and> reported i' = reported i0"
proof -
  from assms obtain i' where "remove_client_io info i = Some i'" "io_ok n i'" "server_id i' = server_id i"
    "reported i' = (reported i)(key := {})"
    using remove_client_io_spec [of n i key info] by (auto simp: complete_def)
  moreover have "(reported i)(key := {}) = reported i0" using assms by (auto simp: complete_def fun_eq_iff)
  ultimately show ?thesis using assms(1) by (auto simp: complete_def)
qed

interpretation enddef: barrier "\<lambda>m c. io_enddef P m c cnc" "(FUNC_NC_ENDDEF, cnc, 0, 0)"
    "enddef_last P cnc" "\<lambda>_. True" for P :: "'f pnetcdf" and cnc
  by unfold_locales (simp_all add: io_enddef_def Let_def)

interpretation close: barrier "\<lambda>m c. io_close P m c cnc" "(FUNC_NC_CLOSE, cnc, 0, 0)"
    "close_last P cnc" "\<lambda>_. True" for P :: "'f pnetcdf" and cnc
  by unfold_locales (simp_all add: io_close_def Let_def)

text \<open>An attribute asks for the file first, so its handler has the shape while the file is open.\<close>

definition put_att_act ::
    "'f pnetcdf \<Rightarrow> i32 \<Rightarrow> i32 \<Rightarrow> byte list \<Rightarrow> i32 \<Rightarrow> i32 \<Rightarrow> byte list \<Rightarrow> ptr \<Rightarrow> 'f server_state \<Rightarrow>
     (int \<times> 'f server_state) option" where
  "put_att_act P cnc cvar name xtype len data info s =
     do { (ret, q) \<leftarrow> cfio_id_get_nc cnc (ids s); put_att_last P cnc cvar name xtype len data q info s }"

definition file_open :: "i32 \<Rightarrow> id_state \<Rightarrow> bool" where
  "file_open cnc s \<longleftrightarrow> map_ok s \<and> (\<exists>f. server_map s (cnc, 0, 0) = Some f \<and> nc f \<noteq> None)"

lemma file_openD:
  assumes "file_open cnc s"
  obtains p f x where "server_map s (cnc, 0, 0) = Some f" "nc f = Some x" "server_entry s (cnc, 0, 0) = Some p"
    "heap s p = Some f" "cfio_id_get_nc cnc s = Some (CFIO_ERROR_NONE, Some p)" "the_nc (Some p) s = Some (p, x)"
proof -
  from assms obtain f x where f: "map_ok s" "server_map s (cnc, 0, 0) = Some f" "nc f = Some x"
    by (auto simp: file_open_def)
  from get_nc_found [OF f] obtain p where p: "cfio_id_get_nc cnc s = Some (CFIO_ERROR_NONE, Some p)"
    "the_nc (Some p) s = Some (p, x)" "server_entry s (cnc, 0, 0) = Some p" by blast
  moreover have "heap s p = Some f" using server_entryE [OF f(1,2)] p(3) by (metis option.inject)
  ultimately show thesis using f that by blast
qed

lemma put_att_shape:
  assumes "file_open cnc (ids s)"
  shows "io_put_att P m c cnc cvar name xtype len data s =
      do {
        (info, i) \<leftarrow> recv_client_io m c (FUNC_PUT_ATT, cnc, 0, cvar) (io s);
        full \<leftarrow> io_full m info i;
        if full then put_att_act P cnc cvar name xtype len data info (s\<lparr>io := i\<rparr>)
        else Some (CFIO_ERROR_NONE, s\<lparr>io := i\<rparr>)
      }"
proof -
  obtain p where p: "cfio_id_get_nc cnc (ids s) = Some (CFIO_ERROR_NONE, Some p)"
    by (rule file_openD [OF assms])
  have ne: "CFIO_ERROR_NONE \<noteq> CFIO_ID_HASH_GET_NULL" by (simp add: error_codes)
  show ?thesis by (simp add: io_put_att_def put_att_act_def p ne Let_def cong: if_cong)
qed

interpretation put_att: barrier "\<lambda>m c. io_put_att P m c cnc cvar name xtype len data"
    "(FUNC_PUT_ATT, cnc, 0, cvar)" "put_att_act P cnc cvar name xtype len data" "\<lambda>s. file_open cnc (ids s)"
    for P :: "'f pnetcdf" and cnc cvar name xtype len data
  by unfold_locales (simp_all add: put_att_shape)

end
