(* ===== verification/IoFiles.thy ===== *)
theory IoFiles
  imports IoBarrier
begin

text \<open>
  The end of the definitions of a file and its closing. \<open>define_all\<close> says what a file's list of
  definitions means for the library: each dimension and each variable is defined once, in the
  order in which the server recorded them, with the library's identifiers of the dimensions in
  the place of the client's. \<open>handle_defs\<close> does the same on the table of identifiers.
\<close>

section \<open>Closing a file\<close>

lemmas tree_map_ok = server.tree_tab [folded map_ok_def]
lemmas tree_server_update = server.tree_update [folded server_defs]
lemmas tree_server_children = server.tree_children [folded server_defs]
lemmas drop_server_file = server.drop_file [folded server_defs]

lemma free_child_step: "map_table s = Some t \<Longrightarrow>
    free_child p s = cfio_id_val_free p (s\<lparr>map_table := Some (qhash_del p t)\<rparr>)"
  by (simp add: free_child_def)

lemma get_val_found:
  assumes "map_ok s" "server_entry s (c, d, v) = Some p"
  shows "cfio_id_get_val c v d s = Some (CFIO_ERROR_NONE, Some p)"
  by (simp add: cfio_id_get_val_def server_search [OF assms(1)] assms(2))

lemma close_last_frees:
  assumes tree: "tree_ok map_table (ids s)" and f: "server_map (ids s) (c, 0, 0) = Some f" "nc f = Some x"
    and info: "remove_client_io info (io s) = Some i"
    and lib: "ncmpi_close P (nc_id x) (lib s) = (NC_NOERR, l)"
  shows "\<exists>s'. close_last P c info s = Some (CFIO_ERROR_NONE, s') \<and> tree_ok map_table (ids s') \<and>
    server_map (ids s') = forget c (server_map (ids s)) \<and> io s' = i \<and> lib s' = l \<and> rcv s' = rcv s"
proof -
  note ok = tree_map_ok [OF tree]
  have op: "file_open c (ids s)" using ok f by (simp add: file_open_def)
  obtain p f' x' where p': "server_map (ids s) (c, 0, 0) = Some f'" "nc f' = Some x'"
    "server_entry (ids s) (c, 0, 0) = Some p" "heap (ids s) p = Some f'"
    "cfio_id_get_nc c (ids s) = Some (CFIO_ERROR_NONE, Some p)" "the_nc (Some p) (ids s) = Some (p, x')"
    by (rule file_openD [OF op])
  with f have eq: "f' = f" "x' = x" by auto
  let ?is = "free_child p (fold free_child (children f) (ids s))"
  have d: "tree_ok map_table ?is" "server_map ?is = forget c (server_map (ids s))"
    using drop_server_file [of free_child, OF free_child_step tree f(1) p'(3)] by (simp_all only: simp_thms)
  have "close_last P c info s = Some (CFIO_ERROR_NONE, s\<lparr>lib := l, ids := ?is, io := i\<rparr>)"
    using p' eq lib info by (simp add: close_last_def error_codes get_val_found [OF ok p'(3)])
  then show ?thesis using d by simp
qed


text \<open>C11. When all clients of the server have closed a file, in any order, the library closes it
  once. If the library succeeds, the file, its dimensions and its variables are gone from the
  table, the other files are as they were, the table is still a well formed tree and the request
  is removed; if it fails, the last client gets the error and no identifier is lost.\<close>

theorem close_collective:
  assumes "tree_ok map_table (ids s)" "server_map (ids s) (c, 0, 0) = Some f" "nc f = Some x"
    and "io_ok n (io s)" "reported (io s) (FUNC_NC_CLOSE, c, 0, 0) = {}"
    and "\<And>k. k < n \<Longrightarrow> client_of m (server_id (io s)) n (C k) k" "0 < n" "set ks = {..<n}" "distinct ks"
    and "ncmpi_close P (nc_id x) (lib s) = (r, l)"
  shows "\<exists>s'. collect (\<lambda>m c'. io_close P m c' c) m (map C ks) s =
      Some (if r = NC_NOERR then CFIO_ERROR_NONE else CFIO_ERROR_NC, s') \<and>
    lib s' = l \<and> io_ok n (io s') \<and> tree_ok map_table (ids s') \<and>
    (if r = NC_NOERR then server_map (ids s') = forget c (server_map (ids s)) \<and> reported (io s') = reported (io s)
     else ids s' = ids s)"
proof -
  have "\<exists>info i. complete n (FUNC_NC_CLOSE, c, 0, 0) (io s) info i \<and>
      collect (\<lambda>m c'. io_close P m c' c) m (map C ks) s = close_last P c info (s\<lparr>io := i\<rparr>)"
    by (rule close.once) (use assms in simp_all)
  then obtain info i where i: "complete n (FUNC_NC_CLOSE, c, 0, 0) (io s) info i"
      "collect (\<lambda>m c'. io_close P m c' c) m (map C ks) s = close_last P c info (s\<lparr>io := i\<rparr>)"
    by blast
  show ?thesis
  proof (cases "r = NC_NOERR")
    case True
    from complete_remove [OF i(1) assms(5)] obtain i' where i': "remove_client_io info i = Some i'"
      "io_ok n i'" "reported i' = reported (io s)" by blast
    from close_last_frees [of "s\<lparr>io := i\<rparr>" c f x info i' P l] assms(1-3,10) i'(1) True show ?thesis
      unfolding i(2) using i'(2,3) True by auto
  next
    case False
    have "file_open c (ids s)" using assms(2,3) tree_map_ok [OF assms(1)] by (simp add: file_open_def)
    then obtain p f' x' where "server_map (ids s) (c, 0, 0) = Some f'" "nc f' = Some x'"
      "cfio_id_get_nc c (ids s) = Some (CFIO_ERROR_NONE, Some p)" "the_nc (Some p) (ids s) = Some (p, x')"
      by (rule file_openD)
    then have "close_last P c info (s\<lparr>io := i\<rparr>) = Some (CFIO_ERROR_NC, s\<lparr>io := i, lib := l\<rparr>)"
      using assms(2,3,10) False by (simp add: close_last_def error_codes)
    then show ?thesis unfolding i(2) using i(1) assms(1) False by (simp add: complete_def)
  qed
qed


section \<open>The definitions of a file\<close>

datatype file_def =
  Dim_def i32 "byte list" i32
| Var_def i32 "byte list" i32 i32 "i32 list" "id_att list"

definition def_of :: "id_val \<Rightarrow> file_def" where
  "def_of w = (case dim w of
     Some d \<Rightarrow> Dim_def (client_dim_id w) (dim_name d) (global_dim_len d)
   | None \<Rightarrow> (case var w of
       Some x \<Rightarrow> Var_def (client_var_id w) (var_name x) (data_type x) (ndims x)
         (the (array_take (ndims x) (dim_ids x))) (the (att_head x))
     | None \<Rightarrow> undefined))"

text \<open>The library's identifiers of the dimensions and variables of a file, by the client's.\<close>

type_synonym lib_ids = "(i32 \<Rightarrow> i32) \<times> (i32 \<Rightarrow> i32)"

fun define_all ::
    "'f pnetcdf \<Rightarrow> i32 \<Rightarrow> file_def list \<Rightarrow> lib_ids \<Rightarrow> 'f \<Rightarrow> int \<times> lib_ids \<times> 'f" where
  "define_all P ncid [] L f = (CFIO_ERROR_NONE, L, f)"
| "define_all P ncid (Dim_def d name len # ds) L f =
     (let (ret, new, f) = ncmpi_def_dim P ncid name (sint len) f;
          i = (case new of None \<Rightarrow> fst L d | Some i \<Rightarrow> i)
      in define_all P ncid ds ((fst L)(d := i), snd L) f)"
| "define_all P ncid (Var_def v name type n dims atts # ds) L f =
     (let (ret, new, f) = ncmpi_def_var P ncid name (nc_type_code P (cfio_type_to_nc type)) n (map (fst L) dims) f;
          i = (case new of None \<Rightarrow> snd L v | Some i \<Rightarrow> i);
          L = (fst L, (snd L)(v := i));
          (ret, f) = put_atts P ncid i atts ret f
      in if ret < 0 then (ret, L, f) else define_all P ncid ds L f)"

text \<open>Where the table keeps these identifiers.\<close>

definition dim_at :: "(id_key \<Rightarrow> id_val option) \<Rightarrow> i32 \<Rightarrow> i32 \<Rightarrow> id_dim option" where
  "dim_at m c d = Option.bind (m (c, d, 0)) dim"

definition var_at :: "(id_key \<Rightarrow> id_val option) \<Rightarrow> i32 \<Rightarrow> i32 \<Rightarrow> id_var option" where
  "var_at m c v = Option.bind (m (c, 0, v)) var"

definition lib_ids :: "(id_key \<Rightarrow> id_val option) \<Rightarrow> i32 \<Rightarrow> lib_ids" where
  "lib_ids m c =
     (\<lambda>d. case dim_at m c d of Some x \<Rightarrow> dim_id x | None \<Rightarrow> CFIO_ID_DIM_INVALID,
      \<lambda>v. case var_at m c v of Some x \<Rightarrow> var_id x | None \<Rightarrow> CFIO_ID_VAR_INVALID)"

text \<open>A child of a file that can be defined: a dimension under the key of a dimension, or a
  variable with its attributes and with dimensions that the server knows.\<close>

definition definable :: "(id_key \<Rightarrow> id_val option) \<Rightarrow> i32 \<Rightarrow> i32 \<Rightarrow> i32 \<Rightarrow> id_val \<Rightarrow> bool" where
  "definable m c d v w \<longleftrightarrow>
     v = 0 \<and> d \<noteq> 0 \<and> dim w \<noteq> None \<or>
     d = 0 \<and> v \<noteq> 0 \<and> dim w = None \<and> (\<exists>x atts old. var w = Some x \<and> att_head x = Some atts \<and>
       array_take (ndims x) (dim_ids x) = Some old \<and> (\<forall>d \<in> set old. dim_at m c d \<noteq> None))"

lemma known_dim:
  assumes "map_ok s" "dim_at (server_map s) c d = Some x"
  shows "\<exists>p. cfio_id_get_dim c d s = Some (CFIO_ERROR_NONE, Some p) \<and> the_dim (Some p) s = Some (p, x)"
proof -
  from assms(2) obtain w where w: "server_map s (c, d, 0) = Some w" "dim w = Some x"
    by (auto simp: dim_at_def bind_eq_Some_conv)
  from get_part_found [OF assms(1) w(1), of dim] w(2) show ?thesis
    by (auto simp: cfio_id_get_dim_def the_dim_def)
qed

lemma resolve_known:
  assumes "map_ok s" "\<forall>d \<in> set ds. dim_at (server_map s) c d \<noteq> None"
  shows "resolve_dims c s d0 ds = Some (map (fst (lib_ids (server_map s) c)) ds)"
  using assms(2)
proof (induction ds arbitrary: d0)
  case (Cons d ds)
  then obtain x where x: "dim_at (server_map s) c d = Some x" by auto
  from known_dim [OF assms(1) x] obtain p where
    p: "cfio_id_get_dim c d s = Some (CFIO_ERROR_NONE, Some p)" "the_dim (Some p) s = Some (p, x)" by blast
  have "resolve_dims c s (Some p) ds = Some (map (fst (lib_ids (server_map s) c)) ds)"
    using Cons by simp
  then show ?case using p x by (simp add: error_codes lib_ids_def)
qed simp

text \<open>A change of one value in the server's tree.\<close>

lemma set_value:
  assumes tree: "tree_ok map_table s" and e: "server_entry s k = Some p" "server_map s k = Some w"
    and F: "\<And>w. key_of (F w) = key_of w" "\<And>w. children (F w) = children w"
  shows "tree_ok map_table (update_val p F s)" "server_map (update_val p F s) = (server_map s)(k \<mapsto> F w)"
    "server_entry (update_val p F s) = server_entry s"
  using tree_server_update [OF tree e(1) F] server_update [OF tree_map_ok [OF tree] e(1), of F, OF F(1)] e(2)
  by simp_all


definition nc_open :: "'f server_state \<Rightarrow> i32 \<Rightarrow> id_nc \<Rightarrow> bool" where
  "nc_open s c x \<longleftrightarrow> tree_ok map_table (ids s) \<and> nc_id x \<noteq> CFIO_ID_NC_INVALID \<and>
     (\<exists>f. server_map (ids s) (c, 0, 0) = Some f \<and> nc f = Some x)"

lemma nc_open_get:
  assumes "nc_open s c x"
  shows "\<exists>p. cfio_id_get_nc c (ids s) = Some (CFIO_ERROR_NONE, Some p) \<and> the_nc (Some p) (ids s) = Some (p, x)"
  using assms get_nc_found [OF tree_map_ok, of "ids s" c] by (fastforce simp: nc_open_def)

lemma entry_value:
  assumes "map_ok s" "server_entry s k = Some p" "server_map s k = Some w"
  shows "heap s p = Some w" "client_nc_id w = fst k" "client_dim_id w = fst (snd k)" "client_var_id w = snd (snd k)"
  using server_entry_map [OF assms(1,2)] assms(3) by (auto simp: key_of_def)

text \<open>One child after another.\<close>

definition stepped :: "'f server_state \<Rightarrow> id_key \<Rightarrow> id_val \<Rightarrow> 'f \<Rightarrow> 'f server_state \<Rightarrow> bool" where
  "stepped s k w l s' \<longleftrightarrow> tree_ok map_table (ids s') \<and> server_entry (ids s') = server_entry (ids s) \<and>
     server_map (ids s') = (server_map (ids s))(k \<mapsto> w) \<and> lib s' = l \<and> io s' = io s \<and> rcv s' = rcv s"

lemma handle_dim:
  assumes nco: "nc_open s c x" and e: "server_entry (ids s) (c, d, 0) = Some p"
    and w: "server_map (ids s) (c, d, 0) = Some w" "dim w = Some y"
    and lib: "ncmpi_def_dim P (nc_id x) (dim_name y) (sint (global_dim_len y)) (lib s) = (r, new, l)"
  defines "i \<equiv> (case new of None \<Rightarrow> dim_id y | Some i \<Rightarrow> i)"
  shows "\<exists>s'. handle_def P p s = Some (CFIO_ERROR_NONE, s') \<and>
    stepped s (c, d, 0) (w\<lparr>dim := Some (y\<lparr>dim_nc_id := nc_id x, dim_id := i\<rparr>)\<rparr>) l s'"
proof -
  have tree: "tree_ok map_table (ids s)" and inv: "nc_id x \<noteq> CFIO_ID_NC_INVALID" using nco by (auto simp: nc_open_def)
  note v = entry_value [OF tree_map_ok [OF tree] e w(1)]
  let ?y = "y\<lparr>dim_nc_id := nc_id x, dim_id := i\<rparr>"
  let ?F = "\<lambda>v. v\<lparr>dim := map_option (\<lambda>_. ?y) (dim v)\<rparr>"
  have F: "key_of (?F v) = key_of v" "children (?F v) = children v" for v by (simp_all add: key_of_def)
  note u = set_value [OF tree e w(1) F]
  have st: "stepped s (c, d, 0) (w\<lparr>dim := Some ?y\<rparr>) l (s\<lparr>ids := set_dim (\<lambda>_. ?y) p (ids s), lib := l\<rparr>)"
    using u w(2) by (simp add: stepped_def set_dim_def)
  from nc_open_get [OF nco] obtain q where
    "cfio_id_get_nc c (ids s) = Some (CFIO_ERROR_NONE, Some q)" "the_nc (Some q) (ids s) = Some (q, x)" by blast
  then have "handle_def P p s = Some (CFIO_ERROR_NONE, s\<lparr>ids := set_dim (\<lambda>_. ?y) p (ids s), lib := l\<rparr>)"
    using v w(2) inv lib by (simp add: handle_def_def i_def)
  with st show ?thesis by blast
qed

lemma handle_var:
  assumes nco: "nc_open s c x" and e: "server_entry (ids s) (c, 0, v) = Some p"
    and w: "server_map (ids s) (c, 0, v) = Some w" "dim w = None" "var w = Some y" "att_head y = Some atts"
    and dims: "array_take (ndims y) (dim_ids y) = Some old" "\<forall>d \<in> set old. dim_at (server_map (ids s)) c d \<noteq> None"
    and lib: "ncmpi_def_var P (nc_id x) (var_name y) (nc_type_code P (cfio_type_to_nc (data_type y))) (ndims y)
      (map (fst (lib_ids (server_map (ids s)) c)) old) (lib s) = (r, new, l)"
  defines "i \<equiv> (case new of None \<Rightarrow> var_id y | Some i \<Rightarrow> i)"
  assumes atts: "put_atts P (nc_id x) i atts r l = (r', l')"
  shows "\<exists>s' y'. handle_def P p s = Some (r', s') \<and> stepped s (c, 0, v) (w\<lparr>var := Some y'\<rparr>) l' s' \<and> var_id y' = i \<and>
    att_head y' = att_head y \<and> recv_data y' = recv_data y"
proof -
  have tree: "tree_ok map_table (ids s)" and inv: "nc_id x \<noteq> CFIO_ID_NC_INVALID" using nco by (auto simp: nc_open_def)
  note ok = tree_map_ok [OF tree]
  note u = entry_value [OF ok e w(1)]
  let ?new = "map (fst (lib_ids (server_map (ids s)) c)) old"
  define y' where "y' = y\<lparr>dim_ids := map_option (\<lambda>all. ?new @ drop (length ?new) all) (dim_ids y),
    var_nc_id := nc_id x, var_id := i\<rparr>"
  let ?F = "\<lambda>v. v\<lparr>var := map_option (\<lambda>_. y') (var v)\<rparr>"
  have F: "key_of (?F v) = key_of v" "children (?F v) = children v" for v by (simp_all add: key_of_def)
  note sv = set_value [OF tree e w(1) F]
  have st: "stepped s (c, 0, v) (w\<lparr>var := Some y'\<rparr>) l' (s\<lparr>ids := set_var (\<lambda>_. y') p (ids s), lib := l'\<rparr>)"
    using sv w(3) by (simp add: stepped_def set_var_def)
  from nc_open_get [OF nco] obtain q where
    q: "cfio_id_get_nc c (ids s) = Some (CFIO_ERROR_NONE, Some q)" "the_nc (Some q) (ids s) = Some (q, x)" by blast
  have "handle_def P p s = Some (r', s\<lparr>ids := set_var (\<lambda>_. y') p (ids s), lib := l'\<rparr>)"
    using u w(2-4) inv dims(1) lib atts q resolve_known [OF ok dims(2), of None]
    by (cases new) (simp_all add: handle_def_def i_def y'_def Let_def)
  moreover have "var_id y' = i" "att_head y' = att_head y" "recv_data y' = recv_data y" by (simp_all add: y'_def)
  ultimately show ?thesis using st by blast
qed


definition todo :: "'f server_state \<Rightarrow> i32 \<Rightarrow> ptr list \<Rightarrow> bool" where
  "todo s c ps \<longleftrightarrow> (\<forall>p \<in> set ps. \<exists>d v w. server_entry (ids s) (c, d, v) = Some p \<and>
     server_map (ids s) (c, d, v) = Some w \<and> definable (server_map (ids s)) c d v w)"

abbreviation defs_at :: "'f server_state \<Rightarrow> ptr list \<Rightarrow> file_def list" where
  "defs_at s ps \<equiv> map (\<lambda>p. def_of (the (heap (ids s) p))) ps"

lemma definable_mono:
  "definable m c d v w \<Longrightarrow> (\<And>d. dim_at m c d \<noteq> None \<Longrightarrow> dim_at m' c d \<noteq> None) \<Longrightarrow> definable m' c d v w"
  unfolding definable_def by blast

lemma definable_key: "definable m c d v w \<Longrightarrow> (d, v) \<noteq> (0, 0)"
  by (auto simp: definable_def)

lemma step_rest:
  assumes tree: "tree_ok map_table (ids s)" and todo: "todo s c ps" "p \<notin> set ps"
    and e: "server_entry (ids s) (c, d, v) = Some p" "server_map (ids s) (c, d, v) = Some w"
    and st: "stepped s (c, d, v) w' l s'" and dim: "dim w' = None \<longleftrightarrow> dim w = None"
  shows "todo s' c ps \<and> defs_at s' ps = defs_at s ps"
proof -
  have en: "server_entry (ids s') = server_entry (ids s)" and m: "server_map (ids s') = (server_map (ids s))((c, d, v) \<mapsto> w')"
    and tree': "tree_ok map_table (ids s')" using st by (auto simp: stepped_def)
  have mono: "dim_at (server_map (ids s')) c d' \<noteq> None" if "dim_at (server_map (ids s)) c d' \<noteq> None" for d'
    using that dim e(2) by (auto simp: dim_at_def m)
  have "(\<exists>d v w. server_entry (ids s') (c, d, v) = Some q \<and> server_map (ids s') (c, d, v) = Some w \<and>
      definable (server_map (ids s')) c d v w) \<and> heap (ids s') q = heap (ids s) q" if q: "q \<in> set ps" for q
  proof -
    from todo(1) q obtain d' v' u where u: "server_entry (ids s) (c, d', v') = Some q"
      "server_map (ids s) (c, d', v') = Some u" "definable (server_map (ids s)) c d' v' u"
      unfolding todo_def by blast
    have "(c, d', v') \<noteq> (c, d, v)" using u(1) e(1) q todo(2) by auto
    then have u': "server_map (ids s') (c, d', v') = Some u" using m u(2) by auto
    have "definable (server_map (ids s')) c d' v' u" by (rule definable_mono [OF u(3) mono])
    moreover have "heap (ids s') q = heap (ids s) q"
      using entry_value(1) [OF tree_map_ok [OF tree'] _ u'] entry_value(1) [OF tree_map_ok [OF tree] u(1,2)] en u(1) by simp
    ultimately show ?thesis using u' u(1) en by auto
  qed
  then show ?thesis unfolding todo_def by simp
qed

lemma step_open:
  assumes "nc_open s c x" "stepped s (c, d, v) w l s'" "(d, v) \<noteq> (0, 0)"
  shows "nc_open s' c x"
  using assms by (auto simp: nc_open_def stepped_def)

lemma lib_ids_dim:
  assumes "m' = m((c, d, 0) \<mapsto> w)" "d \<noteq> 0" "dim w = Some y"
  shows "lib_ids m' c = ((fst (lib_ids m c))(d := dim_id y), snd (lib_ids m c))"
  using assms by (auto simp: lib_ids_def dim_at_def var_at_def fun_eq_iff)

lemma lib_ids_var:
  assumes "m' = m((c, 0, v) \<mapsto> w)" "v \<noteq> 0" "var w = Some y"
  shows "lib_ids m' c = (fst (lib_ids m c), (snd (lib_ids m c))(v := var_id y))"
  using assms by (auto simp: lib_ids_def dim_at_def var_at_def fun_eq_iff)

text \<open>What the other files and the tables of requests and messages see.\<close>

definition same_shape :: "id_val \<Rightarrow> id_val \<Rightarrow> bool" where
  "same_shape w w' \<longleftrightarrow> nc w' = nc w \<and> (dim w' = None \<longleftrightarrow> dim w = None) \<and> children w' = children w \<and>
     map_option att_head (var w') = map_option att_head (var w) \<and>
     map_option recv_data (var w') = map_option recv_data (var w)"

definition same_shapes :: "(id_key \<Rightarrow> id_val option) \<Rightarrow> (id_key \<Rightarrow> id_val option) \<Rightarrow> bool" where
  "same_shapes m m' \<longleftrightarrow> (\<forall>k. rel_option same_shape (m k) (m' k))"

lemma same_shapes_refl: "same_shapes m m"
  by (auto simp: same_shapes_def same_shape_def intro: option.rel_refl)

lemma same_shapes_trans: "same_shapes m m' \<Longrightarrow> same_shapes m' m'' \<Longrightarrow> same_shapes m m''"
proof -
  have "transp same_shape" by (auto simp: transp_def same_shape_def)
  then have "transp (rel_option same_shape)" by (rule option.rel_transp)
  then show "same_shapes m m' \<Longrightarrow> same_shapes m' m'' \<Longrightarrow> same_shapes m m''"
    unfolding same_shapes_def by (blast dest: transpD)
qed

lemma same_shapes_upd: "m k = Some w \<Longrightarrow> same_shape w w' \<Longrightarrow> same_shapes m (m(k \<mapsto> w'))"
  by (auto simp: same_shapes_def same_shape_def intro!: option.rel_refl)

definition file_only :: "i32 \<Rightarrow> 'f server_state \<Rightarrow> 'f server_state \<Rightarrow> bool" where
  "file_only c s s' \<longleftrightarrow> server_entry (ids s') = server_entry (ids s) \<and>
     (\<forall>k. fst k \<noteq> c \<longrightarrow> server_map (ids s') k = server_map (ids s) k) \<and>
     server_map (ids s') (c, 0, 0) = server_map (ids s) (c, 0, 0) \<and> io s' = io s \<and> rcv s' = rcv s \<and>
     same_shapes (server_map (ids s)) (server_map (ids s'))"

lemma stepped_file_only:
  "stepped s (c, d, v) w' l s' \<Longrightarrow> (d, v) \<noteq> (0, 0) \<Longrightarrow> server_map (ids s) (c, d, v) = Some w \<Longrightarrow>
     same_shape w w' \<Longrightarrow> file_only c s s'"
  using same_shapes_upd [of "server_map (ids s)" "(c, d, v)" w w'] by (auto simp: stepped_def file_only_def)

lemma file_only_trans: "file_only c s s' \<Longrightarrow> file_only c s' s'' \<Longrightarrow> file_only c s s''"
  using same_shapes_trans by (auto simp: file_only_def)

text \<open>One definition of the list, at its entry: a dimension or a variable.\<close>

definition defined_as :: "'f pnetcdf \<Rightarrow> i32 \<Rightarrow> id_nc \<Rightarrow> file_def \<Rightarrow> 'f server_state \<Rightarrow> int \<Rightarrow> 'f server_state \<Rightarrow> bool" where
  "defined_as P c x df s r s1 \<longleftrightarrow> file_only c s s1 \<and>
     (\<forall>ds. define_all P (nc_id x) (df # ds) (lib_ids (server_map (ids s)) c) (lib s) =
        (if r < 0 then (r, lib_ids (server_map (ids s1)) c, lib s1)
         else define_all P (nc_id x) ds (lib_ids (server_map (ids s1)) c) (lib s1)))"

lemma define_dim:
  assumes nco: "nc_open s c x" and e: "server_entry (ids s) (c, d, v) = Some p" "server_map (ids s) (c, d, v) = Some w"
    and de: "definable (server_map (ids s)) c d v w" "dim w = Some y"
  shows "\<exists>s1 w'. handle_def P p s = Some (CFIO_ERROR_NONE, s1) \<and> stepped s (c, d, v) w' (lib s1) s1 \<and>
    (dim w' = None \<longleftrightarrow> dim w = None) \<and> defined_as P c x (def_of w) s CFIO_ERROR_NONE s1"
proof -
  have tree: "tree_ok map_table (ids s)" using nco by (simp add: nc_open_def)
  note hp = entry_value [OF tree_map_ok [OF tree] e]
  note ne = definable_key [OF de(1)]
  have dv: "v = 0" "d \<noteq> 0" using de by (auto simp: definable_def)
  obtain r new l1 where lib: "ncmpi_def_dim P (nc_id x) (dim_name y) (sint (global_dim_len y)) (lib s) = (r, new, l1)"
    by (metis prod_cases3)
  let ?i = "case new of None \<Rightarrow> dim_id y | Some i \<Rightarrow> i"
  let ?w = "w\<lparr>dim := Some (y\<lparr>dim_nc_id := nc_id x, dim_id := ?i\<rparr>)\<rparr>"
  from handle_dim [OF nco _ _ de(2) lib] e dv obtain s1 where
    s1: "handle_def P p s = Some (CFIO_ERROR_NONE, s1)" "stepped s (c, d, v) ?w l1 s1" by auto
  have "lib_ids (server_map (ids s1)) c = ((fst (lib_ids (server_map (ids s)) c))(d := ?i), snd (lib_ids (server_map (ids s)) c))"
    using lib_ids_dim [of "server_map (ids s1)" "server_map (ids s)" c d ?w] s1(2) dv by (simp add: stepped_def)
  moreover have "fst (lib_ids (server_map (ids s)) c) d = dim_id y"
    using e(2) dv de(2) by (simp add: lib_ids_def dim_at_def)
  moreover have l: "lib s1 = l1" using s1(2) by (simp add: stepped_def)
  moreover have "def_of w = Dim_def d (dim_name y) (global_dim_len y)" using hp de(2) by (simp add: def_of_def)
  moreover have "file_only c s s1"
    by (rule stepped_file_only [OF s1(2) ne e(2)]) (simp add: same_shape_def de(2))
  ultimately have "defined_as P c x (def_of w) s CFIO_ERROR_NONE s1"
    using lib by (cases new) (simp_all add: defined_as_def error_codes)
  then show ?thesis using s1 l de(2) by (intro exI [of _ s1] exI [of _ ?w]) simp
qed

lemma define_var:
  assumes nco: "nc_open s c x" and e: "server_entry (ids s) (c, d, v) = Some p" "server_map (ids s) (c, d, v) = Some w"
    and de: "definable (server_map (ids s)) c d v w" "dim w = None"
  shows "\<exists>r s1 w'. handle_def P p s = Some (r, s1) \<and> stepped s (c, d, v) w' (lib s1) s1 \<and>
    (dim w' = None \<longleftrightarrow> dim w = None) \<and> defined_as P c x (def_of w) s r s1"
proof -
  have tree: "tree_ok map_table (ids s)" using nco by (simp add: nc_open_def)
  note hp = entry_value [OF tree_map_ok [OF tree] e]
  note ne = definable_key [OF de(1)]
  from de obtain y atts old where y: "var w = Some y" "att_head y = Some atts"
    "array_take (ndims y) (dim_ids y) = Some old" "\<forall>d \<in> set old. dim_at (server_map (ids s)) c d \<noteq> None"
    and dv: "d = 0" "v \<noteq> 0"
    by (auto simp: definable_def)
  obtain r new l1 where lib: "ncmpi_def_var P (nc_id x) (var_name y) (nc_type_code P (cfio_type_to_nc (data_type y)))
    (ndims y) (map (fst (lib_ids (server_map (ids s)) c)) old) (lib s) = (r, new, l1)"
    by (metis prod_cases3)
  let ?i = "case new of None \<Rightarrow> var_id y | Some i \<Rightarrow> i"
  obtain r' l2 where atts: "put_atts P (nc_id x) ?i atts r l1 = (r', l2)" by (metis surj_pair)
  have e0: "server_entry (ids s) (c, 0, v) = Some p" "server_map (ids s) (c, 0, v) = Some w"
    using e dv(1) by simp_all
  from handle_var [OF nco e0 de(2) y lib atts] obtain s1 y' where
    s1: "handle_def P p s = Some (r', s1)" "stepped s (c, 0, v) (w\<lparr>var := Some y'\<rparr>) l2 s1" "var_id y' = ?i"
      "att_head y' = att_head y" "recv_data y' = recv_data y"
    by blast
  note s1 = s1(1) s1(2) [folded dv(1)] s1(3-)
  have only: "file_only c s s1"
    by (rule stepped_file_only [OF s1(2) ne e(2)]) (simp add: same_shape_def de(2) y(1) s1(4,5))
  have ids1: "lib_ids (server_map (ids s1)) c =
      (fst (lib_ids (server_map (ids s)) c), (snd (lib_ids (server_map (ids s)) c))(v := ?i))"
    using lib_ids_var [of "server_map (ids s1)" "server_map (ids s)" c v "w\<lparr>var := Some y'\<rparr>" y'] s1(2,3) dv
    by (simp add: stepped_def)
  have old: "snd (lib_ids (server_map (ids s)) c) v = var_id y"
    using e(2) dv y(1) by (simp add: lib_ids_def var_at_def)
  have l: "lib s1 = l2" using s1(2) by (simp add: stepped_def)
  have "def_of w = Var_def v (var_name y) (data_type y) (ndims y) old atts"
    using hp de(2) y by (simp add: def_of_def)
  then have "defined_as P c x (def_of w) s r' s1"
    using only lib atts ids1 old l by (cases new) (simp_all add: defined_as_def Let_def)
  then show ?thesis using s1(1,2) l de(2)
    by (intro exI [of _ r'] exI [of _ s1] exI [of _ "w\<lparr>var := Some y'\<rparr>"]) simp
qed

lemma handle_defs_define_all:
  assumes "nc_open s c x" "todo s c ps" "distinct ps"
    and "define_all P (nc_id x) (defs_at s ps) (lib_ids (server_map (ids s)) c) (lib s) = (ret, L, l)"
  shows "\<exists>s'. handle_defs P ps s = Some (ret, s') \<and> nc_open s' c x \<and> lib s' = l \<and>
    lib_ids (server_map (ids s')) c = L \<and> file_only c s s'"
  using assms
proof (induction ps arbitrary: s)
  case Nil
  then show ?case by (simp add: file_only_def same_shapes_refl)
next
  case (Cons p ps)
  have tree: "tree_ok map_table (ids s)" using Cons.prems(1) by (simp add: nc_open_def)
  from Cons.prems(2) obtain d v w where e: "server_entry (ids s) (c, d, v) = Some p"
    "server_map (ids s) (c, d, v) = Some w" "definable (server_map (ids s)) c d v w"
    unfolding todo_def by (meson list.set_intros(1))
  have todo: "todo s c ps" "p \<notin> set ps" "distinct ps" using Cons.prems(2,3) by (auto simp: todo_def)
  have "\<exists>r s1 w'. handle_def P p s = Some (r, s1) \<and> stepped s (c, d, v) w' (lib s1) s1 \<and>
      (dim w' = None \<longleftrightarrow> dim w = None) \<and> defined_as P c x (def_of w) s r s1"
  proof (cases "dim w")
    case None
    then show ?thesis by (rule define_var [OF Cons.prems(1) e])
  next
    case (Some y)
    then show ?thesis by (intro exI [of _ CFIO_ERROR_NONE] define_dim [OF Cons.prems(1) e])
  qed
  then obtain r s1 w' where s1: "handle_def P p s = Some (r, s1)" "stepped s (c, d, v) w' (lib s1) s1"
    "dim w' = None \<longleftrightarrow> dim w = None" "defined_as P c x (def_of w) s r s1" by (elim exE conjE)
  have rest: "todo s1 c ps \<and> defs_at s1 ps = defs_at s ps"
    by (rule step_rest [OF tree todo(1,2) e(1,2) s1(2,3)])
  have nco: "nc_open s1 c x" by (rule step_open [OF Cons.prems(1) s1(2) definable_key [OF e(3)]])
  have only: "file_only c s s1" using s1(4) by (simp add: defined_as_def)
  have "defs_at s (p # ps) = def_of w # defs_at s1 ps" using entry_value [OF tree_map_ok [OF tree] e(1,2)] rest by simp
  then have da: "(if r < 0 then (r, lib_ids (server_map (ids s1)) c, lib s1)
      else define_all P (nc_id x) (defs_at s1 ps) (lib_ids (server_map (ids s1)) c) (lib s1)) = (ret, L, l)"
    using Cons.prems(4) s1(4) unfolding defined_as_def by metis
  show ?case
  proof (cases "r < 0")
    case True
    then show ?thesis using s1(1) da nco only by (intro exI [of _ s1]) auto
  next
    case False
    with da have "define_all P (nc_id x) (defs_at s1 ps) (lib_ids (server_map (ids s1)) c) (lib s1) = (ret, L, l)" by simp
    from Cons.IH [OF nco _ todo(3) this] rest obtain s' where
      "handle_defs P ps s1 = Some (ret, s')" "nc_open s' c x" "lib s' = l" "lib_ids (server_map (ids s')) c = L"
      "file_only c s1 s'" by blast
    then show ?thesis using s1(1) False only file_only_trans by (intro exI [of _ s']) auto
  qed
qed


definition file_defs :: "(id_key \<Rightarrow> id_val option) \<Rightarrow> i32 \<Rightarrow> bool" where
  "file_defs m c \<longleftrightarrow> (\<forall>d v w. m (c, d, v) = Some w \<longrightarrow> (d, v) \<noteq> (0, 0) \<longrightarrow> definable m c d v w)"

lemma children_todo:
  assumes "tree_ok map_table (ids s)" "server_map (ids s) (c, 0, 0) = Some f" "file_defs (server_map (ids s)) c"
  shows "todo s c (children f)" "distinct (children f)"
proof -
  show "todo s c (children f)"
    unfolding todo_def
  proof
    fix p assume "p \<in> set (children f)"
    then obtain d v where p: "server_entry (ids s) (c, d, v) = Some p" "(d, v) \<noteq> (0, 0)"
      using tree_server_children(2) [OF assms(1,2)] by auto
    moreover from server_entry_map [OF tree_map_ok [OF assms(1)] p(1)] obtain w where
      "server_map (ids s) (c, d, v) = Some w" by blast
    ultimately show "\<exists>d v w. server_entry (ids s) (c, d, v) = Some p \<and> server_map (ids s) (c, d, v) = Some w \<and>
        definable (server_map (ids s)) c d v w"
      using assms(3) unfolding file_defs_def by blast
  qed
qed (rule tree_server_children(1) [OF assms(1,2)])

lemma set_nc_server:
  assumes "tree_ok map_table s" "server_entry s (c, 0, 0) = Some p" "server_map s (c, 0, 0) = Some f" "nc f = Some x"
  shows "tree_ok map_table (set_nc g p s)" "server_map (set_nc g p s) = (server_map s)((c, 0, 0) \<mapsto> f\<lparr>nc := Some (g x)\<rparr>)"
    "lib_ids (server_map (set_nc g p s)) c = lib_ids (server_map s) c"
proof -
  let ?F = "\<lambda>v. v\<lparr>nc := map_option g (nc v)\<rparr>"
  have F: "key_of (?F v) = key_of v" "children (?F v) = children v" for v by (simp_all add: key_of_def)
  note u = set_value [OF assms(1-3) F, folded set_nc_def]
  then show "tree_ok map_table (set_nc g p s)" by blast
  show m: "server_map (set_nc g p s) = (server_map s)((c, 0, 0) \<mapsto> f\<lparr>nc := Some (g x)\<rparr>)" using u(2) assms(4) by simp
  then show "lib_ids (server_map (set_nc g p s)) c = lib_ids (server_map s) c"
    using assms(3) by (auto simp: lib_ids_def dim_at_def var_at_def fun_eq_iff)
qed

text \<open>The outcome for a file in the definition mode.\<close>

definition ended :: "'f server_state \<Rightarrow> i32 \<Rightarrow> id_nc \<Rightarrow> lib_ids \<Rightarrow> 'f \<Rightarrow> 'f server_state \<Rightarrow> bool" where
  "ended s c x L l s' \<longleftrightarrow> nc_open s' c x \<and> lib_ids (server_map (ids s')) c = L \<and> lib s' = l \<and> rcv s' = rcv s \<and>
     same_shapes ((server_map (ids s))((c, 0, 0) := server_map (ids s') (c, 0, 0))) (server_map (ids s')) \<and>
     (\<exists>f. server_map (ids s) (c, 0, 0) = Some f \<and> server_map (ids s') (c, 0, 0) = Some (f\<lparr>nc := Some x\<rparr>)) \<and>
     (\<forall>k. fst k \<noteq> c \<longrightarrow> server_map (ids s') k = server_map (ids s) k)"

lemma enddef_last_defines:
  assumes nco: "nc_open s c x" and f: "server_map (ids s) (c, 0, 0) = Some f" and mode: "nc_status x = DEFINE_MODE"
    and defs: "file_defs (server_map (ids s)) c"
    and all: "define_all P (nc_id x) (defs_at s (children f)) (lib_ids (server_map (ids s)) c) (lib s) = (ret, L, l)"
    and lib: "ncmpi_enddef P (nc_id x) l = (r, l')" and info: "remove_client_io info (io s) = Some i"
  shows "\<exists>s'. enddef_last P c info s = Some (if ret < 0 then ret else if r < 0 then CFIO_ERROR_NC else CFIO_ERROR_NONE, s') \<and>
    ended s c (if 0 \<le> ret \<and> 0 \<le> r then x\<lparr>nc_status := DATA_MODE\<rparr> else x) L (if ret < 0 then l else l') s' \<and>
    io s' = (if 0 \<le> ret \<and> 0 \<le> r then i else io s)"
proof -
  have tree: "tree_ok map_table (ids s)" using nco by (simp add: nc_open_def)
  note ok = tree_map_ok [OF tree]
  from nco f have x: "nc f = Some x" by (auto simp: nc_open_def)
  have op: "file_open c (ids s)" using ok f x by (simp add: file_open_def)
  obtain p f' x' where p': "server_map (ids s) (c, 0, 0) = Some f'" "nc f' = Some x'"
    "server_entry (ids s) (c, 0, 0) = Some p" "heap (ids s) p = Some f'"
    "cfio_id_get_nc c (ids s) = Some (CFIO_ERROR_NONE, Some p)" "the_nc (Some p) (ids s) = Some (p, x')"
    by (rule file_openD [OF op])
  with f x have eq: "f' = f" "x' = x" by auto
  from handle_defs_define_all [OF nco children_todo [OF tree f defs] all] obtain s1 where
    s1: "handle_defs P (children f) s = Some (ret, s1)" "nc_open s1 c x" "lib s1 = l"
      "lib_ids (server_map (ids s1)) c = L" "file_only c s s1" by blast
  have fo: "server_entry (ids s1) = server_entry (ids s)" "server_map (ids s1) (c, 0, 0) = Some f"
    "io s1 = io s" "rcv s1 = rcv s" "\<forall>k. fst k \<noteq> c \<longrightarrow> server_map (ids s1) k = server_map (ids s) k"
    "same_shapes (server_map (ids s)) (server_map (ids s1))"
    using s1(5) f by (simp_all add: file_only_def)
  have shapes: "same_shapes ((server_map (ids s))((c, 0, 0) := g)) ((server_map (ids s1))((c, 0, 0) := g))" for g
    using fo(6) by (auto simp: same_shapes_def same_shape_def intro: option.rel_refl)
  have same: "same_shapes (server_map (ids s)) (server_map (ids s1)) = same_shapes ((server_map (ids s))((c, 0, 0) \<mapsto> f)) (server_map (ids s1))"
    using f by (simp add: fun_upd_idem)
  have fx: "f\<lparr>nc := Some x\<rparr> = f" using x by simp
  note code = enddef_last_def p'(5,6) eq get_val_found [OF ok p'(3)] p'(4) s1(1,3) mode error_codes lib
  consider (defs) "ret < 0" | (enddef) "\<not> ret < 0" "r < 0" | (ok) "\<not> ret < 0" "\<not> r < 0" by blast
  then show ?thesis
  proof cases
    case defs
    then have "enddef_last P c info s = Some (ret, s1)" by (simp add: code)
    then show ?thesis using defs s1 fo by (simp add: ended_def same [symmetric] f fx)
  next
    case enddef
    then have "enddef_last P c info s = Some (CFIO_ERROR_NC, s1\<lparr>lib := l'\<rparr>)" by (simp add: code)
    then show ?thesis using enddef s1 fo by (simp add: ended_def nc_open_def same [symmetric] f fx)
  next
    case ok
    have tree1: "tree_ok map_table (ids s1)" using s1(2) by (simp add: nc_open_def)
    let ?ids = "set_nc (\<lambda>x. x\<lparr>nc_status := DATA_MODE\<rparr>) p (ids s1)"
    have p1: "server_entry (ids s1) (c, 0, 0) = Some p" using p'(3) fo(1) by simp
    note sn = set_nc_server [OF tree1 p1 fo(2) x, of "\<lambda>x. x\<lparr>nc_status := DATA_MODE\<rparr>"]
    have "enddef_last P c info s = Some (CFIO_ERROR_NONE, s1\<lparr>lib := l', ids := ?ids, io := i\<rparr>)"
      using ok info fo(3) by (simp add: code)
    then show ?thesis using ok s1 fo sn nco shapes f by (auto simp: ended_def nc_open_def)
  qed
qed

text \<open>C8. When all clients of the server have ended the definitions of a file, in any order, the
  server makes the definitions in the library once: \<open>define_all\<close> of the recorded dimensions and
  variables, in the order of their recording, followed by one call that ends the definition
  mode. The table then holds the identifiers that the library gave, and no entry of another file
  has changed. If a definition of attributes or the end fails, the clients' last call answers
  the error and the file stays in the definition mode.\<close>

theorem enddef_collective:
  assumes "nc_open s c x" "server_map (ids s) (c, 0, 0) = Some f" "nc_status x = DEFINE_MODE"
    and "file_defs (server_map (ids s)) c"
    and "io_ok n (io s)" "reported (io s) (FUNC_NC_ENDDEF, c, 0, 0) = {}"
    and "\<And>k. k < n \<Longrightarrow> client_of m (server_id (io s)) n (C k) k" "0 < n" "set ks = {..<n}" "distinct ks"
    and "define_all P (nc_id x) (defs_at s (children f)) (lib_ids (server_map (ids s)) c) (lib s) = (ret, L, l)"
    and "ncmpi_enddef P (nc_id x) l = (r, l')"
  shows "\<exists>s'. collect (\<lambda>m c'. io_enddef P m c' c) m (map C ks) s =
      Some (if ret < 0 then ret else if r < 0 then CFIO_ERROR_NC else CFIO_ERROR_NONE, s') \<and>
    ended s c (if 0 \<le> ret \<and> 0 \<le> r then x\<lparr>nc_status := DATA_MODE\<rparr> else x) L (if ret < 0 then l else l') s' \<and>
    io_ok n (io s') \<and> (0 \<le> ret \<longrightarrow> 0 \<le> r \<longrightarrow> reported (io s') = reported (io s))"
proof -
  have "\<exists>info i. complete n (FUNC_NC_ENDDEF, c, 0, 0) (io s) info i \<and>
      collect (\<lambda>m c'. io_enddef P m c' c) m (map C ks) s = enddef_last P c info (s\<lparr>io := i\<rparr>)"
    by (rule enddef.once) (use assms in simp_all)
  then obtain info i where i: "complete n (FUNC_NC_ENDDEF, c, 0, 0) (io s) info i"
      "collect (\<lambda>m c'. io_enddef P m c' c) m (map C ks) s = enddef_last P c info (s\<lparr>io := i\<rparr>)"
    by blast
  from complete_remove [OF i(1) assms(6)] obtain i' where i': "remove_client_io info i = Some i'"
    "io_ok n i'" "reported i' = reported (io s)" by blast
  have "nc_open (s\<lparr>io := i\<rparr>) c x" using assms(1) by (simp add: nc_open_def)
  from enddef_last_defines [OF this _ assms(3), of f P ret L l r l' info i'] assms(2,4,11,12) i'(1)
  obtain s' where s': "enddef_last P c info (s\<lparr>io := i\<rparr>) =
      Some (if ret < 0 then ret else if r < 0 then CFIO_ERROR_NC else CFIO_ERROR_NONE, s')"
    "ended (s\<lparr>io := i\<rparr>) c (if 0 \<le> ret \<and> 0 \<le> r then x\<lparr>nc_status := DATA_MODE\<rparr> else x) L (if ret < 0 then l else l') s'"
    "io s' = (if 0 \<le> ret \<and> 0 \<le> r then i' else i)" by auto
  have "ended s c (if 0 \<le> ret \<and> 0 \<le> r then x\<lparr>nc_status := DATA_MODE\<rparr> else x) L (if ret < 0 then l else l') s'"
    using s'(2) by (simp add: ended_def)
  moreover have "io_ok n (io s')" using s'(3) i'(2) i(1) by (simp add: complete_def)
  moreover have "0 \<le> ret \<longrightarrow> 0 \<le> r \<longrightarrow> reported (io s') = reported (io s)" using s'(3) i'(3) by simp
  ultimately show ?thesis unfolding i(2) using s'(1) by blast
qed


section \<open>Recording files, dimensions and variables\<close>

lemmas tree_server_add_file = server.tree_add_file [folded server_defs]
lemmas tree_server_add_child = server.tree_add_child [folded server_defs]

lemma map_nc_tree:
  assumes "tree_ok map_table s" "server_map s (c, 0, 0) = None"
  shows "\<exists>s'. cfio_id_map_nc c i s = Some (CFIO_ERROR_NONE, s') \<and> tree_ok map_table s' \<and>
    server_map s' = (server_map s)((c, 0, 0) \<mapsto> nc_val c i)"
proof -
  from map_nc_binds [OF tree_map_ok [OF assms(1)] assms(2), of i] obtain s' where
    s': "cfio_id_map_nc c i s = Some (CFIO_ERROR_NONE, s')" "map_ok s'"
      "server_map s' = (server_map s)((c, 0, 0) \<mapsto> nc_val c i)" "server_entry s' = (server_entry s)((c, 0, 0) \<mapsto> brk s)"
    by blast
  have "children (nc_val c i) = []" by (simp add: nc_val_def zero_val_def)
  from tree_server_add_file [OF assms this s'(2-4)] s'(1,3) show ?thesis by blast
qed

lemma map_dim_tree:
  assumes "tree_ok map_table s" "server_map s (c, 0, 0) = Some f" "server_map s (c, d, 0) = None"
  shows "\<exists>s'. cfio_id_map_dim c d i j name len s = Some (CFIO_ERROR_NONE, s') \<and> tree_ok map_table s' \<and>
    server_map s' = (server_map s)((c, d, 0) \<mapsto> dim_val c d i j name len,
      (c, 0, 0) \<mapsto> f\<lparr>children := children f @ [brk s]\<rparr>)"
proof -
  from map_dim_binds [OF tree_map_ok [OF assms(1)] assms(2,3), of i j name len] obtain s' where
    s': "cfio_id_map_dim c d i j name len s = Some (CFIO_ERROR_NONE, s')" "map_ok s'"
      "server_map s' = (server_map s)((c, d, 0) \<mapsto> dim_val c d i j name len,
        (c, 0, 0) \<mapsto> f\<lparr>children := children f @ [brk s]\<rparr>)" "server_entry s' = (server_entry s)((c, d, 0) \<mapsto> brk s)"
    by blast
  from tree_server_add_child [OF assms refl s'(2,4,3)] s'(1,3) show ?thesis by blast
qed

lemma map_var_tree:
  assumes "tree_ok map_table s" "server_map s (c, 0, 0) = Some f" "server_map s (c, 0, v) = None" "0 < m"
  shows "\<exists>s'. cfio_id_map_var name c v i j n dimids type m s = Some (CFIO_ERROR_NONE, s') \<and> tree_ok map_table s' \<and>
    server_map s' = (server_map s)((c, 0, v) \<mapsto> var_val name c v i j n dimids type m,
      (c, 0, 0) \<mapsto> f\<lparr>children := children f @ [brk s]\<rparr>)"
proof -
  from map_var_binds [OF tree_map_ok [OF assms(1)] assms(2-4), of name i j n dimids type] obtain s' where
    s': "cfio_id_map_var name c v i j n dimids type m s = Some (CFIO_ERROR_NONE, s')" "map_ok s'"
      "server_map s' = (server_map s)((c, 0, v) \<mapsto> var_val name c v i j n dimids type m,
        (c, 0, 0) \<mapsto> f\<lparr>children := children f @ [brk s]\<rparr>)" "server_entry s' = (server_entry s)((c, 0, v) \<mapsto> brk s)"
    by blast
  from tree_server_add_child [OF assms(1-3) refl s'(2,4,3)] s'(1,3) show ?thesis by blast
qed

lemma tree_0: "tree_ok map_table id_state_0"
  using id_state_0_ok by (auto simp: tree_ok_def map_ok_def server_map_def)

section \<open>An example\<close>

text \<open>A file with one dimension \<open>x\<close> and one variable \<open>y\<close> over it, on a server with four clients.\<close>

lemma state_with_defs:
  "\<exists>s f. tree_ok map_table s \<and> nc f = Some \<lparr>nc_id = 9, nc_status = DEFINE_MODE\<rparr> \<and>
     server_map s = [(1, 0, 0) \<mapsto> f,
       (1, 1, 0) \<mapsto> dim_val 1 1 CFIO_ID_NC_INVALID CFIO_ID_DIM_INVALID [120] 10,
       (1, 0, 1) \<mapsto> var_val [121] 1 1 CFIO_ID_NC_INVALID CFIO_ID_VAR_INVALID 1 (Some [1]) 5 4]"
proof -
  let ?d = "dim_val 1 1 CFIO_ID_NC_INVALID CFIO_ID_DIM_INVALID [120] 10"
  let ?v = "var_val [121] 1 1 CFIO_ID_NC_INVALID CFIO_ID_VAR_INVALID 1 (Some [1]) 5 4"
  from map_nc_tree [OF tree_0, of 1 9] obtain s1 where
    s1: "tree_ok map_table s1" "server_map s1 = [(1, 0, 0) \<mapsto> nc_val 1 9]" by (auto simp: id_state_0_ok)
  then have f1: "server_map s1 (1, 0, 0) = Some (nc_val 1 9)" and n1: "server_map s1 (1, 1, 0) = None" by simp_all
  from map_dim_tree [OF s1(1) f1 n1, of CFIO_ID_NC_INVALID CFIO_ID_DIM_INVALID "[120]" 10] obtain s2 where
    s2: "tree_ok map_table s2" "server_map s2 = (server_map s1)((1, 1, 0) \<mapsto> ?d,
      (1, 0, 0) \<mapsto> (nc_val 1 9)\<lparr>children := children (nc_val 1 9) @ [brk s1]\<rparr>)" by blast
  define f where "f = (nc_val 1 9)\<lparr>children := children (nc_val 1 9) @ [brk s1]\<rparr>"
  have f2: "server_map s2 (1, 0, 0) = Some f" and n2: "server_map s2 (1, 0, 1) = None"
    by (simp_all add: s2(2) s1(2) f_def)
  from map_var_tree [OF s2(1) f2 n2, of 4 "[121]" CFIO_ID_NC_INVALID CFIO_ID_VAR_INVALID 1 "Some [1]" 5] obtain s3 where
    s3: "tree_ok map_table s3" "server_map s3 = (server_map s2)((1, 0, 1) \<mapsto> ?v,
      (1, 0, 0) \<mapsto> f\<lparr>children := children f @ [brk s2]\<rparr>)" by auto
  define g where "g = f\<lparr>children := children f @ [brk s2]\<rparr>"
  have "server_map s3 = [(1, 0, 0) \<mapsto> g, (1, 1, 0) \<mapsto> ?d, (1, 0, 1) \<mapsto> ?v]"
    by (auto simp: s3(2) s2(2) s1(2) g_def fun_eq_iff)
  moreover have "nc g = Some \<lparr>nc_id = 9, nc_status = DEFINE_MODE\<rparr>" by (simp add: g_def f_def nc_val_def)
  ultimately show ?thesis using s3(1) by blast
qed


lemma counting_calls:
  "ncmpi_def_dim counting_library i name len f = (0, Some 1, f + 1)"
  "ncmpi_def_var counting_library i name type n dims f = (0, Some 1, f + 1)"
  by (simp_all add: counting_library_def)

lemma define_all_counting:
  "\<forall>d \<in> set ds. \<forall>v name type n dims atts. d = Var_def v name type n dims atts \<longrightarrow> atts = [] \<Longrightarrow>
   \<exists>L'. define_all counting_library ncid ds L f = (CFIO_ERROR_NONE, L', f + length ds)"
proof (induction ds arbitrary: L f)
  case (Cons d ds)
  then have "\<exists>L'. define_all counting_library ncid ds L f = (CFIO_ERROR_NONE, L', f + length ds)" for L f by simp
  note ih = this
  show ?case
  proof (cases d)
    case (Dim_def c name len)
    then show ?thesis using ih [of "((fst L)(c := 1), snd L)" "Suc f"] by (simp add: counting_calls)
  next
    case (Var_def v name type n dims atts)
    moreover from this Cons.prems have "atts = []" by simp
    ultimately show ?thesis using ih [of "(fst L, (snd L)(v := 1))" "Suc f"]
      by (simp add: counting_calls error_codes Let_def)
  qed
qed simp

definition example_clients :: "nat \<Rightarrow> int" where
  "example_clients k = client_at map_4_6 0 (int k)"

definition example_state :: "id_state \<Rightarrow> nat server_state" where
  "example_state j = \<lparr>rcv = undefined, ids = j, io = snd (cfio_io_init 24 io_state_0), lib = 0\<rparr>"

lemma example_ready:
  "ids (example_state j) = j" "lib (example_state j) = 0" "io_ok 4 (io (example_state j))"
  "reported (io (example_state j)) k = {}"
  "i < 4 \<Longrightarrow> client_of map_4_6 (server_id (io (example_state j))) 4 (example_clients i) i"
  using row_client [of i]
  by (simp_all add: example_state_def io_init_ok example_clients_def row_part_def)

theorem close_collective_witness:
  "\<exists>j s'. server_map j (1, 1, 0) \<noteq> None \<and>
     collect (\<lambda>m c. io_close counting_library m c 1) map_4_6 (map example_clients [3, 1, 0, 2]) (example_state j) =
       Some (CFIO_ERROR_NONE, s') \<and> lib s' = 1 \<and> server_map (ids s') = forget 1 (server_map j)"
proof -
  from state_with_defs obtain j f where j: "tree_ok map_table j" "nc f = Some \<lparr>nc_id = 9, nc_status = DEFINE_MODE\<rparr>"
    "server_map j (1, 0, 0) = Some f" "server_map j (1, 1, 0) \<noteq> None" by auto
  have order: "set [3, 1, 0, 2] = {..<4 :: nat}" "distinct [3, 1, 0, 2 :: nat]" by auto
  have lib: "ncmpi_close counting_library (nc_id \<lparr>nc_id = 9, nc_status = DEFINE_MODE\<rparr>) (lib (example_state j)) = (NC_NOERR, 1)"
    by (simp add: counting_library_def NC_NOERR_def example_ready)
  have "\<exists>s'. collect (\<lambda>m c. io_close counting_library m c 1) map_4_6 (map example_clients [3, 1, 0, 2]) (example_state j) =
      Some (if NC_NOERR = NC_NOERR then CFIO_ERROR_NONE else CFIO_ERROR_NC, s') \<and>
    lib s' = 1 \<and> io_ok 4 (io s') \<and> tree_ok map_table (ids s') \<and>
    (if NC_NOERR = NC_NOERR then server_map (ids s') = forget 1 (server_map (ids (example_state j))) \<and>
       reported (io s') = reported (io (example_state j)) else ids s' = ids (example_state j))"
    by (rule close_collective [OF _ _ j(2) _ _ _ _ order lib]) (use j in \<open>simp_all add: example_ready\<close>)
  then show ?thesis using j(4) by (auto simp: example_ready)
qed

theorem enddef_collective_witness:
  "\<exists>j f s'. server_map j (1, 0, 0) = Some f \<and> file_defs (server_map j) 1 \<and>
     collect (\<lambda>m c. io_enddef counting_library m c 1) map_4_6 (map example_clients [3, 1, 0, 2]) (example_state j) =
       Some (CFIO_ERROR_NONE, s') \<and> lib s' = length (children f) + 1 \<and>
     nc_open s' 1 \<lparr>nc_id = 9, nc_status = DATA_MODE\<rparr>"
proof -
  let ?x = "\<lparr>nc_id = 9, nc_status = DEFINE_MODE\<rparr>"
  let ?d = "dim_val 1 1 CFIO_ID_NC_INVALID CFIO_ID_DIM_INVALID [120] 10"
  let ?v = "var_val [121] 1 1 CFIO_ID_NC_INVALID CFIO_ID_VAR_INVALID 1 (Some [1]) 5 4"
  from state_with_defs obtain j f where j: "tree_ok map_table j" "nc f = Some ?x"
    "server_map j = [(1, 0, 0) \<mapsto> f, (1, 1, 0) \<mapsto> ?d, (1, 0, 1) \<mapsto> ?v]" by auto
  let ?s = "example_state j"
  have f: "server_map (ids ?s) (1, 0, 0) = Some f" by (simp add: example_ready j(3))
  have mode: "nc_status ?x = DEFINE_MODE" "nc_id ?x \<noteq> CFIO_ID_NC_INVALID" by (simp_all add: CFIO_ID_NC_INVALID_def)
  have nco: "nc_open ?s 1 ?x" using j mode(2) f by (simp add: nc_open_def example_ready)
  have defs: "file_defs (server_map (ids ?s)) 1"
    by (auto simp: file_defs_def definable_def dim_at_def example_ready j(3) dim_val_def var_val_def zero_val_def
        array_take_def split: if_splits)
  have atts: "\<forall>d \<in> set (defs_at ?s (children f)). \<forall>v name type n dims atts. d = Var_def v name type n dims atts \<longrightarrow> atts = []"
  proof -
    have "def_of (the (heap j p)) = def_of ?d \<or> def_of (the (heap j p)) = def_of ?v" if "p \<in> set (children f)" for p
    proof -
      from that tree_server_children(2) [OF j(1), of 1 f] j(3) obtain d v where
        p: "server_entry j (1, d, v) = Some p" "(d, v) \<noteq> (0, 0)" by auto
      from server_entry_map [OF tree_map_ok [OF j(1)] p(1)] obtain w where
        "server_map j (1, d, v) = Some w" "heap j p = Some w" by blast
      then show ?thesis using p(2) by (auto simp: j(3) split: if_splits)
    qed
    moreover have "def_of ?d = Dim_def 1 [120] 10" "def_of ?v = Var_def 1 [121] 5 1 (the (array_take 1 (Some [1]))) []"
      by (simp_all add: def_of_def dim_val_def var_val_def zero_val_def)
    ultimately have "def_of (the (heap j p)) = Dim_def 1 [120] 10 \<or>
        def_of (the (heap j p)) = Var_def 1 [121] 5 1 (the (array_take 1 (Some [1]))) []" if "p \<in> set (children f)" for p
      using that by simp
    then show ?thesis by (fastforce simp: example_ready)
  qed
  obtain L where all: "define_all counting_library (nc_id ?x) (defs_at ?s (children f)) (lib_ids (server_map (ids ?s)) 1) (lib ?s) =
      (CFIO_ERROR_NONE, L, length (children f))"
    using define_all_counting [OF atts, of "nc_id ?x" "lib_ids (server_map (ids ?s)) 1" "lib ?s"] by (auto simp: example_ready)
  have lib: "ncmpi_enddef counting_library (nc_id ?x) (length (children f)) = (0, length (children f) + 1)"
    by (simp add: counting_library_def)
  have order: "set [3, 1, 0, 2] = {..<4 :: nat}" "distinct [3, 1, 0, 2 :: nat]" by auto
  have "\<exists>s'. collect (\<lambda>m c. io_enddef counting_library m c 1) map_4_6 (map example_clients [3, 1, 0, 2]) ?s =
      Some (if CFIO_ERROR_NONE < 0 then CFIO_ERROR_NONE else if (0 :: int) < 0 then CFIO_ERROR_NC else CFIO_ERROR_NONE, s') \<and>
    ended ?s 1 (if 0 \<le> CFIO_ERROR_NONE \<and> (0 :: int) \<le> 0 then ?x\<lparr>nc_status := DATA_MODE\<rparr> else ?x) L
      (if CFIO_ERROR_NONE < 0 then length (children f) else length (children f) + 1) s' \<and>
    io_ok 4 (io s') \<and> (0 \<le> CFIO_ERROR_NONE \<longrightarrow> (0 :: int) \<le> 0 \<longrightarrow> reported (io s') = reported (io ?s))"
    by (rule enddef_collective [OF nco f mode(1) defs _ _ _ _ order all lib]) (simp_all add: example_ready)
  then show ?thesis using f defs by (auto simp: example_ready error_codes ended_def)
qed

end
