(* ===== verification/IoAtts.thy ===== *)
theory IoAtts
  imports IoFiles
begin

text \<open>
  Attributes (\<open>cfio_io_put_att\<close>): when all clients have sent an attribute, a global one is written
  by the library at once, and one of a variable is appended to the list that the end of the
  definitions writes.
\<close>

lemma id_put_att_found:
  assumes tree: "tree_ok map_table s" and w: "server_map s (c, 0, v) = Some w" "var w = Some y" "att_head y = Some atts"
  shows "\<exists>s'. cfio_id_put_att c v name xtype len data s = Some (CFIO_ERROR_NONE, s') \<and> tree_ok map_table s' \<and>
    server_map s' = (server_map s)((c, 0, v) \<mapsto> w\<lparr>var := Some (y\<lparr>att_head := Some (atts @
      [\<lparr>att_name = name, att_xtype = xtype, att_len = len, att_data = data\<rparr>])\<rparr>)\<rparr>)"
proof -
  note ok = tree_map_ok [OF tree]
  obtain p where p: "server_entry s (c, 0, v) = Some p" "heap s p = Some w"
    using server_entryE [OF ok w(1)] by blast
  let ?y = "y\<lparr>att_head := Some (atts @ [\<lparr>att_name = name, att_xtype = xtype, att_len = len, att_data = data\<rparr>])\<rparr>"
  let ?F = "\<lambda>val. val\<lparr>var := Some ?y\<rparr>"
  have F: "key_of (?F v) = key_of v" "children (?F v) = children v" for v by (simp_all add: key_of_def)
  have "cfio_id_put_att c v name xtype len data s = Some (CFIO_ERROR_NONE, update_val p ?F s)"
    using p w by (simp add: cfio_id_put_att_def server_search [OF ok])
  with set_value [OF tree p(1) w(1) F] show ?thesis by blast
qed

text \<open>An attribute that all clients of the server have sent, in any order, is taken once. One
  of the whole file is written by one call of the library with the last client's values; one of
  a variable joins the end of the list of its attributes, and the library is not called. The
  request is then removed.\<close>

theorem put_att_collective:
  assumes "tree_ok map_table (ids s)" "server_map (ids s) (c, 0, 0) = Some f" "nc f = Some x"
    and "io_ok n (io s)" "reported (io s) (FUNC_PUT_ATT, c, 0, v) = {}"
    and "\<And>k. k < n \<Longrightarrow> client_of m (server_id (io s)) n (C k) k" "0 < n" "set ks = {..<n}" "distinct ks"
    and "v \<noteq> NC_GLOBAL \<Longrightarrow> server_map (ids s) (c, 0, v) = Some w \<and> var w = Some y \<and> att_head y = Some atts"
    and "put_att_call P (nc_id x) NC_GLOBAL name xtype xtype len data CFIO_ERROR_NONE (lib s) = (r, l)"
  shows "\<exists>s'. collect (\<lambda>m c'. io_put_att P m c' c v name xtype len data) m (map C ks) s =
      Some (if v = NC_GLOBAL \<and> r \<noteq> NC_NOERR then CFIO_ERROR_NC else CFIO_ERROR_NONE, s') \<and>
    tree_ok map_table (ids s') \<and> io_ok n (io s') \<and>
    lib s' = (if v = NC_GLOBAL then l else lib s) \<and>
    server_map (ids s') = (if v = NC_GLOBAL then server_map (ids s) else
      (server_map (ids s))((c, 0, v) \<mapsto> w\<lparr>var := Some (y\<lparr>att_head := Some (atts @
        [\<lparr>att_name = name, att_xtype = xtype, att_len = len, att_data = data\<rparr>])\<rparr>)\<rparr>)) \<and>
    (v = NC_GLOBAL \<and> r \<noteq> NC_NOERR \<or> reported (io s') = reported (io s))"
proof -
  have op: "file_open c (ids s)" using assms(2,3) tree_map_ok [OF assms(1)] by (simp add: file_open_def)
  obtain p f' x' where p: "server_map (ids s) (c, 0, 0) = Some f'" "nc f' = Some x'"
    "cfio_id_get_nc c (ids s) = Some (CFIO_ERROR_NONE, Some p)" "the_nc (Some p) (ids s) = Some (p, x')"
    by (rule file_openD [OF op])
  with assms(2,3) have x: "x' = x" by simp
  have "\<exists>info i. complete n (FUNC_PUT_ATT, c, 0, v) (io s) info i \<and>
      collect (\<lambda>m c'. io_put_att P m c' c v name xtype len data) m (map C ks) s =
        put_att_act P c v name xtype len data info (s\<lparr>io := i\<rparr>)"
    by (rule put_att.once) (use assms op in simp_all)
  then obtain info i where i: "complete n (FUNC_PUT_ATT, c, 0, v) (io s) info i"
      "collect (\<lambda>m c'. io_put_att P m c' c v name xtype len data) m (map C ks) s =
        put_att_act P c v name xtype len data info (s\<lparr>io := i\<rparr>)"
    by blast
  from complete_remove [OF i(1) assms(5)] obtain i' where i': "remove_client_io info i = Some i'"
    "io_ok n i'" "reported i' = reported (io s)" by blast
  note code = put_att_act_def put_att_last_def p(3,4) x error_codes
  consider (fails) "v = NC_GLOBAL" "r \<noteq> NC_NOERR" | (global) "v = NC_GLOBAL" "r = NC_NOERR" | (var) "v \<noteq> NC_GLOBAL"
    by blast
  then show ?thesis
  proof cases
    case fails
    then have "put_att_act P c v name xtype len data info (s\<lparr>io := i\<rparr>) = Some (CFIO_ERROR_NC, s\<lparr>io := i, lib := l\<rparr>)"
      using assms(11) by (simp add: code NC_NOERR_def)
    then show ?thesis unfolding i(2) using fails assms(1) i(1) by (simp add: complete_def)
  next
    case global
    then have "put_att_act P c v name xtype len data info (s\<lparr>io := i\<rparr>) = Some (CFIO_ERROR_NONE, s\<lparr>io := i', lib := l\<rparr>)"
      using assms(11) i'(1) by (simp add: code)
    then show ?thesis unfolding i(2) using global assms(1) i'(2,3) by (simp add: error_codes)
  next
    case var
    with assms(10) have w: "server_map (ids s) (c, 0, v) = Some w" "var w = Some y" "att_head y = Some atts" by simp_all
    from id_put_att_found [OF assms(1) w, of name xtype len data] obtain j where
      j: "cfio_id_put_att c v name xtype len data (ids s) = Some (CFIO_ERROR_NONE, j)" "tree_ok map_table j"
        "server_map j = (server_map (ids s))((c, 0, v) \<mapsto> w\<lparr>var := Some (y\<lparr>att_head := Some (atts @
          [\<lparr>att_name = name, att_xtype = xtype, att_len = len, att_data = data\<rparr>])\<rparr>)\<rparr>)" by blast
    have "put_att_act P c v name xtype len data info (s\<lparr>io := i\<rparr>) = Some (CFIO_ERROR_NONE, s\<lparr>ids := j, io := i'\<rparr>)"
      using var j(1) i'(1) by (simp add: code)
    then show ?thesis unfolding i(2) using var j(2,3) i'(2,3) by simp
  qed
qed

theorem put_att_collective_witness:
  "\<exists>j s'. collect (\<lambda>m c. io_put_att counting_library m c 1 NC_GLOBAL [116] 2 1 [65]) map_4_6
       (map example_clients [3, 1, 0, 2]) (example_state j) = Some (CFIO_ERROR_NONE, s') \<and> lib s' = 1"
proof -
  from state_with_defs obtain j f where j: "tree_ok map_table j" "nc f = Some \<lparr>nc_id = 9, nc_status = DEFINE_MODE\<rparr>"
    "server_map j (1, 0, 0) = Some f" by auto
  have order: "set [3, 1, 0, 2] = {..<4 :: nat}" "distinct [3, 1, 0, 2 :: nat]" by auto
  have lib: "put_att_call counting_library (nc_id \<lparr>nc_id = 9, nc_status = DEFINE_MODE\<rparr>) NC_GLOBAL [116] 2 2 1 [65]
      CFIO_ERROR_NONE (lib (example_state j)) = (NC_NOERR, 1)"
    by (simp add: put_att_call_def cfio_type_of_def counting_library_def example_ready NC_NOERR_def)
  from put_att_collective [of "example_state j" 1 f _ 4 NC_GLOBAL map_4_6 example_clients "[3, 1, 0, 2]", OF _ _ j(2) _ _ _ _ order _ lib]
  show ?thesis using j by (fastforce simp: example_ready NC_NOERR_def)
qed

end
