(* ===== verification/IoServer.thy ===== *)
theory IoServer
  imports IoAtts
begin

text \<open>
  The invariant of a server's tables over every sequence of handled calls, and what the handlers
  answer to calls on files, dimensions or variables that they do not know.
\<close>

section \<open>The invariant\<close>

text \<open>An entry below a file: a dimension under the key of a dimension, or a variable under the key
  of a variable, with a place for the data of each of the \<open>n\<close> clients.\<close>

definition child_ok :: "nat \<Rightarrow> i32 \<Rightarrow> i32 \<Rightarrow> id_val \<Rightarrow> bool" where
  "child_ok n d v w \<longleftrightarrow> nc w = None \<and>
     (v = 0 \<and> d \<noteq> 0 \<and> dim w \<noteq> None \<and> var w = None \<or>
      d = 0 \<and> v \<noteq> 0 \<and> dim w = None \<and> (\<exists>x ds. var w = Some x \<and> att_head x \<noteq> None \<and> recv_data x = Some ds \<and> length ds = n))"

definition file_val_ok :: "(id_key \<Rightarrow> id_val option) \<Rightarrow> i32 \<Rightarrow> id_val \<Rightarrow> bool" where
  "file_val_ok m c f \<longleftrightarrow> dim f = None \<and> var f = None \<and> (\<exists>x. nc f = Some x \<and> nc_id x \<noteq> CFIO_ID_NC_INVALID \<and>
     (nc_status x = DEFINE_MODE \<longrightarrow> file_defs m c))"

definition keys_ok :: "nat \<Rightarrow> (id_key \<Rightarrow> id_val option) \<Rightarrow> bool" where
  "keys_ok n m \<longleftrightarrow> (\<forall>c f. m (c, 0, 0) = Some f \<longrightarrow> file_val_ok m c f) \<and>
     (\<forall>c d v w. m (c, d, v) = Some w \<longrightarrow> (d, v) \<noteq> (0, 0) \<longrightarrow> child_ok n d v w)"

definition server_ok :: "map_state \<Rightarrow> nat \<Rightarrow> 'f server_state \<Rightarrow> bool" where
  "server_ok m n s \<longleftrightarrow> 0 < n \<and> cfio_map_get_client_num_of_server m (server_id (io s)) = Some (int n) \<and>
     tree_ok map_table (ids s) \<and> keys_ok n (server_map (ids s)) \<and> io_ok n (io s)"

lemma file_defs_cong: "(\<And>d v. m' (c, d, v) = m (c, d, v)) \<Longrightarrow> file_defs m' c = file_defs m c"
  by (simp add: file_defs_def definable_def dim_at_def)

lemma file_val_ok_cong: "(\<And>d v. m' (c, d, v) = m (c, d, v)) \<Longrightarrow> file_val_ok m' c f = file_val_ok m c f"
  using file_defs_cong [of m' c m] by (simp add: file_val_ok_def)

lemma keys_okI:
  assumes old: "keys_ok n m" and same: "\<And>k. fst k \<noteq> c \<Longrightarrow> m' k = m k"
    and fl: "\<And>f. m' (c, 0, 0) = Some f \<Longrightarrow> file_val_ok m' c f"
    and child: "\<And>d v w. m' (c, d, v) = Some w \<Longrightarrow> (d, v) \<noteq> (0, 0) \<Longrightarrow> child_ok n d v w"
  shows "keys_ok n m'"
  unfolding keys_ok_def
proof (intro conjI allI impI)
  fix c' f assume f: "m' (c', 0, 0) = Some f"
  show "file_val_ok m' c' f"
  proof (cases "c' = c")
    case False
    then have "file_val_ok m' c' f = file_val_ok m c' f" by (intro file_val_ok_cong) (simp add: same)
    then show ?thesis using old f same [of "(c', 0, 0)"] False by (simp add: keys_ok_def)
  qed (use f fl in simp)
next
  fix c' d v w assume "m' (c', d, v) = Some w" "(d, v) \<noteq> (0, 0)"
  then show "child_ok n d v w"
    using old child same [of "(c', d, v)"] by (cases "c' = c") (auto simp: keys_ok_def)
qed

lemma keys_okD:
  "keys_ok n m \<Longrightarrow> m (c, 0, 0) = Some f \<Longrightarrow> file_val_ok m c f"
  "keys_ok n m \<Longrightarrow> m (c, d, v) = Some w \<Longrightarrow> (d, v) \<noteq> (0, 0) \<Longrightarrow> child_ok n d v w"
  by (simp_all add: keys_ok_def)

section \<open>Changes that keep the invariant\<close>

text \<open>A new file without entries.\<close>

lemma keys_ok_file:
  assumes "keys_ok n m" "\<And>d v. m (c, d, v) = None" "i \<noteq> CFIO_ID_NC_INVALID"
  shows "keys_ok n (m((c, 0, 0) \<mapsto> (nc_val c CFIO_ID_NC_INVALID)\<lparr>nc := Some \<lparr>nc_id = i, nc_status = st\<rparr>\<rparr>))"
  by (rule keys_okI [OF assms(1), of c])
    (use assms(2,3) in \<open>auto simp: file_val_ok_def file_defs_def nc_val_def zero_val_def split: if_splits\<close>)

text \<open>A new entry of a file.\<close>

lemma definable_upd:
  assumes "definable m c d v w" "m (c', d', v') = None \<or> dim w' \<noteq> None \<or> (\<exists>u. m (c', d', v') = Some u \<and> dim u = None)"
  shows "definable (m((c', d', v') \<mapsto> w')) c d v w"
  by (rule definable_mono [OF assms(1)]) (use assms(2) in \<open>auto simp: dim_at_def\<close>)

lemma keys_ok_child:
  assumes ok: "keys_ok n m" and f: "m (c, 0, 0) = Some f" and new: "m (c, d, v) = None"
    and w: "child_ok n d v w" "definable m c d v w"
  shows "keys_ok n (m((c, d, v) \<mapsto> w, (c, 0, 0) \<mapsto> f\<lparr>children := ps\<rparr>))" (is "keys_ok n ?m")
proof (rule keys_okI [OF ok, of c])
  have ne: "(d, v) \<noteq> (0, 0)" using f new by auto
  have fd: "dim f = None" using keys_okD(1) [OF ok f] by (simp add: file_val_ok_def)
  have up: "definable ?m c d' v' u" if "definable m c d' v' u" for d' v' u
    by (rule definable_mono [OF that]) (use new fd f in \<open>auto simp: dim_at_def\<close>)
  fix f' assume "?m (c, 0, 0) = Some f'"
  then have f': "f' = f\<lparr>children := ps\<rparr>" by simp
  have "file_defs ?m c" if "file_defs m c"
    unfolding file_defs_def
  proof (intro allI impI)
    fix d' v' u assume u: "?m (c, d', v') = Some u" "(d', v') \<noteq> (0, 0)"
    then have "(d', v') = (d, v) \<and> u = w \<or> m (c, d', v') = Some u" by (auto split: if_splits)
    then show "definable ?m c d' v' u" using up w(2) that u(2) unfolding file_defs_def by auto
  qed
  then show "file_val_ok ?m c f'" using keys_okD(1) [OF ok f] f' by (auto simp: file_val_ok_def)
next
  fix d' v' u assume "?m (c, d', v') = Some u" "(d', v') \<noteq> (0, 0)"
  then show "child_ok n d' v' u" using keys_okD(2) [OF ok, of c d' v'] w(1) by (auto split: if_splits)
qed auto

text \<open>A change of one entry.\<close>

lemma keys_ok_update:
  assumes ok: "keys_ok n m" and w: "m (c, d, v) = Some w" "(d, v) \<noteq> (0, 0)"
    and w': "child_ok n d v w'" "dim w' = None \<longleftrightarrow> dim w = None"
    and def: "\<And>m. definable m c d v w \<Longrightarrow> definable m c d v w'"
  shows "keys_ok n (m((c, d, v) \<mapsto> w'))" (is "keys_ok n ?m")
proof (rule keys_okI [OF ok, of c])
  have up: "definable ?m c d' v' u" if "definable m c d' v' u" for d' v' u
    by (rule definable_mono [OF that]) (use w w'(2) in \<open>auto simp: dim_at_def\<close>)
  fix f' assume "?m (c, 0, 0) = Some f'"
  then have f: "m (c, 0, 0) = Some f'" using w(2) by (auto split: if_splits)
  have "file_defs ?m c" if fd: "file_defs m c"
    unfolding file_defs_def
  proof (intro allI impI)
    fix d' v' u assume u: "?m (c, d', v') = Some u" "(d', v') \<noteq> (0, 0)"
    show "definable ?m c d' v' u"
    proof (cases "(d', v') = (d, v)")
      case True
      then have "u = w'" "definable m c d' v' w" using u fd w by (auto simp: file_defs_def)
      then show ?thesis using def up True by auto
    next
      case False
      then have "m (c, d', v') = Some u" using u(1) by (auto split: if_splits)
      then show ?thesis using fd u(2) up by (simp add: file_defs_def)
    qed
  qed
  then show "file_val_ok ?m c f'" using keys_okD(1) [OF ok f] by (auto simp: file_val_ok_def)
next
  fix d' v' u assume "?m (c, d', v') = Some u" "(d', v') \<noteq> (0, 0)"
  then show "child_ok n d' v' u" using keys_okD(2) [OF ok, of c d' v'] w'(1) by (auto split: if_splits)
qed auto

text \<open>A file that leaves the definition mode, and one that is dropped.\<close>

lemma keys_ok_forget: "keys_ok n m \<Longrightarrow> keys_ok n (forget c m)"
  by (rule keys_okI [of n m c]) (auto simp: forget_def)

lemma same_shape_child: "same_shape w w' \<Longrightarrow> child_ok n d v w \<Longrightarrow> child_ok n d v w'"
  by (auto simp: same_shape_def child_ok_def)

lemma keys_ok_data_mode:
  assumes ok: "keys_ok n m" and f: "m' (c, 0, 0) = Some f" "dim f = None" "var f = None" "nc f = Some x"
      "nc_id x \<noteq> CFIO_ID_NC_INVALID" "nc_status x = DATA_MODE"
    and others: "\<And>k. fst k \<noteq> c \<Longrightarrow> m' k = m k" "same_shapes (m((c, 0, 0) := m' (c, 0, 0))) m'"
  shows "keys_ok n m'"
proof (rule keys_okI [OF ok, of c])
  fix d v w' assume w': "m' (c, d, v) = Some w'" "(d, v) \<noteq> (0, 0)"
  from others(2) have "rel_option same_shape ((m((c, 0, 0) := m' (c, 0, 0))) (c, d, v)) (m' (c, d, v))"
    unfolding same_shapes_def by blast
  with w' obtain w where "m (c, d, v) = Some w" "same_shape w w'" by (auto simp: option_rel_Some2)
  then show "child_ok n d v w'" using keys_okD(2) [OF ok _ w'(2)] same_shape_child by blast
qed (use f others(1) in \<open>auto simp: file_val_ok_def\<close>)


section \<open>The handlers keep the invariant\<close>

text \<open>A library never gives a new file the invalid identifier \<open>-1\<close>: the identifiers of PnetCDF
  are not negative.\<close>

definition library_ok :: "'f pnetcdf \<Rightarrow> bool" where
  "library_ok P \<longleftrightarrow> (\<forall>path cmode f i f'. ncmpi_create P path cmode f = (NC_NOERR, i, f') \<longrightarrow> i \<noteq> CFIO_ID_NC_INVALID)"

lemma server_okD:
  assumes "server_ok m n s"
  shows "0 < n" "cfio_map_get_client_num_of_server m (server_id (io s)) = Some (int n)" "tree_ok map_table (ids s)"
    "map_ok (ids s)" "keys_ok n (server_map (ids s))" "io_ok n (io s)"
  using assms tree_map_ok by (simp_all add: server_ok_def)

lemma server_ok_ids:
  assumes "server_ok m n s" "tree_ok map_table (ids s')" "keys_ok n (server_map (ids s'))" "io s' = io s"
  shows "server_ok m n s'"
  using assms by (simp add: server_ok_def)

lemma server_ok_io:
  assumes "server_ok m n s" "ids s' = ids s" "io_ok n (io s')" "server_id (io s') = server_id (io s)"
  shows "server_ok m n s'"
  using assms by (simp add: server_ok_def)

lemma known_nc:
  assumes ok: "server_ok m n s" and f: "server_map (ids s) (c, 0, 0) = Some f"
  shows "\<exists>p x. cfio_id_get_nc c (ids s) = Some (CFIO_ERROR_NONE, Some p) \<and> the_nc (Some p) (ids s) = Some (p, x) \<and>
    nc f = Some x \<and> nc_id x \<noteq> CFIO_ID_NC_INVALID \<and> server_entry (ids s) (c, 0, 0) = Some p"
proof -
  from keys_okD(1) [OF server_okD(5) [OF ok] f] obtain x where "nc f = Some x" "nc_id x \<noteq> CFIO_ID_NC_INVALID"
    by (auto simp: file_val_ok_def)
  with get_nc_found [OF server_okD(4) [OF ok] f] show ?thesis by blast
qed

lemma unknown_nc:
  "server_ok m n s \<Longrightarrow> server_map (ids s) (c, 0, 0) = None \<Longrightarrow> cfio_id_get_nc c (ids s) = Some (CFIO_ID_HASH_GET_NULL, None)"
  by (simp add: cfio_id_get_nc_def get_part_null server_okD)

lemma no_entries:
  assumes "server_ok m n s" "server_map (ids s) (c, 0, 0) = None"
  shows "server_map (ids s) (c, d, v) = None"
  using server.tree_file [folded server_defs, OF server_okD(3) [OF assms(1)], of c d v] assms(2)
  by (cases "server_map (ids s) (c, d, v)") auto

lemma create_known:
  assumes "server_ok m n s" "server_map (ids s) (c, 0, 0) \<noteq> None"
  shows "io_create P path cmode c s = Some (CFIO_ERROR_NONE, s)"
proof -
  from assms(2) obtain f where "server_map (ids s) (c, 0, 0) = Some f" by auto
  then obtain p where "cfio_id_get_nc c (ids s) = Some (CFIO_ERROR_NONE, Some p)"
    using known_nc [OF assms(1)] by blast
  then show ?thesis by (simp add: io_create_def error_codes)
qed

lemma create_new:
  assumes ok: "server_ok m n s" and P: "library_ok P" and new: "server_map (ids s) (c, 0, 0) = None"
    and lib: "ncmpi_create P path cmode (lib s) = (r, i, l)"
  shows "\<exists>s'. io_create P path cmode c s = Some (if r = NC_NOERR then CFIO_ERROR_NONE else CFIO_ERROR_NC, s') \<and>
    lib s' = l \<and> io s' = io s \<and> (r = NC_NOERR \<longrightarrow> server_ok m n s' \<and>
      server_map (ids s') = (server_map (ids s))((c, 0, 0) \<mapsto>
        (nc_val c CFIO_ID_NC_INVALID)\<lparr>nc := Some \<lparr>nc_id = i, nc_status = DEFINE_MODE\<rparr>\<rparr>))"
proof -
  from map_nc_tree [OF server_okD(3) [OF ok] new] obtain j where
    j: "cfio_id_map_nc c CFIO_ID_NC_INVALID (ids s) = Some (CFIO_ERROR_NONE, j)" "tree_ok map_table j"
      "server_map j = (server_map (ids s))((c, 0, 0) \<mapsto> nc_val c CFIO_ID_NC_INVALID)" by blast
  have f: "server_map j (c, 0, 0) = Some (nc_val c CFIO_ID_NC_INVALID)"
      "nc (nc_val c CFIO_ID_NC_INVALID) = Some \<lparr>nc_id = CFIO_ID_NC_INVALID, nc_status = DEFINE_MODE\<rparr>"
    using j(3) by (simp_all add: nc_val_def)
  show ?thesis
  proof (cases "r = NC_NOERR")
    case False
    then show ?thesis using j(1) lib unknown_nc [OF ok new] by (simp add: io_create_def error_codes)
  next
    case True
    from get_nc_found [OF tree_map_ok [OF j(2)] f] obtain p where
      p: "cfio_id_get_nc c j = Some (CFIO_ERROR_NONE, Some p)"
        "the_nc (Some p) j = Some (p, \<lparr>nc_id = CFIO_ID_NC_INVALID, nc_status = DEFINE_MODE\<rparr>)"
        "server_entry j (c, 0, 0) = Some p" by blast
    let ?j = "set_nc (\<lambda>x. x\<lparr>nc_id := i\<rparr>) p j"
    note sn = set_nc_server [OF j(2) p(3) f, of "\<lambda>x. x\<lparr>nc_id := i\<rparr>"]
    have i: "i \<noteq> CFIO_ID_NC_INVALID" using P lib True unfolding library_ok_def by blast
    have m: "server_map ?j = (server_map (ids s))((c, 0, 0) \<mapsto>
        (nc_val c CFIO_ID_NC_INVALID)\<lparr>nc := Some \<lparr>nc_id = i, nc_status = DEFINE_MODE\<rparr>\<rparr>)"
      using sn(2) j(3) by simp
    have "keys_ok n (server_map ?j)"
      unfolding m by (rule keys_ok_file [OF server_okD(5) [OF ok] no_entries [OF ok new] i])
    then have "server_ok m n (s\<lparr>lib := l, ids := ?j\<rparr>)" using sn(1) ok by (simp add: server_ok_def)
    moreover have "io_create P path cmode c s = Some (CFIO_ERROR_NONE, s\<lparr>lib := l, ids := ?j\<rparr>)"
      using j(1) lib unknown_nc [OF ok new] True p(1,2) by (simp add: io_create_def error_codes NC_NOERR_def)
    ultimately show ?thesis using True m by simp
  qed
qed

lemma get_dim_cases:
  assumes ok: "server_ok m n s" and r: "cfio_id_get_dim c d (ids s) = Some (ret, q)"
  shows "if ret = CFIO_ID_HASH_GET_NULL then server_map (ids s) (c, d, 0) = None
    else d \<noteq> 0 \<and> dim_at (server_map (ids s)) c d \<noteq> None"
proof (cases "server_map (ids s) (c, d, 0)")
  case None
  then show ?thesis using r get_part_null [OF server_okD(4) [OF ok] None, of dim] by (simp add: cfio_id_get_dim_def)
next
  case (Some w)
  then obtain p where "server_entry (ids s) (c, d, 0) = Some p" "heap (ids s) p = Some w"
    using server_entryE [OF server_okD(4) [OF ok]] by blast
  then have "ret = CFIO_ERROR_NONE" "dim w \<noteq> None"
    using r by (auto simp: cfio_id_get_dim_def get_part_def server_search [OF server_okD(4) [OF ok]] split: if_splits)
  moreover have "d \<noteq> 0"
  proof
    assume "d = 0"
    then have "dim w = None" using keys_okD(1) [OF server_okD(5) [OF ok]] Some by (simp add: file_val_ok_def)
    with \<open>dim w \<noteq> None\<close> show False by simp
  qed
  ultimately show ?thesis using Some by (simp add: dim_at_def error_codes)
qed

lemma get_var_cases:
  assumes ok: "server_ok m n s" and r: "cfio_id_get_var c v (ids s) = Some (ret, q)"
  shows "if ret = CFIO_ID_HASH_GET_NULL then server_map (ids s) (c, 0, v) = None
    else v \<noteq> 0 \<and> var_at (server_map (ids s)) c v \<noteq> None"
proof (cases "server_map (ids s) (c, 0, v)")
  case None
  then show ?thesis using r get_part_null [OF server_okD(4) [OF ok] None, of var] by (simp add: cfio_id_get_var_def)
next
  case (Some w)
  then obtain p where "server_entry (ids s) (c, 0, v) = Some p" "heap (ids s) p = Some w"
    using server_entryE [OF server_okD(4) [OF ok]] by blast
  then have "ret = CFIO_ERROR_NONE" "var w \<noteq> None"
    using r by (auto simp: cfio_id_get_var_def get_part_def server_search [OF server_okD(4) [OF ok]] split: if_splits)
  moreover have "v \<noteq> 0"
  proof
    assume "v = 0"
    then have "var w = None" using keys_okD(1) [OF server_okD(5) [OF ok]] Some by (simp add: file_val_ok_def)
    with \<open>var w \<noteq> None\<close> show False by simp
  qed
  ultimately show ?thesis using Some by (simp add: var_at_def error_codes)
qed


lemma def_dim_new:
  assumes ok: "server_ok m n s" and f: "server_map (ids s) (c, 0, 0) = Some f" and new: "server_map (ids s) (c, d, 0) = None"
  shows "\<exists>s' g. io_def_dim c name len d s = Some (CFIO_ERROR_NONE, s') \<and> server_ok m n s' \<and> lib s' = lib s \<and> io s' = io s \<and>
    g = f\<lparr>children := children f @ [brk (ids s)]\<rparr> \<and>
    server_map (ids s') = (server_map (ids s))((c, d, 0) \<mapsto>
      dim_val c d CFIO_ID_NC_INVALID CFIO_ID_DIM_INVALID name (ucast len), (c, 0, 0) \<mapsto> g)"
proof -
  let ?w = "dim_val c d CFIO_ID_NC_INVALID CFIO_ID_DIM_INVALID name (ucast len)"
  from map_dim_tree [OF server_okD(3) [OF ok] f new] obtain j where
    j: "cfio_id_map_dim c d CFIO_ID_NC_INVALID CFIO_ID_DIM_INVALID name (ucast len) (ids s) = Some (CFIO_ERROR_NONE, j)"
      "tree_ok map_table j" "server_map j = (server_map (ids s))((c, d, 0) \<mapsto> ?w,
        (c, 0, 0) \<mapsto> f\<lparr>children := children f @ [brk (ids s)]\<rparr>)" by blast
  from known_nc [OF ok f] obtain p where p: "cfio_id_get_nc c (ids s) = Some (CFIO_ERROR_NONE, Some p)" by blast
  have "d \<noteq> 0" using f new by auto
  then have w: "child_ok n d 0 ?w" "definable (server_map (ids s)) c d 0 ?w"
    by (simp_all add: child_ok_def definable_def dim_val_def zero_val_def)
  have "keys_ok n (server_map j)" unfolding j(3) by (rule keys_ok_child [OF server_okD(5) [OF ok] f new w])
  then have "server_ok m n (s\<lparr>ids := j\<rparr>)" using ok j(2) by (simp add: server_ok_def)
  moreover have "io_def_dim c name len d s = Some (CFIO_ERROR_NONE, s\<lparr>ids := j\<rparr>)"
    using p j(1) get_part_null [OF server_okD(4) [OF ok] new, of dim]
    by (simp add: io_def_dim_def cfio_id_get_dim_def error_codes)
  ultimately show ?thesis using j(3) by (intro exI [of _ "s\<lparr>ids := j\<rparr>"]) simp
qed

lemma def_dim_known:
  assumes ok: "server_ok m n s" and f: "server_map (ids s) (c, 0, 0) \<noteq> None" and d: "dim_at (server_map (ids s)) c d \<noteq> None"
  shows "io_def_dim c name len d s = Some (CFIO_ERROR_NONE, s)"
proof -
  from f obtain f where f: "server_map (ids s) (c, 0, 0) = Some f" by auto
  from known_nc [OF ok f] obtain p where p: "cfio_id_get_nc c (ids s) = Some (CFIO_ERROR_NONE, Some p)" by blast
  from d obtain x where "dim_at (server_map (ids s)) c d = Some x" by auto
  from known_dim [OF server_okD(4) [OF ok] this] p show ?thesis by (auto simp: io_def_dim_def error_codes)
qed

lemma dims_known_iff:
  assumes ok: "server_ok m n s" and r: "dims_known c (ids s) ds = Some b"
  shows "b \<longleftrightarrow> (\<forall>d \<in> set ds. dim_at (server_map (ids s)) c d \<noteq> None)"
  using r
proof (induction ds)
  case (Cons d ds)
  then obtain ret q where g: "cfio_id_get_dim c d (ids s) = Some (ret, q)" by (auto split: bind_splits)
  note cases = get_dim_cases [OF ok g]
  show ?case
  proof (cases "ret = CFIO_ID_HASH_GET_NULL")
    case True
    then have "dim_at (server_map (ids s)) c d = None" using cases by (simp add: dim_at_def)
    then show ?thesis using Cons.prems g True by simp
  next
    case False
    then show ?thesis using Cons g cases by simp
  qed
qed simp

lemma dims_known_all:
  assumes ok: "server_ok m n s" and "\<forall>d \<in> set ds. dim_at (server_map (ids s)) c d \<noteq> None"
  shows "dims_known c (ids s) ds = Some True"
  using assms(2)
proof (induction ds)
  case (Cons d ds)
  then obtain x where "dim_at (server_map (ids s)) c d = Some x" by auto
  from known_dim [OF server_okD(4) [OF ok] this] Cons show ?case by (auto simp: error_codes)
qed simp

lemma def_var_new:
  assumes ok: "server_ok m n s" and f: "server_map (ids s) (c, 0, 0) = Some f" and new: "server_map (ids s) (c, 0, v) = None"
    and dims: "array_take k dimids = Some ds" "\<forall>d \<in> set ds. dim_at (server_map (ids s)) c d \<noteq> None"
  shows "\<exists>s' g. io_def_var m c name xtype k dimids v s = Some (CFIO_ERROR_NONE, s') \<and> server_ok m n s' \<and>
    lib s' = lib s \<and> io s' = io s \<and> g = f\<lparr>children := children f @ [brk (ids s)]\<rparr> \<and>
    server_map (ids s') = (server_map (ids s))((c, 0, v) \<mapsto>
      var_val name c v CFIO_ID_NC_INVALID CFIO_ID_VAR_INVALID k dimids xtype (int n), (c, 0, 0) \<mapsto> g)"
proof -
  let ?w = "var_val name c v CFIO_ID_NC_INVALID CFIO_ID_VAR_INVALID k dimids xtype (int n)"
  have n: "0 < int n" using server_okD(1) [OF ok] by simp
  from map_var_tree [OF server_okD(3) [OF ok] f new n] obtain j where
    j: "cfio_id_map_var name c v CFIO_ID_NC_INVALID CFIO_ID_VAR_INVALID k dimids xtype (int n) (ids s) = Some (CFIO_ERROR_NONE, j)"
      "tree_ok map_table j" "server_map j = (server_map (ids s))((c, 0, v) \<mapsto> ?w,
        (c, 0, 0) \<mapsto> f\<lparr>children := children f @ [brk (ids s)]\<rparr>)" by blast
  from known_nc [OF ok f] obtain p where p: "cfio_id_get_nc c (ids s) = Some (CFIO_ERROR_NONE, Some p)" by blast
  have "v \<noteq> 0" using f new by auto
  then have w: "child_ok n 0 v ?w" "definable (server_map (ids s)) c 0 v ?w"
    using dims by (simp_all add: child_ok_def definable_def var_val_def zero_val_def)
  have "keys_ok n (server_map j)" unfolding j(3) by (rule keys_ok_child [OF server_okD(5) [OF ok] f new w])
  then have "server_ok m n (s\<lparr>ids := j\<rparr>)" using ok j(2) by (simp add: server_ok_def)
  moreover have "io_def_var m c name xtype k dimids v s = Some (CFIO_ERROR_NONE, s\<lparr>ids := j\<rparr>)"
    using p j(1) dims(1) dims_known_all [OF ok dims(2)] get_part_null [OF server_okD(4) [OF ok] new, of var] server_okD(2) [OF ok]
    by (simp add: io_def_var_def cfio_id_get_var_def error_codes)
  ultimately show ?thesis using j(3) by (intro exI [of _ "s\<lparr>ids := j\<rparr>"]) simp
qed

lemma def_var_known:
  assumes ok: "server_ok m n s" and f: "server_map (ids s) (c, 0, 0) \<noteq> None" and v: "var_at (server_map (ids s)) c v \<noteq> None"
    and dims: "array_take k dimids = Some ds" "\<forall>d \<in> set ds. dim_at (server_map (ids s)) c d \<noteq> None"
  shows "io_def_var m c name xtype k dimids v s = Some (CFIO_ERROR_NONE, s)"
proof -
  from f obtain f where f: "server_map (ids s) (c, 0, 0) = Some f" by auto
  from known_nc [OF ok f] obtain p where p: "cfio_id_get_nc c (ids s) = Some (CFIO_ERROR_NONE, Some p)" by blast
  from v obtain w x where "server_map (ids s) (c, 0, v) = Some w" "var w = Some x"
    by (auto simp: var_at_def bind_eq_Some_conv)
  from get_var_found [OF server_okD(4) [OF ok] this] obtain q where
    "cfio_id_get_var c v (ids s) = Some (CFIO_ERROR_NONE, Some q)" by blast
  then show ?thesis using p dims(1) dims_known_all [OF ok dims(2)] by (simp add: io_def_var_def error_codes)
qed

text \<open>Both keep the invariant, whatever they answer.\<close>

lemma def_dim_keeps:
  assumes ok: "server_ok m n s" and r: "io_def_dim c name len d s = Some (ret, s')"
  shows "server_ok m n s'"
proof (cases "server_map (ids s) (c, 0, 0)")
  case None
  then show ?thesis using r ok unknown_nc [OF ok None] by (simp add: io_def_dim_def)
next
  case (Some f)
  from known_nc [OF ok Some] obtain p where p: "cfio_id_get_nc c (ids s) = Some (CFIO_ERROR_NONE, Some p)" by blast
  with r obtain ret' q where g: "cfio_id_get_dim c d (ids s) = Some (ret', q)"
    by (auto simp: io_def_dim_def error_codes split: bind_splits)
  show ?thesis
  proof (cases "ret' = CFIO_ID_HASH_GET_NULL")
    case True
    then have "server_map (ids s) (c, d, 0) = None" using get_dim_cases [OF ok g] by simp
    from def_dim_new [OF ok Some this, of name len] r show ?thesis by auto
  next
    case False
    then show ?thesis using r p g ok by (simp add: io_def_dim_def error_codes)
  qed
qed

lemma def_var_keeps:
  assumes ok: "server_ok m n s" and r: "io_def_var m c name xtype k dimids v s = Some (ret, s')"
  shows "server_ok m n s'"
proof (cases "server_map (ids s) (c, 0, 0)")
  case None
  then show ?thesis using r ok unknown_nc [OF ok None] by (simp add: io_def_var_def)
next
  case (Some f)
  from known_nc [OF ok Some] obtain p where p: "cfio_id_get_nc c (ids s) = Some (CFIO_ERROR_NONE, Some p)" by blast
  with r obtain ds b where ds: "array_take k dimids = Some ds" "dims_known c (ids s) ds = Some b"
    by (auto simp: io_def_var_def error_codes split: bind_splits)
  show ?thesis
  proof (cases b)
    case False
    then show ?thesis using r p ds ok by (simp add: io_def_var_def error_codes)
  next
    case True
    then have dims: "\<forall>d \<in> set ds. dim_at (server_map (ids s)) c d \<noteq> None" using dims_known_iff [OF ok ds(2)] by simp
    from r p ds True obtain ret' q where g: "cfio_id_get_var c v (ids s) = Some (ret', q)"
      by (auto simp: io_def_var_def error_codes split: bind_splits)
    show ?thesis
    proof (cases "ret' = CFIO_ID_HASH_GET_NULL")
      case null: True
      then have "server_map (ids s) (c, 0, v) = None" using get_var_cases [OF ok g] by simp
      from def_var_new [OF ok Some this ds(1) dims, of name xtype] r show ?thesis by auto
    next
      case False
      then show ?thesis using r p ds g True ok by (simp add: io_def_var_def error_codes)
    qed
  qed
qed


text \<open>Calls that wait for all clients. \<open>c'\<close> is the \<open>k\<close>th client of the server.\<close>

lemma file_open_iff: "server_ok m n s \<Longrightarrow> file_open c (ids s) \<longleftrightarrow> server_map (ids s) (c, 0, 0) \<noteq> None"
  using keys_okD(1) [OF server_okD(5)] by (fastforce simp: file_open_def file_val_ok_def server_okD(4))

lemma remove_keeps:
  assumes ok: "server_ok m n s" and i: "io_ok n i" "server_id i = server_id (io s)" "pending i key = Some info"
    and r: "remove_client_io info i = Some i'"
  shows "io_ok n i' \<and> server_id i' = server_id (io s)"
  using remove_client_io_spec [OF i(1,3)] i(2) r by auto

lemma var_of_key:
  assumes ok: "server_ok m n s" and w: "server_map (ids s) (c, 0, v) = Some w" "v \<noteq> 0"
  obtains x atts ds where "var w = Some x" "att_head x = Some atts" "recv_data x = Some ds" "length ds = n"
    "dim w = None" "nc w = None"
  using keys_okD(2) [OF server_okD(5) [OF ok] w(1)] w(2) by (auto simp: child_ok_def)

lemma set_att_keeps:
  assumes ok: "keys_ok n m" and w: "m (c, 0, v) = Some w" "v \<noteq> 0" "var w = Some x"
    and x': "ndims x' = ndims x" "dim_ids x' = dim_ids x" "att_head x' \<noteq> None" "recv_data x' = Some ds" "length ds = n"
  shows "keys_ok n (m((c, 0, v) \<mapsto> w\<lparr>var := Some x'\<rparr>))"
proof (rule keys_ok_update [OF ok w(1)])
  show "(0, v) \<noteq> (0, 0)" using w(2) by simp
  show "child_ok n 0 v (w\<lparr>var := Some x'\<rparr>)"
    using keys_okD(2) [OF ok w(1)] w(2) x' by (auto simp: child_ok_def)
  show "definable m c 0 v (w\<lparr>var := Some x'\<rparr>)" if "definable m c 0 v w" for m
    using that w(2,3) x' by (auto simp: definable_def)
qed simp

lemma put_att_keeps:
  assumes ok: "server_ok m n s" and cl: "client_of m (server_id (io s)) n c' k"
    and r: "io_put_att P m c' c v name xtype len data s = Some (ret, s')"
  shows "server_ok m n s'"
proof (cases "server_map (ids s) (c, 0, 0)")
  case None
  from recv_client_io_spec [OF server_okD(6) [OF ok] cl, of "(FUNC_PUT_ATT, c, 0, v)"] obtain info i where
    i: "recv_client_io m c' (FUNC_PUT_ATT, c, 0, v) (io s) = Some (info, i)" "io_ok n i" "server_id i = server_id (io s)"
    by blast
  then have "s' = s\<lparr>io := i\<rparr>" using r unknown_nc [OF ok None] by (simp add: io_put_att_def)
  then show ?thesis by (intro server_ok_io [OF ok]) (simp_all add: i)
next
  case (Some f)
  have op: "file_open c (ids s)" using file_open_iff [OF ok] Some by simp
  from known_nc [OF ok Some] obtain p x where p: "cfio_id_get_nc c (ids s) = Some (CFIO_ERROR_NONE, Some p)"
    "the_nc (Some p) (ids s) = Some (p, x)" by blast
  from put_att.report [of c s n m c' k v P name xtype len data, OF op server_okD(6) [OF ok] cl] obtain info i where
    i: "io_ok n i" "server_id i = server_id (io s)" "pending i (FUNC_PUT_ATT, c, 0, v) = Some info" and
    h: "(ret, s') = (CFIO_ERROR_NONE, s\<lparr>io := i\<rparr>) \<or>
      put_att_act P c v name xtype len data info (s\<lparr>io := i\<rparr>) = Some (ret, s')"
    using r by (auto split: if_splits)
  have waits: "server_ok m n (s\<lparr>io := i\<rparr>)" by (rule server_ok_io [OF ok]) (use i in simp_all)
  from h show ?thesis
  proof
    assume act: "put_att_act P c v name xtype len data info (s\<lparr>io := i\<rparr>) = Some (ret, s')"
    show ?thesis
    proof (cases "v = NC_GLOBAL")
      case True
      with act p show ?thesis
        using remove_keeps [OF ok i] ok
        by (auto simp: put_att_act_def put_att_last_def error_codes server_ok_def i split: if_splits bind_splits prod.splits)
    next
      case False
      show ?thesis
      proof (cases "server_map (ids s) (c, 0, v)")
        case None
        then have "server_entry (ids s) (c, 0, v) = None" using server_map_None [OF server_okD(4) [OF ok]] by blast
        then have "s' = s\<lparr>io := i\<rparr>" using act p False
          by (simp add: put_att_act_def put_att_last_def cfio_id_put_att_def server_search [OF server_okD(4) [OF ok]] error_codes)
        then show ?thesis using waits by simp
      next
        case w: (Some w)
        obtain q where q: "server_entry (ids s) (c, 0, v) = Some q" "heap (ids s) q = Some w"
          using server_entryE [OF server_okD(4) [OF ok] w] by blast
        have v0: "v \<noteq> 0"
        proof
          assume "v = 0"
          then have "var w = None" using w keys_okD(1) [OF server_okD(5) [OF ok]] by (simp add: file_val_ok_def)
          with act p False q show False
            by (simp add: put_att_act_def put_att_last_def cfio_id_put_att_def server_search [OF server_okD(4) [OF ok]] error_codes)
        qed
        obtain y atts ds where y: "var w = Some y" "att_head y = Some atts" "recv_data y = Some ds" "length ds = n"
          by (rule var_of_key [OF ok w v0])
        from id_put_att_found [OF server_okD(3) [OF ok] w y(1,2), of name xtype len data] obtain j where
          j: "cfio_id_put_att c v name xtype len data (ids s) = Some (CFIO_ERROR_NONE, j)" "tree_ok map_table j"
          "server_map j = (server_map (ids s))((c, 0, v) \<mapsto> w\<lparr>var := Some (y\<lparr>att_head := Some (atts @
            [\<lparr>att_name = name, att_xtype = xtype, att_len = len, att_data = data\<rparr>])\<rparr>)\<rparr>)" by blast
        have keys: "keys_ok n (server_map j)"
          unfolding j(3) by (rule set_att_keeps [OF server_okD(5) [OF ok] w v0 y(1)]) (use y in simp_all)
        from act p False j(1) obtain i' where "remove_client_io info i = Some i'" "s' = s\<lparr>ids := j, io := i'\<rparr>"
          by (auto simp: put_att_act_def put_att_last_def error_codes split: bind_splits)
        then show ?thesis using remove_keeps [OF ok i] ok j(2) keys by (simp add: server_ok_def)
      qed
    qed
  qed (use waits in simp)
qed


lemma close_keeps:
  assumes ok: "server_ok m n s" and cl: "client_of m (server_id (io s)) n c' k"
    and r: "io_close P m c' c s = Some (ret, s')"
  shows "server_ok m n s'"
proof -
  from close.report [where P = P and cnc = c, OF TrueI server_okD(6) [OF ok] cl] obtain info i where
    i: "io_ok n i" "server_id i = server_id (io s)" "pending i (FUNC_NC_CLOSE, c, 0, 0) = Some info" and
    h: "(ret, s') = (CFIO_ERROR_NONE, s\<lparr>io := i\<rparr>) \<or> close_last P c info (s\<lparr>io := i\<rparr>) = Some (ret, s')"
    using r by (auto split: if_splits)
  have waits: "server_ok m n (s\<lparr>io := i\<rparr>)" by (rule server_ok_io [OF ok]) (use i in simp_all)
  from h show ?thesis
  proof
    assume act: "close_last P c info (s\<lparr>io := i\<rparr>) = Some (ret, s')"
    show ?thesis
    proof (cases "server_map (ids s) (c, 0, 0)")
      case None
      then show ?thesis using act unknown_nc [OF ok None] waits by (simp add: close_last_def)
    next
      case (Some f)
      from known_nc [OF ok Some] obtain p x where p: "cfio_id_get_nc c (ids s) = Some (CFIO_ERROR_NONE, Some p)"
        "the_nc (Some p) (ids s) = Some (p, x)" "nc f = Some x" by blast
      obtain r l where lib: "ncmpi_close P (nc_id x) (lib s) = (r, l)" by (metis surj_pair)
      show ?thesis
      proof (cases "r = NC_NOERR")
        case False
        then have "s' = s\<lparr>io := i, lib := l\<rparr>" using act p lib by (simp add: close_last_def error_codes)
        then show ?thesis using waits by (simp add: server_ok_def)
      next
        case True
        from act p lib True obtain i' where i': "remove_client_io info i = Some i'"
          by (auto simp: close_last_def error_codes split: bind_splits)
        from close_last_frees [of "s\<lparr>io := i\<rparr>" c f x info i' P l] server_okD(3) [OF ok] Some p(3) i' lib True act
        have "tree_ok map_table (ids s')" "server_map (ids s') = forget c (server_map (ids s))" "io s' = i'" by auto
        then show ?thesis using remove_keeps [OF ok i i'] ok keys_ok_forget by (simp add: server_ok_def)
      qed
    qed
  qed (use waits in simp)
qed

lemma enddef_keeps:
  assumes ok: "server_ok m n s" and cl: "client_of m (server_id (io s)) n c' k"
    and r: "io_enddef P m c' c s = Some (CFIO_ERROR_NONE, s')"
  shows "server_ok m n s'"
proof -
  from enddef.report [where P = P and cnc = c, OF TrueI server_okD(6) [OF ok] cl] obtain info i where
    i: "io_ok n i" "server_id i = server_id (io s)" "pending i (FUNC_NC_ENDDEF, c, 0, 0) = Some info" and
    h: "s' = s\<lparr>io := i\<rparr> \<or> enddef_last P c info (s\<lparr>io := i\<rparr>) = Some (CFIO_ERROR_NONE, s')"
    using r by (auto split: if_splits)
  have waits: "server_ok m n (s\<lparr>io := i\<rparr>)" by (rule server_ok_io [OF ok]) (use i in simp_all)
  from remove_client_io_spec [OF i(1,3)] obtain i' where i': "remove_client_io info i = Some i'" by blast
  note rk = remove_keeps [OF ok i i']
  from h show ?thesis
  proof
    assume act: "enddef_last P c info (s\<lparr>io := i\<rparr>) = Some (CFIO_ERROR_NONE, s')"
    show ?thesis
    proof (cases "server_map (ids s) (c, 0, 0)")
      case None
      then show ?thesis using act unknown_nc [OF ok None] waits by (simp add: enddef_last_def error_codes)
    next
      case (Some f)
      from known_nc [OF ok Some] obtain p x where p: "cfio_id_get_nc c (ids s) = Some (CFIO_ERROR_NONE, Some p)"
        "the_nc (Some p) (ids s) = Some (p, x)" "nc f = Some x" "nc_id x \<noteq> CFIO_ID_NC_INVALID" by blast
      show ?thesis
      proof (cases "nc_status x")
        case DATA_MODE
        then have "s' = s\<lparr>io := i'\<rparr>" using act p i' by (simp add: enddef_last_def error_codes)
        then show ?thesis using rk ok by (simp add: server_ok_def)
      next
        case DEFINE_MODE
        note fv = keys_okD(1) [OF server_okD(5) [OF ok] Some]
        have defs: "file_defs (server_map (ids s)) c" using fv p(3) DEFINE_MODE by (auto simp: file_val_ok_def)
        have nco: "nc_open (s\<lparr>io := i\<rparr>) c x" using Some p(3,4) server_okD(3) [OF ok] by (simp add: nc_open_def)
        obtain ret L l where all: "define_all P (nc_id x) (defs_at (s\<lparr>io := i\<rparr>) (children f))
            (lib_ids (server_map (ids (s\<lparr>io := i\<rparr>))) c) (lib (s\<lparr>io := i\<rparr>)) = (ret, L, l)" by (metis prod_cases3)
        obtain r l' where lib: "ncmpi_enddef P (nc_id x) l = (r, l')" by (metis surj_pair)
        have si: "server_map (ids (s\<lparr>io := i\<rparr>)) (c, 0, 0) = Some f" "file_defs (server_map (ids (s\<lparr>io := i\<rparr>))) c"
          "remove_client_io info (io (s\<lparr>io := i\<rparr>)) = Some i'" using Some defs i' by simp_all
        from enddef_last_defines [OF nco si(1) DEFINE_MODE si(2) all lib si(3)] act obtain e where
          e: "CFIO_ERROR_NONE = (if ret < 0 then ret else if r < 0 then CFIO_ERROR_NC else CFIO_ERROR_NONE)"
            "ended (s\<lparr>io := i\<rparr>) c (if 0 \<le> ret \<and> 0 \<le> r then x\<lparr>nc_status := DATA_MODE\<rparr> else x) L e s'"
            "io s' = (if 0 \<le> ret \<and> 0 \<le> r then i' else i)" by auto
        then have pos: "0 \<le> ret" "0 \<le> r" by (auto simp: error_codes split: if_splits)
        with e(2,3) have e: "ended (s\<lparr>io := i\<rparr>) c (x\<lparr>nc_status := DATA_MODE\<rparr>) L e s'" "io s' = i'" by simp_all
        then have tree: "tree_ok map_table (ids s')" by (simp add: ended_def nc_open_def)
        have f': "server_map (ids s') (c, 0, 0) = Some (f\<lparr>nc := Some (x\<lparr>nc_status := DATA_MODE\<rparr>)\<rparr>)"
          and others: "\<And>k. fst k \<noteq> c \<Longrightarrow> server_map (ids s') k = server_map (ids s) k"
            "same_shapes ((server_map (ids s))((c, 0, 0) := server_map (ids s') (c, 0, 0))) (server_map (ids s'))"
          using e(1) Some by (auto simp: ended_def)
        have "keys_ok n (server_map (ids s'))"
          by (rule keys_ok_data_mode [where x = "x\<lparr>nc_status := DATA_MODE\<rparr>", OF server_okD(5) [OF ok] f' _ _ _ _ _ others])
            (use fv p(4) in \<open>simp_all add: file_val_ok_def\<close>)
        then show ?thesis using tree e(2) rk ok by (simp add: server_ok_def)
      qed
    qed
  qed (use waits in simp)
qed

lemma merge_keeps:
  assumes "merge_var_data junk x = Some (st, ct, whole, x')" "recv_data x = Some ds"
  shows "\<exists>ds'. x' = x\<lparr>recv_data := Some ds'\<rparr> \<and> length ds' = length ds"
  using assms by (auto simp: merge_var_data_def Let_def split: bind_splits if_splits prod.splits)

text \<open>After a write the variable has its slots again, and the tables are as good as before.\<close>

lemma merged_keeps:
  assumes keys: "\<And>ds'. length ds' = n \<Longrightarrow> keys_ok n ((server_map j)((c, 0, v) \<mapsto> w\<lparr>var := Some (y\<lparr>recv_data := Some ds'\<rparr>)\<rparr>))"
    and j: "map_ok j" "tree_ok map_table j" "server_map j (c, 0, v) = Some w" "var w = Some y" "server_entry j (c, 0, v) = Some p"
    and y: "recv_data y = Some ds" "length ds = n" and m: "merge_var_data junk y = Some (st, ct, whole, y')"
  shows "keys_ok n (server_map (set_var (\<lambda>_. y') p j))" "tree_ok map_table (set_var (\<lambda>_. y') p j)"
proof -
  from merge_keeps [OF m y(1)] y(2) obtain ds' where ds': "y' = y\<lparr>recv_data := Some ds'\<rparr>" "length ds' = n" by auto
  have "server_map (set_var (\<lambda>_. y') p j) = (server_map j)((c, 0, v) \<mapsto> w\<lparr>var := Some y'\<rparr>)"
    using set_var_server [OF j(1,5,3,4), of "\<lambda>_. y'"] by simp
  then show "keys_ok n (server_map (set_var (\<lambda>_. y') p j))" using keys [OF ds'(2)] ds'(1) by simp
  show "tree_ok map_table (set_var (\<lambda>_. y') p j)"
    unfolding set_var_def by (rule tree_server_update [OF j(2,5)]) (simp_all add: key_of_def)
qed

lemma put_vara_keeps:
  assumes ok: "server_ok m n s" and cl: "client_of m (server_id (io s)) n c' k"
    and r: "io_put_vara P junk m c' c v nd start count data s = Some (ret, s')"
  shows "server_ok m n s'"
proof -
  from recv_client_io_spec [OF server_okD(6) [OF ok] cl, of "(FUNC_NC_PUT_VARA, c, 0, v)"] obtain info i where
    i: "recv_client_io m c' (FUNC_NC_PUT_VARA, c, 0, v) (io s) = Some (info, i)" "io_ok n i"
      "server_id i = server_id (io s)" "pending i (FUNC_NC_PUT_VARA, c, 0, v) = Some info"
    by blast
  from remove_client_io_spec [OF i(2,4)] obtain i' where i': "remove_client_io info i = Some i'" by blast
  note rk = remove_keeps [OF ok i(2,3,4) i']
  have idx: "cfio_map_get_client_index_of_server m c' = Some (int k)" "k < n" using cl by (auto simp: client_of_def)
  show ?thesis
  proof (cases "server_map (ids s) (c, 0, v)")
    case None
    then have "server_entry (ids s) (c, 0, v) = None" using server_map_None [OF server_okD(4) [OF ok]] by blast
    then have "s' = s\<lparr>io := i\<rparr>" using r i(1) idx
      by (simp add: io_put_vara_def cfio_id_put_var_def server_search [OF server_okD(4) [OF ok]])
    then show ?thesis using i ok by (simp add: server_ok_def)
  next
    case w: (Some w)
    obtain q where q: "server_entry (ids s) (c, 0, v) = Some q" "heap (ids s) q = Some w"
      using server_entryE [OF server_okD(4) [OF ok] w] by blast
    have v0: "v \<noteq> 0"
    proof
      assume "v = 0"
      then have "var w = None" using w keys_okD(1) [OF server_okD(5) [OF ok]] by (simp add: file_val_ok_def)
      with r i(1) idx q show False
        by (simp add: io_put_vara_def cfio_id_put_var_def server_search [OF server_okD(4) [OF ok]])
    qed
    obtain y atts ds where y: "var w = Some y" "att_head y = Some atts" "recv_data y = Some ds" "length ds = n"
      by (rule var_of_key [OF ok w v0])
    let ?ds = "ds[k := \<lparr>dbuf = data, dstart = Some start, dcount = Some count\<rparr>]"
    let ?y = "y\<lparr>recv_data := Some ?ds\<rparr>"
    have k: "k < length ds" using idx y(4) by simp
    from id_put_var_found [OF server_okD(4) [OF ok] w y(1,3) k, of start count data] obtain j where
      j: "cfio_id_put_var c v (int k) start count data (ids s) = Some (CFIO_ERROR_NONE, j)" "map_ok j"
        "server_map j = (server_map (ids s))((c, 0, v) \<mapsto> w\<lparr>var := Some ?y\<rparr>)"
        "server_entry j = server_entry (ids s)" by blast
    have tree: "tree_ok map_table j"
      by (rule server.tree_cong [folded server_defs, OF server_okD(3) [OF ok] j(2,4)]) (simp add: j(3) w)
    have key: "server_map j (c, 0, v) = Some (w\<lparr>var := Some ?y\<rparr>)" "var (w\<lparr>var := Some ?y\<rparr>) = Some ?y"
      using j(3) by simp_all
    have set_keeps: "keys_ok n ((server_map (ids s))((c, 0, v) \<mapsto> w\<lparr>var := Some (y\<lparr>recv_data := Some ds'\<rparr>)\<rparr>))"
      if "length ds' = n" for ds'
      by (rule set_att_keeps [where ds = ds', OF server_okD(5) [OF ok] w v0 y(1)]) (use y that in simp_all)
    have keys: "keys_ok n (server_map j)" unfolding j(3) by (rule set_keeps) (simp add: y(4))
    have waits: "server_ok m n (s\<lparr>io := i, ids := j\<rparr>)" using ok tree keys i by (simp add: server_ok_def)
    from get_var_found [OF j(2) key] obtain p where
      p: "cfio_id_get_var c v j = Some (CFIO_ERROR_NONE, Some p)" "the_var (Some p) j = Some (p, ?y)"
        "server_entry j (c, 0, v) = Some p" by blast
    have "s' = s\<lparr>io := i, ids := j\<rparr> \<or> (\<exists>st ct whole y' l. merge_var_data junk ?y = Some (st, ct, whole, y') \<and>
        s' = s\<lparr>ids := set_var (\<lambda>_. y') p j, lib := l, io := i'\<rparr>)"
      using r i(1) idx(1) j(1) p(1,2) i'
      by (auto simp: io_put_vara_def error_codes Let_def split: bind_splits if_splits prod.splits)
    then show ?thesis
    proof (elim disjE exE conjE)
      fix st ct whole y' l
      assume m: "merge_var_data junk ?y = Some (st, ct, whole, y')" and s': "s' = s\<lparr>ids := set_var (\<lambda>_. y') p j, lib := l, io := i'\<rparr>"
      have "keys_ok n (server_map (set_var (\<lambda>_. y') p j))" "tree_ok map_table (set_var (\<lambda>_. y') p j)"
        by (rule merged_keeps [OF _ j(2) tree key p(3) _ _ m, of n ?ds]; use set_keeps j(3) y(4) in simp)+
      then show ?thesis using s' rk ok by (simp add: server_ok_def)
    qed (use waits in simp)
  qed
qed


section \<open>The states a server reaches\<close>

text \<open>A server with \<open>n\<close> clients starts with empty tables and then handles calls of its clients in
  any order and number. A run goes on after every answer but a failed creation of a file and a
  failed end of definitions: after the first the table holds a file without an identifier of the
  library, after the second variables whose dimension ids are already the library's.\<close>

definition CFIO_ID_INIT_SERVER :: int where "CFIO_ID_INIT_SERVER = 1"

inductive server_reach :: "'f pnetcdf \<Rightarrow> map_state \<Rightarrow> nat \<Rightarrow> 'f server_state \<Rightarrow> bool"
  for P m n where
  init: "cfio_map_get_client_num_of_server m rank = Some (int n) \<Longrightarrow>
    cfio_id_init CFIO_ID_INIT_SERVER i0 = (r, ids s) \<Longrightarrow> cfio_io_init rank j0 = (r', io s) \<Longrightarrow> server_reach P m n s"
| create: "server_reach P m n s \<Longrightarrow> io_create P path cmode c s = Some (CFIO_ERROR_NONE, s') \<Longrightarrow> server_reach P m n s'"
| def_dim: "server_reach P m n s \<Longrightarrow> io_def_dim c name len d s = Some (ret, s') \<Longrightarrow> server_reach P m n s'"
| def_var: "server_reach P m n s \<Longrightarrow> io_def_var m c name type nd dimids v s = Some (ret, s') \<Longrightarrow> server_reach P m n s'"
| put_att: "server_reach P m n s \<Longrightarrow> client_of m (server_id (io s)) n client k \<Longrightarrow>
    io_put_att P m client c v name type len data s = Some (ret, s') \<Longrightarrow> server_reach P m n s'"
| enddef: "server_reach P m n s \<Longrightarrow> client_of m (server_id (io s)) n client k \<Longrightarrow>
    io_enddef P m client c s = Some (CFIO_ERROR_NONE, s') \<Longrightarrow> server_reach P m n s'"
| put_vara: "server_reach P m n s \<Longrightarrow> client_of m (server_id (io s)) n client k \<Longrightarrow>
    io_put_vara P junk m client c v nd start count data s = Some (ret, s') \<Longrightarrow> server_reach P m n s'"
| close: "server_reach P m n s \<Longrightarrow> client_of m (server_id (io s)) n client k \<Longrightarrow>
    io_close P m client c s = Some (ret, s') \<Longrightarrow> server_reach P m n s'"

lemma init_ok:
  assumes "0 < n" "cfio_map_get_client_num_of_server m rank = Some (int n)"
    and "cfio_id_init CFIO_ID_INIT_SERVER i0 = (r, ids s)" "cfio_io_init rank j0 = (r', io s)"
  shows "server_ok m n s"
proof -
  have "ids s = snd (cfio_id_init CFIO_ID_INIT_SERVER i0)" "io s = snd (cfio_io_init rank j0)" using assms(3,4) by simp_all
  note st = this
  have i: "map_table (ids s) = Some (qhash_init 1024)"
    by (simp add: st(1) cfio_id_init_def CFIO_ID_INIT_SERVER_def MAP_HASH_TABLE_SIZE_def)
  then have empty: "server_map (ids s) = Map.empty" and ok: "map_ok (ids s)"
    by (simp_all add: server_map_def map_ok_def tab_map_def tab_ok_def sound_init)
  have "tree_ok map_table (ids s)" using ok empty by (simp add: tree_ok_def map_ok_def server_map_def)
  moreover have "io_ok n (io s)" "server_id (io s) = rank"
    by (simp_all add: st(2) io_init_ok)
  ultimately show ?thesis using assms(1,2) empty by (simp add: server_ok_def keys_ok_def)
qed

lemma create_keeps:
  assumes ok: "server_ok m n s" and P: "library_ok P" and r: "io_create P path cmode c s = Some (CFIO_ERROR_NONE, s')"
  shows "server_ok m n s'"
proof (cases "server_map (ids s) (c, 0, 0)")
  case None
  obtain r i l where lib: "ncmpi_create P path cmode (lib s) = (r, i, l)" by (metis prod_cases3)
  from create_new [OF ok P None lib] r show ?thesis by (auto simp: error_codes split: if_splits)
next
  case (Some f)
  then show ?thesis using create_known [OF ok] r ok by auto
qed

lemma server_reach_ok:
  assumes "server_reach P m n s" "library_ok P" "0 < n"
  shows "server_ok m n s"
  using assms(1)
proof induction
  case init
  then show ?case using init_ok [OF assms(3)] by blast
next
  case create
  then show ?case using create_keeps [OF _ assms(2)] by blast
next
  case def_dim
  then show ?case by (elim def_dim_keeps)
next
  case def_var
  then show ?case by (elim def_var_keeps)
next
  case put_att
  then show ?case by (elim put_att_keeps)
next
  case enddef
  then show ?case by (elim enddef_keeps)
next
  case put_vara
  then show ?case by (elim put_vara_keeps)
next
  case close
  then show ?case by (elim close_keeps)
qed



section \<open>Answers of the handlers\<close>

text \<open>C12. A definition that all clients make reaches the server once for every client, and only the
  first one counts: it creates the file in the library, or records the dimension or the variable
  for the end of the definitions; the same call of every later client answers success and leaves
  the whole state as it is, even if its other arguments differ. The invariant holds on.\<close>

theorem first_definition_counts:
  assumes ok: "server_ok m n s" and P: "library_ok P"
    and lib: "ncmpi_create P path cmode (lib s) = (NC_NOERR, i, l)" and new: "server_map (ids s) (c, 0, 0) = None"
    and f: "server_map (ids s) (c', 0, 0) = Some f" and d: "server_map (ids s) (c', d, 0) = None"
    and v: "server_map (ids s) (c', 0, v) = None" and ds: "array_take k dimids = Some ds"
      "\<forall>d \<in> set ds. dim_at (server_map (ids s)) c' d \<noteq> None"
  shows "(\<exists>s'. io_create P path cmode c s = Some (CFIO_ERROR_NONE, s') \<and> server_ok m n s' \<and> lib s' = l \<and>
      (\<forall>path cmode. io_create P path cmode c s' = Some (CFIO_ERROR_NONE, s'))) \<and>
    (\<exists>s'. io_def_dim c' name len d s = Some (CFIO_ERROR_NONE, s') \<and> server_ok m n s' \<and> lib s' = lib s \<and>
      (\<exists>x. dim_at (server_map (ids s')) c' d = Some x \<and> dim_name x = name \<and> global_dim_len x = ucast len) \<and>
      (\<forall>name len. io_def_dim c' name len d s' = Some (CFIO_ERROR_NONE, s'))) \<and>
    (\<exists>s'. io_def_var m c' name type k dimids v s = Some (CFIO_ERROR_NONE, s') \<and> server_ok m n s' \<and> lib s' = lib s \<and>
      (\<exists>x. var_at (server_map (ids s')) c' v = Some x \<and> var_name x = name \<and> data_type x = type \<and> dim_ids x = dimids) \<and>
      (\<forall>name type. io_def_var m c' name type k dimids v s' = Some (CFIO_ERROR_NONE, s')))"
proof (intro conjI)
  from create_new [OF ok P new lib] obtain s1 where
    s1: "io_create P path cmode c s = Some (CFIO_ERROR_NONE, s1)" "lib s1 = l" "server_ok m n s1"
      "server_map (ids s1) (c, 0, 0) \<noteq> None" by auto
  then show "\<exists>s'. io_create P path cmode c s = Some (CFIO_ERROR_NONE, s') \<and> server_ok m n s' \<and> lib s' = l \<and>
      (\<forall>path cmode. io_create P path cmode c s' = Some (CFIO_ERROR_NONE, s'))"
    using create_known [OF s1(3,4)] by blast
  from def_dim_new [OF ok f d, of name len] obtain s2 g where
    s2: "io_def_dim c' name len d s = Some (CFIO_ERROR_NONE, s2)" "server_ok m n s2" "lib s2 = lib s"
      "server_map (ids s2) = (server_map (ids s))((c', d, 0) \<mapsto>
        dim_val c' d CFIO_ID_NC_INVALID CFIO_ID_DIM_INVALID name (ucast len), (c', 0, 0) \<mapsto> g)" by blast
  have "d \<noteq> 0" using f d by auto
  then have "\<exists>x. dim_at (server_map (ids s2)) c' d = Some x \<and> dim_name x = name \<and> global_dim_len x = ucast len"
    and "server_map (ids s2) (c', 0, 0) \<noteq> None" using s2(4) by (simp_all add: dim_at_def dim_val_def)
  then show "\<exists>s'. io_def_dim c' name len d s = Some (CFIO_ERROR_NONE, s') \<and> server_ok m n s' \<and> lib s' = lib s \<and>
      (\<exists>x. dim_at (server_map (ids s')) c' d = Some x \<and> dim_name x = name \<and> global_dim_len x = ucast len) \<and>
      (\<forall>name len. io_def_dim c' name len d s' = Some (CFIO_ERROR_NONE, s'))"
    using s2(1-3) def_dim_known [OF s2(2), of c' d] by (intro exI [of _ s2]) auto
  from def_var_new [OF ok f v ds, of name type] obtain s3 g where
    s3: "io_def_var m c' name type k dimids v s = Some (CFIO_ERROR_NONE, s3)" "server_ok m n s3" "lib s3 = lib s"
      "server_map (ids s3) = (server_map (ids s))((c', 0, v) \<mapsto>
        var_val name c' v CFIO_ID_NC_INVALID CFIO_ID_VAR_INVALID k dimids type (int n), (c', 0, 0) \<mapsto> g)" by blast
  have v0: "v \<noteq> 0" using f v by auto
  then have var: "\<exists>x. var_at (server_map (ids s3)) c' v = Some x \<and> var_name x = name \<and> data_type x = type \<and> dim_ids x = dimids"
    and fl: "server_map (ids s3) (c', 0, 0) \<noteq> None" using s3(4) by (simp_all add: var_at_def var_val_def)
  have "dim f = None" using keys_okD(1) [OF server_okD(5) [OF ok] f] by (simp add: file_val_ok_def)
  then have "\<forall>d \<in> set ds. dim_at (server_map (ids s3)) c' d \<noteq> None" using ds(2) v0 f by (auto simp: s3(4) dim_at_def)
  then have "io_def_var m c' name type k dimids v s3 = Some (CFIO_ERROR_NONE, s3)" for name type
    using def_var_known [OF s3(2) fl _ ds(1)] var by auto
  with s3(1-3) var show "\<exists>s'. io_def_var m c' name type k dimids v s = Some (CFIO_ERROR_NONE, s') \<and> server_ok m n s' \<and> lib s' = lib s \<and>
      (\<exists>x. var_at (server_map (ids s')) c' v = Some x \<and> var_name x = name \<and> data_type x = type \<and> dim_ids x = dimids) \<and>
      (\<forall>name type. io_def_var m c' name type k dimids v s' = Some (CFIO_ERROR_NONE, s'))"
    by blast
qed

text \<open>C13. Calls on what the server does not know are refused and reach neither the library nor the
  table of identifiers: a dimension, variable, attribute or slab of an unknown file, and a
  variable over an unknown dimension. The refused attribute or slab does stay in the table of
  pending requests, marked with its client.\<close>

theorem unknown_refused:
  assumes ok: "server_ok m n s" and cl: "client_of m (server_id (io s)) n client k"
    and no: "server_map (ids s) (c, 0, 0) = None"
    and f: "server_map (ids s) (c', 0, 0) \<noteq> None" and ds: "array_take nd dimids = Some (ds1 @ d # ds2)"
      "\<forall>d \<in> set ds1. dim_at (server_map (ids s)) c' d \<noteq> None" "server_map (ids s) (c', d, 0) = None"
  shows "io_def_dim c name len d' s = Some (CFIO_ERROR_INVALID_NC, s) \<and>
    io_def_var m c name type nd' dimids' v s = Some (CFIO_ERROR_INVALID_NC, s) \<and>
    io_def_var m c' name type nd dimids v s = Some (CFIO_ERROR_INVALID_DIM, s) \<and>
    (\<exists>i. io_put_att P m client c v name type len' data s = Some (CFIO_ERROR_INVALID_NC, s\<lparr>io := i\<rparr>) \<and>
      reported i = (reported (io s))((FUNC_PUT_ATT, c, 0, v) := insert k (reported (io s) (FUNC_PUT_ATT, c, 0, v)))) \<and>
    (\<exists>i. io_put_vara P junk m client c v nd start count data' s = Some (CFIO_ERROR_INVALID_VAR, s\<lparr>io := i\<rparr>) \<and>
      reported i = (reported (io s))((FUNC_NC_PUT_VARA, c, 0, v) := insert k (reported (io s) (FUNC_NC_PUT_VARA, c, 0, v))))"
proof (intro conjI)
  note nc = unknown_nc [OF ok no]
  show "io_def_dim c name len d' s = Some (CFIO_ERROR_INVALID_NC, s)" by (simp add: io_def_dim_def nc)
  show "io_def_var m c name type nd' dimids' v s = Some (CFIO_ERROR_INVALID_NC, s)" by (simp add: io_def_var_def nc)
  from f obtain fv where "server_map (ids s) (c', 0, 0) = Some fv" by auto
  from known_nc [OF ok this] obtain p where p: "cfio_id_get_nc c' (ids s) = Some (CFIO_ERROR_NONE, Some p)" by blast
  have "dims_known c' (ids s) (ds1 @ d # ds2) = Some False"
    using ds(2)
  proof (induction ds1)
    case Nil
    then show ?case using get_part_null [OF server_okD(4) [OF ok] ds(3), of dim] by (simp add: cfio_id_get_dim_def)
  next
    case (Cons e ds1)
    then obtain x where "dim_at (server_map (ids s)) c' e = Some x" by auto
    from known_dim [OF server_okD(4) [OF ok] this] Cons show ?case by (auto simp: error_codes)
  qed
  then show "io_def_var m c' name type nd dimids v s = Some (CFIO_ERROR_INVALID_DIM, s)"
    using p ds(1) by (simp add: io_def_var_def error_codes)
  from recv_client_io_spec [OF server_okD(6) [OF ok] cl, of "(FUNC_PUT_ATT, c, 0, v)"] obtain info i where
    "recv_client_io m client (FUNC_PUT_ATT, c, 0, v) (io s) = Some (info, i)"
    "reported i = (reported (io s))((FUNC_PUT_ATT, c, 0, v) := insert k (reported (io s) (FUNC_PUT_ATT, c, 0, v)))" by blast
  then show "\<exists>i. io_put_att P m client c v name type len' data s = Some (CFIO_ERROR_INVALID_NC, s\<lparr>io := i\<rparr>) \<and>
      reported i = (reported (io s))((FUNC_PUT_ATT, c, 0, v) := insert k (reported (io s) (FUNC_PUT_ATT, c, 0, v)))"
    using nc by (intro exI [of _ i]) (simp add: io_put_att_def)
  from recv_client_io_spec [OF server_okD(6) [OF ok] cl, of "(FUNC_NC_PUT_VARA, c, 0, v)"] obtain info i where
    i: "recv_client_io m client (FUNC_NC_PUT_VARA, c, 0, v) (io s) = Some (info, i)"
    "reported i = (reported (io s))((FUNC_NC_PUT_VARA, c, 0, v) := insert k (reported (io s) (FUNC_NC_PUT_VARA, c, 0, v)))" by blast
  have "server_entry (ids s) (c, 0, v) = None"
    using server_map_None [OF server_okD(4) [OF ok]] no_entries [OF ok no] by blast
  with i cl show "\<exists>i. io_put_vara P junk m client c v nd start count data' s = Some (CFIO_ERROR_INVALID_VAR, s\<lparr>io := i\<rparr>) \<and>
      reported i = (reported (io s))((FUNC_NC_PUT_VARA, c, 0, v) := insert k (reported (io s) (FUNC_NC_PUT_VARA, c, 0, v)))"
    by (intro exI [of _ i]) (simp add: io_put_vara_def cfio_id_put_var_def client_of_def server_search [OF server_okD(4) [OF ok]])
qed


lemma get_dim_returns: "server_ok m n s \<Longrightarrow> d \<noteq> 0 \<Longrightarrow> \<exists>r q. cfio_id_get_dim c d (ids s) = Some (r, q)"
proof (cases "server_map (ids s) (c, d, 0)")
  case (Some w)
  assume ok: "server_ok m n s" and d: "d \<noteq> 0"
  then have "dim w \<noteq> None" using keys_okD(2) [OF server_okD(5) [OF ok] Some] by (simp add: child_ok_def)
  from get_part_found [OF server_okD(4) [OF ok] Some, of dim, OF this] show ?thesis by (auto simp: cfio_id_get_dim_def)
qed (use get_part_null [OF server_okD(4), of m n s _ dim] in \<open>auto simp: cfio_id_get_dim_def\<close>)

lemma get_var_returns: "server_ok m n s \<Longrightarrow> v \<noteq> 0 \<Longrightarrow> \<exists>r q. cfio_id_get_var c v (ids s) = Some (r, q)"
proof (cases "server_map (ids s) (c, 0, v)")
  case (Some w)
  assume ok: "server_ok m n s" and d: "v \<noteq> 0"
  then have "var w \<noteq> None" using keys_okD(2) [OF server_okD(5) [OF ok] Some] by (auto simp: child_ok_def)
  from get_part_found [OF server_okD(4) [OF ok] Some, of var, OF this] show ?thesis by (auto simp: cfio_id_get_var_def)
qed (use get_part_null [OF server_okD(4), of m n s _ var] in \<open>auto simp: cfio_id_get_var_def\<close>)

lemma dims_known_returns: "server_ok m n s \<Longrightarrow> 0 \<notin> set ds \<Longrightarrow> \<exists>b. dims_known c (ids s) ds = Some b"
proof (induction ds)
  case (Cons d ds)
  then have "d \<noteq> 0" by auto
  from get_dim_returns [OF Cons.prems(1) this, of c] Cons show ?case by auto
qed auto

lemma def_dim_returns: "server_ok m n s \<Longrightarrow> d \<noteq> 0 \<Longrightarrow> \<exists>r s'. io_def_dim c name len d s = Some (r, s')"
proof (cases "server_map (ids s) (c, 0, 0)")
  case None
  assume ok: "server_ok m n s"
  show ?thesis by (simp add: io_def_dim_def unknown_nc [OF ok None])
next
  case (Some f)
  assume ok: "server_ok m n s" and d: "d \<noteq> 0"
  from known_nc [OF ok Some] obtain p where p: "cfio_id_get_nc c (ids s) = Some (CFIO_ERROR_NONE, Some p)" by blast
  from get_dim_returns [OF ok d, of c] obtain r q where g: "cfio_id_get_dim c d (ids s) = Some (r, q)" by blast
  show ?thesis
  proof (cases "r = CFIO_ID_HASH_GET_NULL")
    case True
    then have "server_map (ids s) (c, d, 0) = None" using get_dim_cases [OF ok g] by simp
    from def_dim_new [OF ok Some this, of name len] show ?thesis by blast
  qed (use p g in \<open>simp add: io_def_dim_def error_codes\<close>)
qed

lemma def_var_returns:
  "server_ok m n s \<Longrightarrow> v \<noteq> 0 \<Longrightarrow> array_take k dimids = Some ds \<Longrightarrow> 0 \<notin> set ds \<Longrightarrow>
    \<exists>r s'. io_def_var m c name type k dimids v s = Some (r, s')"
proof (cases "server_map (ids s) (c, 0, 0)")
  case None
  assume ok: "server_ok m n s"
  show ?thesis by (simp add: io_def_var_def unknown_nc [OF ok None])
next
  case (Some f)
  assume ok: "server_ok m n s" and v: "v \<noteq> 0" and ds: "array_take k dimids = Some ds" "0 \<notin> set ds"
  from known_nc [OF ok Some] obtain p where p: "cfio_id_get_nc c (ids s) = Some (CFIO_ERROR_NONE, Some p)" by blast
  from dims_known_returns [OF ok ds(2), of c] obtain b where b: "dims_known c (ids s) ds = Some b" by blast
  from get_var_returns [OF ok v, of c] obtain r q where g: "cfio_id_get_var c v (ids s) = Some (r, q)" by blast
  show ?thesis
  proof (cases "b \<and> r = CFIO_ID_HASH_GET_NULL")
    case True
    then have "server_map (ids s) (c, 0, v) = None" "\<forall>d \<in> set ds. dim_at (server_map (ids s)) c d \<noteq> None"
      using get_var_cases [OF ok g] dims_known_iff [OF ok b] by simp_all
    from def_var_new [OF ok Some this(1) ds(1) this(2), of name type] show ?thesis by blast
  next
    case False
    then show ?thesis using p g ds(1) b by (cases b) (simp_all add: io_def_var_def error_codes)
  qed
qed

lemma put_att_returns:
  assumes ok: "server_ok m n s" and cl: "client_of m (server_id (io s)) n client k" and v: "v \<noteq> 0"
  shows "\<exists>r s'. io_put_att P m client c v name type len data s = Some (r, s')"
proof (cases "server_map (ids s) (c, 0, 0)")
  case None
  from recv_client_io_spec [OF server_okD(6) [OF ok] cl, of "(FUNC_PUT_ATT, c, 0, v)"] unknown_nc [OF ok None]
  show ?thesis by (auto simp: io_put_att_def)
next
  case (Some f)
  have op: "file_open c (ids s)" using file_open_iff [OF ok] Some by simp
  from known_nc [OF ok Some] obtain p x where p: "cfio_id_get_nc c (ids s) = Some (CFIO_ERROR_NONE, Some p)"
    "the_nc (Some p) (ids s) = Some (p, x)" by blast
  from put_att.report [of c s n m client k v P name type len data, OF op server_okD(6) [OF ok] cl] obtain info i where
    i: "io_ok n i" "server_id i = server_id (io s)" "pending i (FUNC_PUT_ATT, c, 0, v) = Some info" and
    h: "io_put_att P m client c v name type len data s = Some (CFIO_ERROR_NONE, s\<lparr>io := i\<rparr>) \<or>
      io_put_att P m client c v name type len data s = put_att_act P c v name type len data info (s\<lparr>io := i\<rparr>)"
    by (auto split: if_splits)
  from remove_client_io_spec [OF i(1,3)] obtain i' where i': "remove_client_io info i = Some i'" by blast
  have "\<exists>r s'. put_att_act P c v name type len data info (s\<lparr>io := i\<rparr>) = Some (r, s')"
  proof (cases "v = NC_GLOBAL")
    case True
    then show ?thesis using p i'
      by (cases "put_att_call P (nc_id x) NC_GLOBAL name type type len data CFIO_ERROR_NONE (lib s)")
        (simp add: put_att_act_def put_att_last_def error_codes)
  next
    case False
    show ?thesis
    proof (cases "server_map (ids s) (c, 0, v)")
      case None
      then have "server_entry (ids s) (c, 0, v) = None" using server_map_None [OF server_okD(4) [OF ok]] by blast
      then show ?thesis using p False
        by (simp add: put_att_act_def put_att_last_def cfio_id_put_att_def server_search [OF server_okD(4) [OF ok]] error_codes)
    next
      case w: (Some w)
      obtain y atts where y: "var w = Some y" "att_head y = Some atts" by (rule var_of_key [OF ok w v])
      from id_put_att_found [OF server_okD(3) [OF ok] w y, of name type len data] p False i' show ?thesis
        by (auto simp: put_att_act_def put_att_last_def error_codes)
    qed
  qed
  with h show ?thesis by metis
qed

lemma enddef_returns:
  assumes ok: "server_ok m n s" and cl: "client_of m (server_id (io s)) n client k"
  shows "\<exists>r s'. io_enddef P m client c s = Some (r, s')"
proof -
  from enddef.report [where P = P and cnc = c, OF TrueI server_okD(6) [OF ok] cl] obtain info i where
    i: "io_ok n i" "server_id i = server_id (io s)" "pending i (FUNC_NC_ENDDEF, c, 0, 0) = Some info" and
    h: "io_enddef P m client c s = Some (CFIO_ERROR_NONE, s\<lparr>io := i\<rparr>) \<or>
      io_enddef P m client c s = enddef_last P c info (s\<lparr>io := i\<rparr>)" by (auto split: if_splits)
  from remove_client_io_spec [OF i(1,3)] obtain i' where i': "remove_client_io info i = Some i'" by blast
  have "\<exists>r s'. enddef_last P c info (s\<lparr>io := i\<rparr>) = Some (r, s')"
  proof (cases "server_map (ids s) (c, 0, 0)")
    case None
    then show ?thesis using unknown_nc [OF ok None] by (simp add: enddef_last_def error_codes)
  next
    case (Some f)
    from known_nc [OF ok Some] obtain p x where p: "cfio_id_get_nc c (ids s) = Some (CFIO_ERROR_NONE, Some p)"
      "the_nc (Some p) (ids s) = Some (p, x)" "nc f = Some x" "nc_id x \<noteq> CFIO_ID_NC_INVALID" by blast
    show ?thesis
    proof (cases "nc_status x")
      case DATA_MODE
      then show ?thesis using p i' by (simp add: enddef_last_def error_codes)
    next
      case DEFINE_MODE
      have "file_defs (server_map (ids s)) c"
        using keys_okD(1) [OF server_okD(5) [OF ok] Some] p(3) DEFINE_MODE by (auto simp: file_val_ok_def)
      then have si: "server_map (ids (s\<lparr>io := i\<rparr>)) (c, 0, 0) = Some f" "file_defs (server_map (ids (s\<lparr>io := i\<rparr>))) c"
        "remove_client_io info (io (s\<lparr>io := i\<rparr>)) = Some i'" using Some i' by simp_all
      have nco: "nc_open (s\<lparr>io := i\<rparr>) c x" using Some p(3,4) server_okD(3) [OF ok] by (simp add: nc_open_def)
      obtain ret L l where all: "define_all P (nc_id x) (defs_at (s\<lparr>io := i\<rparr>) (children f))
          (lib_ids (server_map (ids (s\<lparr>io := i\<rparr>))) c) (lib (s\<lparr>io := i\<rparr>)) = (ret, L, l)" by (metis prod_cases3)
      obtain r l' where lib: "ncmpi_enddef P (nc_id x) l = (r, l')" by (metis surj_pair)
      from enddef_last_defines [OF nco si(1) DEFINE_MODE si(2) all lib si(3)] show ?thesis by blast
    qed
  qed
  with h show ?thesis by metis
qed

lemma close_returns:
  assumes ok: "server_ok m n s" and cl: "client_of m (server_id (io s)) n client k"
  shows "\<exists>r s'. io_close P m client c s = Some (r, s')"
proof -
  from close.report [where P = P and cnc = c, OF TrueI server_okD(6) [OF ok] cl] obtain info i where
    i: "io_ok n i" "server_id i = server_id (io s)" "pending i (FUNC_NC_CLOSE, c, 0, 0) = Some info" and
    h: "io_close P m client c s = Some (CFIO_ERROR_NONE, s\<lparr>io := i\<rparr>) \<or>
      io_close P m client c s = close_last P c info (s\<lparr>io := i\<rparr>)" by (auto split: if_splits)
  from remove_client_io_spec [OF i(1,3)] obtain i' where i': "remove_client_io info i = Some i'" by blast
  have "\<exists>r s'. close_last P c info (s\<lparr>io := i\<rparr>) = Some (r, s')"
  proof (cases "server_map (ids s) (c, 0, 0)")
    case None
    then show ?thesis using unknown_nc [OF ok None] by (simp add: close_last_def error_codes)
  next
    case (Some f)
    from known_nc [OF ok Some] obtain p x where p: "cfio_id_get_nc c (ids s) = Some (CFIO_ERROR_NONE, Some p)"
      "the_nc (Some p) (ids s) = Some (p, x)" "nc f = Some x" by blast
    obtain r l where lib: "ncmpi_close P (nc_id x) (lib s) = (r, l)" by (metis surj_pair)
    show ?thesis
    proof (cases "r = NC_NOERR")
      case False
      then show ?thesis using p lib by (simp add: close_last_def error_codes)
    next
      case True
      from close_last_frees [of "s\<lparr>io := i\<rparr>" c f x info i' P l] server_okD(3) [OF ok] Some p(3) i' lib True
      show ?thesis by auto
    qed
  qed
  with h show ?thesis by metis
qed



section \<open>An example\<close>

text \<open>A server with four clients that has created a file and recorded a dimension.\<close>

lemma library_ok_counting: "library_ok counting_library"
  by (simp add: library_ok_def counting_library_def CFIO_ID_NC_INVALID_def)

lemma run_example:
  "\<exists>s f. server_reach counting_library map_4_6 4 s \<and> server_id (io s) = 24 \<and> lib s = 1 \<and>
    server_map (ids s) (1, 0, 0) = Some f \<and> dim_at (server_map (ids s)) 1 1 \<noteq> None \<and>
    server_map (ids s) (2, 0, 0) = None \<and> server_map (ids s) (1, 2, 0) = None \<and> server_map (ids s) (1, 0, 1) = None"
proof -
  define s0 where "s0 = \<lparr>rcv = undefined, ids = snd (cfio_id_init CFIO_ID_INIT_SERVER id_state_0),
    io = snd (cfio_io_init 24 io_state_0), lib = 0 :: nat\<rparr>"
  have num: "cfio_map_get_client_num_of_server map_4_6 24 = Some (int 4)" using client_of_4_6 by (simp add: client_of_def)
  have i: "cfio_id_init CFIO_ID_INIT_SERVER id_state_0 = (CFIO_ERROR_NONE, ids s0)"
    and j: "cfio_io_init 24 io_state_0 = (CFIO_ERROR_NONE, io s0)" and l: "lib s0 = 0"
    by (simp_all add: s0_def cfio_id_init_def CFIO_ID_INIT_SERVER_def cfio_io_init_def)
  have r0: "server_reach counting_library map_4_6 4 s0" by (rule server_reach.init [OF num i j])
  have ok: "server_ok map_4_6 4 s0" using init_ok [OF _ num i j] by simp
  have m0: "server_map (ids s0) = Map.empty"
    by (simp add: s0_def cfio_id_init_def CFIO_ID_INIT_SERVER_def server_map_def tab_map_def sound_init MAP_HASH_TABLE_SIZE_def)
  have id0: "server_id (io s0) = 24" by (simp add: s0_def io_init_ok)
  have "ncmpi_create counting_library [102] 0 (lib s0) = (NC_NOERR, 9, 1)"
    by (simp add: counting_library_def NC_NOERR_def l)
  from create_new [OF ok library_ok_counting, of 1, OF _ this] m0 obtain s1 f where
    s1: "io_create counting_library [102] 0 1 s0 = Some (CFIO_ERROR_NONE, s1)" "server_ok map_4_6 4 s1"
      "io s1 = io s0" "lib s1 = 1" "server_map (ids s1) = [(1, 0, 0) \<mapsto> f]" by auto
  have r1: "server_reach counting_library map_4_6 4 s1" by (rule server_reach.create [OF r0 s1(1)])
  from def_dim_new [OF s1(2), of 1 f 1 "[120]" 10] s1(5) obtain s2 g where
    s2: "io_def_dim 1 [120] 10 1 s1 = Some (CFIO_ERROR_NONE, s2)" "io s2 = io s1" "lib s2 = lib s1"
      "server_map (ids s2) = (server_map (ids s1))((1, 1, 0) \<mapsto>
        dim_val 1 1 CFIO_ID_NC_INVALID CFIO_ID_DIM_INVALID [120] (ucast (10 :: u64)), (1, 0, 0) \<mapsto> g)" by auto
  have r2: "server_reach counting_library map_4_6 4 s2" by (rule server_reach.def_dim [OF r1 s2(1)])
  have "server_map (ids s2) (1, 0, 0) = Some g" "dim_at (server_map (ids s2)) 1 1 \<noteq> None"
    "server_map (ids s2) (2, 0, 0) = None" "server_map (ids s2) (1, 2, 0) = None" "server_map (ids s2) (1, 0, 1) = None"
    by (simp_all add: s2(4) s1(5) dim_at_def dim_val_def)
  then show ?thesis using r2 s2(2,3) s1(3,4) id0 by (intro exI [of _ s2] exI [of _ g]) simp
qed


theorem first_definition_counts_witness:
  "\<exists>s. (\<exists>s'. io_create counting_library [102] 0 2 s = Some (CFIO_ERROR_NONE, s') \<and> lib s = 1 \<and> lib s' = 2 \<and>
      io_create counting_library [103] 1 2 s' = Some (CFIO_ERROR_NONE, s')) \<and>
    (\<exists>s'. io_def_dim 1 [121] 5 2 s = Some (CFIO_ERROR_NONE, s') \<and> io_def_dim 1 [121] 6 2 s' = Some (CFIO_ERROR_NONE, s')) \<and>
    (\<exists>s'. io_def_var map_4_6 1 [121] 4 1 (Some [1]) 1 s = Some (CFIO_ERROR_NONE, s') \<and>
      io_def_var map_4_6 1 [122] 5 1 (Some [1]) 1 s' = Some (CFIO_ERROR_NONE, s'))"
proof -
  from run_example obtain s f where s: "server_reach counting_library map_4_6 4 s" "lib s = 1"
    "server_map (ids s) (2, 0, 0) = None" "server_map (ids s) (1, 0, 0) = Some f" "server_map (ids s) (1, 2, 0) = None"
    "server_map (ids s) (1, 0, 1) = None" "dim_at (server_map (ids s)) 1 1 \<noteq> None" by blast
  have ok: "server_ok map_4_6 4 s" by (rule server_reach_ok [OF s(1) library_ok_counting]) simp
  have lib: "ncmpi_create counting_library [102] 0 (lib s) = (NC_NOERR, 9, 2)"
    by (simp add: counting_library_def NC_NOERR_def s(2))
  have ds: "array_take 1 (Some [1]) = Some [1 :: i32]" "\<forall>d \<in> set [1 :: i32]. dim_at (server_map (ids s)) 1 d \<noteq> None"
    using s(7) by (simp_all add: array_take_def)
  note all = first_definition_counts [where name = "[121]" and len = 5 and type = 4, OF ok library_ok_counting lib s(3-6) ds]
  from conjunct1 [OF all] obtain s1 where
    "io_create counting_library [102] 0 2 s = Some (CFIO_ERROR_NONE, s1)" "lib s1 = 2"
    "io_create counting_library [103] 1 2 s1 = Some (CFIO_ERROR_NONE, s1)" by blast
  moreover from conjunct1 [OF conjunct2 [OF all]] obtain s2 where
    "io_def_dim 1 [121] 5 2 s = Some (CFIO_ERROR_NONE, s2)" "io_def_dim 1 [121] 6 2 s2 = Some (CFIO_ERROR_NONE, s2)" by blast
  moreover from conjunct2 [OF conjunct2 [OF all]] obtain s3 where
    "io_def_var map_4_6 1 [121] 4 1 (Some [1]) 1 s = Some (CFIO_ERROR_NONE, s3)"
    "io_def_var map_4_6 1 [122] 5 1 (Some [1]) 1 s3 = Some (CFIO_ERROR_NONE, s3)" by blast
  ultimately show ?thesis using s(2) by blast
qed


theorem unknown_refused_witness:
  "\<exists>s :: nat server_state. io_def_dim 2 [120] 10 1 s = Some (CFIO_ERROR_INVALID_NC, s) \<and>
    io_def_var map_4_6 1 [122] 4 2 (Some [1, 2]) 1 s = Some (CFIO_ERROR_INVALID_DIM, s) \<and>
    (\<exists>i. io_put_vara counting_library (\<lambda>_. 0) map_4_6 (example_clients 2) 2 1 2 [0] [1] (Some [7]) s =
      Some (CFIO_ERROR_INVALID_VAR, s\<lparr>io := i\<rparr>))"
proof -
  from run_example obtain s f where s: "server_reach counting_library map_4_6 4 s" "server_id (io s) = 24"
    "server_map (ids s) (2, 0, 0) = None" "server_map (ids s) (1, 0, 0) = Some f"
    "server_map (ids s) (1, 2, 0) = None" "dim_at (server_map (ids s)) 1 1 \<noteq> None" by blast
  have ok: "server_ok map_4_6 4 s" by (rule server_reach_ok [OF s(1) library_ok_counting]) simp
  have cl: "client_of map_4_6 (server_id (io s)) 4 (example_clients 2) 2"
    using row_client [of 2] by (simp add: s(2) example_clients_def row_part_def)
  have f: "server_map (ids s) (1, 0, 0) \<noteq> None" using s(4) by simp
  have ds: "array_take 2 (Some [1, 2]) = Some ([1 :: i32] @ 2 # [])"
    "\<forall>d \<in> set [1 :: i32]. dim_at (server_map (ids s)) 1 d \<noteq> None"
    using s(6) by (simp_all add: array_take_def)
  note all = unknown_refused [OF ok cl s(3) f ds s(5)]
  from conjunct1 [OF all] have "io_def_dim 2 [120] 10 1 s = Some (CFIO_ERROR_INVALID_NC, s)" .
  moreover from conjunct1 [OF conjunct2 [OF conjunct2 [OF all]]]
  have "io_def_var map_4_6 1 [122] 4 2 (Some [1, 2]) 1 s = Some (CFIO_ERROR_INVALID_DIM, s)" .
  moreover from conjunct2 [OF conjunct2 [OF conjunct2 [OF conjunct2 [OF all]]]]
  have "\<exists>i. io_put_vara counting_library (\<lambda>_. 0) map_4_6 (example_clients 2) 2 1 2 [0] [1] (Some [7]) s =
      Some (CFIO_ERROR_INVALID_VAR, s\<lparr>io := i\<rparr>)" by blast
  ultimately show ?thesis by blast
qed

end
