(* ===== verification/IoTypes.thy ===== *)
theory IoTypes
  imports IoServer
begin

text \<open>
  An entry of a server's table is a union: three pointers, of which the kind of the entry uses
  one. Nothing but the key tells the kind. This theory shows that the keys tell it truly in every
  state that a server reaches, and what the accessors of \<open>id.c\<close>, which assert it, make of it.
\<close>

lemma entry_kind:
  assumes "server_ok m n s" "server_map (ids s) (c, d, v) = Some w"
  shows "(nc w \<noteq> None \<longleftrightarrow> d = 0 \<and> v = 0) \<and> (dim w \<noteq> None \<longleftrightarrow> d \<noteq> 0) \<and> (var w \<noteq> None \<longleftrightarrow> v \<noteq> 0) \<and> (d = 0 \<or> v = 0)"
proof (cases "(d, v) = (0, 0)")
  case True
  then have "file_val_ok (server_map (ids s)) c w"
    using keys_okD(1) [OF server_okD(5) [OF assms(1)]] assms(2) by simp
  then show ?thesis using True by (auto simp: file_val_ok_def)
next
  case False
  then have "child_ok n d v w" by (rule keys_okD(2) [OF server_okD(5) [OF assms(1)] assms(2)])
  then show ?thesis by (auto simp: child_ok_def)
qed

lemma get_part_stuck:
  assumes "server_ok m n s"
  shows "get_part part k (ids s) = None \<longleftrightarrow> (\<exists>w. server_map (ids s) k = Some w \<and> part w = None)"
proof (cases "server_map (ids s) k")
  case None
  then show ?thesis using get_part_null [OF server_okD(4) [OF assms] None, of part] by simp
next
  case (Some w)
  then obtain p where "server_entry (ids s) k = Some p" "heap (ids s) p = Some w"
    using server_entryE [OF server_okD(4) [OF assms]] by blast
  then show ?thesis using Some by (simp add: get_part_def server_search [OF server_okD(4) [OF assms]])
qed



end
