(* ===== verification/IdClient.thy ===== *)
theory IdClient
  imports IdTree
begin

text \<open>
  The client's identifiers: the names of a file's variables and dimensions as maps to the
  identifiers that \<open>id.c\<close> has assigned. Identifiers count up from 1 in each file, the same name
  keeps its identifier, and closing a file forgets its identifiers only.
\<close>

section \<open>The names of a file\<close>

abbreviation client_map :: "id_state \<Rightarrow> id_key \<Rightarrow> id_val option" where
  "client_map \<equiv> tab_map assign_table"

text \<open>The identifiers of a list of names are different, belong to different names, and lie
  between 1 and the counter, but for the name of the global attributes.\<close>

definition names_ok :: "bool \<Rightarrow> i32 \<Rightarrow> (byte list \<times> i32) list \<Rightarrow> bool" where
  "names_ok global a names \<longleftrightarrow> distinct (map fst names) \<and> distinct (map snd names) \<and> 0 \<le> sint a \<and>
     (\<forall>(name, i) \<in> set names. if global \<and> name = NC_GLOBAL_NAME then i = NC_GLOBAL
        else 1 \<le> sint i \<and> sint i \<le> sint a)"

definition var_bound :: "(id_key \<Rightarrow> id_val option) \<Rightarrow> i32 \<Rightarrow> byte list \<Rightarrow> i32 \<Rightarrow> bool" where
  "var_bound m c name i \<longleftrightarrow> (\<exists>val x. m (c, 0, i) = Some val \<and> var val = Some x \<and> var_name x = name \<and>
     att_head x \<noteq> None)"

definition file_ok :: "(id_key \<Rightarrow> id_val option) \<Rightarrow> i32 \<Rightarrow> id_val \<Rightarrow> bool" where
  "file_ok m c f \<longleftrightarrow> (\<exists>names dims. var_head f = Some names \<and> dim_head f = Some dims \<and>
     names_ok True (client_var_a f) names \<and> names_ok False (client_dim_a f) dims \<and>
     (\<forall>(name, i) \<in> set names. var_bound m c name i) \<and>
     (\<forall>d v. m (c, d, v) \<noteq> None \<longrightarrow> d = 0 \<and> (v = 0 \<or> v \<in> snd ` set names)) \<and> var f = None)"

definition client_ok :: "id_state \<Rightarrow> bool" where
  "client_ok s \<longleftrightarrow> tree_ok assign_table s \<and> 0 \<le> sint (open_nc_a s) \<and>
     (\<forall>c f. client_map s (c, 0, 0) = Some f \<longrightarrow>
        1 \<le> sint c \<and> sint c \<le> sint (open_nc_a s) \<and> file_ok (client_map s) c f)"

definition vars_of :: "id_state \<Rightarrow> i32 \<Rightarrow> byte list \<Rightarrow> i32 option" where
  "vars_of s c = (case client_map s (c, 0, 0) of None \<Rightarrow> Map.empty | Some f \<Rightarrow> map_of (the (var_head f)))"

definition dims_of :: "id_state \<Rightarrow> i32 \<Rightarrow> byte list \<Rightarrow> i32 option" where
  "dims_of s c = (case client_map s (c, 0, 0) of None \<Rightarrow> Map.empty | Some f \<Rightarrow> map_of (the (dim_head f)))"

lemma find_name_map_of: "find_name name names = map_of names name"
  by (induction names) (auto simp: find_name_def)

lemma sint_add_one: "sint (a :: i32) < 2 ^ 31 - 1 \<Longrightarrow> sint (a + 1) = sint a + 1"
  using sint_ge [of a] by (simp add: sint_word_ariths signed_take_bit_int_eq_self)

lemma map_of_names: "names_ok g a names \<Longrightarrow> map_of names name = Some i \<longleftrightarrow> (name, i) \<in> set names"
  by (simp add: names_ok_def)

lemma names_ok_le: "names_ok g a names \<Longrightarrow> sint a \<le> sint b \<Longrightarrow> names_ok g b names"
  by (fastforce simp: names_ok_def)

lemma names_ok_new:
  assumes "names_ok g a names" "map_of names name = None"
    and i: "if g \<and> name = NC_GLOBAL_NAME then i = NC_GLOBAL \<and> b = a else i = a + 1 \<and> b = a + 1 \<and> sint a < 2 ^ 31 - 1"
  shows "names_ok g b ((name, i) # names)" "i \<notin> snd ` set names" "i \<noteq> 0"
proof -
  have range: "if g \<and> n = NC_GLOBAL_NAME then j = NC_GLOBAL else 1 \<le> sint j \<and> sint j \<le> sint a"
    if "(n, j) \<in> set names" for n j
    using assms(1) that unfolding names_ok_def by fastforce
  have le: "sint a \<le> sint b" "0 \<le> sint a" using assms(1) i sint_add_one [of a] by (auto simp: names_ok_def split: if_splits)
  have neg: "sint NC_GLOBAL = -1" by (simp add: NC_GLOBAL_def)
  have nin: "name \<notin> fst ` set names" using assms(2) by (simp add: map_of_eq_None_iff)
  show new: "i \<notin> snd ` set names"
  proof
    assume "i \<in> snd ` set names"
    then obtain n where n: "(n, i) \<in> set names" by auto
    then have "n \<noteq> name" using nin by force
    with range [OF n] i neg sint_add_one [of a] le show False by (auto split: if_splits)
  qed
  show "i \<noteq> 0" using i neg le sint_add_one [of a] by (auto split: if_splits)
  have "names_ok g b names" using names_ok_le [OF assms(1) le(1)] .
  moreover have "if g \<and> name = NC_GLOBAL_NAME then i = NC_GLOBAL else 1 \<le> sint i \<and> sint i \<le> sint b"
    using i le sint_add_one [of a] by (auto split: if_splits)
  ultimately show "names_ok g b ((name, i) # names)"
    using new nin by (simp add: names_ok_def)
qed

section \<open>Assigning a variable\<close>

definition assigned_id :: "id_val \<Rightarrow> byte list \<Rightarrow> i32" where
  "assigned_id f name = (if name \<noteq> NC_GLOBAL_NAME then client_var_a f + 1 else NC_GLOBAL)"

definition assigned_var :: "i32 \<Rightarrow> byte list \<Rightarrow> i32 \<Rightarrow> i32 \<Rightarrow> i32 list option \<Rightarrow> id_val" where
  "assigned_var c name i n ids = zero_val\<lparr>client_nc_id := c, client_var_id := i,
     var := Some (zero_var\<lparr>var_name := name, var_nc_id := c, var_id := i, ndims := n,
       dim_ids := ids, att_head := Some []\<rparr>)\<rparr>"

definition named_file :: "id_val \<Rightarrow> byte list \<Rightarrow> (byte list \<times> i32) list \<Rightarrow> id_val" where
  "named_file f name names = f\<lparr>client_var_a := (if name \<noteq> NC_GLOBAL_NAME then client_var_a f + 1 else client_var_a f),
     var_head := Some ((name, assigned_id f name) # names)\<rparr>"

lemma update_val_at: "heap s p = Some f \<Longrightarrow> F f = g \<Longrightarrow> update_val p (\<lambda>_. g) s = update_val p F s"
  by (simp add: update_val_def)

lemma assign_var_enters:
  assumes ok: "tree_ok assign_table s" and f: "client_map s (c, 0, 0) = Some f"
    and names: "var_head f = Some names" "map_of names name = None"
    and ids: "ids = (if n = 0 then None else Some (take (size_of_int n) dimids))" "size_of_int n \<le> length dimids"
    and i: "i = assigned_id f name" and new: "client_map s (c, 0, i) = None"
  shows "\<exists>s'. cfio_id_assign_var c name n dimids s = Some (CFIO_ERROR_NONE, Some i, s') \<and>
    tree_ok assign_table s' \<and> open_nc_a s' = open_nc_a s \<and>
    client_map s' = (client_map s)((c, 0, i) \<mapsto> assigned_var c name i n ids,
      (c, 0, 0) \<mapsto> (named_file f name names)\<lparr>children := children f @ [brk s]\<rparr>)"
proof -
  note tab = client.tree_tab [OF ok]
  obtain p where p: "tab_entry assign_table s (c, 0, 0) = Some p" "heap s p = Some f"
    using client.entryE [OF tab f] by blast
  let ?F = "\<lambda>v. v\<lparr>client_var_a := client_var_a (named_file f name names),
    var_head := var_head (named_file f name names)\<rparr>"
  let ?s1 = "update_val p ?F s"
  have F: "key_of (?F v) = key_of v" "children (?F v) = children v" for v by (simp_all add: key_of_def)
  have Ff: "?F f = named_file f name names" by (simp add: named_file_def)
  note u = client.update [OF tab p(1), of ?F, OF F(1)]
  have tree1: "tree_ok assign_table ?s1" by (rule client.tree_update [OF ok p(1) F])
  have f1: "client_map ?s1 (c, 0, 0) = Some (named_file f name names)" using u(3) f Ff by simp
  have new1: "client_map ?s1 (c, 0, i) = None" using u(3) f new by auto
  have b1: "brk ?s1 = brk s" by (simp add: update_val_def)
  let ?v = "assigned_var c name i n ids"
  have k: "key_of ?v = (c, 0, i)" by (simp add: key_of_def assigned_var_def zero_val_def)
  from client.add_linked [OF u(1) f1 new1 k] p(1) u(2) b1 obtain t t' where
    t: "assign_table (snd (alloc_val ?v ?s1)) = Some t" "qhash_add id_hash (c, 0, i) (brk s) t = Some t'"
    and s2: "\<And>s1 s2. s1 = (snd (alloc_val ?v ?s1))\<lparr>assign_table := Some t'\<rparr> \<Longrightarrow>
      s2 = update_val p (\<lambda>v. v\<lparr>children := children v @ [brk s]\<rparr>) s1 \<Longrightarrow>
      tab_ok assign_table s2 \<and> tab_entry assign_table s2 = (tab_entry assign_table s)((c, 0, i) := Some (brk s)) \<and>
      client_map s2 = (client_map ?s1)((c, 0, i) := Some ?v,
        (c, 0, 0) := Some ((named_file f name names)\<lparr>children := children (named_file f name names) @ [brk s]\<rparr>))"
    by (auto simp: Let_def)
  define s1 where "s1 = (snd (alloc_val ?v ?s1))\<lparr>assign_table := Some t'\<rparr>"
  define s2 where "s2 = update_val p (\<lambda>v. v\<lparr>children := children v @ [brk s]\<rparr>) s1"
  note r = s2 [OF s1_def s2_def]
  have ch: "children (named_file f name names) = children f" by (simp add: named_file_def)
  have upd: "update_val p (\<lambda>_. named_file f name names) s = ?s1" 
    by (rule update_val_at [of s p f ?F, OF p(2) Ff])
  have "cfio_id_assign_var c name n dimids s = Some (CFIO_ERROR_NONE, Some i, s2)"
  proof -
    have st: "(if name \<noteq> NC_GLOBAL_NAME then (client_var_a f + 1, f\<lparr>client_var_a := client_var_a f + 1\<rparr>)
        else (NC_GLOBAL, f)) = (i, if name \<noteq> NC_GLOBAL_NAME then f\<lparr>client_var_a := client_var_a f + 1\<rparr> else f)"
      by (simp add: i assigned_id_def)
    have nf: "(if name \<noteq> NC_GLOBAL_NAME then f\<lparr>client_var_a := client_var_a f + 1\<rparr> else f)
        \<lparr>var_head := Some ((name, i) # names)\<rparr> = named_file f name names"
      by (simp add: named_file_def i)
    have ids': "(if n = 0 then Some None else if size_of_int n \<le> length dimids
        then Some (Some (take (size_of_int n) dimids)) else None) = Some ids"
      using ids by simp
    show ?thesis
      unfolding cfio_id_assign_var_def client.search [OF tab] p(1) find_name_map_of
      by (simp add: p(2) names st nf upd ids' assigned_var_def [symmetric] case_alloc add_assign_def t b1
          s2_def s1_def del: if_split)
  qed
  moreover have "tree_ok assign_table s2"
    by (rule client.tree_add_child [OF tree1 f1 new1]) (use r u(2) b1 ch in simp_all)
  moreover have "open_nc_a s2 = open_nc_a s" by (simp add: s2_def s1_def update_val_def alloc_val_def)
  moreover have "client_map s2 = (client_map s)((c, 0, i) \<mapsto> ?v,
      (c, 0, 0) \<mapsto> (named_file f name names)\<lparr>children := children f @ [brk s]\<rparr>)"
    using r u(3) ch by auto
  ultimately show ?thesis by blast
qed


text \<open>The invariant after a new variable.\<close>

lemma file_ok_cong: "(\<And>d v. m' (c, d, v) = m (c, d, v)) \<Longrightarrow> file_ok m' c f = file_ok m c f"
  by (simp add: file_ok_def var_bound_def)

lemma client_okD:
  assumes "client_ok s" "client_map s (c, 0, 0) = Some f"
  obtains names dims where "var_head f = Some names" "dim_head f = Some dims"
    "names_ok True (client_var_a f) names" "names_ok False (client_dim_a f) dims"
    "\<forall>(name, i) \<in> set names. var_bound (client_map s) c name i"
    "\<forall>d v. client_map s (c, d, v) \<noteq> None \<longrightarrow> d = 0 \<and> (v = 0 \<or> v \<in> snd ` set names)" "var f = None"
  using assms unfolding client_ok_def file_ok_def by blast

lemma open_file:
  "client_ok s \<Longrightarrow> client_map s (c, 0, 0) = Some f \<Longrightarrow>
     1 \<le> sint c \<and> sint c \<le> sint (open_nc_a s) \<and> file_ok (client_map s) c f"
  by (simp add: client_ok_def)

lemma file_no_var: "client_ok s \<Longrightarrow> client_map s (c, 0, 0) = Some f \<Longrightarrow> var f = None"
  using open_file by (auto simp: file_ok_def)

lemma var_bound_new: "var_bound (m((c, 0, i) \<mapsto> assigned_var c name i n ids)) c name i"
  by (simp add: var_bound_def assigned_var_def zero_val_def zero_var_def)

lemma var_bound_upd:
  "var_bound m c name i \<Longrightarrow> k \<noteq> (c, 0, i) \<Longrightarrow> var_bound (m(k \<mapsto> v)) c name i"
  by (auto simp: var_bound_def)

lemma ids_nonzero: "names_ok g a names \<Longrightarrow> (name, i) \<in> set names \<Longrightarrow> i \<noteq> 0"
  by (fastforce simp: names_ok_def NC_GLOBAL_def split: if_splits)

lemma file_ok_new_var:
  assumes head: "var_head f = Some names" "dim_head f = Some dims"
    and nok: "names_ok True (client_var_a f) names" "names_ok False (client_dim_a f) dims"
    and bound: "\<forall>(name, i) \<in> set names. var_bound m c name i"
    and only: "\<forall>d v. m (c, d, v) \<noteq> None \<longrightarrow> d = 0 \<and> (v = 0 \<or> v \<in> snd ` set names)"
    and nv: "var f = None"
    and new: "map_of names name = None" and room: "sint (client_var_a f) < 2 ^ 31 - 1"
  defines "i \<equiv> assigned_id f name"
  shows "file_ok (m((c, 0, i) \<mapsto> assigned_var c name i n ids, (c, 0, 0) \<mapsto> g)) c
    ((named_file f name names)\<lparr>children := ps\<rparr>)"
proof -
  let ?m = "m((c, 0, i) \<mapsto> assigned_var c name i n ids, (c, 0, 0) \<mapsto> g)"
  let ?f = "(named_file f name names)\<lparr>children := ps\<rparr>"
  have "if True \<and> name = NC_GLOBAL_NAME then i = NC_GLOBAL \<and> client_var_a ?f = client_var_a f
      else i = client_var_a f + 1 \<and> client_var_a ?f = client_var_a f + 1 \<and> sint (client_var_a f) < 2 ^ 31 - 1"
    using room by (simp add: i_def assigned_id_def named_file_def)
  note nn = names_ok_new [OF nok(1) new this]
  have heads: "var_head ?f = Some ((name, i) # names)" "dim_head ?f = Some dims"
    "client_dim_a ?f = client_dim_a f" "var ?f = None"
    using head nv by (simp_all add: named_file_def i_def)
  have "var_bound ?m c n' j" if "(n', j) \<in> set ((name, i) # names)" for n' j
  proof (cases "(n', j) = (name, i)")
    case True
    then show ?thesis using var_bound_upd [OF var_bound_new] nn(3) by simp
  next
    case False
    then have m: "(n', j) \<in> set names" using that by auto
    then have "j \<noteq> i" "j \<noteq> 0" using nn(2) ids_nonzero [OF nok(1) m] by force+
    then show ?thesis using bound m by (intro var_bound_upd) auto
  qed
  moreover have "d = 0 \<and> (v = 0 \<or> v \<in> snd ` set ((name, i) # names))" if "?m (c, d, v) \<noteq> None" for d v
    using that only by (auto split: if_splits)
  ultimately show ?thesis
    unfolding file_ok_def heads
    by (intro exI [of _ "(name, i) # names"] exI [of _ dims]) (use nn(1) nok(2) in blast)
qed

lemma vars_of_file: "client_map s (c, 0, 0) = Some f \<Longrightarrow> vars_of s c = map_of (the (var_head f))"
  by (simp add: vars_of_def)

lemma dims_of_file: "client_map s (c, 0, 0) = Some f \<Longrightarrow> dims_of s c = map_of (the (dim_head f))"
  by (simp add: dims_of_def)

lemma names_of_cong:
  "client_map s' (c, 0, 0) = client_map s (c, 0, 0) \<Longrightarrow> vars_of s' c = vars_of s c \<and> dims_of s' c = dims_of s c"
  by (simp add: vars_of_def dims_of_def)

lemma client_tab: "client_ok s \<Longrightarrow> tab_ok assign_table s"
  using client.tree_tab by (simp add: client_ok_def)

lemma inq_of_var:
  assumes "tab_ok assign_table s" "client_map s (c, 0, i) = Some (assigned_var c name i n ids)"
    and "ids = (if n = 0 then None else Some (take (size_of_int n) dimids))" "size_of_int n \<le> length dimids"
  shows "cfio_id_inq_varndims c i s = Some (CFIO_ERROR_NONE, Some n)"
    "cfio_id_inq_vardimid c i s = Some (CFIO_ERROR_NONE, take (size_of_int n) dimids)"
proof -
  obtain p where "tab_entry assign_table s (c, 0, i) = Some p" "heap s p = Some (assigned_var c name i n ids)"
    using client.entryE [OF assms(1,2)] by blast
  then show "cfio_id_inq_varndims c i s = Some (CFIO_ERROR_NONE, Some n)"
    "cfio_id_inq_vardimid c i s = Some (CFIO_ERROR_NONE, take (size_of_int n) dimids)"
    using assms(3,4) by (simp_all add: cfio_id_inq_varndims_def cfio_id_inq_vardimid_def client.search [OF assms(1)]
        assigned_var_def zero_var_def size_of_int_def)
qed

lemma inq_var_names:
  assumes "client_ok s" "client_map s (c, 0, 0) \<noteq> None"
  shows "cfio_id_inq_var c name s = Some (case vars_of s c name of
      None \<Rightarrow> (CFIO_ERROR_VAR_NO_EXIST, None) | Some i \<Rightarrow> (CFIO_ERROR_NONE, Some i))"
    and "cfio_id_inq_dim c name s = Some (case dims_of s c name of
      None \<Rightarrow> (CFIO_ERROR_VAR_NO_EXIST, None) | Some i \<Rightarrow> (CFIO_ERROR_NONE, Some i))"
proof -
  from assms(2) obtain f where f: "client_map s (c, 0, 0) = Some f" by auto
  then obtain p where "tab_entry assign_table s (c, 0, 0) = Some p" "heap s p = Some f"
    using client.entryE [OF client_tab [OF assms(1)]] by blast
  moreover obtain names dims where "var_head f = Some names" "dim_head f = Some dims"
    by (rule client_okD [OF assms(1) f])
  ultimately show "cfio_id_inq_var c name s = Some (case vars_of s c name of
      None \<Rightarrow> (CFIO_ERROR_VAR_NO_EXIST, None) | Some i \<Rightarrow> (CFIO_ERROR_NONE, Some i))"
    "cfio_id_inq_dim c name s = Some (case dims_of s c name of
      None \<Rightarrow> (CFIO_ERROR_VAR_NO_EXIST, None) | Some i \<Rightarrow> (CFIO_ERROR_NONE, Some i))"
    using f by (simp_all add: cfio_id_inq_var_def cfio_id_inq_dim_def client.search [OF client_tab [OF assms(1)]]
        find_name_map_of vars_of_file dims_of_file)
qed

lemma assign_var_known:
  assumes "client_ok s" "client_map s (c, 0, 0) \<noteq> None" "vars_of s c name = Some i"
  shows "cfio_id_assign_var c name n dimids s = Some (CFIO_ERROR_NONE, Some i, s)"
proof -
  from assms(2) obtain f where f: "client_map s (c, 0, 0) = Some f" by auto
  then obtain p where "tab_entry assign_table s (c, 0, 0) = Some p" "heap s p = Some f"
    using client.entryE [OF client_tab [OF assms(1)]] by blast
  moreover obtain names where "var_head f = Some names"
    by (rule client_okD [OF assms(1) f])
  ultimately show ?thesis
    using f assms(3) by (simp add: cfio_id_assign_var_def client.search [OF client_tab [OF assms(1)]]
        find_name_map_of vars_of_file)
qed

lemma assign_var_new:
  assumes ok: "client_ok s" and f: "client_map s (c, 0, 0) = Some f"
    and room: "sint (client_var_a f) < 2 ^ 31 - 1" and dims: "size_of_int n \<le> length dimids"
    and new: "vars_of s c name = None"
  defines "i \<equiv> assigned_id f name" and "ids \<equiv> (if n = 0 then None else Some (take (size_of_int n) dimids))"
  shows "\<exists>s' g. cfio_id_assign_var c name n dimids s = Some (CFIO_ERROR_NONE, Some i, s') \<and> client_ok s' \<and>
    i \<notin> ran (vars_of s c) \<and> client_map s (c, 0, i) = None \<and> open_nc_a s' = open_nc_a s \<and>
    var_head g = map_option ((#) (name, i)) (var_head f) \<and> dim_head g = dim_head f \<and>
    client_var_a g = client_var_a (named_file f name []) \<and> client_dim_a g = client_dim_a f \<and>
    client_map s' = (client_map s)((c, 0, i) \<mapsto> assigned_var c name i n ids, (c, 0, 0) \<mapsto> g)"
proof -
  obtain names dims where fo: "var_head f = Some names" "dim_head f = Some dims"
    "names_ok True (client_var_a f) names" "names_ok False (client_dim_a f) dims"
    "\<forall>(name, i) \<in> set names. var_bound (client_map s) c name i"
    "\<forall>d v. client_map s (c, d, v) \<noteq> None \<longrightarrow> d = 0 \<and> (v = 0 \<or> v \<in> snd ` set names)" "var f = None"
    by (rule client_okD [OF ok f])
  have new': "map_of names name = None" using new f fo(1) by (simp add: vars_of_file)
  have "if True \<and> name = NC_GLOBAL_NAME then i = NC_GLOBAL \<and> client_var_a (named_file f name names) = client_var_a f
      else i = client_var_a f + 1 \<and> client_var_a (named_file f name names) = client_var_a f + 1 \<and>
        sint (client_var_a f) < 2 ^ 31 - 1"
    using room by (simp add: i_def assigned_id_def named_file_def)
  note nn = names_ok_new [OF fo(3) new' this]
  have free: "client_map s (c, 0, i) = None" using fo(6) nn(2,3) by blast
  have tree: "tree_ok assign_table s" using ok by (simp add: client_ok_def)
  let ?g = "(named_file f name names)\<lparr>children := children f @ [brk s]\<rparr>"
  from assign_var_enters [OF tree f fo(1) new' ids_def [THEN meta_eq_to_obj_eq] dims i_def [THEN meta_eq_to_obj_eq] free]
  obtain s' where s': "cfio_id_assign_var c name n dimids s = Some (CFIO_ERROR_NONE, Some i, s')"
    "tree_ok assign_table s'" "open_nc_a s' = open_nc_a s"
    "client_map s' = (client_map s)((c, 0, i) \<mapsto> assigned_var c name i n ids, (c, 0, 0) \<mapsto> ?g)"
    by blast
  have own: "file_ok (client_map s') c ?g"
    unfolding s'(4) i_def by (rule file_ok_new_var [OF fo new' room])
  have "1 \<le> sint c' \<and> sint c' \<le> sint (open_nc_a s') \<and> file_ok (client_map s') c' f'"
    if "client_map s' (c', 0, 0) = Some f'" for c' f'
  proof (cases "c' = c")
    case True
    then have "f' = ?g" using that s'(4) by simp
    then show ?thesis using own ok f True s'(3) by (auto simp: client_ok_def)
  next
    case False
    then have "client_map s (c', 0, 0) = Some f'" using that s'(4) by simp
    moreover have "file_ok (client_map s') c' f' = file_ok (client_map s) c' f'"
      by (rule file_ok_cong) (use False s'(4) in simp)
    ultimately show ?thesis using ok s'(3) by (auto simp: client_ok_def)
  qed
  then have ok': "client_ok s'" using s'(2,3) ok by (simp add: client_ok_def)
  have fresh: "i \<notin> ran (vars_of s c)"
    using nn(2) f fo(1) by (force simp: vars_of_file ran_def dest!: map_of_SomeD)
  have g: "var_head ?g = map_option ((#) (name, i)) (var_head f)" "dim_head ?g = dim_head f"
    "client_var_a ?g = client_var_a (named_file f name [])" "client_dim_a ?g = client_dim_a f"
    using fo(1) by (simp_all add: named_file_def i_def)
  show ?thesis
    by (intro exI [of _ s'] exI [of _ ?g] conjI s'(1) ok' fresh free s'(3) g s'(4))
qed


text \<open>What happens to the other files.\<close>

definition only_file :: "i32 \<Rightarrow> id_state \<Rightarrow> id_state \<Rightarrow> bool" where
  "only_file c s s' \<longleftrightarrow> (\<forall>k. fst k \<noteq> c \<longrightarrow> client_map s' k = client_map s k)"

lemma only_file_names: "only_file c s s' \<Longrightarrow> c' \<noteq> c \<Longrightarrow> vars_of s' c' = vars_of s c' \<and> dims_of s' c' = dims_of s c'"
  by (rule names_of_cong) (simp add: only_file_def)

lemma only_fileI: "client_map s' = (client_map s)((c, d, v) := x, (c, e, w) := y) \<Longrightarrow> only_file c s s'"
  by (auto simp: only_file_def)

lemma assign_var_result:
  assumes "client_ok s" "client_map s (c, 0, 0) = Some f" "sint (client_var_a f) < 2 ^ 31 - 1"
    and "size_of_int n \<le> length dimids"
  shows "case vars_of s c name of
      Some i \<Rightarrow> cfio_id_assign_var c name n dimids s = Some (CFIO_ERROR_NONE, Some i, s)
    | None \<Rightarrow> \<exists>i s'. cfio_id_assign_var c name n dimids s = Some (CFIO_ERROR_NONE, Some i, s') \<and>
        client_ok s' \<and> i \<notin> ran (vars_of s c) \<and> vars_of s' c = (vars_of s c)(name \<mapsto> i) \<and>
        dims_of s' c = dims_of s c \<and> only_file c s s' \<and>
        cfio_id_inq_var c name s' = Some (CFIO_ERROR_NONE, Some i) \<and>
        cfio_id_inq_varndims c i s' = Some (CFIO_ERROR_NONE, Some n) \<and>
        cfio_id_inq_vardimid c i s' = Some (CFIO_ERROR_NONE, take (size_of_int n) dimids)"
proof (cases "vars_of s c name")
  case (Some i)
  then show ?thesis using assign_var_known [OF assms(1)] assms(2) by simp
next
  case None
  let ?i = "assigned_id f name"
  let ?ids = "if n = 0 then None else Some (take (size_of_int n) dimids)"
  from assign_var_new [OF assms None] obtain s' g where
    s': "cfio_id_assign_var c name n dimids s = Some (CFIO_ERROR_NONE, Some ?i, s')" "client_ok s'"
      "?i \<notin> ran (vars_of s c)" "client_map s (c, 0, ?i) = None"
    and g: "var_head g = map_option ((#) (name, ?i)) (var_head f)" "dim_head g = dim_head f"
    and m: "client_map s' = (client_map s)((c, 0, ?i) \<mapsto> assigned_var c name ?i n ?ids, (c, 0, 0) \<mapsto> g)"
    by blast
  obtain names where names: "var_head f = Some names" by (rule client_okD [OF assms(1,2)])
  have fl: "client_map s' (c, 0, 0) = Some g" using m by simp
  have vars: "vars_of s' c = (vars_of s c)(name \<mapsto> ?i)"
    using vars_of_file [OF fl] vars_of_file [OF assms(2)] g names by simp
  have dims: "dims_of s' c = dims_of s c"
    using dims_of_file [OF fl] dims_of_file [OF assms(2)] g by simp
  have "?i \<noteq> 0" using s'(4) assms(2) by auto
  then have "client_map s' (c, 0, ?i) = Some (assigned_var c name ?i n ?ids)" using m by simp
  note inq = inq_of_var [OF client_tab [OF s'(2)] this refl assms(4)]
  have "cfio_id_inq_var c name s' = Some (CFIO_ERROR_NONE, Some ?i)"
    using inq_var_names(1) [OF s'(2)] fl vars by simp
  then show ?thesis
    unfolding None option.case
    by (intro exI [of _ ?i] exI [of _ s'] conjI s'(1,2,3) vars dims only_fileI [OF m] inq)
qed

text \<open>Assigning a variable of an open file. A name that is already known answers its old
  identifier and changes nothing. A new name gets an identifier that no variable of the file
  has, the inquiries then answer this identifier, the number of dimensions and the dimension
  ids that were given, the other names and the other files keep theirs, and the invariant of the
  tables holds on. The counter of the file must not be at the largest \<open>int\<close>.\<close>

theorem assign_var_names:
  assumes "client_ok s" "client_map s (c, 0, 0) = Some f" "sint (client_var_a f) < 2 ^ 31 - 1"
    and "size_of_int n \<le> length dimids"
  shows "case vars_of s c name of
      Some i \<Rightarrow> cfio_id_assign_var c name n dimids s = Some (CFIO_ERROR_NONE, Some i, s)
    | None \<Rightarrow> \<exists>i s'. cfio_id_assign_var c name n dimids s = Some (CFIO_ERROR_NONE, Some i, s') \<and>
        client_ok s' \<and> i \<notin> ran (vars_of s c) \<and> vars_of s' c = (vars_of s c)(name \<mapsto> i) \<and>
        dims_of s' c = dims_of s c \<and> only_file c s s' \<and>
        cfio_id_inq_var c name s' = Some (CFIO_ERROR_NONE, Some i) \<and>
        cfio_id_inq_varndims c i s' = Some (CFIO_ERROR_NONE, Some n) \<and>
        cfio_id_inq_vardimid c i s' = Some (CFIO_ERROR_NONE, take (size_of_int n) dimids)"
  by (rule assign_var_result [OF assms])

section \<open>New files\<close>

lemma hkey_nc_a [simp]: "hkey (s\<lparr>open_nc_a := a\<rparr>) = hkey s"
  by (simp add: hkey_def fun_eq_iff)

lemma sound_nc_a [simp]: "sound (s\<lparr>open_nc_a := a\<rparr>) t = sound s t"
  by (simp add: sound_def)

lemma client_nc_a [simp]:
  "client_map (s\<lparr>open_nc_a := a\<rparr>) = client_map s" "tab_ok assign_table (s\<lparr>open_nc_a := a\<rparr>) = tab_ok assign_table s"
  "tab_entry assign_table (s\<lparr>open_nc_a := a\<rparr>) = tab_entry assign_table s"
  by (simp_all add: tab_map_def tab_ok_def tab_entry_def lookup_def entry_def fun_eq_iff)

lemma tree_nc_a [simp]: "tree_ok assign_table (s\<lparr>open_nc_a := a\<rparr>) = tree_ok assign_table s"
  by (simp add: tree_ok_def)

definition empty_file :: "i32 \<Rightarrow> id_val" where
  "empty_file c = zero_val\<lparr>client_nc_id := c, var_head := Some [], dim_head := Some []\<rparr>"

lemma file_ok_empty:
  "(\<And>d v. m (c, d, v) \<noteq> None \<Longrightarrow> (d, v) = (0, 0)) \<Longrightarrow> file_ok m c (empty_file c)"
  by (auto simp: file_ok_def empty_file_def zero_val_def names_ok_def)

lemma no_keys:
  assumes "client_ok s" "client_map s (c, 0, 0) = None"
  shows "client_map s (c, d, v) = None"
  using client.tree_file [of s c d v] assms by (cases "client_map s (c, d, v)") (auto simp: client_ok_def)

lemma enter_file:
  assumes ok: "client_ok s" and room: "sint (open_nc_a s) < 2 ^ 31 - 1"
  defines "c \<equiv> open_nc_a s + 1"
  defines "s1 \<equiv> s\<lparr>open_nc_a := c\<rparr>"
  shows "client_map s (c, 0, 0) = None" "\<exists>s'. add_assign (c, 0, 0) (brk s) (snd (alloc_val (empty_file c) s1)) = Some s' \<and>
    client_ok s' \<and> open_nc_a s' = c \<and> client_map s' = (client_map s)((c, 0, 0) \<mapsto> empty_file c)"
proof -
  have sc: "sint c = sint (open_nc_a s) + 1" "0 \<le> sint (open_nc_a s)"
    using sint_add_one [OF room] ok by (simp_all add: c_def client_ok_def)
  show new: "client_map s (c, 0, 0) = None"
    using open_file [OF ok, of c] sc(1) by (cases "client_map s (c, 0, 0)") auto
  have tree: "tree_ok assign_table s1" using ok by (simp add: client_ok_def s1_def)
  have k: "key_of (empty_file c) = (c, 0, 0)" by (simp add: key_of_def empty_file_def zero_val_def)
  have b: "brk s1 = brk s" by (simp add: s1_def)
  have new1: "client_map s1 (c, 0, 0) = None" using new by (simp add: s1_def)
  from client.add [OF client.tree_tab [OF tree] new1 k] b obtain t t' where
    t: "assign_table (snd (alloc_val (empty_file c) s1)) = Some t" "qhash_add id_hash (c, 0, 0) (brk s) t = Some t'"
    and r: "\<And>s'. s' = (snd (alloc_val (empty_file c) s1))\<lparr>assign_table := Some t'\<rparr> \<Longrightarrow> tab_ok assign_table s' \<and>
      client_map s' = (client_map s1)((c, 0, 0) := Some (empty_file c)) \<and>
      tab_entry assign_table s' = (tab_entry assign_table s1)((c, 0, 0) := Some (brk s))"
    by (auto simp: Let_def)
  define s' where "s' = (snd (alloc_val (empty_file c) s1))\<lparr>assign_table := Some t'\<rparr>"
  note r = r [OF s'_def]
  have m: "client_map s' = (client_map s)((c, 0, 0) \<mapsto> empty_file c)" using r by (simp add: s1_def)
  have nc: "open_nc_a s' = c" by (simp add: s'_def s1_def alloc_val_def)
  have "children (empty_file c) = []" by (simp add: empty_file_def zero_val_def)
  then have tree': "tree_ok assign_table s'"
    using client.tree_add_file [OF tree new1] r by blast
  have "1 \<le> sint c' \<and> sint c' \<le> sint c \<and> file_ok (client_map s') c' f'"
    if f': "client_map s' (c', 0, 0) = Some f'" for c' f'
  proof (cases "c' = c")
    case True
    moreover have "file_ok (client_map s') c (empty_file c)"
      using no_keys [OF ok new] m by (intro file_ok_empty) (auto split: if_splits)
    ultimately show ?thesis using f' m sc by simp
  next
    case False
    then have "client_map s (c', 0, 0) = Some f'" using f' m by simp
    moreover have "file_ok (client_map s') c' f' = file_ok (client_map s) c' f'"
      by (rule file_ok_cong) (use False m in simp)
    ultimately show ?thesis using open_file [OF ok, of c' f'] sc by simp
  qed
  then have "client_ok s'" using tree' nc sc by (simp add: client_ok_def)
  moreover have "add_assign (c, 0, 0) (brk s) (snd (alloc_val (empty_file c) s1)) = Some s'"
    using t by (simp add: add_assign_def s'_def)
  ultimately show "\<exists>s'. add_assign (c, 0, 0) (brk s) (snd (alloc_val (empty_file c) s1)) = Some s' \<and>
      client_ok s' \<and> open_nc_a s' = c \<and> client_map s' = (client_map s)((c, 0, 0) \<mapsto> empty_file c)"
    using nc m by blast
qed

lemma assign_nc_enters:
  assumes ok: "client_ok s" and room: "sint (open_nc_a s) < 2 ^ 31 - 1"
  defines "c \<equiv> open_nc_a s + 1"
  shows "client_map s (c, 0, 0) = None" "\<exists>s'. cfio_id_assign_nc s = Some (CFIO_ERROR_NONE, c, s') \<and> client_ok s' \<and> open_nc_a s' = c \<and>
    (\<exists>g. client_map s' (c, 0, 0) = Some g \<and> client_var_a g = 0 \<and> client_dim_a g = 0) \<and>
    vars_of s' c = [NC_GLOBAL_NAME \<mapsto> NC_GLOBAL] \<and> dims_of s' c = Map.empty \<and> only_file c s s'"
proof -
  note ef = enter_file [OF ok room, folded c_def]
  show new: "client_map s (c, 0, 0) = None" by (rule ef(1))
  from ef(2) obtain s1 where s1: "add_assign (c, 0, 0) (brk s) (snd (alloc_val (empty_file c) (s\<lparr>open_nc_a := c\<rparr>))) = Some s1"
    "client_ok s1" "open_nc_a s1 = c" "client_map s1 = (client_map s)((c, 0, 0) \<mapsto> empty_file c)" by blast
  have f: "client_map s1 (c, 0, 0) = Some (empty_file c)" using s1(4) by simp
  have room1: "sint (client_var_a (empty_file c)) < 2 ^ 31 - 1" and len: "size_of_int 0 \<le> length ([] :: i32 list)"
    and none: "vars_of s1 c NC_GLOBAL_NAME = None"
    using f by (simp_all add: vars_of_file empty_file_def zero_val_def size_of_int_def)
  from assign_var_new [OF s1(2) f room1 len none] obtain s' g where
    s': "cfio_id_assign_var c NC_GLOBAL_NAME 0 [] s1 = Some (CFIO_ERROR_NONE, Some NC_GLOBAL, s')" "client_ok s'"
      "open_nc_a s' = c" and g: "var_head g = Some [(NC_GLOBAL_NAME, NC_GLOBAL)]" "dim_head g = Some []"
      "client_var_a g = 0" "client_dim_a g = 0" and
    m: "client_map s' = (client_map s1)((c, 0, NC_GLOBAL) \<mapsto> assigned_var c NC_GLOBAL_NAME NC_GLOBAL 0 None, (c, 0, 0) \<mapsto> g)"
    by (auto simp: assigned_id_def s1(3) empty_file_def zero_val_def named_file_def)
  have g': "client_map s' (c, 0, 0) = Some g" using m by simp
  have "cfio_id_assign_nc s = Some (CFIO_ERROR_NONE, c, s')"
    using s1(1) s'(1) by (simp add: cfio_id_assign_nc_def c_def empty_file_def case_alloc)
  moreover have "only_file c s s'" using m s1(4) by (auto simp: only_file_def)
  ultimately show "\<exists>s'. cfio_id_assign_nc s = Some (CFIO_ERROR_NONE, c, s') \<and> client_ok s' \<and> open_nc_a s' = c \<and>
      (\<exists>g. client_map s' (c, 0, 0) = Some g \<and> client_var_a g = 0 \<and> client_dim_a g = 0) \<and>
      vars_of s' c = [NC_GLOBAL_NAME \<mapsto> NC_GLOBAL] \<and> dims_of s' c = Map.empty \<and> only_file c s s'"
    using s'(2,3) g' vars_of_file [OF g'] dims_of_file [OF g'] g by auto
qed


text \<open>Opening a file on the client. The new file number is one that no open file has; the
  file knows one variable, which stands for the global attributes, and no dimension; the entries
  of all other files stay and the invariant holds on.\<close>

theorem assign_nc_opens:
  assumes "client_ok s" "sint (open_nc_a s) < 2 ^ 31 - 1"
  shows "\<exists>c s'. cfio_id_assign_nc s = Some (CFIO_ERROR_NONE, c, s') \<and> client_ok s' \<and>
    client_map s (c, 0, 0) = None \<and> client_map s' (c, 0, 0) \<noteq> None \<and>
    vars_of s' c = [NC_GLOBAL_NAME \<mapsto> NC_GLOBAL] \<and> dims_of s' c = Map.empty \<and> only_file c s s'"
  using assign_nc_enters [OF assms] by (metis option.distinct(1))

section \<open>Dimensions and attributes\<close>

lemma update_file:
  assumes ok: "client_ok s" and e: "tab_entry assign_table s k = Some p"
    and F: "\<And>v. key_of (F v) = key_of v" "\<And>v. children (F v) = children v"
    and m': "m' = (client_map s)(k := map_option F (client_map s k))"
    and own: "\<And>f. m' (fst k, 0, 0) = Some f \<Longrightarrow> file_ok m' (fst k) f"
  shows "client_ok (update_val p F s)" "client_map (update_val p F s) = m'"
    "only_file (fst k) s (update_val p F s)"
proof -
  note u = client.update [OF client_tab [OF ok] e, of F, OF F(1), folded m']
  have tree: "tree_ok assign_table (update_val p F s)"
    using client.tree_update [OF _ e F] ok by (simp add: client_ok_def)
  show "client_map (update_val p F s) = m'" by (rule u(3))
  show "only_file (fst k) s (update_val p F s)" using u(3) m' by (auto simp: only_file_def)
  have nc: "open_nc_a (update_val p F s) = open_nc_a s" by (simp add: update_val_def)
  have "1 \<le> sint c \<and> sint c \<le> sint (open_nc_a s) \<and> file_ok m' c f" if f: "m' (c, 0, 0) = Some f" for c f
  proof -
    obtain g where g: "client_map s (c, 0, 0) = Some g" using f m' by (auto split: if_splits)
    show ?thesis
    proof (cases "c = fst k")
      case True
      then show ?thesis using open_file [OF ok g] own f by blast
    next
      case False
      then have same: "m' (c, d, v) = client_map s (c, d, v)" for d v using m' by (cases k) simp
      then have "file_ok m' c f = file_ok (client_map s) c f" by (rule file_ok_cong)
      moreover have "f = g" using same f g by simp
      ultimately show ?thesis using open_file [OF ok g] by simp
    qed
  qed
  then show "client_ok (update_val p F s)" using tree ok u(3) nc by (simp add: client_ok_def)
qed

lemma assign_dim_new:
  assumes ok: "client_ok s" and f: "client_map s (c, 0, 0) = Some f"
    and room: "sint (client_dim_a f) < 2 ^ 31 - 1" and new: "dims_of s c name = None"
  defines "i \<equiv> client_dim_a f + 1"
  shows "\<exists>s'. cfio_id_assign_dim c name s = Some (CFIO_ERROR_NONE, Some i, s') \<and> client_ok s' \<and>
    i \<notin> ran (dims_of s c) \<and> dims_of s' c = (dims_of s c)(name \<mapsto> i) \<and> vars_of s' c = vars_of s c \<and>
    open_nc_a s' = open_nc_a s \<and> only_file c s s'"
proof -
  obtain names dims where fo: "var_head f = Some names" "dim_head f = Some dims"
    "names_ok True (client_var_a f) names" "names_ok False (client_dim_a f) dims"
    "\<forall>(name, i) \<in> set names. var_bound (client_map s) c name i"
    "\<forall>d v. client_map s (c, d, v) \<noteq> None \<longrightarrow> d = 0 \<and> (v = 0 \<or> v \<in> snd ` set names)" "var f = None"
    by (rule client_okD [OF ok f])
  obtain p where p: "tab_entry assign_table s (c, 0, 0) = Some p" "heap s p = Some f"
    using client.entryE [OF client_tab [OF ok] f] by blast
  let ?F = "\<lambda>v. v\<lparr>client_dim_a := i, dim_head := Some ((name, i) # dims)\<rparr>"
  let ?s = "update_val p ?F s"
  define m' where "m' = (client_map s)((c, 0, 0) := map_option ?F (client_map s (c, 0, 0)))"
  have F: "key_of (?F v) = key_of v" "children (?F v) = children v" for v by (simp_all add: key_of_def)
  have new': "map_of dims name = None" using new f fo(2) by (simp add: dims_of_file)
  have "if False \<and> name = NC_GLOBAL_NAME then i = NC_GLOBAL \<and> i = client_dim_a f
      else i = client_dim_a f + 1 \<and> i = client_dim_a f + 1 \<and> sint (client_dim_a f) < 2 ^ 31 - 1"
    using room by (simp add: i_def)
  note nn = names_ok_new [OF fo(4) new' this]
  have bound: "\<forall>(name, i) \<in> set names. var_bound m' c name i"
    using fo(5) ids_nonzero [OF fo(3)] by (fastforce simp: m'_def var_bound_def)
  have only: "\<forall>d v. m' (c, d, v) \<noteq> None \<longrightarrow> d = 0 \<and> (v = 0 \<or> v \<in> snd ` set names)"
    using fo(6) by (auto simp: m'_def split: if_splits)
  have own: "file_ok m' c g" if "m' (fst (c, 0 :: i32, 0 :: i32), 0, 0) = Some g" for g
  proof -
    have g: "g = ?F f" using that f by (simp add: m'_def)
    show ?thesis
      unfolding file_ok_def
      by (intro exI [of _ names] exI [of _ "(name, i) # dims"]) (use g fo nn(1) bound only in simp)
  qed
  have own': "file_ok m' (fst (c, 0 :: i32, 0 :: i32)) g" if "m' (fst (c, 0 :: i32, 0 :: i32), 0, 0) = Some g" for g
    using own [OF that] by simp
  note u = update_file [OF ok p(1) F m'_def own']
  have "cfio_id_assign_dim c name s = Some (CFIO_ERROR_NONE, Some i, ?s)"
    using p fo(2) new' by (simp add: cfio_id_assign_dim_def client.search [OF client_tab [OF ok]]
        find_name_map_of i_def Let_def)
  moreover have fl: "client_map ?s (c, 0, 0) = Some (?F f)" using u(2) f by (simp add: m'_def)
  moreover have "i \<notin> ran (dims_of s c)"
    using nn(2) f fo(2) by (force simp: dims_of_file ran_def dest!: map_of_SomeD)
  moreover have "open_nc_a ?s = open_nc_a s" by (simp add: update_val_def)
  ultimately show ?thesis
    using u(1,3) vars_of_file [OF f] dims_of_file [OF f] vars_of_file [OF fl] dims_of_file [OF fl] fo(2)
    by (intro exI [of _ ?s]) simp
qed

lemma assign_dim_known:
  assumes "client_ok s" "client_map s (c, 0, 0) \<noteq> None" "dims_of s c name = Some i"
  shows "cfio_id_assign_dim c name s = Some (CFIO_ERROR_NONE, Some i, s)"
proof -
  from assms(2) obtain f where f: "client_map s (c, 0, 0) = Some f" by auto
  then obtain p where "tab_entry assign_table s (c, 0, 0) = Some p" "heap s p = Some f"
    using client.entryE [OF client_tab [OF assms(1)]] by blast
  moreover obtain dims where "dim_head f = Some dims"
    by (rule client_okD [OF assms(1) f])
  ultimately show ?thesis
    using f assms(3) by (simp add: cfio_id_assign_dim_def client.search [OF client_tab [OF assms(1)]]
        find_name_map_of dims_of_file)
qed


lemma assign_dim_result:
  assumes "client_ok s" "client_map s (c, 0, 0) = Some f" "sint (client_dim_a f) < 2 ^ 31 - 1"
  shows "case dims_of s c name of
      Some i \<Rightarrow> cfio_id_assign_dim c name s = Some (CFIO_ERROR_NONE, Some i, s)
    | None \<Rightarrow> \<exists>i s'. cfio_id_assign_dim c name s = Some (CFIO_ERROR_NONE, Some i, s') \<and>
        client_ok s' \<and> i \<notin> ran (dims_of s c) \<and> dims_of s' c = (dims_of s c)(name \<mapsto> i) \<and>
        vars_of s' c = vars_of s c \<and> only_file c s s' \<and>
        cfio_id_inq_dim c name s' = Some (CFIO_ERROR_NONE, Some i)"
proof (cases "dims_of s c name")
  case (Some i)
  then show ?thesis using assign_dim_known [OF assms(1)] assms(2) by simp
next
  case None
  from assign_dim_new [OF assms None] obtain i s' where
    s': "cfio_id_assign_dim c name s = Some (CFIO_ERROR_NONE, Some i, s')" "client_ok s'" "i \<notin> ran (dims_of s c)"
      "dims_of s' c = (dims_of s c)(name \<mapsto> i)" "vars_of s' c = vars_of s c" "only_file c s s'"
    by blast
  have "client_map s' (c, 0, 0) \<noteq> None"
    using fun_cong [OF s'(4), of name] by (cases "client_map s' (c, 0, 0)") (auto simp: dims_of_def)
  then have "cfio_id_inq_dim c name s' = Some (CFIO_ERROR_NONE, Some i)"
    using inq_var_names(2) [OF s'(2)] s'(4) by simp
  then show ?thesis unfolding None option.case
    by (intro exI [of _ i] exI [of _ s'] conjI s')
qed

text \<open>Assigning a dimension of an open file: a known name answers its old identifier and
  changes nothing; a new name gets an identifier that no dimension of the file has, the inquiry
  then answers it, and the variables and the other files are as they were.\<close>

theorem assign_dim_names:
  assumes "client_ok s" "client_map s (c, 0, 0) = Some f" "sint (client_dim_a f) < 2 ^ 31 - 1"
  shows "case dims_of s c name of
      Some i \<Rightarrow> cfio_id_assign_dim c name s = Some (CFIO_ERROR_NONE, Some i, s)
    | None \<Rightarrow> \<exists>i s'. cfio_id_assign_dim c name s = Some (CFIO_ERROR_NONE, Some i, s') \<and>
        client_ok s' \<and> i \<notin> ran (dims_of s c) \<and> dims_of s' c = (dims_of s c)(name \<mapsto> i) \<and>
        vars_of s' c = vars_of s c \<and> only_file c s s' \<and>
        cfio_id_inq_dim c name s' = Some (CFIO_ERROR_NONE, Some i)"
  by (rule assign_dim_result [OF assms])

lemma assign_att_keeps:
  assumes ok: "client_ok s" and v: "client_map s (c, 0, i) = Some val" "var val \<noteq> None" "i \<noteq> 0"
    and d: "size_of_int len \<le> length data"
  shows "\<exists>s'. cfio_id_assign_att c i name xtype len data s = Some (CFIO_ERROR_NONE, s') \<and> client_ok s' \<and>
    (\<forall>c. vars_of s' c = vars_of s c \<and> dims_of s' c = dims_of s c)"
proof -
  note tab = client_tab [OF ok]
  from client.tree_file [OF _ v(1)] ok obtain f where f: "client_map s (c, 0, 0) = Some f"
    by (auto simp: client_ok_def)
  obtain names dims where fo: "var_head f = Some names" "dim_head f = Some dims"
    "names_ok True (client_var_a f) names" "names_ok False (client_dim_a f) dims"
    "\<forall>(name, i) \<in> set names. var_bound (client_map s) c name i"
    "\<forall>d v. client_map s (c, d, v) \<noteq> None \<longrightarrow> d = 0 \<and> (v = 0 \<or> v \<in> snd ` set names)" "var f = None"
    by (rule client_okD [OF ok f])
  obtain p where p: "tab_entry assign_table s (c, 0, i) = Some p" "heap s p = Some val"
    using client.entryE [OF tab v(1)] by blast
  obtain name' where "(name', i) \<in> set names" using fo(6) v(1,3) by force
  with fo(5) have "var_bound (client_map s) c name' i" by blast
  then obtain x atts where x: "var val = Some x" "att_head x = Some atts"
    using v(1) by (auto simp: var_bound_def)
  let ?att = "\<lparr>att_name = name, att_xtype = xtype, att_len = len, att_data = take (size_of_int len) data\<rparr>"
  let ?F = "\<lambda>val. val\<lparr>var := Some (x\<lparr>att_head := Some (atts @ [?att])\<rparr>)\<rparr>"
  let ?s = "update_val p ?F s"
  define m' where "m' = (client_map s)((c, 0, i) := map_option ?F (client_map s (c, 0, i)))"
  have F: "key_of (?F v) = key_of v" "children (?F v) = children v" for v by (simp_all add: key_of_def)
  have own: "file_ok m' (fst (c, 0 :: i32, i)) g" if "m' (fst (c, 0 :: i32, i), 0, 0) = Some g" for g
  proof -
    have g: "g = f" using that f v(3) by (simp add: m'_def)
    have "var_bound m' c n j" if n: "(n, j) \<in> set names" for n j
    proof -
      from fo(5) n have b: "var_bound (client_map s) c n j" by blast
      show ?thesis
      proof (cases "j = i")
        case True
        then show ?thesis using b v(1) x by (simp add: m'_def var_bound_def)
      qed (use b var_bound_upd v(1) in \<open>simp add: m'_def\<close>)
    qed
    then have "\<forall>(name, j) \<in> set names. var_bound m' c name j" by blast
    moreover have "\<forall>d w. m' (c, d, w) \<noteq> None \<longrightarrow> d = 0 \<and> (w = 0 \<or> w \<in> snd ` set names)"
      using fo(6) v(1) by (auto simp: m'_def split: if_splits)
    ultimately show ?thesis unfolding file_ok_def using g fo(1-4,7) by simp
  qed
  note u = update_file [OF ok p(1) F m'_def own]
  have "mem_read data 0 (size_of_int len) = Some (take (size_of_int len) data)"
    using d by (simp add: mem_read_def slice_def)
  then have "cfio_id_assign_att c i name xtype len data s = Some (CFIO_ERROR_NONE, ?s)"
    using p x by (simp add: cfio_id_assign_att_def client.search [OF tab])
  moreover have "client_map ?s (c', 0, 0) = client_map s (c', 0, 0)" for c'
    using u(2) v(3) by (simp add: m'_def)
  ultimately show ?thesis using u(1) names_of_cong by blast
qed

section \<open>Closing a file\<close>

lemma drop_child_step: "assign_table s = Some t \<Longrightarrow>
    drop_child p s = cfio_id_val_free p (s\<lparr>assign_table := Some (qhash_del p t)\<rparr>)"
  by (simp add: drop_child_def)

lemma fold_drop_nc_a: "open_nc_a (fold drop_child ps s) = open_nc_a s"
  by (induction ps arbitrary: s) (simp_all add: drop_child_def cfio_id_val_free_def)

lemma client_ok_forget:
  assumes ok: "client_ok s" and s': "tree_ok assign_table s'" "client_map s' = forget c (client_map s)"
    "open_nc_a s' = open_nc_a s"
  shows "client_ok s'"
proof -
  have "1 \<le> sint c' \<and> sint c' \<le> sint (open_nc_a s') \<and> file_ok (client_map s') c' f"
    if f: "client_map s' (c', 0, 0) = Some f" for c' f
  proof -
    from f have ne: "c' \<noteq> c" and f: "client_map s (c', 0, 0) = Some f"
      by (auto simp: s'(2) forget_def split: if_splits)
    have "file_ok (client_map s') c' f = file_ok (client_map s) c' f"
      by (rule file_ok_cong) (use ne s'(2) in \<open>simp add: forget_def\<close>)
    with open_file [OF ok f] s'(3) show ?thesis by simp
  qed
  then show ?thesis using s' ok by (simp add: client_ok_def)
qed

lemma remove_nc_drops:
  assumes ok: "client_ok s" and f: "client_map s (c, 0, 0) = Some f"
  shows "\<exists>s'. cfio_id_remove_nc c s = Some (CFIO_ERROR_NONE, s') \<and> client_ok s' \<and>
    open_nc_a s' = open_nc_a s \<and> client_map s' = forget c (client_map s)"
proof -
  have tree: "tree_ok assign_table s" using ok by (simp add: client_ok_def)
  obtain p where p: "tab_entry assign_table s (c, 0, 0) = Some p" "heap s p = Some f"
    using client.entryE [OF client_tab [OF ok] f] by blast
  let ?s = "drop_child p (fold drop_child (children f) s)"
  have d: "tree_ok assign_table ?s" "client_map ?s = forget c (client_map s)"
    using client.drop_file [of drop_child, OF drop_child_step tree f p(1)] by (simp_all only: simp_thms)
  have nc: "open_nc_a ?s = open_nc_a s"
    by (simp add: drop_child_def cfio_id_val_free_def fold_drop_nc_a)
  have "cfio_id_remove_nc c s = Some (CFIO_ERROR_NONE, ?s)"
    using p by (simp add: cfio_id_remove_nc_def client.search [OF client_tab [OF ok]])
  then show ?thesis using client_ok_forget [OF ok d nc] d nc by blast
qed

lemma unknown_file:
  assumes "client_ok s" "client_map s (c, 0, 0) = None"
  shows "cfio_id_remove_nc c s = Some (CFIO_ERROR_NC_NO_EXIST, s)"
    "cfio_id_assign_var c name n dimids s = Some (CFIO_ERROR_NC_NO_EXIST, None, s)"
    "cfio_id_assign_dim c name s = Some (CFIO_ERROR_NC_NO_EXIST, None, s)"
    "cfio_id_assign_att c i name xtype len data s = Some (CFIO_ERROR_NC_NO_EXIST, s)"
  using no_keys [OF assms] client.map_None [OF client_tab [OF assms(1)]]
  by (simp_all add: cfio_id_remove_nc_def cfio_id_assign_var_def cfio_id_assign_dim_def
      cfio_id_assign_att_def client.search [OF client_tab [OF assms(1)]])


text \<open>Closing a file on the client removes the entries of the file, of its variables and of
  its attributes from the table, and nothing else; an unknown file is reported and changes
  nothing.\<close>

theorem remove_nc_forgets:
  assumes "client_ok s"
  shows "\<exists>s'. cfio_id_remove_nc c s =
      Some (if client_map s (c, 0, 0) = None then CFIO_ERROR_NC_NO_EXIST else CFIO_ERROR_NONE, s') \<and>
    client_ok s' \<and> client_map s' = forget c (client_map s)"
proof (cases "client_map s (c, 0, 0)")
  case None
  have "forget c (client_map s) = client_map s"
    using no_keys [OF assms None] by (auto simp: forget_def fun_eq_iff)
  then show ?thesis using None assms unknown_file(1) [OF assms None] by simp
next
  case (Some f)
  then show ?thesis using remove_nc_drops [OF assms Some] by auto
qed

section \<open>The states a client reaches\<close>

text \<open>A client starts with \<open>cfio_id_init\<close> and then opens, names and closes in any order. Every
  step is a call that returns; a counter that is at the largest \<open>int\<close> is not increased.\<close>

definition CFIO_ID_INIT_CLIENT :: int where "CFIO_ID_INIT_CLIENT = 0"

inductive client_reach :: "id_state \<Rightarrow> bool" where
  init: "cfio_id_init CFIO_ID_INIT_CLIENT s0 = (ret, s) \<Longrightarrow> client_reach s"
| assign_nc: "client_reach s \<Longrightarrow> sint (open_nc_a s) < 2 ^ 31 - 1 \<Longrightarrow>
    cfio_id_assign_nc s = Some (ret, c, s') \<Longrightarrow> client_reach s'"
| assign_var: "client_reach s \<Longrightarrow> (\<And>f. client_map s (c, 0, 0) = Some f \<Longrightarrow> sint (client_var_a f) < 2 ^ 31 - 1) \<Longrightarrow>
    size_of_int n \<le> length dimids \<Longrightarrow>
    cfio_id_assign_var c name n dimids s = Some (ret, i, s') \<Longrightarrow> client_reach s'"
| assign_dim: "client_reach s \<Longrightarrow> (\<And>f. client_map s (c, 0, 0) = Some f \<Longrightarrow> sint (client_dim_a f) < 2 ^ 31 - 1) \<Longrightarrow>
    cfio_id_assign_dim c name s = Some (ret, i, s') \<Longrightarrow> client_reach s'"
| assign_att: "client_reach s \<Longrightarrow> cfio_id_assign_att c v name xtype len data s = Some (ret, s') \<Longrightarrow> client_reach s'"
| remove_nc: "client_reach s \<Longrightarrow> cfio_id_remove_nc c s = Some (ret, s') \<Longrightarrow> client_reach s'"

lemma client_ok_init: "cfio_id_init CFIO_ID_INIT_CLIENT s0 = (ret, s) \<Longrightarrow> client_ok s"
  by (auto simp: cfio_id_init_def CFIO_ID_INIT_CLIENT_def client_ok_def tree_ok_def tab_ok_def tab_map_def
      sound_init ASSIGN_HASH_TABLE_SIZE_def)

lemma assign_att_result:
  assumes ok: "client_ok s" and r: "cfio_id_assign_att c i name xtype len data s = Some (ret, s')"
  shows "client_ok s'"
proof (cases "client_map s (c, 0, i)")
  case None
  then show ?thesis using r ok client.map_None [OF client_tab [OF ok]]
    by (simp add: cfio_id_assign_att_def client.search [OF client_tab [OF ok]])
next
  case (Some val)
  then obtain p where p: "tab_entry assign_table s (c, 0, i) = Some p" "heap s p = Some val"
    using client.entryE [OF client_tab [OF ok]] by blast
  from r p have v: "var val \<noteq> None" "size_of_int len \<le> length data"
    by (auto simp: cfio_id_assign_att_def client.search [OF client_tab [OF ok]] mem_read_def
        split: bind_splits if_splits)
  show ?thesis
  proof (cases "i = 0")
    case False
    then show ?thesis using assign_att_keeps [OF ok Some v(1) False v(2), of name xtype] r by auto
  next
    case True
    then have "client_map s (c, 0, 0) = Some val" using Some by simp
    then show ?thesis using v(1) file_no_var [OF ok] by simp
  qed
qed


lemma client_reach_ok: "client_reach s \<Longrightarrow> client_ok s"
proof (induction rule: client_reach.induct)
  case (assign_nc s ret c s')
  then show ?case using assign_nc_enters(2) [of s] by auto
next
  case (assign_var s c n dimids name ret i s')
  show ?case
  proof (cases "client_map s (c, 0, 0)")
    case None
    then show ?thesis using assign_var unknown_file(2) by auto
  next
    case (Some f)
    show ?thesis
    proof (cases "vars_of s c name")
      case None
      then show ?thesis
        using assign_var_new [OF assign_var.IH Some assign_var(2) [OF Some] assign_var(3) None] assign_var(4) by auto
    next
      case (Some j)
      then show ?thesis using assign_var_known [OF assign_var.IH _ Some] \<open>client_map s (c, 0, 0) = Some f\<close> assign_var by auto
    qed
  qed
next
  case (assign_dim s c name ret i s')
  show ?case
  proof (cases "client_map s (c, 0, 0)")
    case None
    then show ?thesis using assign_dim unknown_file(3) by auto
  next
    case (Some f)
    show ?thesis
    proof (cases "dims_of s c name")
      case None
      then show ?thesis
        using assign_dim_new [OF assign_dim.IH Some assign_dim(2) [OF Some] None] assign_dim(3) by auto
    next
      case (Some j)
      then show ?thesis using assign_dim_known [OF assign_dim.IH _ Some] \<open>client_map s (c, 0, 0) = Some f\<close> assign_dim by auto
    qed
  qed
next
  case (remove_nc s c ret s')
  show ?case
  proof (cases "client_map s (c, 0, 0)")
    case None
    then show ?thesis using remove_nc unknown_file(1) by auto
  next
    case (Some f)
    then show ?thesis using remove_nc remove_nc_drops by fastforce
  qed
qed (auto intro: client_ok_init assign_att_result)

lemma map_of_names_inj:
  assumes "names_ok g a names" "map_of names n = Some i" "map_of names n' = Some i"
  shows "n = n'"
proof -
  have "(n, i) \<in> set names" "(n', i) \<in> set names" using assms(2,3) by (simp_all add: map_of_SomeD)
  moreover have "inj_on snd (set names)" using assms(1) by (simp add: names_ok_def distinct_map)
  ultimately show ?thesis by (metis inj_onD prod.sel)
qed

text \<open>C25. Whatever a client does, two names of variables of a file never share an identifier,
  nor do two names of dimensions, and every identifier of a variable answers the inquiry for its
  number of dimensions.\<close>

theorem client_ids_unique:
  assumes "client_reach s"
  shows "inj_on (vars_of s c) (dom (vars_of s c)) \<and> inj_on (dims_of s c) (dom (dims_of s c)) \<and>
    (\<forall>i \<in> ran (vars_of s c). \<exists>n. cfio_id_inq_varndims c i s = Some (CFIO_ERROR_NONE, Some n))"
proof (cases "client_map s (c, 0, 0)")
  case None
  then show ?thesis by (simp add: vars_of_def dims_of_def)
next
  case (Some f)
  note ok = client_reach_ok [OF assms]
  obtain names dims where fo: "var_head f = Some names" "dim_head f = Some dims"
    "names_ok True (client_var_a f) names" "names_ok False (client_dim_a f) dims"
    "\<forall>(name, i) \<in> set names. var_bound (client_map s) c name i"
    by (rule client_okD [OF ok Some])
  have v: "vars_of s c = map_of names" "dims_of s c = map_of dims"
    using Some fo(1,2) by (simp_all add: vars_of_file dims_of_file)
  have "\<exists>n. cfio_id_inq_varndims c i s = Some (CFIO_ERROR_NONE, Some n)" if i: "i \<in> ran (map_of names)" for i
  proof -
    from i obtain name where "(name, i) \<in> set names" by (auto simp: ran_def dest: map_of_SomeD)
    with fo(5) obtain val x where "client_map s (c, 0, i) = Some val" "var val = Some x"
      by (auto simp: var_bound_def)
    moreover from this(1) obtain p where "tab_entry assign_table s (c, 0, i) = Some p" "heap s p = Some val"
      using client.entryE [OF client_tab [OF ok]] by blast
    ultimately show ?thesis
      by (simp add: cfio_id_inq_varndims_def client.search [OF client_tab [OF ok]])
  qed
  moreover have "inj_on (map_of names) (dom (map_of names))" "inj_on (map_of dims) (dom (map_of dims))"
    using map_of_names_inj [OF fo(3)] map_of_names_inj [OF fo(4)] by (auto intro!: inj_onI)
  ultimately show ?thesis unfolding v by blast
qed

section \<open>A client with one file\<close>

definition client_0 :: id_state where
  "client_0 = snd (cfio_id_init CFIO_ID_INIT_CLIENT id_state_0)"

lemma client_0: "client_reach client_0" "client_ok client_0" "open_nc_a client_0 = 0"
proof -
  have i: "cfio_id_init CFIO_ID_INIT_CLIENT id_state_0 = (CFIO_ERROR_NONE, client_0)"
    by (simp add: client_0_def cfio_id_init_def CFIO_ID_INIT_CLIENT_def)
  show "client_reach client_0" by (rule client_reach.init [OF i])
  show "client_ok client_0" by (rule client_ok_init [OF i])
  show "open_nc_a client_0 = 0" by (simp add: client_0_def cfio_id_init_def CFIO_ID_INIT_CLIENT_def)
qed

lemma one_file:
  "\<exists>s f. client_reach s \<and> client_ok s \<and> client_map s (1, 0, 0) = Some f \<and>
    sint (client_var_a f) < 2 ^ 31 - 1 \<and> sint (client_dim_a f) < 2 ^ 31 - 1 \<and>
    vars_of s 1 = [NC_GLOBAL_NAME \<mapsto> NC_GLOBAL] \<and> dims_of s 1 = Map.empty"
proof -
  have room: "sint (open_nc_a client_0) < 2 ^ 31 - 1" by (simp add: client_0)
  from assign_nc_enters(2) [OF client_0(2) room] obtain s g where
    s: "cfio_id_assign_nc client_0 = Some (CFIO_ERROR_NONE, 1, s)" "client_ok s"
      "client_map s (1, 0, 0) = Some g" "client_var_a g = 0" "client_dim_a g = 0"
      "vars_of s 1 = [NC_GLOBAL_NAME \<mapsto> NC_GLOBAL]" "dims_of s 1 = Map.empty"
    by (auto simp: client_0)
  then show ?thesis using client_reach.assign_nc [OF client_0(1) room s(1)]
    by (intro exI [of _ s] exI [of _ g]) simp
qed

theorem assign_nc_opens_witness:
  "\<exists>c s'. cfio_id_assign_nc client_0 = Some (CFIO_ERROR_NONE, c, s') \<and> client_ok s' \<and>
    client_map client_0 (c, 0, 0) = None \<and> client_map s' (c, 0, 0) \<noteq> None \<and>
    vars_of s' c = [NC_GLOBAL_NAME \<mapsto> NC_GLOBAL] \<and> dims_of s' c = Map.empty \<and> only_file c client_0 s'"
  by (rule assign_nc_opens) (simp_all add: client_0)

theorem assign_var_names_witness:
  "\<exists>s. vars_of s 1 [120] = None \<and>
    (\<exists>i s'. cfio_id_assign_var 1 [120] 2 [1, 2] s = Some (CFIO_ERROR_NONE, Some i, s') \<and>
      client_ok s' \<and> i \<notin> ran (vars_of s 1) \<and> vars_of s' 1 = (vars_of s 1)([120] \<mapsto> i) \<and>
      dims_of s' 1 = dims_of s 1 \<and> only_file 1 s s' \<and>
      cfio_id_inq_var 1 [120] s' = Some (CFIO_ERROR_NONE, Some i) \<and>
      cfio_id_inq_varndims 1 i s' = Some (CFIO_ERROR_NONE, Some 2) \<and>
      cfio_id_inq_vardimid 1 i s' = Some (CFIO_ERROR_NONE, [1, 2]))"
proof -
  from one_file obtain s f where s: "client_ok s" "client_map s (1, 0, 0) = Some f"
    "sint (client_var_a f) < 2 ^ 31 - 1" "vars_of s 1 = [NC_GLOBAL_NAME \<mapsto> NC_GLOBAL]" by blast
  have d: "size_of_int 2 \<le> length [1, 2 :: i32]" "take (size_of_int 2) [1, 2 :: i32] = [1, 2]"
    by (simp_all add: size_of_int_def)
  have "vars_of s 1 [120] = None" by (simp add: s(4) NC_GLOBAL_NAME_def)
  with assign_var_names [OF s(1-3) d(1), of "[120]"] d(2) show ?thesis
    by (intro exI [of _ s]) (simp only: option.case simp_thms)
qed

theorem assign_dim_names_witness:
  "\<exists>s. dims_of s 1 [120] = None \<and>
    (\<exists>i s'. cfio_id_assign_dim 1 [120] s = Some (CFIO_ERROR_NONE, Some i, s') \<and>
      client_ok s' \<and> i \<notin> ran (dims_of s 1) \<and> dims_of s' 1 = (dims_of s 1)([120] \<mapsto> i) \<and>
      vars_of s' 1 = vars_of s 1 \<and> only_file 1 s s' \<and>
      cfio_id_inq_dim 1 [120] s' = Some (CFIO_ERROR_NONE, Some i))"
proof -
  from one_file obtain s f where s: "client_ok s" "client_map s (1, 0, 0) = Some f"
    "sint (client_dim_a f) < 2 ^ 31 - 1" "dims_of s 1 = Map.empty" by blast
  have "dims_of s 1 [120] = None" by (simp add: s(4))
  with assign_dim_names [OF s(1-3), of "[120]"] show ?thesis
    by (intro exI [of _ s]) (simp only: option.case simp_thms)
qed

theorem remove_nc_forgets_witness:
  "\<exists>s. client_map s (1, 0, 0) \<noteq> None \<and> (\<exists>s'. cfio_id_remove_nc 1 s = Some (CFIO_ERROR_NONE, s') \<and>
    client_ok s' \<and> client_map s' = forget 1 (client_map s))"
proof -
  from one_file obtain s f where s: "client_ok s" "client_map s (1, 0, 0) = Some f" by blast
  with remove_nc_forgets [OF s(1), of 1] show ?thesis by (intro exI [of _ s]) simp
qed

theorem client_ids_unique_witness:
  "\<exists>s. NC_GLOBAL \<in> ran (vars_of s 1) \<and>
    inj_on (vars_of s 1) (dom (vars_of s 1)) \<and> inj_on (dims_of s 1) (dom (dims_of s 1)) \<and>
    (\<forall>i \<in> ran (vars_of s 1). \<exists>n. cfio_id_inq_varndims 1 i s = Some (CFIO_ERROR_NONE, Some n))"
proof -
  from one_file obtain s f where s: "client_reach s" "vars_of s 1 = [NC_GLOBAL_NAME \<mapsto> NC_GLOBAL]" by blast
  then show ?thesis using client_ids_unique [OF s(1), of 1] by (intro exI [of _ s]) simp
qed

end
