(* ===== verification/Decode.thy ===== *)
theory Decode
  imports IoServer
begin

text \<open>
  The dispatch of a message to its handler (\<open>decode\<close> of \<open>server.c\<close>), and what it does to a
  message that a client has packed: exactly the call that the client made.
\<close>

definition decode ::
    "'f pnetcdf \<Rightarrow> (nat \<Rightarrow> byte) \<Rightarrow> map_state \<Rightarrow> cfio_msg \<Rightarrow> 'f server_state \<Rightarrow> (int \<times> 'f server_state) option" where
  "decode P junk m msg s =
     do {
       (code, r) \<leftarrow> cfio_recv_unpack_func_code m msg (rcv s);
       let s = s\<lparr>rcv := r\<rparr>;
       if code = FUNC_NC_CREATE then
         do { (ret, s) \<leftarrow> cfio_io_create P m msg s; Some (CFIO_ERROR_NONE, s) }
       else if code = FUNC_NC_DEF_DIM then
         do { (ret, s) \<leftarrow> cfio_io_def_dim m msg s; Some (CFIO_ERROR_NONE, s) }
       else if code = FUNC_NC_DEF_VAR then
         do { (ret, s) \<leftarrow> cfio_io_def_var m msg s; Some (CFIO_ERROR_NONE, s) }
       else if code = FUNC_PUT_ATT then
         do { (ret, s) \<leftarrow> cfio_io_put_att P m msg s; Some (CFIO_ERROR_NONE, s) }
       else if code = FUNC_NC_ENDDEF then
         do { (ret, s) \<leftarrow> cfio_io_enddef P m msg s; Some (CFIO_ERROR_NONE, s) }
       else if code = FUNC_NC_PUT_VARA then
         do { (ret, s) \<leftarrow> cfio_io_put_vara P junk m msg s; Some (CFIO_ERROR_NONE, s) }
       else if code = FUNC_NC_CLOSE then
         do { (ret, s) \<leftarrow> cfio_io_close P m msg s; Some (CFIO_ERROR_NONE, s) }
       else Some (CFIO_ERROR_UNEXPECTED_MSG, s)
     }"

text \<open>The next message of the round and its handling; \<open>decode(NULL)\<close> is undefined.\<close>

definition serve ::
    "'f pnetcdf \<Rightarrow> (nat \<Rightarrow> byte) \<Rightarrow> map_state \<Rightarrow> 'f server_state \<Rightarrow> (int \<times> 'f server_state) option" where
  "serve P junk m s =
     do {
       (msg, r) \<leftarrow> cfio_recv_get_first m (rcv s);
       msg \<leftarrow> msg;
       decode P junk m msg (s\<lparr>rcv := r\<rparr>)
     }"

section \<open>The call of a request\<close>

text \<open>What the server should do for a request of a client.\<close>

primrec perform ::
    "'f pnetcdf \<Rightarrow> (nat \<Rightarrow> byte) \<Rightarrow> map_state \<Rightarrow> int \<Rightarrow> request \<Rightarrow> 'f server_state \<Rightarrow> (int \<times> 'f server_state) option" where
  "perform P junk m client (Create path cmode ncid) = io_create P path cmode ncid"
| "perform P junk m client (Def_dim ncid name len dimid) = io_def_dim ncid name len dimid"
| "perform P junk m client (Def_var ncid name xtype dimids varid) =
     io_def_var m ncid name xtype (word_of_nat (length dimids)) (if dimids = [] then None else Some dimids) varid"
| "perform P junk m client (Put_att ncid varid name t data) =
     io_put_att P m client ncid varid name (cfio_type_code t) (word_of_nat (length data div type_size t)) data"
| "perform P junk m client (Enddef ncid) = io_enddef P m client ncid"
| "perform P junk m client (Put_vara ncid varid start count t data) =
     io_put_vara P junk m client ncid varid (word_of_nat (length count)) start count (Some data)"
| "perform P junk m client (Close ncid) = io_close P m client ncid"

lemma decode_unpacked:
  assumes "cfio_recv_unpack_func_code m msg (rcv s) = Some (code_of r, s1)" "unpacked r m msg s1 s2"
  shows "decode P junk m msg s =
    map_option (\<lambda>(ret, s). (CFIO_ERROR_NONE, s)) (perform P junk m (src msg) r (s\<lparr>rcv := s2\<rparr>))"
proof -
  have "decode P junk m msg s = Option.bind (perform P junk m (src msg) r (s\<lparr>rcv := s2\<rparr>))
      (\<lambda>(ret, s). Some (CFIO_ERROR_NONE, s))"
    using assms by (cases r) (simp_all add: decode_def func_codes cfio_io_create_def cfio_io_def_dim_def
        cfio_io_def_var_def cfio_io_put_att_def cfio_io_enddef_def cfio_io_put_vara_def cfio_io_close_def)
  then show ?thesis by (cases "perform P junk m (src msg) r (s\<lparr>rcv := s2\<rparr>)") auto
qed

lemma serve_request:
  assumes "recv_queues m (rcv s) qs" "g = client_get_index (rcv s)" "qs ! g = message r # rest" "wf_request r"
  shows "\<exists>client s2. cfio_map_get_client_index_of_server m client = Some (int g) \<and> client < client_amount m \<and>
    serve P junk m s = map_option (\<lambda>(ret, s). (CFIO_ERROR_NONE, s)) (perform P junk m client r (s\<lparr>rcv := s2\<rparr>)) \<and>
    recv_queues m s2 (qs[g := rest]) \<and> client_get_index s2 = (g + 1) mod length qs"
proof -
  from round_trip_parts [OF assms] obtain msg s' s1 s2 where
    get: "cfio_recv_get_first m (rcv s) = Some (Some msg, s')"
      "cfio_map_get_client_index_of_server m (src msg) = Some (int g)" "src msg < client_amount m"
    and un: "cfio_recv_unpack_func_code m msg s' = Some (code_of r, s1)" "unpacked r m msg s1 s2"
    and q: "recv_queues m s2 (qs[g := rest])" "client_get_index s2 = (g + 1) mod length qs" by blast
  have "serve P junk m s = decode P junk m msg (s\<lparr>rcv := s'\<rparr>)" using get(1) by (simp add: serve_def)
  also have "\<dots> = map_option (\<lambda>(ret, s). (CFIO_ERROR_NONE, s)) (perform P junk m (src msg) r (s\<lparr>rcv := s2\<rparr>))"
    using decode_unpacked [of m msg "s\<lparr>rcv := s'\<rparr>", OF _ un(2)] un(1) by simp
  finally show ?thesis using get(2,3) q by blast
qed

section \<open>The handlers leave the queues alone\<close>

lemma bind_map_option: "Option.bind (map_option f x) g = Option.bind x (\<lambda>y. g (f y))"
  by (cases x) simp_all

lemma map_option_bind: "map_option f (Option.bind x g) = Option.bind x (\<lambda>y. map_option f (g y))"
  by (cases x) simp_all

definition with_rcv :: "recv_state \<Rightarrow> (int \<times> 'f server_state) option \<Rightarrow> (int \<times> 'f server_state) option" where
  "with_rcv q = map_option (\<lambda>(ret, s). (ret, s\<lparr>rcv := q\<rparr>))"

lemma with_rcv_simps [simp]:
  "with_rcv q None = None" "with_rcv q (Some (ret, s)) = Some (ret, s\<lparr>rcv := q\<rparr>)"
  "with_rcv q (Option.bind x g) = Option.bind x (\<lambda>y. with_rcv q (g y))"
  by (simp_all add: with_rcv_def map_option_bind)

lemma with_rcv_cases:
  "with_rcv q (if c then x else y) = (if c then with_rcv q x else with_rcv q y)"
  "with_rcv q (case p of (a, b) \<Rightarrow> f a b) = (case p of (a, b) \<Rightarrow> with_rcv q (f a b))"
  "with_rcv q (case z of None \<Rightarrow> u | Some v \<Rightarrow> h v) = (case z of None \<Rightarrow> with_rcv q u | Some v \<Rightarrow> with_rcv q (h v))"
  by (simp_all split: prod.split option.split)

lemma rcv_first:
  "s\<lparr>rcv := q, ids := i\<rparr> = s\<lparr>ids := i, rcv := q\<rparr>" "s\<lparr>rcv := q, io := j\<rparr> = s\<lparr>io := j, rcv := q\<rparr>"
  "s\<lparr>rcv := q, lib := l\<rparr> = s\<lparr>lib := l, rcv := q\<rparr>"
  by simp_all

lemmas rcv_cong = if_cong prod.case_cong option.case_cong

lemma io_create_rcv: "io_create P path cmode cnc (s\<lparr>rcv := q\<rparr>) = with_rcv q (io_create P path cmode cnc s)"
  by (simp add: io_create_def Let_def with_rcv_cases rcv_first cong: rcv_cong)

lemma io_def_dim_rcv: "io_def_dim cnc name len d (s\<lparr>rcv := q\<rparr>) = with_rcv q (io_def_dim cnc name len d s)"
  by (simp add: io_def_dim_def Let_def with_rcv_cases rcv_first cong: rcv_cong)

lemma io_def_var_rcv:
  "io_def_var m cnc name type nd dimids v (s\<lparr>rcv := q\<rparr>) = with_rcv q (io_def_var m cnc name type nd dimids v s)"
  by (simp add: io_def_var_def Let_def with_rcv_cases rcv_first cong: rcv_cong)

lemma io_put_vara_rcv:
  "io_put_vara P junk m client cnc v n start count data (s\<lparr>rcv := q\<rparr>) =
    with_rcv q (io_put_vara P junk m client cnc v n start count data s)"
  by (simp add: io_put_vara_def Let_def with_rcv_cases rcv_first cong: rcv_cong)

lemma bind_with_rcv [simp]:
  "Option.bind (with_rcv q x) g = Option.bind x (\<lambda>(ret, s). g (ret, s\<lparr>rcv := q\<rparr>))"
  by (cases x) auto

lemma bind_pushed:
  "Option.bind (if c then x else y) g = (if c then Option.bind x g else Option.bind y g)"
  "Option.bind (case p of (a, b) \<Rightarrow> f a b) g = (case p of (a, b) \<Rightarrow> Option.bind (f a b) g)"
  "Option.bind (Option.bind z h) g = Option.bind z (\<lambda>v. Option.bind (h v) g)"
  by (simp_all split: prod.split)

lemma put_att_last_rcv:
  "put_att_last P cnc v name type len data p info (s\<lparr>rcv := q\<rparr>) =
    with_rcv q (put_att_last P cnc v name type len data p info s)"
  by (simp add: put_att_last_def Let_def with_rcv_cases rcv_first bind_pushed cong: rcv_cong)

lemma io_put_att_rcv:
  "io_put_att P m client cnc v name type len data (s\<lparr>rcv := q\<rparr>) =
    with_rcv q (io_put_att P m client cnc v name type len data s)"
  by (simp add: io_put_att_def Let_def with_rcv_cases rcv_first put_att_last_rcv cong: rcv_cong)

lemma handle_def_rcv: "handle_def P p (s\<lparr>rcv := q\<rparr>) = with_rcv q (handle_def P p s)"
  by (simp add: handle_def_def Let_def with_rcv_cases rcv_first cong: rcv_cong)

lemma handle_defs_rcv: "handle_defs P ps (s\<lparr>rcv := q\<rparr>) = with_rcv q (handle_defs P ps s)"
  by (induction ps arbitrary: s) (simp_all add: handle_def_rcv with_rcv_cases cong: rcv_cong)

lemma enddef_last_rcv: "enddef_last P cnc info (s\<lparr>rcv := q\<rparr>) = with_rcv q (enddef_last P cnc info s)"
  by (simp add: enddef_last_def Let_def with_rcv_cases rcv_first bind_pushed handle_defs_rcv cong: rcv_cong)

lemma io_enddef_rcv: "io_enddef P m client cnc (s\<lparr>rcv := q\<rparr>) = with_rcv q (io_enddef P m client cnc s)"
  by (simp add: io_enddef_def Let_def with_rcv_cases rcv_first enddef_last_rcv cong: rcv_cong)

lemma close_last_rcv: "close_last P cnc info (s\<lparr>rcv := q\<rparr>) = with_rcv q (close_last P cnc info s)"
  by (simp add: close_last_def Let_def with_rcv_cases rcv_first cong: rcv_cong)

lemma io_close_rcv: "io_close P m client cnc (s\<lparr>rcv := q\<rparr>) = with_rcv q (io_close P m client cnc s)"
  by (simp add: io_close_def Let_def with_rcv_cases rcv_first close_last_rcv cong: rcv_cong)

lemma perform_rcv: "perform P junk m client r (s\<lparr>rcv := q\<rparr>) = with_rcv q (perform P junk m client r s)"
  by (cases r) (simp_all add: io_create_rcv io_def_dim_rcv io_def_var_rcv io_put_att_rcv io_enddef_rcv
      io_put_vara_rcv io_close_rcv)

lemma perform_keeps_rcv: "perform P junk m client r s = Some (ret, s') \<Longrightarrow> rcv s' = rcv s"
  using perform_rcv [where P = P and junk = junk and m = m and client = client and r = r and s = s and q = "rcv s"]
  by (auto simp: with_rcv_def) (metis server_state.select_convs(1) server_state.surjective server_state.update_convs(1))

text \<open>A handler knows its client only by the client's index at the server.\<close>

lemma recv_client_io_index:
  assumes "cfio_map_get_client_index_of_server m c = cfio_map_get_client_index_of_server m c'"
    and "c < client_amount m" "c' < client_amount m"
  shows "recv_client_io m c = recv_client_io m c'"
  using assms by (simp add: fun_eq_iff recv_client_io_def add_bitmap_def)

lemma perform_index:
  assumes "cfio_map_get_client_index_of_server m c = cfio_map_get_client_index_of_server m c'"
    and "c < client_amount m" "c' < client_amount m"
  shows "perform P junk m c r s = perform P junk m c' r s"
  using recv_client_io_index [OF assms] assms(1)
  by (cases r) (simp_all add: io_put_att_def io_enddef_def io_put_vara_def io_close_def)

section \<open>Requests one after the other\<close>

fun performs ::
    "'f pnetcdf \<Rightarrow> (nat \<Rightarrow> byte) \<Rightarrow> map_state \<Rightarrow> (int \<times> request) list \<Rightarrow> 'f server_state \<Rightarrow> 'f server_state option" where
  "performs P junk m [] s = Some s"
| "performs P junk m ((c, r) # rs) s = do { (ret, s) \<leftarrow> perform P junk m c r s; performs P junk m rs s }"

lemma performs_rcv:
  "performs P junk m rs (s\<lparr>rcv := q\<rparr>) = map_option (\<lambda>s. s\<lparr>rcv := q\<rparr>) (performs P junk m rs s)"
proof (induction rs arbitrary: s)
  case (Cons x rs)
  obtain c r where x: "x = (c, r)" by fastforce
  show ?case
  proof (cases "perform P junk m c r s")
    case None
    then show ?thesis by (simp add: x perform_rcv)
  next
    case (Some y)
    obtain ret t where "y = (ret, t)" by fastforce
    with Some Cons show ?thesis by (simp add: x perform_rcv)
  qed
qed simp

lemma performs_append:
  "performs P junk m (xs @ ys) s = Option.bind (performs P junk m xs s) (performs P junk m ys)"
proof (induction xs arbitrary: s)
  case (Cons x xs)
  obtain c r where x: "x = (c, r)" by fastforce
  show ?case by (cases "perform P junk m c r s") (auto simp: x Cons.IH)
qed simp

lemma performs_keeps_rcv: "performs P junk m rs s = Some s' \<Longrightarrow> rcv s' = rcv s"
proof (induction rs arbitrary: s)
  case (Cons x rs)
  obtain c r where x: "x = (c, r)" by fastforce
  with Cons.prems obtain ret t where t: "perform P junk m c r s = Some (ret, t)" "performs P junk m rs t = Some s'"
    by (auto simp: bind_eq_Some_conv)
  show ?case using Cons.IH [OF t(2)] perform_keeps_rcv [OF t(1)] by simp
qed simp

lemma serve_request_client:
  assumes "recv_queues m (rcv s) qs" "g = client_get_index (rcv s)" "qs ! g = message r # rest" "wf_request r"
    and "cfio_map_get_client_index_of_server m client = Some (int g)" "client < client_amount m"
  shows "\<exists>q. serve P junk m s = map_option (\<lambda>(ret, s). (CFIO_ERROR_NONE, s\<lparr>rcv := q\<rparr>)) (perform P junk m client r s) \<and>
    recv_queues m q (qs[g := rest]) \<and> client_get_index q = (g + 1) mod length qs"
proof -
  from serve_request [OF assms(1-4), of P junk] obtain c q where
    c: "cfio_map_get_client_index_of_server m c = Some (int g)" "c < client_amount m"
    and s: "serve P junk m s = map_option (\<lambda>(ret, s). (CFIO_ERROR_NONE, s)) (perform P junk m c r (s\<lparr>rcv := q\<rparr>))"
    and q: "recv_queues m q (qs[g := rest])" "client_get_index q = (g + 1) mod length qs" by blast
  have "perform P junk m c r s = perform P junk m client r s"
    by (rule perform_index) (simp_all add: c assms(5,6))
  then have "perform P junk m c r (s\<lparr>rcv := q\<rparr>) = with_rcv q (perform P junk m client r s)"
    by (simp add: perform_rcv)
  then have "serve P junk m s = map_option (\<lambda>(ret, s). (CFIO_ERROR_NONE, s\<lparr>rcv := q\<rparr>)) (perform P junk m client r s)"
    using s by (cases "perform P junk m client r s") auto
  with q show ?thesis by blast
qed

text \<open>C28. The server carries out exactly the call that the client made. When the queue whose turn it
  is starts with the message of a request, the next message is taken and decoded, and the handler
  of that call runs with the very arguments of the request, whichever client of that index sent
  it; every other queue stays and the turn passes on. The handler's answer is dropped: decoding
  reports success whatever it was.\<close>

theorem serve_carries_out:
  assumes "recv_queues m (rcv s) qs" "g = client_get_index (rcv s)" "qs ! g = message r # rest" "wf_request r"
    and "cfio_map_get_client_index_of_server m client = Some (int g)" "client < client_amount m"
  shows "\<exists>q. serve P junk m s = map_option (\<lambda>(ret, s). (CFIO_ERROR_NONE, s\<lparr>rcv := q\<rparr>)) (perform P junk m client r s) \<and>
    recv_queues m q (qs[g := rest]) \<and> client_get_index q = (g + 1) mod length qs"
  by (rule serve_request_client [OF assms])

section \<open>An example\<close>

theorem serve_carries_out_witness:
  "\<exists>s :: nat server_state. \<exists>q s'. recv_queues map_4_6 (rcv s) [[message (Enddef 7)], [], [], []] \<and>
    serve counting_library (\<lambda>_. 0) map_4_6 s = Some (CFIO_ERROR_NONE, s') \<and> rcv s' = q \<and>
    recv_queues map_4_6 q [[], [], [], []] \<and> client_get_index q = 1"
proof -
  define q0 where "q0 = small_recv [[msg_at_0 (message (Enddef 7))], [], [], []]
      [one_msg_buf (message (Enddef 7)), empty_buf, empty_buf, empty_buf]"
  from run_example obtain s0 where "server_reach counting_library map_4_6 4 s0" "server_id (io s0) = 24" by blast
  then have ok0: "server_ok map_4_6 4 s0" "server_id (io s0) = 24"
    using server_reach_ok [OF _ library_ok_counting] by auto
  define s where "s = s0\<lparr>rcv := q0\<rparr>"
  have ok: "server_ok map_4_6 4 s" using ok0(1) by (simp add: s_def server_ok_def)
  have cl: "client_of map_4_6 (server_id (io s)) 4 (example_clients 0) 0"
    using row_client [of 0] by (simp add: s_def ok0(2) example_clients_def row_part_def)
  then have idx: "cfio_map_get_client_index_of_server map_4_6 (example_clients 0) = Some (int 0)"
    "example_clients 0 < client_amount map_4_6" by (simp_all add: client_of_def)
  have q: "recv_queues map_4_6 (rcv s) [[message (Enddef 7)], [], [], []]"
    unfolding s_def q0_def using recv_queues_first [OF slot_holds_one] by (simp add: message_def)
  have g: "0 = client_get_index (rcv s)" by (simp add: s_def q0_def small_recv_def)
  have h: "[[message (Enddef 7)], [], [], []] ! 0 = message (Enddef 7) # []" "wf_request (Enddef 7)" by simp_all
  from serve_carries_out [OF q g h idx, of counting_library "\<lambda>_. 0"] obtain q' where
    q': "serve counting_library (\<lambda>_. 0) map_4_6 s = map_option (\<lambda>(ret, s). (CFIO_ERROR_NONE, s\<lparr>rcv := q'\<rparr>))
        (perform counting_library (\<lambda>_. 0) map_4_6 (example_clients 0) (Enddef 7) s)"
      "recv_queues map_4_6 q' [[], [], [], []]" "client_get_index q' = 1" by auto
  moreover from enddef_returns [OF ok cl, of counting_library 7] obtain r s1 where
    "io_enddef counting_library map_4_6 (example_clients 0) 7 s = Some (r, s1)" by blast
  ultimately have "serve counting_library (\<lambda>_. 0) map_4_6 s = Some (CFIO_ERROR_NONE, s1\<lparr>rcv := q'\<rparr>)" by simp
  with q q'(2,3) show ?thesis by (intro exI [of _ s] exI [of _ q'] exI [of _ "s1\<lparr>rcv := q'\<rparr>"]) simp
qed

text \<open>Four clients whose queues hold the message that creates the same file.\<close>

definition create_msg :: "byte list" where
  "create_msg = message (Create [102] 0 2)"

definition create_recv :: recv_state where
  "create_recv = small_recv (map (\<lambda>i. [(msg_at_0 create_msg)\<lparr>src := example_clients i\<rparr>]) [0..<4])
     (replicate 4 (one_msg_buf create_msg))"

lemma example_client_index:
  "i < 4 \<Longrightarrow> cfio_map_get_client_index_of_server map_4_6 (example_clients i) = Some (int i) \<and>
    example_clients i < client_amount map_4_6"
  using row_client [of i] by (simp add: client_of_def example_clients_def row_part_def)

lemma create_queues: "recv_queues map_4_6 create_recv (replicate 4 [create_msg])"
proof -
  have "create_msg \<noteq> []" "length create_msg < 1000" by (simp_all add: create_msg_def message_def)
  then have "slot_holds map_4_6 i [(msg_at_0 create_msg)\<lparr>src := example_clients i\<rparr>] (one_msg_buf create_msg) [create_msg]"
    if "i < 4" for i using that example_client_index [OF that] by (intro slot_holds_single) simp_all
  then show ?thesis by (simp add: recv_queues_def create_recv_def small_recv_def)
qed

lemma create_example:
  "\<exists>s v. performs counting_library junk map_4_6 (map (\<lambda>i. (example_clients i, Create [102] 0 2)) [0..<4]) (s\<lparr>rcv := create_recv\<rparr>) = Some v \<and>
    lib s = 1 \<and> lib v = (2 :: nat)"
proof -
  from run_example obtain s0 where "server_reach counting_library map_4_6 4 s0" "lib s0 = 1" "server_map (ids s0) (2, 0, 0) = None" by blast
  then have s0: "server_ok map_4_6 4 s0" "lib s0 = 1" "server_map (ids s0) (2, 0, 0) = None"
    using server_reach_ok [OF _ library_ok_counting] by auto
  define s where "s = s0\<lparr>rcv := create_recv\<rparr>"
  have ok: "server_ok map_4_6 4 s" "server_map (ids s) (2, 0, 0) = None" using s0 by (simp_all add: s_def server_ok_def)
  have "ncmpi_create counting_library [102] 0 (lib s) = (NC_NOERR, 9, 2)"
    by (simp add: counting_library_def NC_NOERR_def s_def s0(2))
  from create_new [OF ok(1) library_ok_counting ok(2) this] obtain s1 where
    s1: "io_create counting_library [102] 0 2 s = Some (CFIO_ERROR_NONE, s1)" "lib s1 = 2" "server_ok map_4_6 4 s1"
      "server_map (ids s1) (2, 0, 0) \<noteq> None" by auto
  have "[0..<4] = [0, 1, 2, 3 :: nat]" by (simp add: upt_rec)
  then have "performs counting_library junk map_4_6 (map (\<lambda>i. (example_clients i, Create [102] 0 2)) [0..<4]) s = Some s1"
    using s1(1) create_known [OF s1(3,4)] by simp
  then show ?thesis using s1(2) s0(2) unfolding s_def by blast
qed

end
