(* ===== verification/Server.thy ===== *)
theory Server
  imports Decode Rdma
begin

text \<open>
  The server's main loop (\<open>server.c\<close>): it turns from client to client, fetches what each has
  published from the client's ring into a region of its own, cuts the region into messages for
  the queues, acknowledges, and serves the queues whenever every client has a message. The
  variables that only feed printed lines (\<open>itrs\<close>, \<open>low_itr\<close> and the times) are left out.
\<close>

section \<open>State\<close>

text \<open>Addresses in a client's ring are offsets from its start.\<close>

record 'f daemon =
  srv :: "'f server_state"
  rdma :: rdma_server
  rank :: int
  clients :: int
  client_ids :: "int list"
  region_size :: int
  read_addrs :: "int list"
  read_dones :: "bool list"
  local_lens :: "int list"
  copy_lens :: "int list"
  msg_cnts :: "int list"
  msg_clt_cnt :: int
  comm_dones :: "bool list"
  comm_done_cnt :: int

text \<open>The array \<open>read_addrs\<close> is allocated and not set.\<close>

definition init_vars :: "map_state \<Rightarrow> int list \<Rightarrow> 'f daemon \<Rightarrow> (int \<times> 'f daemon) option" where
  "init_vars m junk s =
     do {
       cs \<leftarrow> cfio_map_get_clients m (rank s);
       let n = nat (clients s);
       Some (CFIO_ERROR_NONE,
         s\<lparr>client_ids := cs, read_addrs := junk, read_dones := replicate n True, local_lens := replicate n 0,
           copy_lens := replicate n 0, msg_cnts := replicate n 0, msg_clt_cnt := 0, comm_dones := replicate n False\<rparr>)
     }"

section \<open>Fetching a client's data\<close>

text \<open>A read of the peer's memory in pieces of at most 4 MB.\<close>

definition transfer_msg_size_max :: int where
  "transfer_msg_size_max = 4096 * 1024"

function post_pieces :: "nat \<Rightarrow> int \<Rightarrow> int \<Rightarrow> 'f daemon \<Rightarrow> 'f daemon option" where
  "post_pieces c remote_offset left_length s =
     (if left_length > 0 then do {
        let n = (if left_length > transfer_msg_size_max then transfer_msg_size_max else left_length);
        rd \<leftarrow> cfio_rdma_server_read_data c remote_offset n (local_lens s ! c) (rdma s);
        post_pieces c (remote_offset + n) (left_length - n)
          (s\<lparr>rdma := rd, local_lens := (local_lens s)[c := local_lens s ! c + n]\<rparr>)
      }
      else Some s)"
  by pat_completeness auto

termination
  by (relation "measure (\<lambda>(c, off, len, s). nat len)") (auto simp: transfer_msg_size_max_def)

declare post_pieces.simps [simp del]

definition read_data :: "nat \<Rightarrow> cfio_buf_addr \<Rightarrow> 'f daemon \<Rightarrow> 'f daemon option" where
  "read_data c addr s =
     (let r = read_addrs s ! c;
          remote_offset = r;
          space = region_size s - local_lens s ! c
      in if a_used addr \<le> a_free addr \<or> r \<le> int (a_free addr) then
           let len = int (a_free addr) - r;
               len = (if len < space then len else space);
               r = r + len
           in post_pieces c remote_offset len
                (s\<lparr>read_addrs := (read_addrs s)[c := r],
                   read_dones := (if r \<ge> int (a_free addr) then (read_dones s)[c := True] else read_dones s)\<rparr>)
         else
           let len = int (a_end addr) - r;
               len = (if len < space then len else space);
               r = r + len
           in post_pieces c remote_offset len
                (s\<lparr>read_addrs := (read_addrs s)[c := (if r \<ge> int (a_end addr) then 0 else r)]\<rparr>))"

section \<open>Cutting the region into messages\<close>

text \<open>The comparisons are between values of type \<open>size_t\<close>. \<open>exit(1)\<close> is \<open>None\<close>.\<close>

definition exist_msg :: "nat \<Rightarrow> 'f daemon \<Rightarrow> bool" where
  "exist_msg c s \<longleftrightarrow> (word_of_int (copy_lens s ! c) + 8 :: u64) \<le> word_of_int (local_lens s ! c)"

definition buf_empty :: "nat \<Rightarrow> 'f daemon \<Rightarrow> bool" where
  "buf_empty c s \<longleftrightarrow> \<not> local_lens s ! c > 0"

definition buf_full :: "nat \<Rightarrow> 'f daemon \<Rightarrow> bool" where
  "buf_full c s \<longleftrightarrow> \<not> local_lens s ! c < region_size s"

partial_function (option) copy_loop ::
    "map_state \<Rightarrow> nat \<Rightarrow> byte list \<Rightarrow> bool \<Rightarrow> 'f daemon \<Rightarrow> (bool \<times> 'f daemon) option" where
  "copy_loop m c reg change s =
     (if exist_msg c s then do {
        let at = copy_lens s ! c;
        d \<leftarrow> (if 0 \<le> at then mem_read reg (nat at) sizeof_size_t else None);
        let msg_size = dec_u64 d;
        if word_of_int at + msg_size > (word_of_int (local_lens s ! c) :: u64) then Some (change, s)
        else do {
          (res, code, q) \<leftarrow> cfio_recv_add_msg m (client_ids s ! c) (ucast msg_size) (drop (nat at) reg) (rcv (srv s));
          let s = s\<lparr>srv := (srv s)\<lparr>rcv := q\<rparr>\<rparr>;
          if CFIO_RECV_BUF_FULL = res then Some (change, s)
          else if CFIO_ERROR_UNEXPECTED_MSG = res then None
          else do {
            let n = msg_cnts s ! c + 1;
            copy_loop m c reg True
              (s\<lparr>msg_cnts := (msg_cnts s)[c := n],
                 msg_clt_cnt := (if 1 = n then msg_clt_cnt s + 1 else msg_clt_cnt s),
                 copy_lens := (copy_lens s)[c := sint (ucast (word_of_int at + msg_size) :: i32)]\<rparr>)
          }
        }
      }
      else Some (change, s))"

declare copy_loop.simps [code]

text \<open>The rest moves to the front with \<open>memcpy\<close>, which is undefined when the two parts overlap.\<close>

definition copy_data_to_list :: "map_state \<Rightarrow> nat \<Rightarrow> 'f daemon \<Rightarrow> 'f daemon option" where
  "copy_data_to_list m c s =
     do {
       reg \<leftarrow> cfio_rdma_server_get_data c (rdma s);
       (change, s) \<leftarrow> copy_loop m c reg False s;
       if change then do {
         let at = copy_lens s ! c;
         let n = local_lens s ! c - at;
         d \<leftarrow> (if 0 \<le> at \<and> 0 \<le> n \<and> (n = 0 \<or> n \<le> at) then mem_read reg (nat at) (nat n) else None);
         reg \<leftarrow> mem_write reg 0 d;
         rd \<leftarrow> put_data c reg (rdma s);
         Some (s\<lparr>rdma := rd, local_lens := (local_lens s)[c := n], copy_lens := (copy_lens s)[c := 0]\<rparr>)
       }
       else Some s
     }"

section \<open>Serving the queues\<close>

text \<open>One round over the clients, from the list of their indices.\<close>

fun io_round ::
    "'f pnetcdf \<Rightarrow> (nat \<Rightarrow> byte) \<Rightarrow> map_state \<Rightarrow> nat list \<Rightarrow> 'f daemon \<Rightarrow> 'f daemon option" where
  "io_round P junk m [] s = Some s"
| "io_round P junk m (i # is) s =
     do {
       (ret, v) \<leftarrow> serve P junk m (srv s);
       let n = msg_cnts s ! i - 1;
       io_round P junk m is
         (s\<lparr>srv := v, msg_cnts := (msg_cnts s)[i := n],
            msg_clt_cnt := (if 0 = n then msg_clt_cnt s - 1 else msg_clt_cnt s)\<rparr>)
     }"

partial_function (option) io_rounds ::
    "'f pnetcdf \<Rightarrow> (nat \<Rightarrow> byte) \<Rightarrow> map_state \<Rightarrow> 'f daemon \<Rightarrow> 'f daemon option" where
  "io_rounds P junk m s =
     (if clients s = msg_clt_cnt s
      then do { s \<leftarrow> io_round P junk m [0..<nat (clients s)] s; io_rounds P junk m s }
      else Some s)"

declare io_rounds.simps [code]

section \<open>The loop over the clients\<close>

text \<open>The search for a client that is not done goes round; when all are done it never ends.\<close>

definition next_client :: "int \<Rightarrow> bool list \<Rightarrow> nat \<Rightarrow> nat option" where
  "next_client n dones clt =
     (if n \<le> 0 then None
      else List.find (\<lambda>k. \<not> dones ! k) (map (\<lambda>i. (clt + i) mod nat n) [1..<nat n + 1]))"

definition comm_turn ::
    "'f pnetcdf \<Rightarrow> (nat \<Rightarrow> byte) \<Rightarrow> map_state \<Rightarrow> nat \<Rightarrow> 'f daemon \<Rightarrow> (nat \<times> 'f daemon) option" where
  "comm_turn P junk m clt s =
     do {
       (handled, rd) \<leftarrow> cfio_rdma_server_wait_some m (rdma s);
       let s = s\<lparr>rdma := rd\<rparr>;
       clt \<leftarrow> next_client (clients s) (comm_dones s) clt;
       addr \<leftarrow> cfio_rdma_server_get_addr clt (rdma s);
       let ret = (if read_dones s ! clt \<and> buf_empty clt s then cfio_rdma_addr_server_test addr else 0);
       if ret \<noteq> 0 \<and> 1 \<noteq> ret
       then Some (clt, s\<lparr>comm_dones := (comm_dones s)[clt := True], comm_done_cnt := comm_done_cnt s + 1\<rparr>)
       else do {
         let s = (if ret = 1
                  then s\<lparr>read_addrs := (read_addrs s)[clt := int (a_used addr)], read_dones := (read_dones s)[clt := False]\<rparr>
                  else s);
         s \<leftarrow> (if \<not> read_dones s ! clt \<and> \<not> buf_full clt s then read_data clt addr s else Some s);
         arrived \<leftarrow> cfio_rdma_server_test clt (rdma s);
         s \<leftarrow> (if exist_msg clt s \<and> arrived \<noteq> 0 then do {
                s \<leftarrow> copy_data_to_list m clt s;
                if buf_empty clt s \<and> read_dones s ! clt then do {
                  rd \<leftarrow> put_addr clt (cfio_rdma_addr_server_clear_signal addr) (rdma s);
                  rd \<leftarrow> cfio_rdma_server_write_addr clt rd;
                  Some (s\<lparr>rdma := rd\<rparr>)
                }
                else Some s
              }
              else Some s);
         s \<leftarrow> (if msg_clt_cnt s = clients s then io_rounds P junk m s else Some s);
         Some (clt, s)
       }
     }"

text \<open>
  The address records that the clients write into the server's memory before each turn:
  their order and number is up to the clients. When they run out while clients are not done,
  the loop goes on without end.
\<close>

fun peers_write :: "(nat \<times> cfio_buf_addr) list \<Rightarrow> 'f daemon \<Rightarrow> 'f daemon option" where
  "peers_write [] s = Some s"
| "peers_write ((i, a) # ws) s =
     do { rd \<leftarrow> put_addr i a (rdma s); peers_write ws (s\<lparr>rdma := rd\<rparr>) }"

fun cfio_comm ::
    "'f pnetcdf \<Rightarrow> (nat \<Rightarrow> byte) \<Rightarrow> map_state \<Rightarrow> (nat \<times> cfio_buf_addr) list list \<Rightarrow> nat \<Rightarrow> 'f daemon \<Rightarrow> 'f daemon option" where
  "cfio_comm P junk m writes clt s =
     (if comm_done_cnt s = clients s then Some s
      else case writes of
          [] \<Rightarrow> None
        | ws # rest \<Rightarrow> do {
            s \<leftarrow> peers_write ws s;
            (clt, s) \<leftarrow> comm_turn P junk m clt s;
            cfio_comm P junk m rest clt s
          })"

declare cfio_comm.simps [simp del]

definition cfio_server_start ::
    "'f pnetcdf \<Rightarrow> (nat \<Rightarrow> byte) \<Rightarrow> map_state \<Rightarrow> int list \<Rightarrow> (nat \<times> cfio_buf_addr) list list \<Rightarrow> 'f daemon \<Rightarrow>
     (int \<times> 'f daemon) option" where
  "cfio_server_start P junk m unset writes s =
     do {
       (ret, s) \<leftarrow> init_vars m unset s;
       s \<leftarrow> cfio_comm P junk m writes 0 s;
       Some (CFIO_ERROR_NONE, s\<lparr>client_ids := [], read_addrs := [], read_dones := [], local_lens := [],
         copy_lens := [], comm_dones := [], msg_cnts := []\<rparr>)
     }"

section \<open>Starting and ending\<close>

text \<open>\<open>RECV_BUF_SIZE / client_num\<close> is a \<open>size_t\<close>, \<open>SERVER_REGION_SIZE\<close> an \<open>int\<close>.\<close>

definition server_region_size :: "int \<Rightarrow> int" where
  "server_region_size n = sint (word_of_nat (RECV_BUF_SIZE div nat n) :: i32)"

text \<open>An allocation of more than \<open>2 ^ 63\<close> bytes, which a negative size asks for, fails.\<close>

definition cfio_server_init ::
    "map_state \<Rightarrow> int \<Rightarrow> byte list list \<Rightarrow> byte list list \<Rightarrow> cfio_buf_addr list \<Rightarrow> cfio_buf_addr \<Rightarrow> id_state \<Rightarrow>
     io_state \<Rightarrow> 'f \<Rightarrow> cm_event list \<Rightarrow> wc list list \<Rightarrow> (int \<times> 'f daemon option) option" where
  "cfio_server_init m r junks regions addrs junk ids0 io0 lib0 events completed =
     do {
       (ret, q) \<leftarrow> cfio_recv_init m r junks;
       if ret < 0 then Some (ret, None)
       else do {
         let (ret, is') = cfio_id_init CFIO_ID_INIT_SERVER ids0;
         if ret < 0 then Some (ret, None)
         else do {
           let (ret, i) = cfio_io_init r io0;
           if ret < 0 then Some (ret, None)
           else do {
             n \<leftarrow> cfio_map_get_client_num_of_server m r;
             let sz = server_region_size n;
             if sz < 0 then Some (CFIO_ERROR_MALLOC, None)
             else do {
               rd \<leftarrow> (if length regions = nat n \<and> length addrs = nat n \<and> (\<forall>reg \<in> set regions. length reg = nat sz)
                      then cfio_rdma_server_init m junk r (nat n) regions (map (cfio_rdma_addr_init None) addrs) events completed
                      else None);
               Some (CFIO_ERROR_NONE, Some
                 \<lparr>srv = \<lparr>rcv = q, ids = is', io = i, lib = lib0\<rparr>, rdma = rd, rank = r, clients = n, client_ids = [],
                  region_size = sz, read_addrs = [], read_dones = [], local_lens = [], copy_lens = [], msg_cnts = [],
                  msg_clt_cnt = 0, comm_dones = [], comm_done_cnt = 0\<rparr>)
             }
           }
         }
       }
     }"

definition cfio_server_final ::
    "map_state \<Rightarrow> cfio_buf_addr \<Rightarrow> cm_event list \<Rightarrow> 'f daemon \<Rightarrow> (int \<times> 'f daemon) option" where
  "cfio_server_final m junk events s =
     do {
       let (ret, i) = cfio_io_final (io (srv s));
       let (ret, is') = cfio_id_final (ids (srv s));
       let (ret, q) = cfio_recv_final (rcv (srv s));
       rd \<leftarrow> cfio_rdma_server_final m junk events (rdma s);
       Some (CFIO_ERROR_NONE,
         s\<lparr>srv := (srv s)\<lparr>io := i, ids := is', rcv := q\<rparr>, rdma := rd\<lparr>data_regions := [], addr_regions := []\<rparr>\<rparr>)
     }"

section \<open>The rounds\<close>

text \<open>
  \<open>pending_requests m n s rs\<close>: the queues hold, for each client \<open>i\<close>, the messages of the
  requests \<open>rs i\<close>, it is the turn of the first, and the counters are right.
\<close>

definition requests_of :: "nat \<Rightarrow> (nat \<Rightarrow> request list) \<Rightarrow> byte list list list" where
  "requests_of n rs = map (\<lambda>i. map message (rs i)) [0..<n]"

definition pending_requests :: "map_state \<Rightarrow> nat \<Rightarrow> 'f daemon \<Rightarrow> (nat \<Rightarrow> request list) \<Rightarrow> bool" where
  "pending_requests m n s rs \<longleftrightarrow>
     recv_queues m (rcv (srv s)) (requests_of n rs) \<and> client_get_index (rcv (srv s)) = 0 \<and> clients s = int n \<and>
     msg_cnts s = map (\<lambda>i. int (length (rs i))) [0..<n] \<and>
     msg_clt_cnt s = int (card {i. i < n \<and> rs i \<noteq> []}) \<and> (\<forall>i < n. \<forall>r \<in> set (rs i). wf_request r)"

text \<open>The requests of \<open>k\<close> rounds in the order of the server.\<close>

definition round_requests :: "nat \<Rightarrow> (nat \<Rightarrow> int) \<Rightarrow> (nat \<Rightarrow> request list) \<Rightarrow> nat \<Rightarrow> (int \<times> request) list" where
  "round_requests n C rs k = concat (map (\<lambda>j. map (\<lambda>i. (C i, rs i ! j)) [0..<n]) [0..<k])"

lemma round_requests_Suc:
  "round_requests n C rs (Suc k) = map (\<lambda>i. (C i, hd_req i)) [0..<n] @ round_requests n C (\<lambda>i. tl (rs i)) k"
  if "\<And>i. i < n \<Longrightarrow> rs i \<noteq> [] \<and> k < length (rs i)" "\<And>i. i < n \<Longrightarrow> hd_req i = hd (rs i)"
proof -
  have "[0..<Suc k] = 0 # map Suc [0..<k]" by (simp add: map_Suc_upt upt_conv_Cons)
  then have "round_requests n C rs (Suc k) = map (\<lambda>i. (C i, rs i ! 0)) [0..<n] @
      concat (map (\<lambda>j. map (\<lambda>i. (C i, rs i ! Suc j)) [0..<n]) [0..<k])"
    unfolding round_requests_def by (simp add: comp_def)
  moreover have "map (\<lambda>i. (C i, rs i ! 0)) [0..<n] = map (\<lambda>i. (C i, hd_req i)) [0..<n]"
    using that by (simp add: hd_conv_nth)
  moreover have "tl (rs i) ! j = rs i ! Suc j" if "i < n" "j < k" for i j
    using that(2) \<open>\<And>i. i < n \<Longrightarrow> rs i \<noteq> [] \<and> k < length (rs i)\<close> [OF that(1)] by (cases "rs i") simp_all
  then have "map (\<lambda>j. map (\<lambda>i. (C i, rs i ! Suc j)) [0..<n]) [0..<k] =
      map (\<lambda>j. map (\<lambda>i. (C i, tl (rs i) ! j)) [0..<n]) [0..<k]" by simp
  ultimately show ?thesis by (simp add: round_requests_def)
qed

text \<open>The queues during a round: the clients before \<open>g\<close> have been served.\<close>

abbreviation served :: "nat \<Rightarrow> (nat \<Rightarrow> 'a list) \<Rightarrow> nat \<Rightarrow> 'a list" where
  "served g rs i \<equiv> (if i < g then tl (rs i) else rs i)"

text \<open>One request of a round.\<close>

lemma io_round_step:
  assumes "g < n" "recv_queues m (rcv (srv s)) (requests_of n (served g rs))" "client_get_index (rcv (srv s)) = g mod n"
    and "rs g \<noteq> []" "wf_request (hd (rs g))"
    and "cfio_map_get_client_index_of_server m (C g) = Some (int g)" "C g < client_amount m"
  shows "\<exists>q. io_round P junk m [g..<n] s = Option.bind (perform P junk m (C g) (hd (rs g)) (srv s)) (\<lambda>(ret, t).
      io_round P junk m [Suc g..<n] (s\<lparr>srv := t\<lparr>rcv := q\<rparr>, msg_cnts := (msg_cnts s)[g := msg_cnts s ! g - 1],
        msg_clt_cnt := (if 0 = msg_cnts s ! g - 1 then msg_clt_cnt s - 1 else msg_clt_cnt s)\<rparr>)) \<and>
    recv_queues m q (requests_of n (served (Suc g) rs)) \<and> client_get_index q = Suc g mod n"
proof -
  let ?r = "hd (rs g)" and ?qs = "requests_of n (served g rs)"
  have len: "length ?qs = n" by (simp add: requests_of_def)
  have hd: "?qs ! g = message ?r # map message (tl (rs g))" using assms(1,4)
    by (cases "rs g") (simp_all add: requests_of_def)
  have gi: "g = client_get_index (rcv (srv s))" using assms(1,3) by simp
  from serve_request_client [OF assms(2) gi hd assms(5-7), of P junk] obtain q where
    serve: "serve P junk m (srv s) = map_option (\<lambda>(ret, t). (CFIO_ERROR_NONE, t\<lparr>rcv := q\<rparr>)) (perform P junk m (C g) ?r (srv s))"
    and q: "recv_queues m q (?qs[g := map message (tl (rs g))])" "client_get_index q = (g + 1) mod n"
    unfolding len by blast
  have "?qs[g := map message (tl (rs g))] = requests_of n (served (Suc g) rs)"
    using assms(1) by (intro nth_equalityI [where xs = "?qs[g := map message (tl (rs g))]"]) (auto simp: requests_of_def nth_list_update)
  moreover have "[g..<n] = g # [Suc g..<n]" using assms(1) by (rule upt_conv_Cons)
  ultimately show ?thesis using q
    by (cases "perform P junk m (C g) ?r (srv s)") (auto simp: serve Let_def intro: exI [of _ q])
qed

lemma io_round_from:
  assumes "g \<le> n" "0 < n" "recv_queues m (rcv (srv s)) (requests_of n (served g rs))"
    and "client_get_index (rcv (srv s)) = g mod n" "length (msg_cnts s) = n"
    and "\<And>i. g \<le> i \<Longrightarrow> i < n \<Longrightarrow> rs i \<noteq> [] \<and> wf_request (hd (rs i))"
    and "\<And>i. i < n \<Longrightarrow> cfio_map_get_client_index_of_server m (C i) = Some (int i) \<and> C i < client_amount m"
    and "performs P junk m (map (\<lambda>i. (C i, hd (rs i))) [g..<n]) (srv s) = Some v"
  shows "\<exists>q. io_round P junk m [g..<n] s = Some (s\<lparr>srv := v\<lparr>rcv := q\<rparr>,
      msg_cnts := map (\<lambda>i. if g \<le> i then msg_cnts s ! i - 1 else msg_cnts s ! i) [0..<n],
      msg_clt_cnt := msg_clt_cnt s - int (card {i. g \<le> i \<and> i < n \<and> msg_cnts s ! i = 1})\<rparr>) \<and>
    recv_queues m q (requests_of n (\<lambda>i. tl (rs i))) \<and> client_get_index q = 0"
  using assms
proof (induction "n - g" arbitrary: g s v)
  case 0
  then have g: "g = n" by simp
  have "requests_of n (served g rs) = requests_of n (\<lambda>i. tl (rs i))" by (simp add: requests_of_def g)
  moreover have "map (\<lambda>i. if g \<le> i then msg_cnts s ! i - 1 else msg_cnts s ! i) [0..<n] = msg_cnts s"
    using 0 by (intro nth_equalityI) (simp_all add: g)
  moreover have "v = srv s" "{i. g \<le> i \<and> i < n \<and> msg_cnts s ! i = 1} = {}" using 0 by (auto simp: g)
  ultimately show ?case using 0 g by (intro exI [of _ "rcv (srv s)"]) simp
next
  case (Suc d)
  then have g: "g < n" by simp
  have upt: "[g..<n] = g # [Suc g..<n]" using g by (rule upt_conv_Cons)
  have r: "rs g \<noteq> []" "wf_request (hd (rs g))" using Suc.prems(6) [of g] g by simp_all
  have C: "cfio_map_get_client_index_of_server m (C g) = Some (int g)" "C g < client_amount m"
    using Suc.prems(7) g by simp_all
  from io_round_step [where rs = rs and C = C, OF g Suc.prems(3,4) r C, of P junk] obtain q where
    step: "io_round P junk m [g..<n] s = Option.bind (perform P junk m (C g) (hd (rs g)) (srv s)) (\<lambda>(ret, t).
      io_round P junk m [Suc g..<n] (s\<lparr>srv := t\<lparr>rcv := q\<rparr>, msg_cnts := (msg_cnts s)[g := msg_cnts s ! g - 1],
        msg_clt_cnt := (if 0 = msg_cnts s ! g - 1 then msg_clt_cnt s - 1 else msg_clt_cnt s)\<rparr>))"
    and q: "recv_queues m q (requests_of n (served (Suc g) rs))" "client_get_index q = Suc g mod n" by blast
  from Suc.prems(8) obtain ret t where t: "perform P junk m (C g) (hd (rs g)) (srv s) = Some (ret, t)"
    "performs P junk m (map (\<lambda>i. (C i, hd (rs i))) [Suc g..<n]) t = Some v"
    unfolding upt by (auto simp: bind_eq_Some_conv)
  let ?n = "msg_cnts s ! g - 1"
  let ?s = "s\<lparr>srv := t\<lparr>rcv := q\<rparr>, msg_cnts := (msg_cnts s)[g := ?n],
      msg_clt_cnt := (if 0 = ?n then msg_clt_cnt s - 1 else msg_clt_cnt s)\<rparr>"
  have "performs P junk m (map (\<lambda>i. (C i, hd (rs i))) [Suc g..<n]) (srv ?s) = Some (v\<lparr>rcv := q\<rparr>)"
    using t(2) by (simp add: performs_rcv)
  then have "\<exists>q'. io_round P junk m [Suc g..<n] ?s = Some (?s\<lparr>srv := (v\<lparr>rcv := q\<rparr>)\<lparr>rcv := q'\<rparr>,
      msg_cnts := map (\<lambda>i. if Suc g \<le> i then msg_cnts ?s ! i - 1 else msg_cnts ?s ! i) [0..<n],
      msg_clt_cnt := msg_clt_cnt ?s - int (card {i. Suc g \<le> i \<and> i < n \<and> msg_cnts ?s ! i = 1})\<rparr>) \<and>
    recv_queues m q' (requests_of n (\<lambda>i. tl (rs i))) \<and> client_get_index q' = 0"
    using Suc.hyps(2) Suc.prems(2,5-7) g q by (intro Suc.hyps(1)) simp_all
  then obtain q' where q': "io_round P junk m [Suc g..<n] ?s = Some (?s\<lparr>srv := v\<lparr>rcv := q'\<rparr>,
      msg_cnts := map (\<lambda>i. if Suc g \<le> i then msg_cnts ?s ! i - 1 else msg_cnts ?s ! i) [0..<n],
      msg_clt_cnt := msg_clt_cnt ?s - int (card {i. Suc g \<le> i \<and> i < n \<and> msg_cnts ?s ! i = 1})\<rparr>)"
    "recv_queues m q' (requests_of n (\<lambda>i. tl (rs i)))" "client_get_index q' = 0" by auto
  have cnts: "map (\<lambda>i. if Suc g \<le> i then msg_cnts ?s ! i - 1 else msg_cnts ?s ! i) [0..<n] =
      map (\<lambda>i. if g \<le> i then msg_cnts s ! i - 1 else msg_cnts s ! i) [0..<n]"
    using Suc.prems(5) g by (auto simp: nth_list_update not_less_eq_eq dest: le_antisym)
  have "{i. g \<le> i \<and> i < n \<and> msg_cnts s ! i = 1} =
      (if ?n = 0 then {g} else {}) \<union> {i. Suc g \<le> i \<and> i < n \<and> msg_cnts ?s ! i = 1}"
    using g by (auto simp: nth_list_update Suc_le_eq le_less)
  then have "card {i. g \<le> i \<and> i < n \<and> msg_cnts s ! i = 1} =
      (if ?n = 0 then 1 else 0) + card {i. Suc g \<le> i \<and> i < n \<and> msg_cnts ?s ! i = 1}"
    by (simp add: card_insert_if)
  then have clt: "msg_clt_cnt ?s - int (card {i. Suc g \<le> i \<and> i < n \<and> msg_cnts ?s ! i = 1}) =
      msg_clt_cnt s - int (card {i. g \<le> i \<and> i < n \<and> msg_cnts s ! i = 1})" by auto
  show ?case using q' t(1) unfolding step clt cnts by auto
qed

lemma io_round_performs:
  assumes "g \<le> n" "io_round P junk m [g..<n] s = Some s'" "recv_queues m (rcv (srv s)) (requests_of n (served g rs))"
    and "client_get_index (rcv (srv s)) = g mod n"
    and "\<And>i. g \<le> i \<Longrightarrow> i < n \<Longrightarrow> rs i \<noteq> [] \<and> wf_request (hd (rs i))"
    and "\<And>i. i < n \<Longrightarrow> cfio_map_get_client_index_of_server m (C i) = Some (int i) \<and> C i < client_amount m"
  shows "\<exists>v. performs P junk m (map (\<lambda>i. (C i, hd (rs i))) [g..<n]) (srv s) = Some v"
  using assms
proof (induction "n - g" arbitrary: g s)
  case 0
  then show ?case by simp
next
  case (Suc d)
  then have g: "g < n" by simp
  have upt: "[g..<n] = g # [Suc g..<n]" using g by (rule upt_conv_Cons)
  have r: "rs g \<noteq> []" "wf_request (hd (rs g))" using Suc.prems(5) [of g] g by simp_all
  have C: "cfio_map_get_client_index_of_server m (C g) = Some (int g)" "C g < client_amount m"
    using Suc.prems(6) g by simp_all
  from io_round_step [where rs = rs and C = C, OF g Suc.prems(3,4) r C, of P junk] obtain q where
    step: "io_round P junk m [g..<n] s = Option.bind (perform P junk m (C g) (hd (rs g)) (srv s)) (\<lambda>(ret, t).
      io_round P junk m [Suc g..<n] (s\<lparr>srv := t\<lparr>rcv := q\<rparr>, msg_cnts := (msg_cnts s)[g := msg_cnts s ! g - 1],
        msg_clt_cnt := (if 0 = msg_cnts s ! g - 1 then msg_clt_cnt s - 1 else msg_clt_cnt s)\<rparr>))"
    and q: "recv_queues m q (requests_of n (served (Suc g) rs))" "client_get_index q = Suc g mod n" by blast
  from Suc.prems(2) obtain ret t where
    t: "perform P junk m (C g) (hd (rs g)) (srv s) = Some (ret, t)"
      "io_round P junk m [Suc g..<n] (s\<lparr>srv := t\<lparr>rcv := q\<rparr>, msg_cnts := (msg_cnts s)[g := msg_cnts s ! g - 1],
        msg_clt_cnt := (if 0 = msg_cnts s ! g - 1 then msg_clt_cnt s - 1 else msg_clt_cnt s)\<rparr>) = Some s'"
    unfolding step by (auto simp: bind_eq_Some_conv)
  let ?s = "s\<lparr>srv := t\<lparr>rcv := q\<rparr>, msg_cnts := (msg_cnts s)[g := msg_cnts s ! g - 1],
        msg_clt_cnt := (if 0 = msg_cnts s ! g - 1 then msg_clt_cnt s - 1 else msg_clt_cnt s)\<rparr>"
  have "\<exists>v. performs P junk m (map (\<lambda>i. (C i, hd (rs i))) [Suc g..<n]) (srv ?s) = Some v"
    using Suc.hyps(2) Suc.prems(5,6) g q t(2) by (intro Suc.hyps(1)) simp_all
  then show ?case using t(1) by (auto simp: upt performs_rcv)
qed

lemma card_less_all: "i < n \<Longrightarrow> \<not> P i \<Longrightarrow> card {i. i < n \<and> P i} < n"
proof -
  assume "i < n" "\<not> P i"
  then have "{i. i < n \<and> P i} \<subset> {..<n}" by auto
  then have "card {i. i < n \<and> P i} < card {..<n}" by (intro psubset_card_mono) simp_all
  then show ?thesis by simp
qed

lemma card_shorter:
  assumes "\<And>i. i < n \<Longrightarrow> rs i \<noteq> []"
  shows "int n - int (card {i. i < n \<and> int (length (rs i)) = 1}) = int (card {i. i < n \<and> tl (rs i) \<noteq> []})"
proof -
  have "tl (rs i) \<noteq> [] \<longleftrightarrow> length (rs i) \<noteq> 1" if "i < n" for i
    using assms [OF that] by (cases "rs i") auto
  then have all: "{..<n} = {i. i < n \<and> int (length (rs i)) = 1} \<union> {i. i < n \<and> tl (rs i) \<noteq> []}"
    and no: "{i. i < n \<and> int (length (rs i)) = 1} \<inter> {i. i < n \<and> tl (rs i) \<noteq> []} = {}" by auto
  have "card {..<n} = card {i. i < n \<and> int (length (rs i)) = 1} + card {i. i < n \<and> tl (rs i) \<noteq> []}"
    unfolding all by (rule card_Un_disjoint [OF _ _ no]) simp_all
  then show ?thesis by simp
qed

lemma io_round_serves:
  assumes n: "0 < n" and p: "pending_requests m n s rs" and ne: "\<And>i. i < n \<Longrightarrow> rs i \<noteq> []"
    and C: "\<And>i. i < n \<Longrightarrow> cfio_map_get_client_index_of_server m (C i) = Some (int i) \<and> C i < client_amount m"
    and v: "performs P junk m (map (\<lambda>i. (C i, hd (rs i))) [0..<n]) (srv s) = Some v"
  shows "\<exists>q s'. io_round P junk m [0..<n] s = Some s' \<and> srv s' = v\<lparr>rcv := q\<rparr> \<and> pending_requests m n s' (\<lambda>i. tl (rs i))"
proof -
  have wf: "rs i \<noteq> [] \<and> wf_request (hd (rs i))" if "i < n" for i
    using ne [OF that] p that by (simp add: pending_requests_def)
  have "served 0 rs = rs" by simp
  with p have q: "recv_queues m (rcv (srv s)) (requests_of n (served 0 rs))" "client_get_index (rcv (srv s)) = 0 mod n"
    "length (msg_cnts s) = n" by (simp_all add: pending_requests_def)
  from io_round_from [OF _ n q wf C v] obtain q where
    r: "io_round P junk m [0..<n] s = Some (s\<lparr>srv := v\<lparr>rcv := q\<rparr>,
      msg_cnts := map (\<lambda>i. if 0 \<le> i then msg_cnts s ! i - 1 else msg_cnts s ! i) [0..<n],
      msg_clt_cnt := msg_clt_cnt s - int (card {i. 0 \<le> i \<and> i < n \<and> msg_cnts s ! i = 1})\<rparr>)"
    "recv_queues m q (requests_of n (\<lambda>i. tl (rs i)))" "client_get_index q = 0" by blast
  have all: "{i. i < n \<and> rs i \<noteq> []} = {..<n}" using ne by auto
  have set: "{i. 0 \<le> i \<and> i < n \<and> msg_cnts s ! i = 1} = {i. i < n \<and> int (length (rs i)) = 1}"
    using p by (auto simp: pending_requests_def)
  have "msg_clt_cnt s - int (card {i. 0 \<le> i \<and> i < n \<and> msg_cnts s ! i = 1}) = int (card {i. i < n \<and> tl (rs i) \<noteq> []})"
    using card_shorter [of n rs] ne p unfolding set by (simp add: pending_requests_def all)
  moreover have "map (\<lambda>i. if 0 \<le> i then msg_cnts s ! i - 1 else msg_cnts s ! i) [0..<n] =
      map (\<lambda>i. int (length (tl (rs i)))) [0..<n]"
  proof (rule map_cong)
    fix i assume "i \<in> set [0..<n]"
    then have "i < n" "length (rs i) \<noteq> 0" using ne by auto
    then show "(if 0 \<le> i then msg_cnts s ! i - 1 else msg_cnts s ! i) = int (length (tl (rs i)))"
      using p by (cases "rs i") (simp_all add: pending_requests_def)
  qed simp
  moreover have "\<forall>i < n. \<forall>r \<in> set (tl (rs i)). wf_request r"
  proof (intro allI impI ballI)
    fix i r assume i: "i < n" and "r \<in> set (tl (rs i))"
    then have "r \<in> set (rs i)" using list.set_sel(2) ne by metis
    with i p show "wf_request r" by (simp add: pending_requests_def)
  qed
  ultimately show ?thesis using r p by (intro exI [of _ q]) (simp add: pending_requests_def)
qed

lemma io_rounds_pending:
  assumes n: "0 < n" and p: "pending_requests m n s rs"
    and k: "\<forall>i < n. k \<le> length (rs i)" "i0 < n" "length (rs i0) = k"
    and C: "\<forall>i < n. cfio_map_get_client_index_of_server m (C i) = Some (int i) \<and> C i < client_amount m"
    and v: "performs P junk m (round_requests n C rs k) (srv s) = Some v"
  shows "\<exists>q s'. io_rounds P junk m s = Some s' \<and> srv s' = v\<lparr>rcv := q\<rparr> \<and> pending_requests m n s' (\<lambda>i. drop k (rs i))"
  using p k v
proof (induction k arbitrary: s rs v)
  case 0
  have "card {i. i < n \<and> rs i \<noteq> []} < n" by (rule card_less_all [OF 0(3)]) (use 0(4) in simp)
  then have "clients s \<noteq> msg_clt_cnt s" using 0(1) by (simp add: pending_requests_def)
  then have "io_rounds P junk m s = Some s" by (simp add: io_rounds.simps)
  then show ?case using 0 by (intro exI [of _ "rcv (srv s)"]) (simp add: round_requests_def)
next
  case (Suc k)
  have ne: "rs i \<noteq> [] \<and> k < length (rs i)" if "i < n" for i
    using Suc.prems(2) that by (cases "rs i") (auto simp: Suc_le_eq dest!: spec [of _ i])
  have "performs P junk m (map (\<lambda>i. (C i, hd (rs i))) [0..<n] @ round_requests n C (\<lambda>i. tl (rs i)) k) (srv s) = Some v"
    using Suc.prems(5) round_requests_Suc [of n rs k "\<lambda>i. hd (rs i)" C] ne by simp
  then obtain u where u: "performs P junk m (map (\<lambda>i. (C i, hd (rs i))) [0..<n]) (srv s) = Some u"
    "performs P junk m (round_requests n C (\<lambda>i. tl (rs i)) k) u = Some v"
    unfolding performs_append by (auto simp: bind_eq_Some_conv)
  from io_round_serves [OF n Suc.prems(1) _ _ u(1)] ne C obtain q s1 where
    s1: "io_round P junk m [0..<n] s = Some s1" "srv s1 = u\<lparr>rcv := q\<rparr>" "pending_requests m n s1 (\<lambda>i. tl (rs i))" by blast
  have "performs P junk m (round_requests n C (\<lambda>i. tl (rs i)) k) (srv s1) = Some (v\<lparr>rcv := q\<rparr>)"
    using u(2) by (simp add: s1(2) performs_rcv)
  moreover have "\<forall>i < n. k \<le> length (tl (rs i))" using ne by (auto simp: Suc_leI Nat.le_diff_conv2 dest: spec)
  ultimately obtain q' s' where s': "io_rounds P junk m s1 = Some s'" "srv s' = v\<lparr>rcv := q'\<rparr>"
    "pending_requests m n s' (\<lambda>i. drop k (tl (rs i)))"
    using Suc.IH [OF s1(3) _ Suc.prems(3)] Suc.prems(4) by fastforce
  have "{i. i < n \<and> rs i \<noteq> []} = {..<n}" using ne by auto
  then have "clients s = int n" "msg_clt_cnt s = int n" using Suc.prems(1) by (simp_all add: pending_requests_def)
  then have "io_rounds P junk m s = Some s'" using s1(1) s'(1) by (subst io_rounds.simps) simp
  with s' show ?case by (auto simp: drop_Suc)
qed

text \<open>And the other way: when the loop returns, it has done just that.\<close>

lemma io_rounds_performs:
  assumes n: "0 < n" and p: "pending_requests m n s rs" and r: "io_rounds P junk m s = Some s'"
    and C: "\<forall>i < n. cfio_map_get_client_index_of_server m (C i) = Some (int i) \<and> C i < client_amount m"
  shows "\<exists>k v q. (\<forall>i < n. k \<le> length (rs i)) \<and> (\<exists>i < n. length (rs i) = k) \<and>
    performs P junk m (round_requests n C rs k) (srv s) = Some v \<and> srv s' = v\<lparr>rcv := q\<rparr> \<and>
    pending_requests m n s' (\<lambda>i. drop k (rs i))"
proof -
  from ex_has_least_nat [of "\<lambda>i. i < n" 0 "\<lambda>i. length (rs i)"] n obtain i0 where
    i0: "i0 < n" "\<forall>i < n. length (rs i0) \<le> length (rs i)" by blast
  have "\<exists>v. performs P junk m (round_requests n C rs k) (srv s) = Some v" if "\<forall>i < n. k \<le> length (rs i)" for k
    using p r that
  proof (induction k arbitrary: s rs)
    case 0
    then show ?case by (simp add: round_requests_def)
  next
    case (Suc k)
    have ne: "rs i \<noteq> [] \<and> k < length (rs i) \<and> wf_request (hd (rs i))" if "i < n" for i
      using Suc.prems(1,3) that by (cases "rs i") (auto simp: Suc_le_eq pending_requests_def dest!: spec [of _ i])
    then have "{i. i < n \<and> rs i \<noteq> []} = {..<n}" by auto
    then have "clients s = int n" "msg_clt_cnt s = int n" using Suc.prems(1) by (simp_all add: pending_requests_def)
    then obtain s1 where s1: "io_round P junk m [0..<n] s = Some s1" "io_rounds P junk m s1 = Some s'"
      using Suc.prems(2) by (subst (asm) io_rounds.simps) (auto split: bind_splits)
    have "served 0 rs = rs" by simp
    then have q: "recv_queues m (rcv (srv s)) (requests_of n (served 0 rs))" "client_get_index (rcv (srv s)) = 0 mod n"
      using Suc.prems(1) by (simp_all add: pending_requests_def)
    from io_round_performs [OF _ s1(1) q, of C] ne C obtain u where
      u: "performs P junk m (map (\<lambda>i. (C i, hd (rs i))) [0..<n]) (srv s) = Some u" by blast
    from io_round_serves [OF n Suc.prems(1) _ _ u] ne C s1(1) obtain q where
      q: "srv s1 = u\<lparr>rcv := q\<rparr>" "pending_requests m n s1 (\<lambda>i. tl (rs i))" by auto
    have "\<forall>i < n. k \<le> length (tl (rs i))" using ne by (auto simp: Suc_leI Nat.le_diff_conv2 dest: spec)
    from Suc.IH [OF q(2) s1(2) this] obtain v where
      "performs P junk m (round_requests n C (\<lambda>i. tl (rs i)) k) u = Some v" by (auto simp: q(1) performs_rcv)
    then show ?case using u round_requests_Suc [of n rs k "\<lambda>i. hd (rs i)" C] ne by (simp add: performs_append)
  qed
  from this [OF i0(2)] obtain v where v: "performs P junk m (round_requests n C rs (length (rs i0))) (srv s) = Some v" by blast
  from io_rounds_pending [OF n p i0(2,1) refl C v] r obtain q where
    "srv s' = v\<lparr>rcv := q\<rparr>" "pending_requests m n s' (\<lambda>i. drop (length (rs i0)) (rs i))" by auto
  then show ?thesis using i0 v by blast
qed

text \<open>C29. Serving the queues ends and serves in rounds: as long as every client has a message, one
  message of each client is carried out, in the order of the clients. With \<open>k\<close> the length of the
  shortest queue, exactly the first \<open>k\<close> requests of every client are carried out, round by round,
  and the loop returns with the rest of the queues and with counters that again say how many
  messages there are.\<close>

theorem io_rounds_serve:
  assumes n: "0 < n" and p: "pending_requests m n s rs"
    and k: "\<forall>i < n. k \<le> length (rs i)" "i0 < n" "length (rs i0) = k"
    and C: "\<forall>i < n. cfio_map_get_client_index_of_server m (C i) = Some (int i) \<and> C i < client_amount m"
    and v: "performs P junk m (round_requests n C rs k) (srv s) = Some v"
  shows "\<exists>q s'. io_rounds P junk m s = Some s' \<and> srv s' = v\<lparr>rcv := q\<rparr> \<and> pending_requests m n s' (\<lambda>i. drop k (rs i))"
  by (rule io_rounds_pending [OF assms])

section \<open>What the reads bring\<close>

text \<open>
  The library's side of a list of reads, for a peer whose data region starts at \<open>base\<close> and holds
  \<open>mem\<close>: each read copies its bytes into the local region.
\<close>

fun fetch :: "int \<Rightarrow> byte list \<Rightarrow> work_request list \<Rightarrow> byte list \<Rightarrow> byte list" where
  "fetch base mem [] reg = reg"
| "fetch base mem (WR_READ k a n lo # ws) reg =
     fetch base mem ws (blit reg (nat lo) (slice mem (nat (a - base)) (nat n)))"
| "fetch base mem (w # ws) reg = fetch base mem ws reg"

text \<open>The published bytes of a ring that have not been fetched, with \<open>r\<close> the next one.\<close>

definition unread :: "cfio_buf_addr \<Rightarrow> byte list \<Rightarrow> int \<Rightarrow> byte list" where
  "unread a mem r =
     (if a_used a \<le> a_free a \<or> r \<le> int (a_free a) then slice mem (nat r) (a_free a - nat r)
      else slice mem (nat r) (a_end a - nat r) @ slice mem 0 (a_free a))"

definition addr_ok :: "cfio_buf_addr \<Rightarrow> byte list \<Rightarrow> bool" where
  "addr_ok a mem \<longleftrightarrow> a_free a \<le> length mem \<and> a_end a \<le> length mem \<and> (a_free a < a_used a \<longrightarrow> a_used a \<le> a_end a)"

definition read_ok :: "cfio_buf_addr \<Rightarrow> int \<Rightarrow> bool" where
  "read_ok a r \<longleftrightarrow> 0 \<le> r \<and> (r \<le> int (a_free a) \<or> a_free a < a_used a \<and> int (a_used a) \<le> r \<and> r \<le> int (a_end a))"

text \<open>What a client publishes with its address record is what its ring holds.\<close>

definition publishes :: "cfio_buf_addr \<Rightarrow> cfio_buf \<Rightarrow> bool" where
  "publishes a b \<longleftrightarrow> a_used a = used_addr b \<and> a_free a = free_addr b \<and> a_end a = end_addr b \<and> buf_inv b \<and>
     end_addr b \<le> bsize b \<and> (free_addr b < used_addr b \<longrightarrow> used_addr b \<le> end_addr b)"

lemma unread_contents:
  assumes "publishes a b"
  shows "unread a (bmem b) (int (used_addr b)) = contents b" "addr_ok a (bmem b)" "read_ok a (int (used_addr b))"
  using assms by (auto simp: publishes_def unread_def contents_def addr_ok_def read_ok_def buf_inv_def)

inductive pieces :: "nat \<Rightarrow> int \<Rightarrow> int \<Rightarrow> int \<Rightarrow> int \<Rightarrow> work_request list \<Rightarrow> bool" for k base where
  none: "pieces k base off lo 0 []"
| more: "0 < n \<Longrightarrow> n \<le> transfer_msg_size_max \<Longrightarrow> n \<le> len \<Longrightarrow> pieces k base (off + n) (lo + n) (len - n) ws \<Longrightarrow>
    pieces k base off lo len (WR_READ k (base + off) n lo # ws)"

lemma take_blit: "p + length d \<le> length m \<Longrightarrow> take (p + length d) (blit m p d) = take p m @ d"
  by (simp add: blit_def)

lemma fetch_pieces:
  assumes "pieces k base off lo len ws" "0 \<le> off" "0 \<le> lo" "nat (off + len) \<le> length mem" "nat (lo + len) \<le> length reg"
  shows "fetch base mem ws reg = blit reg (nat lo) (slice mem (nat off) (nat len))"
  using assms
proof (induction arbitrary: reg)
  case (none off lo)
  then show ?case by (simp add: blit_def)
next
  case (more n len off lo ws)
  let ?d = "slice mem (nat off) (nat n)" and ?e = "slice mem (nat (off + n)) (nat (len - n))"
  have d: "length ?d = nat n" "length ?e = nat (len - n)" using more by auto
  have i: "nat (lo + n) = nat lo + length ?d" using more d by simp
  have "fetch base mem ws (blit reg (nat lo) ?d) = blit (blit reg (nat lo) ?d) (nat (lo + n)) ?e"
    using more d by (intro more.IH) auto
  also have "\<dots> = blit reg (nat lo) (?d @ ?e)"
    unfolding i using more d by (intro blit_blit) auto
  also have "nat (off + n) = nat off + nat n" "nat len = nat n + nat (len - n)" using more by simp_all
  then have "?d @ ?e = slice mem (nat off) (nat len)" by (simp add: slice_add)
  finally show ?case by simp
qed

lemma post_pieces_posts:
  assumes "linked n (rdma s)" "c < n" "client_conn c (rdma s) = Some (k, x)" "peer_data_mr x = Some mr"
    and "c < length (local_lens s)" "0 \<le> len"
  shows "\<exists>ws rd. post_pieces c off len s = Some (s\<lparr>rdma := rd, local_lens := (local_lens s)[c := local_lens s ! c + len]\<rparr>) \<and>
    pieces k (mr_addr mr) off (local_lens s ! c) len ws \<and> linked n rd \<and> posted rd = posted (rdma s) @ ws \<and>
    request_stack_size rd = request_stack_size (rdma s) + int (length ws) \<and>
    rest_reqs rd = (rest_reqs (rdma s))[c := rest_reqs (rdma s) ! c + int (length ws)] \<and> client_conn c rd = Some (k, x)"
  using assms
proof (induction c off len s rule: post_pieces.induct)
  case (1 c off len s)
  show ?case
  proof (cases "0 < len")
    case False
    with 1 have "len = 0" by simp
    with 1 show ?thesis
      by (intro exI [of _ "[]"] exI [of _ "rdma s"]) (simp add: post_pieces.simps pieces.none)
  next
    case True
    define n' where "n' = (if len > transfer_msg_size_max then transfer_msg_size_max else len)"
    have n: "0 < n'" "n' \<le> transfer_msg_size_max" "n' \<le> len" using True by (auto simp: n'_def transfer_msg_size_max_def)
    have c: "c < length (rest_reqs (rdma s))" using 1(2,3) by (simp add: linked_def)
    let ?rd = "ibv_post (WR_READ k (mr_addr mr + off) n' (local_lens s ! c))
        ((rdma s)\<lparr>rest_reqs := (rest_reqs (rdma s))[c := rest_reqs (rdma s) ! c + 1]\<rparr>)"
    let ?s = "s\<lparr>rdma := ?rd, local_lens := (local_lens s)[c := local_lens s ! c + n']\<rparr>"
    have rd: "cfio_rdma_server_read_data c off n' (local_lens s ! c) (rdma s) = Some ?rd"
      using 1(4,5) c by (simp add: cfio_rdma_server_read_data_def)
    have l: "linked n (rdma ?s)" using 1(2) by (simp add: ibv_post_def linked_rest)
    have cc: "client_conn c (rdma ?s) = Some (k, x)" using 1(4) by (simp add: client_conn_def ibv_post_def split: if_splits)
    have "\<exists>ws rd. post_pieces c (off + n') (len - n') ?s = Some (?s\<lparr>rdma := rd, local_lens := (local_lens ?s)[c := local_lens ?s ! c + (len - n')]\<rparr>) \<and>
      pieces k (mr_addr mr) (off + n') (local_lens ?s ! c) (len - n') ws \<and> linked n rd \<and> posted rd = posted (rdma ?s) @ ws \<and>
      request_stack_size rd = request_stack_size (rdma ?s) + int (length ws) \<and>
      rest_reqs rd = (rest_reqs (rdma ?s))[c := rest_reqs (rdma ?s) ! c + int (length ws)] \<and> client_conn c rd = Some (k, x)"
      by (rule 1(1) [OF True n'_def rd l 1(3) cc 1(5)]) (use 1(6) n(3) in simp_all)
    then obtain ws rd where ws: "post_pieces c (off + n') (len - n') ?s = Some (?s\<lparr>rdma := rd, local_lens := (local_lens ?s)[c := local_lens ?s ! c + (len - n')]\<rparr>)"
      "pieces k (mr_addr mr) (off + n') (local_lens ?s ! c) (len - n') ws" "linked n rd" "posted rd = posted (rdma ?s) @ ws"
      "request_stack_size rd = request_stack_size (rdma ?s) + int (length ws)"
      "rest_reqs rd = (rest_reqs (rdma ?s))[c := rest_reqs (rdma ?s) ! c + int (length ws)]" "client_conn c rd = Some (k, x)" by blast
    have "pieces k (mr_addr mr) off (local_lens s ! c) len (WR_READ k (mr_addr mr + off) n' (local_lens s ! c) # ws)"
      using n ws(2) 1(6) by (intro pieces.more) simp_all
    moreover have "post_pieces c off len s = Some (s\<lparr>rdma := rd, local_lens := (local_lens s)[c := local_lens s ! c + len]\<rparr>)"
      using ws(1) rd True 1(6) by (subst post_pieces.simps) (simp add: Let_def n'_def [symmetric])
    ultimately show ?thesis using ws(3-7) c by (intro exI conjI) (auto simp: ibv_post_def add.assoc)
  qed
qed

text \<open>One step of reading: \<open>stop\<close> is the end of the part that is read in one piece, \<open>first\<close> says
  that it is the last part. The read position moves by \<open>j\<close>, and from the end to the start.\<close>

definition parts :: "cfio_buf_addr \<Rightarrow> int \<Rightarrow> bool \<Rightarrow> int \<Rightarrow> bool" where
  "parts a r first stop \<longleftrightarrow>
     first = (a_used a \<le> a_free a \<or> r \<le> int (a_free a)) \<and> stop = int (if first then a_free a else a_end a)"

lemma unread_step:
  assumes a: "addr_ok a mem" "read_ok a r" "parts a r first stop" and j: "0 \<le> j" "j \<le> stop - r"
    and r': "r' = (if first \<or> r + j < stop then r + j else 0)"
  shows "take (nat j) (unread a mem r) = slice mem (nat r) (nat j)" "nat j \<le> length (unread a mem r)"
    "read_ok a r'" "unread a mem r' = drop (nat j) (unread a mem r)"
    "first \<and> stop \<le> r + j \<Longrightarrow> drop (nat j) (unread a mem r) = []"
proof -
  let ?u = "unread a mem r"
  note p = a(3) [unfolded parts_def]
  have r: "0 \<le> r" "r \<le> stop" "nat stop \<le> length mem"
    using a p by (auto simp: addr_ok_def read_ok_def)
  have u: "?u = slice mem (nat r) (nat (stop - r)) @ (if first then [] else slice mem 0 (a_free a))"
    using r a p by (auto simp: unread_def nat_diff_distrib)
  have fl: "length (slice mem (nat r) (nat (stop - r))) = nat (stop - r)" "nat j \<le> nat (stop - r)" using r j by simp_all
  show "take (nat j) ?u = slice mem (nat r) (nat j)" "nat j \<le> length ?u"
    using j r fl by (simp_all add: u take_slice min_def)
  have "drop (nat j) (slice mem (nat r) (nat (stop - r))) = slice mem (nat (r + j)) (nat (stop - (r + j)))"
    using j r by (simp add: drop_slice nat_add_distrib nat_diff_distrib)
  then have dropu: "drop (nat j) ?u = slice mem (nat (r + j)) (nat (stop - (r + j))) @ (if first then [] else slice mem 0 (a_free a))"
    using j fl by (simp add: u)
  consider (here) "first" | (piece) "\<not> first" "r + j < stop" | (wrap) "\<not> first" "r + j = stop" using j by linarith
  then have "read_ok a r' \<and> unread a mem r' = drop (nat j) ?u"
  proof cases
    case here
    then have "nat (int (a_free a) - (r + j)) = a_free a - nat (r + j)" "r + j \<le> int (a_free a)"
      using j r p by simp_all
    then show ?thesis unfolding dropu r' using here j r p by (simp add: read_ok_def unread_def)
  next
    case piece
    then have "a_free a < a_used a" "int (a_used a) \<le> r" using a(2) p by (auto simp: read_ok_def)
    moreover have "nat (int (a_end a) - (r + j)) = a_end a - nat (r + j)" using j(1) r(1) by arith
    ultimately show ?thesis unfolding dropu r' using piece j r p by (auto simp: read_ok_def unread_def)
  next
    case wrap
    then show ?thesis unfolding dropu r' by (simp add: read_ok_def unread_def)
  qed
  then show "read_ok a r'" "unread a mem r' = drop (nat j) ?u" by simp_all
  show "drop (nat j) ?u = []" if "first \<and> stop \<le> r + j" unfolding dropu using that by simp
qed

lemma fetch_extends:
  assumes "pieces k base off lo j ws" "0 \<le> off" "0 \<le> lo" "0 \<le> j" "nat (off + j) \<le> length mem" "nat (lo + j) \<le> length reg"
  shows "take (nat (lo + j)) (fetch base mem ws reg) = take (nat lo) reg @ slice mem (nat off) (nat j)"
proof -
  have "nat off + nat j = nat (off + j)" "nat lo + nat j = nat (lo + j)" using assms(2-4) by simp_all
  then have "length (slice mem (nat off) (nat j)) = nat j" "nat lo + nat j \<le> length reg" "nat (lo + j) = nat lo + nat j"
    using assms(5,6) by (simp_all, arith)
  then show ?thesis
    unfolding fetch_pieces [OF assms(1,2,3,5,6)] using take_blit [of "nat lo" "slice mem (nat off) (nat j)" reg] by simp
qed

text \<open>One step of \<open>_read_data\<close>: it posts the pieces of the next \<open>j\<close> bytes.\<close>

lemma read_data_pieces:
  assumes l: "linked n (rdma s)" "c < n" and conn: "client_conn c (rdma s) = Some (k, x)" "peer_data_mr x = Some mr"
    and arrays: "length (local_lens s) = n" "length (read_addrs s) = n"
    and a: "addr_ok a mem" "read_ok a (read_addrs s ! c)" and room: "local_lens s ! c \<le> region_size s"
  obtains first stop j ws rd where "parts a (read_addrs s ! c) first stop" "0 \<le> j"
    "j = min (stop - read_addrs s ! c) (region_size s - local_lens s ! c)"
    "read_data c a s = Some (s\<lparr>rdma := rd, local_lens := (local_lens s)[c := local_lens s ! c + j],
       read_addrs := (read_addrs s)[c := (if first \<or> read_addrs s ! c + j < stop then read_addrs s ! c + j else 0)],
       read_dones := (if first \<and> stop \<le> read_addrs s ! c + j then (read_dones s)[c := True] else read_dones s)\<rparr>)"
    "pieces k (mr_addr mr) (read_addrs s ! c) (local_lens s ! c) j ws" "linked n rd" "posted rd = posted (rdma s) @ ws"
    "rest_reqs rd = (rest_reqs (rdma s))[c := rest_reqs (rdma s) ! c + int (length ws)]"
    "0 \<le> read_addrs s ! c" "nat stop \<le> length mem"
proof -
  let ?r = "read_addrs s ! c" and ?space = "region_size s - local_lens s ! c"
  define first where "first \<longleftrightarrow> a_used a \<le> a_free a \<or> ?r \<le> int (a_free a)"
  define stop where "stop = int (if first then a_free a else a_end a)"
  define j where "j = (if stop - ?r < ?space then stop - ?r else ?space)"
  have pt: "parts a ?r first stop" by (auto simp: parts_def first_def stop_def)
  have r: "0 \<le> ?r" "?r \<le> stop" "nat stop \<le> length mem"
    using a by (auto simp: stop_def first_def addr_ok_def read_ok_def)
  have j: "0 \<le> j" using r room by (auto simp: j_def)
  let ?s = "s\<lparr>read_addrs := (read_addrs s)[c := (if first \<or> ?r + j < stop then ?r + j else 0)],
      read_dones := (if first \<and> stop \<le> ?r + j then (read_dones s)[c := True] else read_dones s)\<rparr>"
  have step: "read_data c a s = post_pieces c ?r j ?s"
    unfolding read_data_def Let_def first_def [symmetric] by (auto simp: stop_def j_def)
  obtain ws rd where p: "post_pieces c ?r j ?s = Some (?s\<lparr>rdma := rd, local_lens := (local_lens s)[c := local_lens s ! c + j]\<rparr>)"
    "pieces k (mr_addr mr) ?r (local_lens s ! c) j ws" "linked n rd" "posted rd = posted (rdma s) @ ws"
    "rest_reqs rd = (rest_reqs (rdma s))[c := rest_reqs (rdma s) ! c + int (length ws)]"
    using post_pieces_posts [of n ?s c k x mr j ?r] l conn arrays(1) j by auto
  show thesis
    by (rule that [OF pt j _ _ p(2-5) r(1,3)]) (use step p(1) in \<open>simp_all add: j_def min_def\<close>)
qed

lemma read_data_step:
  assumes l: "linked n (rdma s)" "c < n" and conn: "client_conn c (rdma s) = Some (k, x)" "peer_data_mr x = Some mr"
    and arrays: "length (local_lens s) = n" "length (read_addrs s) = n" "length (read_dones s) = n"
    and a: "addr_ok a mem" "read_ok a (read_addrs s ! c)"
    and room: "0 \<le> local_lens s ! c" "local_lens s ! c \<le> region_size s" "nat (region_size s) \<le> length reg"
  shows "\<exists>s' ws j. read_data c a s = Some s' \<and> posted (rdma s') = posted (rdma s) @ ws \<and>
    j \<le> length (unread a mem (read_addrs s ! c)) \<and> local_lens s' = (local_lens s)[c := local_lens s ! c + int j] \<and>
    local_lens s' ! c \<le> region_size s \<and>
    take (nat (local_lens s' ! c)) (fetch (mr_addr mr) mem ws reg) =
      take (nat (local_lens s ! c)) reg @ take j (unread a mem (read_addrs s ! c)) \<and>
    read_ok a (read_addrs s' ! c) \<and> unread a mem (read_addrs s' ! c) = drop j (unread a mem (read_addrs s ! c)) \<and>
    (read_dones s' ! c \<longrightarrow> read_dones s ! c \<or> unread a mem (read_addrs s' ! c) = []) \<and>
    (j = 0 \<longrightarrow> local_lens s ! c = region_size s \<or> read_dones s' ! c \<or> read_addrs s' ! c = 0 \<and> 0 < read_addrs s ! c) \<and>
    rest_reqs (rdma s') ! c = rest_reqs (rdma s) ! c + int (length ws) \<and> linked n (rdma s')"
proof -
  let ?r = "read_addrs s ! c"
  from read_data_pieces [OF l conn arrays(1,2) a room(2)] obtain first stop j ws rd where
    pt: "parts a ?r first stop" and j: "0 \<le> j" "j = min (stop - ?r) (region_size s - local_lens s ! c)"
    and step: "read_data c a s = Some (s\<lparr>rdma := rd, local_lens := (local_lens s)[c := local_lens s ! c + j],
       read_addrs := (read_addrs s)[c := (if first \<or> ?r + j < stop then ?r + j else 0)],
       read_dones := (if first \<and> stop \<le> ?r + j then (read_dones s)[c := True] else read_dones s)\<rparr>)" (is "_ = Some ?s'")
    and ws: "pieces k (mr_addr mr) ?r (local_lens s ! c) j ws" "linked n rd" "posted rd = posted (rdma s) @ ws"
      "rest_reqs rd = (rest_reqs (rdma s))[c := rest_reqs (rdma s) ! c + int (length ws)]"
    and r: "0 \<le> ?r" "nat stop \<le> length mem" .
  have jle: "j \<le> stop - ?r" "j \<le> region_size s - local_lens s ! c" using j by simp_all
  have r': "read_addrs ?s' ! c = (if first \<or> ?r + j < stop then ?r + j else 0)" using l(2) arrays by simp
  note u = unread_step [OF a pt j(1) jle(1) r']
  have got: "take (nat (local_lens s ! c + j)) (fetch (mr_addr mr) mem ws reg) =
      take (nat (local_lens s ! c)) reg @ take (nat j) (unread a mem ?r)"
    unfolding u(1) by (rule fetch_extends [OF ws(1) r(1) room(1) j(1)]) (use r jle room(3) in simp_all)
  have "\<not> first \<Longrightarrow> 0 < ?r" using pt a(2) by (auto simp: parts_def read_ok_def)
  then show ?thesis
    unfolding step using u(2-5) got r' j jle ws l arrays room(1)
    by (intro exI [of _ ?s'] exI [of _ ws] exI [of _ "nat j"]) (auto simp: linked_def min_def split: if_splits)
qed

text \<open>C31. Fetching keeps the order of the client's bytes. One step of \<open>_read_data\<close> posts reads of at
  most 4 MB whose bytes, once the library has delivered them, follow those already fetched in the
  local region and are exactly the next bytes of the published part of the client's ring, through
  the wrap at its end; the read position moves by as many bytes, never past the region's size, the
  client is marked as read only when nothing is left, and a step that brings nothing has no room,
  or ends the reading, or goes on at the start of the ring.\<close>

theorem read_data_fetches:
  assumes l: "linked n (rdma s)" "c < n" and conn: "client_conn c (rdma s) = Some (k, x)" "peer_data_mr x = Some mr"
    and arrays: "length (local_lens s) = n" "length (read_addrs s) = n" "length (read_dones s) = n"
    and a: "addr_ok a mem" "read_ok a (read_addrs s ! c)"
    and room: "0 \<le> local_lens s ! c" "local_lens s ! c \<le> region_size s" "nat (region_size s) \<le> length reg"
  shows "\<exists>s' ws j. read_data c a s = Some s' \<and> posted (rdma s') = posted (rdma s) @ ws \<and>
    j \<le> length (unread a mem (read_addrs s ! c)) \<and> local_lens s' = (local_lens s)[c := local_lens s ! c + int j] \<and>
    local_lens s' ! c \<le> region_size s \<and>
    take (nat (local_lens s' ! c)) (fetch (mr_addr mr) mem ws reg) =
      take (nat (local_lens s ! c)) reg @ take j (unread a mem (read_addrs s ! c)) \<and>
    read_ok a (read_addrs s' ! c) \<and> unread a mem (read_addrs s' ! c) = drop j (unread a mem (read_addrs s ! c)) \<and>
    (read_dones s' ! c \<longrightarrow> read_dones s ! c \<or> unread a mem (read_addrs s' ! c) = []) \<and>
    (j = 0 \<longrightarrow> local_lens s ! c = region_size s \<or> read_dones s' ! c \<or> read_addrs s' ! c = 0 \<and> 0 < read_addrs s ! c) \<and>
    rest_reqs (rdma s') ! c = rest_reqs (rdma s) ! c + int (length ws) \<and> linked n (rdma s')"
  by (rule read_data_step [OF assms])

section \<open>What reaches the queues\<close>

text \<open>A message with its size in front, as every client packs it, and a piece of one.\<close>

definition framed :: "byte list \<Rightarrow> bool" where
  "framed d \<longleftrightarrow> 12 \<le> length d \<and> length d < 2 ^ 31 \<and> dec_u64 (take 8 d) = word_of_nat (length d) \<and>
     dec_i32 (slice d 8 4) \<noteq> FUNC_FINAL"

definition unfinished :: "byte list \<Rightarrow> bool" where
  "unfinished d \<longleftrightarrow> length d < 8 \<or> length d < unat (dec_u64 (take 8 d)) \<and> unat (dec_u64 (take 8 d)) < 2 ^ 63"

lemma framed_message:
  assumes "length (message r) < 2 ^ 31"
  shows "framed (message r)"
proof -
  have "code_of r \<noteq> FUNC_FINAL" by (cases r) (simp_all add: func_codes)
  moreover have "slice (message r) 8 4 = enc_i32 (code_of r)" by (simp add: message_def slice_def)
  moreover have "take 8 (message r) = enc_u64 (word_of_nat (length (message r)))"
    by (simp add: length_message del: of_nat_add) (simp add: message_def)
  ultimately show ?thesis using assms by (simp add: framed_def length_message)
qed

lemma u64_le:
  assumes "0 \<le> a" "a < 2 ^ 64" "0 \<le> b" "b < 2 ^ 64"
  shows "(word_of_int a :: u64) \<le> word_of_int b \<longleftrightarrow> a \<le> b"
  using assms by (simp add: word_le_def unsigned_of_int take_bit_int_eq_self)

lemma u64_plus: "word_of_int a + (word_of_nat k :: u64) = word_of_int (a + int k)"
  by simp

lemma u64_to_int:
  assumes "0 \<le> a" "a < 2 ^ 31"
  shows "sint (ucast (word_of_int a :: u64) :: i32) = a"
proof -
  obtain k where k: "a = int k" using assms(1) nonneg_int_cases by blast
  then have "(ucast (word_of_int a :: u64) :: i32) = word_of_nat k"
    using assms by (simp add: unsigned_of_nat take_bit_nat_eq_self)
  then show ?thesis using assms(2) by (simp add: sint_word_of_nat_small k)
qed

lemma size_of_u64: "k < 2 ^ 31 \<Longrightarrow> size_of_int (ucast (word_of_nat k :: u64)) = k"
proof -
  assume k: "k < 2 ^ 31"
  then have "(ucast (word_of_nat k :: u64) :: i32) = word_of_nat k"
    by (simp add: unsigned_of_nat take_bit_nat_eq_self)
  then show ?thesis using k by (simp add: size_of_int_of_nat)
qed

text \<open>\<open>region_holds c s data\<close>: behind the part already copied, the region of a client holds
  \<open>data\<close>.\<close>

definition region_holds :: "nat \<Rightarrow> byte list \<Rightarrow> 'f daemon \<Rightarrow> byte list \<Rightarrow> bool" where
  "region_holds c reg s d \<longleftrightarrow>
     0 \<le> copy_lens s ! c \<and> copy_lens s ! c \<le> local_lens s ! c \<and> local_lens s ! c \<le> int (length reg) \<and>
     local_lens s ! c < 2 ^ 31 \<and> slice reg (nat (copy_lens s ! c)) (nat (local_lens s ! c - copy_lens s ! c)) = d"

lemma region_holdsD:
  assumes "region_holds c reg s d"
  shows "nat (local_lens s ! c - copy_lens s ! c) = length d" "local_lens s ! c = copy_lens s ! c + int (length d)"
    "nat (copy_lens s ! c) + length d \<le> length reg" "copy_lens s ! c + int (length d) < 2 ^ 31"
    "drop (nat (copy_lens s ! c)) reg = d @ drop (nat (copy_lens s ! c) + length d) reg"
proof -
  let ?a = "copy_lens s ! c" and ?l = "local_lens s ! c"
  have b: "0 \<le> ?a" "?a \<le> ?l" "?l \<le> int (length reg)" "?l < 2 ^ 31" and d: "slice reg (nat ?a) (nat (?l - ?a)) = d"
    using assms by (simp_all add: region_holds_def)
  have "length d = nat (?l - ?a)" unfolding d [symmetric] using b by simp
  then show l: "nat (?l - ?a) = length d" "?l = ?a + int (length d)" "nat ?a + length d \<le> length reg" "?a + int (length d) < 2 ^ 31"
    using b by simp_all
  show "drop (nat ?a) reg = d @ drop (nat ?a + length d) reg"
    using append_take_drop_id [of "length d" "drop (nat ?a) reg"] d l(1) by (simp add: slice_def add.commute)
qed

text \<open>Passing over the front of what the region holds.\<close>

lemma region_holds_skip:
  assumes "region_holds c reg s (d @ e)" "copy_lens t ! c = copy_lens s ! c + int (length d)" "local_lens t = local_lens s"
  shows "region_holds c reg t e"
proof -
  let ?a = "copy_lens s ! c" and ?l = "local_lens s ! c"
  have a: "0 \<le> ?a" and d: "slice reg (nat ?a) (nat (?l - ?a)) = d @ e" using assms(1) by (simp_all add: region_holds_def)
  have "drop (length d) (slice reg (nat ?a) (nat (?l - ?a))) = e" unfolding d by simp
  moreover have "nat (?l - ?a) - length d = nat (?l - (?a + int (length d)))" "nat ?a + length d = nat (?a + int (length d))"
    using a by simp_all
  ultimately have "slice reg (nat (?a + int (length d))) (nat (?l - (?a + int (length d)))) = e"
    unfolding drop_slice by metis
  then show ?thesis using assms region_holdsD(2) [OF assms(1)] by (simp add: region_holds_def)
qed

lemma exist_msg_iff:
  assumes "region_holds c reg s d"
  shows "exist_msg c s \<longleftrightarrow> 8 \<le> length d"
proof -
  have a: "0 \<le> copy_lens s ! c" using assms by (simp add: region_holds_def)
  note r = region_holdsD [OF assms]
  have "exist_msg c s \<longleftrightarrow> (word_of_int (copy_lens s ! c + 8) :: u64) \<le> word_of_int (copy_lens s ! c + int (length d))"
    unfolding exist_msg_def r(2) by simp
  also have "\<dots> \<longleftrightarrow> 8 \<le> length d" using a r(4) by (subst u64_le) simp_all
  finally show ?thesis .
qed

text \<open>The size field in front of what the region holds.\<close>

lemma region_size_field:
  assumes "region_holds c reg s d" "8 \<le> length d"
  shows "mem_read reg (nat (copy_lens s ! c)) 8 = Some (take 8 d)"
    "dec_u64 (take 8 d) = word_of_nat k \<Longrightarrow> k < 2 ^ 63 \<Longrightarrow>
      word_of_int (copy_lens s ! c) + dec_u64 (take 8 d) > (word_of_int (local_lens s ! c) :: u64) \<longleftrightarrow> length d < k"
proof -
  note r = region_holdsD [OF assms(1)]
  have a: "0 \<le> copy_lens s ! c" using assms(1) by (simp add: region_holds_def)
  show "mem_read reg (nat (copy_lens s ! c)) 8 = Some (take 8 d)"
    using r(3,5) assms(2) by (simp add: mem_read_def slice_def)
  assume "dec_u64 (take 8 d) = word_of_nat k" and k: "k < 2 ^ 63"
  then have "word_of_int (copy_lens s ! c) + dec_u64 (take 8 d) = (word_of_int (copy_lens s ! c + int k) :: u64)"
    by simp
  then show "word_of_int (copy_lens s ! c) + dec_u64 (take 8 d) > (word_of_int (local_lens s ! c) :: u64) \<longleftrightarrow> length d < k"
    using a k r(2,4) u64_le [of "copy_lens s ! c + int k" "local_lens s ! c"] by (simp add: not_le [symmetric])
qed

lemma copy_loop_stops:
  assumes "region_holds c reg s rest" "unfinished rest"
  shows "copy_loop m c reg chg s = Some (chg, s)"
proof (cases "length rest < 8")
  case True
  then show ?thesis using exist_msg_iff [OF assms(1)] by (simp add: copy_loop.simps)
next
  case False
  then have len: "8 \<le> length (rest)" by simp
  let ?k = "unat (dec_u64 (take 8 rest))"
  have k: "length rest < ?k" "?k < 2 ^ 63" using assms(2) False by (simp_all add: unfinished_def)
  have "mem_read reg (nat (copy_lens s ! c)) 8 = Some (take 8 rest)"
    "word_of_int (copy_lens s ! c) + dec_u64 (take 8 rest) > (word_of_int (local_lens s ! c) :: u64)"
    using region_size_field(1) [OF assms(1) len] region_size_field(2) [OF assms(1) len, of ?k] k by simp_all
  moreover have "0 \<le> copy_lens s ! c" using assms(1) by (simp add: region_holds_def)
  ultimately show ?thesis using exist_msg_iff [OF assms(1)] len
    by (subst copy_loop.simps) (simp add: sizeof_size_t_def)
qed

text \<open>A queue's buffer that has not been used beyond its middle: a message of up to \<open>k\<close> bytes
  fits without a wrap.\<close>

definition roomy :: "nat \<Rightarrow> cfio_buf \<Rightarrow> bool" where
  "roomy k b \<longleftrightarrow> buf_inv b \<and> used_addr b = 0 \<and> free_addr b + k < bsize b"

lemma roomy_mono: "roomy k b \<Longrightarrow> j \<le> k \<Longrightarrow> roomy j b"
  by (simp add: roomy_def)

lemma roomy_free: "roomy k b \<Longrightarrow> k \<le> free_buf_size b"
  by (auto simp: roomy_def free_buf_size_eq)

lemma roomy_clear: "roomy k b \<Longrightarrow> (if cfio_buf_is_empty b then cfio_buf_clear b else Some b) = Some b' \<Longrightarrow> roomy k b'"
  by (auto simp: roomy_def cfio_buf_clear_def buf_inv_def magic_ok_def cfio_buf_is_empty_def split: if_splits)

lemma roomy_enough:
  assumes "roomy (n + k) b"
  shows "is_free_space_enough b n = (CFIO_BUF_FREE_SPACE_ENOUGH, b)"
    and "length d = length (bmem b) \<Longrightarrow> roomy k (use_buf (b\<lparr>bmem := d\<rparr>) n)"
proof -
  have "n \<le> free_buf_size b" using roomy_free [OF assms] by simp
  moreover have "n \<le> bsize b - free_addr b" using assms unfolding roomy_def by arith
  ultimately show "is_free_space_enough b n = (CFIO_BUF_FREE_SPACE_ENOUGH, b)" by (simp add: is_free_space_enough_def)
  show "roomy k (use_buf (b\<lparr>bmem := d\<rparr>) n)" if "length d = length (bmem b)"
    using assms that by (auto simp: roomy_def use_buf_def buf_inv_def magic_ok_def Let_def)
qed

lemma add_msg_room:
  assumes "cfio_recv_add_msg m client sz data s = Some (ret, code, s')" "client_slot m client s = Some i" "i < length (rbuffer s)"
  shows "k \<noteq> i \<Longrightarrow> rbuffer s' ! k = rbuffer s ! k" "client_get_index s' = client_get_index s"
    and "roomy (size_of_int sz + k) (rbuffer s ! i) \<Longrightarrow> ret \<noteq> CFIO_RECV_BUF_FULL \<and> roomy k (rbuffer s' ! i)"
proof -
  show "rbuffer s' ! k = rbuffer s ! k" if "k \<noteq> i"
    using assms that by (auto simp: cfio_recv_add_msg_def Let_def split: bind_splits prod.splits if_splits)
  show "client_get_index s' = client_get_index s"
    using assms(1) by (auto simp: cfio_recv_add_msg_def Let_def split: bind_splits prod.splits if_splits)
  assume r: "roomy (size_of_int sz + k) (rbuffer s ! i)"
  obtain b where b: "(if cfio_buf_is_empty (rbuffer s ! i) then cfio_buf_clear (rbuffer s ! i) else Some (rbuffer s ! i)) = Some b"
    using assms(1,2) by (auto simp: cfio_recv_add_msg_def Let_def split: bind_splits)
  note rb = roomy_clear [OF r b]
  have full: "is_free_space_enough b (size_of_int sz) = (CFIO_BUF_FREE_SPACE_ENOUGH, b)" using roomy_enough(1) [OF rb] by blast
  have "roomy k (use_buf (b\<lparr>bmem := mem\<rparr>) (size_of_int sz))" if "mem_write (bmem b) (free_addr b) d = Some mem" for mem d
    by (rule roomy_enough(2) [OF rb]) (use that in \<open>auto simp: mem_write_def split: if_splits\<close>)
  moreover have "roomy k b" using rb by (rule roomy_mono) simp
  ultimately show "ret \<noteq> CFIO_RECV_BUF_FULL \<and> roomy k (rbuffer s' ! i)"
    using assms b full by (auto simp: cfio_recv_add_msg_def Let_def error_codes split: bind_splits if_splits)
qed

text \<open>What adding \<open>k\<close> bytes to the queue of client \<open>c\<close> does to the buffers.\<close>

definition keeps_others :: "nat \<Rightarrow> recv_state \<Rightarrow> recv_state \<Rightarrow> bool" where
  "keeps_others c q q' \<longleftrightarrow> client_get_index q' = client_get_index q \<and> (\<forall>i. i \<noteq> c \<longrightarrow> rbuffer q' ! i = rbuffer q ! i)"

definition takes_room :: "nat \<Rightarrow> nat \<Rightarrow> recv_state \<Rightarrow> recv_state \<Rightarrow> bool" where
  "takes_room c k q q' \<longleftrightarrow> (\<forall>t. roomy (k + t) (rbuffer q ! c) \<longrightarrow> roomy t (rbuffer q' ! c))"

text \<open>One message: it joins the queue, or the queue is full.\<close>

lemma copy_loop_one:
  assumes "region_holds c reg s (d @ e)" "framed d" "recv_queues m (rcv (srv s)) qs" "c < length qs"
    and "cfio_map_get_client_index_of_server m (client_ids s ! c) = Some (int c)" "client_ids s ! c < client_amount m"
  shows "\<exists>q. (recv_queues m q (qs[c := qs ! c @ [d]]) \<and> keeps_others c (rcv (srv s)) q \<and> takes_room c (length d) (rcv (srv s)) q \<and>
      copy_loop m c reg chg s = copy_loop m c reg True (s\<lparr>srv := (srv s)\<lparr>rcv := q\<rparr>, msg_cnts := (msg_cnts s)[c := msg_cnts s ! c + 1],
        msg_clt_cnt := (if 1 = msg_cnts s ! c + 1 then msg_clt_cnt s + 1 else msg_clt_cnt s),
        copy_lens := (copy_lens s)[c := copy_lens s ! c + int (length d)]\<rparr>)) \<or>
    (recv_queues m q qs \<and> free_buf_size (rbuffer q ! c) < length d \<and> (\<forall>t. \<not> roomy (length d + t) (rbuffer (rcv (srv s)) ! c)) \<and>
      keeps_others c (rcv (srv s)) q \<and> copy_loop m c reg chg s = Some (chg, s\<lparr>srv := (srv s)\<lparr>rcv := q\<rparr>\<rparr>))"
proof -
  let ?a = "copy_lens s ! c"
  have d: "12 \<le> length d" "length d < 2 ^ 31" "dec_u64 (take 8 d) = word_of_nat (length d)"
    "dec_i32 (slice d 8 4) \<noteq> FUNC_FINAL" using assms(2) by (simp_all add: framed_def)
  have len: "8 \<le> length (d @ e)" "take 8 (d @ e) = take 8 d" using d(1) by simp_all
  note r = region_holdsD [OF assms(1)]
  note sz = region_size_field [OF assms(1) len(1), unfolded len(2)]
  have a: "0 \<le> ?a" using assms(1) by (simp add: region_holds_def)
  have whole: "\<not> word_of_int ?a + dec_u64 (take 8 d) > (word_of_int (local_lens s ! c) :: u64)"
    using sz(2) [OF d(3)] d(2) by simp
  have behind: "drop (nat ?a) reg = d @ (e @ drop (nat ?a + length (d @ e)) reg)"
    using r(5) by simp
  from add_msg_queue [OF assms(3-5) size_of_u64 [OF d(2)] d(1,4) assms(6)]
  obtain ret code q where add: "cfio_recv_add_msg m (client_ids s ! c) (ucast (word_of_nat (length d) :: u64)) (drop (nat ?a) reg) (rcv (srv s)) = Some (ret, code, q)"
    and q: "ret = CFIO_ERROR_NONE \<and> code = Some (dec_i32 (slice d 8 4)) \<and> recv_queues m q (qs[c := qs ! c @ [d]]) \<or>
      ret = CFIO_RECV_BUF_FULL \<and> free_buf_size (rbuffer q ! c) < length d \<and> recv_queues m q qs"
    unfolding behind by blast
  let ?s = "s\<lparr>srv := (srv s)\<lparr>rcv := q\<rparr>\<rparr>"
  let ?n = "msg_cnts s ! c + 1"
  let ?s' = "?s\<lparr>msg_cnts := (msg_cnts s)[c := ?n], msg_clt_cnt := (if 1 = ?n then msg_clt_cnt s + 1 else msg_clt_cnt s),
      copy_lens := (copy_lens s)[c := ?a + int (length d)]\<rparr>"
  have at: "sint (ucast (word_of_int ?a + dec_u64 (take 8 d)) :: i32) = ?a + int (length d)"
    unfolding d(3) u64_plus using a r(4) by (intro u64_to_int) simp_all
  have step: "copy_loop m c reg chg s =
      (if CFIO_RECV_BUF_FULL = ret then Some (chg, ?s) else if CFIO_ERROR_UNEXPECTED_MSG = ret then None
       else copy_loop m c reg True ?s')"
    using exist_msg_iff [OF assms(1)] len(1) a sz(1) whole at add
    by (subst copy_loop.simps) (simp add: sizeof_size_t_def d(3) Let_def)
  have len_buf: "c < length (rbuffer (rcv (srv s)))" using assms(3,4) by (simp add: recv_queues_def)
  note room = add_msg_room [OF add client_slot_eq [OF assms(3-5)] len_buf, unfolded size_of_u64 [OF d(2)]]
  from q step room show ?thesis by (intro exI [of _ q]) (auto simp: error_codes keeps_others_def takes_room_def)
qed

lemma copy_loop_queues:
  assumes "region_holds c reg s (concat ds @ rest)" "\<forall>d \<in> set ds. framed d" "unfinished rest"
    and "recv_queues m (rcv (srv s)) qs" "c < length qs"
    and "cfio_map_get_client_index_of_server m (client_ids s ! c) = Some (int c)" "client_ids s ! c < client_amount m"
    and "c < length (copy_lens s)" "c < length (msg_cnts s)" "0 \<le> msg_cnts s ! c"
  shows "\<exists>j q. j \<le> length ds \<and> copy_loop m c reg chg s = Some (chg \<or> 0 < j, s\<lparr>srv := (srv s)\<lparr>rcv := q\<rparr>,
      msg_cnts := (msg_cnts s)[c := msg_cnts s ! c + int j],
      msg_clt_cnt := msg_clt_cnt s + (if msg_cnts s ! c = 0 \<and> 0 < j then 1 else 0),
      copy_lens := (copy_lens s)[c := copy_lens s ! c + int (length (concat (take j ds)))]\<rparr>) \<and>
    recv_queues m q (qs[c := qs ! c @ take j ds]) \<and>
    (j < length ds \<longrightarrow> free_buf_size (rbuffer q ! c) < length (ds ! j)) \<and> keeps_others c (rcv (srv s)) q \<and>
    (\<forall>t. roomy (length (concat ds) + t) (rbuffer (rcv (srv s)) ! c) \<longrightarrow> j = length ds \<and> roomy t (rbuffer q ! c))"
  using assms
proof (induction ds arbitrary: s qs chg)
  case Nil
  have "copy_loop m c reg chg s = Some (chg, s)" using Nil(1,3) by (intro copy_loop_stops) simp_all
  moreover have "qs[c := qs ! c @ take 0 []] = qs" by simp
  ultimately show ?case using Nil by (intro exI [of _ 0] exI [of _ "rcv (srv s)"]) (simp add: keeps_others_def)
next
  case (Cons d ds)
  let ?a = "copy_lens s ! c"
  let ?n = "msg_cnts s ! c + 1"
  have hold: "region_holds c reg s (d @ concat ds @ rest)" and f: "framed d" using Cons.prems(1,2) by simp_all
  from copy_loop_one [OF hold f Cons.prems(4-7), of chg] obtain q where
    "(recv_queues m q (qs[c := qs ! c @ [d]]) \<and> keeps_others c (rcv (srv s)) q \<and> takes_room c (length d) (rcv (srv s)) q \<and>
      copy_loop m c reg chg s = copy_loop m c reg True (s\<lparr>srv := (srv s)\<lparr>rcv := q\<rparr>, msg_cnts := (msg_cnts s)[c := ?n],
        msg_clt_cnt := (if 1 = ?n then msg_clt_cnt s + 1 else msg_clt_cnt s), copy_lens := (copy_lens s)[c := ?a + int (length d)]\<rparr>)) \<or>
    (recv_queues m q qs \<and> free_buf_size (rbuffer q ! c) < length d \<and> (\<forall>t. \<not> roomy (length d + t) (rbuffer (rcv (srv s)) ! c)) \<and>
      keeps_others c (rcv (srv s)) q \<and> copy_loop m c reg chg s = Some (chg, s\<lparr>srv := (srv s)\<lparr>rcv := q\<rparr>\<rparr>))" ..
  then show ?case
  proof (elim disjE conjE)
    assume q': "recv_queues m q qs" "free_buf_size (rbuffer q ! c) < length d"
      "\<forall>t. \<not> roomy (length d + t) (rbuffer (rcv (srv s)) ! c)" "keeps_others c (rcv (srv s)) q"
      and step: "copy_loop m c reg chg s = Some (chg, s\<lparr>srv := (srv s)\<lparr>rcv := q\<rparr>\<rparr>)"
    then have "recv_queues m q (qs[c := qs ! c @ take 0 (d # ds)])" by simp
    then show ?thesis using step q'(2-4) by (intro exI [of _ 0] exI [of _ q]) (simp add: add.assoc)
  next
    let ?s' = "s\<lparr>srv := (srv s)\<lparr>rcv := q\<rparr>, msg_cnts := (msg_cnts s)[c := ?n],
        msg_clt_cnt := (if 1 = ?n then msg_clt_cnt s + 1 else msg_clt_cnt s), copy_lens := (copy_lens s)[c := ?a + int (length d)]\<rparr>"
    assume q': "recv_queues m q (qs[c := qs ! c @ [d]])"
      and kept: "keeps_others c (rcv (srv s)) q" "takes_room c (length d) (rcv (srv s)) q" and step: "copy_loop m c reg chg s = copy_loop m c reg True ?s'"
    have hold: "region_holds c reg ?s' (concat ds @ rest)"
      by (rule region_holds_skip [OF hold]) (use Cons.prems(8) in simp_all)
    have "\<exists>j q'. j \<le> length ds \<and> copy_loop m c reg True ?s' = Some (True \<or> 0 < j, ?s'\<lparr>srv := (srv ?s')\<lparr>rcv := q'\<rparr>,
      msg_cnts := (msg_cnts ?s')[c := msg_cnts ?s' ! c + int j],
      msg_clt_cnt := msg_clt_cnt ?s' + (if msg_cnts ?s' ! c = 0 \<and> 0 < j then 1 else 0),
      copy_lens := (copy_lens ?s')[c := copy_lens ?s' ! c + int (length (concat (take j ds)))]\<rparr>) \<and>
    recv_queues m q' ((qs[c := qs ! c @ [d]])[c := (qs[c := qs ! c @ [d]]) ! c @ take j ds]) \<and>
    (j < length ds \<longrightarrow> free_buf_size (rbuffer q' ! c) < length (ds ! j)) \<and> keeps_others c (rcv (srv ?s')) q' \<and>
    (\<forall>t. roomy (length (concat ds) + t) (rbuffer (rcv (srv ?s')) ! c) \<longrightarrow> j = length ds \<and> roomy t (rbuffer q' ! c))"
      using Cons.prems q' by (intro Cons.IH hold) simp_all
    then obtain j q2 where j: "j \<le> length ds" "copy_loop m c reg True ?s' = Some (True, s\<lparr>srv := (srv s)\<lparr>rcv := q2\<rparr>,
        msg_cnts := (msg_cnts s)[c := ?n + int j], msg_clt_cnt := (if 1 = ?n then msg_clt_cnt s + 1 else msg_clt_cnt s),
        copy_lens := (copy_lens s)[c := ?a + int (length d) + int (length (concat (take j ds)))]\<rparr>)"
      "recv_queues m q2 (qs[c := qs ! c @ d # take j ds])" "j < length ds \<longrightarrow> free_buf_size (rbuffer q2 ! c) < length (ds ! j)"
      "keeps_others c q q2" "\<forall>t. roomy (length (concat ds) + t) (rbuffer q ! c) \<longrightarrow> j = length ds \<and> roomy t (rbuffer q2 ! c)"
      using Cons.prems(5,8,9,10) by auto
    moreover have "keeps_others c (rcv (srv s)) q2" using kept(1) j(5) by (simp add: keeps_others_def)
    moreover have "\<forall>t. roomy (length (concat (d # ds)) + t) (rbuffer (rcv (srv s)) ! c) \<longrightarrow> Suc j = length (d # ds) \<and> roomy t (rbuffer q2 ! c)"
      using kept(2) j(6) by (auto simp: takes_room_def add.assoc)
    ultimately show ?thesis unfolding step by (intro exI [of _ "Suc j"] exI [of _ q2]) (auto simp: algebra_simps)
  qed
qed

text \<open>What the step for client \<open>c\<close> leaves of the others.\<close>

definition other_data :: "nat \<Rightarrow> rdma_server \<Rightarrow> rdma_server \<Rightarrow> bool" where
  "other_data c r r' \<longleftrightarrow> rdma_conns r' = rdma_conns r \<and> ordered_conns r' = ordered_conns r \<and>
     (\<forall>i. i \<noteq> c \<longrightarrow> cfio_rdma_server_get_data i r' = cfio_rdma_server_get_data i r)"

text \<open>Only the bytes in the regions have changed.\<close>

definition new_data :: "rdma_server \<Rightarrow> rdma_server \<Rightarrow> bool" where
  "new_data r r' \<longleftrightarrow> (\<exists>d. r' = r\<lparr>data_regions := d\<rparr> \<and> map length d = map length (data_regions r))"

definition copied_only :: "nat \<Rightarrow> 'f daemon \<Rightarrow> 'f daemon \<Rightarrow> bool" where
  "copied_only c s s' \<longleftrightarrow> read_addrs s' = read_addrs s \<and> read_dones s' = read_dones s \<and> client_ids s' = client_ids s \<and>
     clients s' = clients s \<and> region_size s' = region_size s \<and> comm_dones s' = comm_dones s \<and>
     comm_done_cnt s' = comm_done_cnt s \<and> other_data c (rdma s) (rdma s') \<and> new_data (rdma s) (rdma s') \<and>
     length (local_lens s') = length (local_lens s) \<and> length (copy_lens s') = length (copy_lens s) \<and>
     (\<forall>i. i \<noteq> c \<longrightarrow> local_lens s' ! i = local_lens s ! i \<and> copy_lens s' ! i = copy_lens s ! i)"

lemma client_conn_cong:
  "rdma_conns r' = rdma_conns r \<Longrightarrow> ordered_conns r' = ordered_conns r \<Longrightarrow> client_conn c r' = client_conn c r"
  by (simp add: client_conn_def conn_at_def cong: if_cong)

lemma other_data_refl: "other_data c r r"
  by (simp add: other_data_def)

lemma new_data_refl: "new_data r r"
  by (auto simp: new_data_def intro: exI [of _ "data_regions r"])

lemma other_data_put:
  assumes "linked n r" "c < n" "client_conn c r = Some (k, x)" "region x = k"
  shows "other_data c r (r\<lparr>data_regions := (data_regions r)[k := d]\<rparr>)"
proof -
  let ?r = "r\<lparr>data_regions := (data_regions r)[k := d]\<rparr>"
  have "cfio_rdma_server_get_data i ?r = cfio_rdma_server_get_data i r" if "i \<noteq> c" for i
  proof (cases "i < n")
    case False
    then show ?thesis using assms(1) by (simp add: cfio_rdma_server_get_data_def client_conn_def linked_def)
  next
    case True
    from linked_conn_of [OF assms(1) True] obtain j y where y: "ordered_conns r ! i = Some j" "client_conn i r = Some (j, y)" "region y = j" .
    have "ordered_conns r ! c = Some k" using assms(3) by (auto simp: client_conn_def bind_eq_Some_conv split: if_splits)
    moreover have "distinct (ordered_conns r)" "length (ordered_conns r) = n" using assms(1) by (simp_all add: linked_def)
    ultimately have "j \<noteq> k" using y(1) that True assms(2) nth_eq_iff_index_eq [of "ordered_conns r" i c] by auto
    then show ?thesis using y client_conn_cong [of ?r r i] by (simp add: cfio_rdma_server_get_data_def)
  qed
  then show ?thesis by (simp add: other_data_def)
qed

text \<open>The end of the step: what is left moves to the front.\<close>

lemma copy_data_moves:
  assumes l: "linked n (rdma s)" "c < n" and reg: "cfio_rdma_server_get_data c (rdma s) = Some reg"
    and loop: "copy_loop m c reg False s = Some (True, s1)" "rdma s1 = rdma s" "region_holds c reg s1 left"
    and i: "c < length (copy_lens s1)" "c < length (local_lens s1)"
  shows "nat (copy_lens s1 ! c) < length left \<Longrightarrow> copy_data_to_list m c s = None"
    and "length left \<le> nat (copy_lens s1 ! c) \<Longrightarrow>
      \<exists>rd. copy_data_to_list m c s = Some (s1\<lparr>rdma := rd, local_lens := (local_lens s1)[c := int (length left)],
          copy_lens := (copy_lens s1)[c := 0]\<rparr>) \<and>
        cfio_rdma_server_get_data c rd = Some (blit reg 0 left) \<and> linked n rd \<and> other_data c (rdma s) rd \<and>
        new_data (rdma s) rd \<and> length left \<le> length reg \<and> length left < 2 ^ 31"
proof -
  note r = region_holdsD [OF loop(3)]
  have a: "0 \<le> copy_lens s1 ! c" and left: "slice reg (nat (copy_lens s1 ! c)) (length left) = left"
    using loop(3) r(1) by (simp_all add: region_holds_def)
  from linked_conn_of [OF l] obtain k x where x: "client_conn c (rdma s) = Some (k, x)" "region x = k" "k < n" .
  let ?rd = "(rdma s)\<lparr>data_regions := (data_regions (rdma s))[k := blit reg 0 left]\<rparr>"
  have put: "put_data c d (rdma s) = Some ((rdma s)\<lparr>data_regions := (data_regions (rdma s))[k := d]\<rparr>)" for d
    using x by (simp add: put_data_def)
  have rw: "mem_read reg (nat (copy_lens s1 ! c)) (length left) = Some left" "mem_write reg 0 left = Some (blit reg 0 left)"
    using r(3) left by (simp_all add: mem_read_def mem_write_def)
  show "copy_data_to_list m c s = None" if "nat (copy_lens s1 ! c) < length left"
  proof -
    have "\<not> int (length left) \<le> copy_lens s1 ! c" "left \<noteq> []" using that a by auto
    then show ?thesis using loop(1) reg r(2) a by (simp add: copy_data_to_list_def Let_def)
  qed
  show "\<exists>rd. copy_data_to_list m c s = Some (s1\<lparr>rdma := rd, local_lens := (local_lens s1)[c := int (length left)],
          copy_lens := (copy_lens s1)[c := 0]\<rparr>) \<and>
        cfio_rdma_server_get_data c rd = Some (blit reg 0 left) \<and> linked n rd \<and> other_data c (rdma s) rd \<and>
        new_data (rdma s) rd \<and> length left \<le> length reg \<and> length left < 2 ^ 31"
    if "length left \<le> nat (copy_lens s1 ! c)"
  proof (intro exI [of _ ?rd] conjI)
    show "copy_data_to_list m c s = Some (s1\<lparr>rdma := ?rd, local_lens := (local_lens s1)[c := int (length left)],
        copy_lens := (copy_lens s1)[c := 0]\<rparr>)"
    proof -
      have "int (length left) \<le> copy_lens s1 ! c" using that a by linarith
      then show ?thesis using loop(1,2) reg r(2) a put rw by (simp add: copy_data_to_list_def Let_def)
    qed
    show "cfio_rdma_server_get_data c ?rd = Some (blit reg 0 left)" "linked n ?rd"
      using x l(1) by (simp_all add: cfio_rdma_server_get_data_def linked_regions, simp add: linked_def)
    show "other_data c (rdma s) ?rd" by (rule other_data_put [OF l x(1,2)])
    have "length (blit reg 0 left) = length (data_regions (rdma s) ! k)"
      using reg x r(3) by (simp add: cfio_rdma_server_get_data_def split: if_splits)
    then show "new_data (rdma s) ?rd"
      by (intro new_data_def [THEN iffD2] exI [of _ "(data_regions (rdma s))[k := blit reg 0 left]"])
        (simp add: map_update, metis list_update_id length_map list_update_beyond not_le nth_map)
    show "length left \<le> length reg" "length left < 2 ^ 31" using r(3,4) a by simp_all
  qed
qed

lemma copy_data_full:
  assumes l: "linked n (rdma s)" "c < n" and reg: "cfio_rdma_server_get_data c (rdma s) = Some reg"
    and hold: "region_holds c reg s (concat ds @ rest)" "copy_lens s ! c = 0"
    and ds: "\<forall>d \<in> set ds. framed d" "unfinished rest"
    and q: "recv_queues m (rcv (srv s)) qs" "length qs = n"
    and client: "cfio_map_get_client_index_of_server m (client_ids s ! c) = Some (int c)" "client_ids s ! c < client_amount m"
    and arrays: "length (copy_lens s) = n" "length (local_lens s) = n" "length (msg_cnts s) = n" "0 \<le> msg_cnts s ! c"
  shows "\<exists>j q'. j \<le> length ds \<and> recv_queues m q' (qs[c := qs ! c @ take j ds]) \<and>
    (j < length ds \<longrightarrow> free_buf_size (rbuffer q' ! c) < length (ds ! j)) \<and> keeps_others c (rcv (srv s)) q' \<and>
    (\<forall>t. roomy (length (concat ds) + t) (rbuffer (rcv (srv s)) ! c) \<longrightarrow> j = length ds \<and> roomy t (rbuffer q' ! c)) \<and>
    (if 0 < j \<and> length (concat (take j ds)) < length (concat (drop j ds) @ rest)
     then copy_data_to_list m c s = None
     else \<exists>s' reg'. copy_data_to_list m c s = Some s' \<and> srv s' = (srv s)\<lparr>rcv := q'\<rparr> \<and>
       msg_cnts s' = (msg_cnts s)[c := msg_cnts s ! c + int j] \<and>
       msg_clt_cnt s' = msg_clt_cnt s + (if msg_cnts s ! c = 0 \<and> 0 < j then 1 else 0) \<and>
       cfio_rdma_server_get_data c (rdma s') = Some reg' \<and> region_holds c reg' s' (concat (drop j ds) @ rest) \<and>
       copy_lens s' ! c = 0 \<and> linked n (rdma s') \<and> copied_only c s s')"
proof -
  have i: "c < length qs" "c < length (copy_lens s)" "c < length (msg_cnts s)" "c < length (local_lens s)"
    using l q arrays by simp_all
  from copy_loop_queues [OF hold(1) ds q(1) i(1) client i(2,3) arrays(4), of False] obtain j q' where
    j: "j \<le> length ds" "copy_loop m c reg False s = Some (0 < j, s\<lparr>srv := (srv s)\<lparr>rcv := q'\<rparr>,
      msg_cnts := (msg_cnts s)[c := msg_cnts s ! c + int j],
      msg_clt_cnt := msg_clt_cnt s + (if msg_cnts s ! c = 0 \<and> 0 < j then 1 else 0),
      copy_lens := (copy_lens s)[c := int (length (concat (take j ds)))]\<rparr>)"
    "recv_queues m q' (qs[c := qs ! c @ take j ds])" "j < length ds \<longrightarrow> free_buf_size (rbuffer q' ! c) < length (ds ! j)"
    "keeps_others c (rcv (srv s)) q'" "\<forall>t. roomy (length (concat ds) + t) (rbuffer (rcv (srv s)) ! c) \<longrightarrow> j = length ds \<and> roomy t (rbuffer q' ! c)"
    unfolding hold(2) by auto
  let ?copied = "concat (take j ds)" and ?left = "concat (drop j ds) @ rest"
  let ?s1 = "s\<lparr>srv := (srv s)\<lparr>rcv := q'\<rparr>, msg_cnts := (msg_cnts s)[c := msg_cnts s ! c + int j],
      msg_clt_cnt := msg_clt_cnt s + (if msg_cnts s ! c = 0 \<and> 0 < j then 1 else 0),
      copy_lens := (copy_lens s)[c := int (length ?copied)]\<rparr>"
  have all: "concat ds @ rest = ?copied @ ?left" by (simp flip: concat_append)
  have "region_holds c reg ?s1 ?left"
    by (rule region_holds_skip [OF hold(1) [unfolded all]]) (use hold(2) i in simp_all)
  note moves = copy_data_moves [OF l reg _ _ this]
  show ?thesis
  proof (cases "j = 0")
    case True
    have "(copy_lens s)[c := 0] = copy_lens s" using hold(2) by (metis list_update_id)
    then show ?thesis using j True l hold reg
      by (intro exI [of _ 0] exI [of _ q']) (auto simp: copy_data_to_list_def region_holds_def copied_only_def other_data_refl new_data_refl)
  next
    case False
    then have loop: "copy_loop m c reg False s = Some (True, ?s1)" using j(2) by simp
    show ?thesis
    proof (cases "length ?copied < length ?left")
      case True
      then have "copy_data_to_list m c s = None" using i by (intro moves(1) loop) simp_all
      with True False j show ?thesis by (intro exI [of _ j] exI [of _ q']) simp
    next
      case no: False
      then have "length ?left \<le> nat (copy_lens ?s1 ! c)" using i by simp
      from moves(2) [OF loop _ _ _ this] i obtain rd where rd: "copy_data_to_list m c s = Some (?s1\<lparr>rdma := rd,
          local_lens := (local_lens ?s1)[c := int (length ?left)], copy_lens := (copy_lens ?s1)[c := 0]\<rparr>)"
        "cfio_rdma_server_get_data c rd = Some (blit reg 0 ?left)" "linked n rd" "other_data c (rdma s) rd" "new_data (rdma s) rd" "length ?left \<le> length reg" "length ?left < 2 ^ 31"
        by auto
      then show ?thesis using no j i
        by (intro exI [of _ j] exI [of _ q']) (simp add: region_holds_def slice_def blit_def copied_only_def)
    qed
  qed
qed

lemma copy_data_step:
  assumes l: "linked n (rdma s)" "c < n" and reg: "cfio_rdma_server_get_data c (rdma s) = Some reg"
    and hold: "region_holds c reg s (concat ds @ rest)" "copy_lens s ! c = 0"
    and ds: "\<forall>d \<in> set ds. framed d" "unfinished rest"
    and q: "recv_queues m (rcv (srv s)) qs" "length qs = n"
    and client: "cfio_map_get_client_index_of_server m (client_ids s ! c) = Some (int c)" "client_ids s ! c < client_amount m"
    and arrays: "length (copy_lens s) = n" "length (local_lens s) = n" "length (msg_cnts s) = n" "0 \<le> msg_cnts s ! c"
  shows "\<exists>j q'. j \<le> length ds \<and> recv_queues m q' (qs[c := qs ! c @ take j ds]) \<and>
    (j < length ds \<longrightarrow> free_buf_size (rbuffer q' ! c) < length (ds ! j)) \<and>
    (if 0 < j \<and> length (concat (take j ds)) < length (concat (drop j ds) @ rest)
     then copy_data_to_list m c s = None
     else \<exists>s' reg'. copy_data_to_list m c s = Some s' \<and> srv s' = (srv s)\<lparr>rcv := q'\<rparr> \<and>
       msg_cnts s' = (msg_cnts s)[c := msg_cnts s ! c + int j] \<and>
       msg_clt_cnt s' = msg_clt_cnt s + (if msg_cnts s ! c = 0 \<and> 0 < j then 1 else 0) \<and>
       cfio_rdma_server_get_data c (rdma s') = Some reg' \<and> region_holds c reg' s' (concat (drop j ds) @ rest) \<and>
       copy_lens s' ! c = 0 \<and> linked n (rdma s'))"
proof -
  from copy_data_full [OF assms] obtain j q' where j: "j \<le> length ds" "recv_queues m q' (qs[c := qs ! c @ take j ds])"
    "j < length ds \<longrightarrow> free_buf_size (rbuffer q' ! c) < length (ds ! j)"
    and s': "if 0 < j \<and> length (concat (take j ds)) < length (concat (drop j ds) @ rest)
     then copy_data_to_list m c s = None
     else \<exists>s' reg'. copy_data_to_list m c s = Some s' \<and> srv s' = (srv s)\<lparr>rcv := q'\<rparr> \<and>
       msg_cnts s' = (msg_cnts s)[c := msg_cnts s ! c + int j] \<and>
       msg_clt_cnt s' = msg_clt_cnt s + (if msg_cnts s ! c = 0 \<and> 0 < j then 1 else 0) \<and>
       cfio_rdma_server_get_data c (rdma s') = Some reg' \<and> region_holds c reg' s' (concat (drop j ds) @ rest) \<and>
       copy_lens s' ! c = 0 \<and> linked n (rdma s') \<and> copied_only c s s'"
    by (elim exE conjE)
  from s' show ?thesis using j by (intro exI [of _ j] exI [of _ q']) (auto split: if_splits)
qed

text \<open>C30. Copying cuts the fetched bytes into the clients' messages. When the region of a client holds
  whole messages and perhaps a piece of the next, some number of the messages, in their order and
  each exactly as it was sent, is appended to that client's queue, all of them unless the queue is
  full; no other queue changes and the counters count the new messages. The bytes that are left
  stay in the region, in front. The step is undefined only where the rest to be moved to the front
  overlaps its new place: when more is left than has been copied.\<close>

theorem copy_data_queues:
  assumes l: "linked n (rdma s)" "c < n" and reg: "cfio_rdma_server_get_data c (rdma s) = Some reg"
    and hold: "region_holds c reg s (concat ds @ rest)" "copy_lens s ! c = 0"
    and ds: "\<forall>d \<in> set ds. framed d" "unfinished rest"
    and q: "recv_queues m (rcv (srv s)) qs" "length qs = n"
    and client: "cfio_map_get_client_index_of_server m (client_ids s ! c) = Some (int c)" "client_ids s ! c < client_amount m"
    and arrays: "length (copy_lens s) = n" "length (local_lens s) = n" "length (msg_cnts s) = n" "0 \<le> msg_cnts s ! c"
  shows "\<exists>j q'. j \<le> length ds \<and> recv_queues m q' (qs[c := qs ! c @ take j ds]) \<and>
    (j < length ds \<longrightarrow> free_buf_size (rbuffer q' ! c) < length (ds ! j)) \<and>
    (if 0 < j \<and> length (concat (take j ds)) < length (concat (drop j ds) @ rest)
     then copy_data_to_list m c s = None
     else \<exists>s' reg'. copy_data_to_list m c s = Some s' \<and> srv s' = (srv s)\<lparr>rcv := q'\<rparr> \<and>
       msg_cnts s' = (msg_cnts s)[c := msg_cnts s ! c + int j] \<and>
       msg_clt_cnt s' = msg_clt_cnt s + (if msg_cnts s ! c = 0 \<and> 0 < j then 1 else 0) \<and>
       cfio_rdma_server_get_data c (rdma s') = Some reg' \<and> region_holds c reg' s' (concat (drop j ds) @ rest) \<and>
       copy_lens s' ! c = 0 \<and> linked n (rdma s'))"
  by (rule copy_data_step [OF assms])

section \<open>The size of a region\<close>

text \<open>C35. The size of a client's region at the server. With two clients or more it is positive, the regions of all
  clients fill the receive buffer up to less than one byte each; with one client, 2400 MB as an
  \<open>int\<close> is negative, and the start of the server fails with an allocation error once its other
  parts are initialised.\<close>

theorem region_size_bounds:
  assumes "0 < n" "int n \<le> 2 ^ 31 - 1"
  shows "(2 \<le> n \<longrightarrow> 0 < server_region_size (int n) \<and> int n * server_region_size (int n) \<le> int RECV_BUF_SIZE \<and>
      int RECV_BUF_SIZE < int n * (server_region_size (int n) + 1)) \<and>
    (n = 1 \<longrightarrow> server_region_size (int n) = - 1778384896 \<and>
      (\<forall>m r junks regions addrs junk ids0 io0 lib0 events completed q is' i.
         cfio_recv_init m r junks = Some (CFIO_ERROR_NONE, q) \<longrightarrow> cfio_id_init CFIO_ID_INIT_SERVER ids0 = (CFIO_ERROR_NONE, is') \<longrightarrow>
         cfio_io_init r io0 = (CFIO_ERROR_NONE, i) \<longrightarrow> cfio_map_get_client_num_of_server m r = Some 1 \<longrightarrow>
         cfio_server_init m r junks regions addrs junk ids0 io0 (lib0 :: 'f) events completed = Some (CFIO_ERROR_MALLOC, None)))"
proof -
  have one: "server_region_size 1 = - 1778384896"
    by (simp add: server_region_size_def RECV_BUF_SIZE_def)
  have two: "server_region_size (int n) = int (RECV_BUF_SIZE div n)" if "2 \<le> n"
  proof -
    have "RECV_BUF_SIZE div n \<le> RECV_BUF_SIZE div 2" using that by (intro div_le_mono2) simp_all
    then have "RECV_BUF_SIZE div n < 2 ^ 31" by (simp add: RECV_BUF_SIZE_def)
    then show ?thesis by (simp add: server_region_size_def sint_word_of_nat_small)
  qed
  have "0 < RECV_BUF_SIZE div n" using assms by (simp add: RECV_BUF_SIZE_def div_greater_zero_iff)
  moreover have "n * (RECV_BUF_SIZE div n) \<le> RECV_BUF_SIZE" "RECV_BUF_SIZE < n * (RECV_BUF_SIZE div n + 1)"
    using assms(1) by (simp_all add: mult.commute dividend_less_times_div)
  then have "int n * int (RECV_BUF_SIZE div n) \<le> int RECV_BUF_SIZE" "int RECV_BUF_SIZE < int n * (int (RECV_BUF_SIZE div n) + 1)"
    by (metis of_nat_le_iff of_nat_mult) (metis \<open>RECV_BUF_SIZE < n * (RECV_BUF_SIZE div n + 1)\<close> of_nat_1 of_nat_add of_nat_less_iff of_nat_mult)
  ultimately have "2 \<le> n \<longrightarrow> 0 < server_region_size (int n) \<and> int n * server_region_size (int n) \<le> int RECV_BUF_SIZE \<and>
      int RECV_BUF_SIZE < int n * (server_region_size (int n) + 1)"
    using two by simp
  moreover have "cfio_server_init m r junks regions addrs junk ids0 io0 (lib0 :: 'f) events completed = Some (CFIO_ERROR_MALLOC, None)"
    if "cfio_recv_init m r junks = Some (CFIO_ERROR_NONE, q)" "cfio_id_init CFIO_ID_INIT_SERVER ids0 = (CFIO_ERROR_NONE, is')"
      "cfio_io_init r io0 = (CFIO_ERROR_NONE, i)" "cfio_map_get_client_num_of_server m r = Some 1"
    for m r junks regions addrs junk ids0 io0 lib0 events completed q is' i
    using that one by (simp add: cfio_server_init_def error_codes Let_def)
  ultimately show ?thesis using one by auto
qed

section \<open>Examples\<close>

definition example_daemon :: "nat server_state \<Rightarrow> rdma_server \<Rightarrow> nat daemon" where
  "example_daemon v rd = \<lparr>srv = v, rdma = rd, rank = 24, clients = 4, client_ids = [0, 1, 4, 5], region_size = 64,
     read_addrs = [2, 2, 2, 2], read_dones = [False, False, False, False], local_lens = [0, 0, 0, 0],
     copy_lens = [0, 0, 0, 0], msg_cnts = [1, 1, 1, 1], msg_clt_cnt = 4,
     comm_dones = [False, False, False, False], comm_done_cnt = 0\<rparr>"

theorem io_rounds_serve_witness:
  "\<exists>s s'. io_rounds counting_library (\<lambda>_. 0) map_4_6 s = Some s' \<and> lib (srv s) = 1 \<and> lib (srv s') = (2 :: nat) \<and>
    msg_cnts s = [1, 1, 1, 1] \<and> msg_cnts s' = [0, 0, 0, 0]"
proof -
  let ?rs = "\<lambda>i :: nat. [Create [102] 0 2]"
  from create_example obtain s0 v where v: "performs counting_library (\<lambda>_. 0) map_4_6
      (map (\<lambda>i. (example_clients i, Create [102] 0 2)) [0..<4]) (s0\<lparr>rcv := create_recv\<rparr>) = Some v"
    "lib s0 = 1" "lib v = (2 :: nat)" by blast
  define s where "s = example_daemon (s0\<lparr>rcv := create_recv\<rparr>) undefined"
  have upt: "[0..<4] = [0, 1, 2, 3 :: nat]" by (simp add: upt_rec)
  have "requests_of 4 ?rs = replicate 4 [create_msg]" by (simp add: requests_of_def create_msg_def upt numeral_eq_Suc)
  moreover have "client_get_index create_recv = 0" by (simp add: create_recv_def small_recv_def)
  ultimately have p: "pending_requests map_4_6 4 s ?rs"
    using create_queues by (simp add: pending_requests_def s_def example_daemon_def upt wf_str_def)
  have n: "(0 :: nat) < 4" "\<forall>i < 4 :: nat. 1 \<le> length (?rs i)" "length (?rs 0) = 1" by simp_all
  have C: "\<forall>i < 4. cfio_map_get_client_index_of_server map_4_6 (example_clients i) = Some (int i) \<and>
      example_clients i < client_amount map_4_6" using example_client_index by blast
  have "performs counting_library (\<lambda>_. 0) map_4_6 (round_requests 4 example_clients ?rs 1) (srv s) = Some v"
    using v(1) by (simp add: round_requests_def s_def example_daemon_def)
  from io_rounds_serve [OF n(1) p n(2,1,3) C this] obtain q s' where
    s': "io_rounds counting_library (\<lambda>_. 0) map_4_6 s = Some s'" "srv s' = v\<lparr>rcv := q\<rparr>"
      "pending_requests map_4_6 4 s' (\<lambda>i. drop 1 (?rs i))" by blast
  from s'(3) have "msg_cnts s' = [0, 0, 0, 0]" by (simp add: pending_requests_def upt)
  then show ?thesis using s'(1,2) v(2,3) by (intro exI [of _ s] exI [of _ s']) (simp add: s_def example_daemon_def)
qed

definition wrapped_addr :: cfio_buf_addr where
  "wrapped_addr = \<lparr>signal = 1, a_end = 4, a_free = 1, a_used = 2\<rparr>"

theorem read_data_fetches_witness:
  "\<exists>s :: nat daemon. \<exists>s' ws j. read_data 2 wrapped_addr s = Some s' \<and> posted (rdma s') = posted (rdma s) @ ws \<and>
    unread wrapped_addr [10, 11, 12, 13, 14] (read_addrs s ! 2) = [12, 13, 10] \<and> local_lens s' ! 2 = int j \<and>
    unread wrapped_addr [10, 11, 12, 13, 14] (read_addrs s' ! 2) = drop j [12, 13, 10]"
proof -
  from ready_example obtain rd where l: "linked 4 rd" by blast
  have i: "(2 :: nat) < 4" by simp
  from linked_conn_of [OF l i] obtain k x where x: "client_conn 2 rd = Some (k, x)" "linked_conn x" .
  from x(2) obtain mr where mr: "peer_data_mr x = Some mr" by (auto simp: linked_conn_def)
  let ?s = "example_daemon undefined rd"
  have rd: "rdma ?s = rd" "read_addrs ?s ! 2 = 2" by (simp_all add: example_daemon_def)
  have u: "unread wrapped_addr [10, 11, 12, 13, 14] 2 = [12, 13, 10]"
    by (simp add: unread_def wrapped_addr_def slice_def)
  have "\<exists>s' ws j. read_data 2 wrapped_addr ?s = Some s' \<and> posted (rdma s') = posted (rdma ?s) @ ws \<and>
    j \<le> length (unread wrapped_addr [10, 11, 12, 13, 14] (read_addrs ?s ! 2)) \<and> local_lens s' = (local_lens ?s)[2 := local_lens ?s ! 2 + int j] \<and>
    local_lens s' ! 2 \<le> region_size ?s \<and>
    take (nat (local_lens s' ! 2)) (fetch (mr_addr mr) [10, 11, 12, 13, 14] ws (replicate 64 0)) =
      take (nat (local_lens ?s ! 2)) (replicate 64 0) @ take j (unread wrapped_addr [10, 11, 12, 13, 14] (read_addrs ?s ! 2)) \<and>
    read_ok wrapped_addr (read_addrs s' ! 2) \<and>
    unread wrapped_addr [10, 11, 12, 13, 14] (read_addrs s' ! 2) = drop j (unread wrapped_addr [10, 11, 12, 13, 14] (read_addrs ?s ! 2)) \<and>
    (read_dones s' ! 2 \<longrightarrow> read_dones ?s ! 2 \<or> unread wrapped_addr [10, 11, 12, 13, 14] (read_addrs s' ! 2) = []) \<and>
    (j = 0 \<longrightarrow> local_lens ?s ! 2 = region_size ?s \<or> read_dones s' ! 2 \<or> read_addrs s' ! 2 = 0 \<and> 0 < read_addrs ?s ! 2) \<and>
    rest_reqs (rdma s') ! 2 = rest_reqs (rdma ?s) ! 2 + int (length ws) \<and> linked 4 (rdma s')"
    by (rule read_data_fetches [OF _ i _ mr]) (use l x in \<open>simp_all add: example_daemon_def addr_ok_def read_ok_def wrapped_addr_def\<close>)
  then obtain s' ws j where "read_data 2 wrapped_addr ?s = Some s'" "posted (rdma s') = posted (rdma ?s) @ ws"
    "local_lens s' = (local_lens ?s)[2 := local_lens ?s ! 2 + int j]"
    "unread wrapped_addr [10, 11, 12, 13, 14] (read_addrs s' ! 2) = drop j [12, 13, 10]" unfolding rd u by blast
  then show ?thesis unfolding u [symmetric]
    by (intro exI [of _ ?s] exI [of _ s'] exI [of _ ws] exI [of _ j]) (simp add: example_daemon_def)
qed

theorem copy_data_queues_witness:
  "\<exists>s :: nat daemon. cfio_rdma_server_get_data 0 (rdma s) = Some (message (Enddef 7) @ [1, 2]) \<and>
    copy_data_to_list map_4_6 0 s \<noteq> None"
proof -
  from ready_example obtain rd0 where l0: "linked 4 rd0" by blast
  define rd where "rd = rd0\<lparr>data_regions := replicate 4 (message (Enddef 7) @ [1, 2])\<rparr>"
  have i: "(0 :: nat) < 4" by simp
  have l: "linked 4 rd" using l0 linked_regions(1) [of "replicate 4 (message (Enddef 7) @ [1, 2])" rd0 4]
    by (simp add: rd_def linked_def)
  from linked_conn_of [OF l i] obtain k x where x: "client_conn 0 rd = Some (k, x)" "region x = k" "k < 4" .
  then have reg: "cfio_rdma_server_get_data 0 rd = Some (message (Enddef 7) @ [1, 2])"
    by (simp add: cfio_rdma_server_get_data_def) (simp add: rd_def)
  define q where "q = small_recv [[], [], [], []] [empty_buf, empty_buf, empty_buf, empty_buf]"
  define s where "s = (example_daemon (undefined\<lparr>rcv := q\<rparr>) rd)\<lparr>local_lens := [18, 0, 0, 0]\<rparr>"
  have rdma: "rdma s = rd" by (simp add: s_def example_daemon_def)
  have len: "length (message (Enddef 7)) = 16" by (simp add: message_def)
  have hold: "region_holds 0 (message (Enddef 7) @ [1, 2]) s (concat [message (Enddef 7)] @ [1, 2])"
    using len by (simp add: region_holds_def s_def example_daemon_def slice_def)
  have ds: "\<forall>d \<in> set [message (Enddef 7)]. framed d" "unfinished [1, 2]"
    using framed_message [of "Enddef 7"] len by (simp_all add: unfinished_def)
  have q: "recv_queues map_4_6 (rcv (srv s)) [[], [], [], []]" "length [[], [], [], [] :: byte list list] = 4"
    using recv_queues_first [OF slot_holds_empty [OF empty_buf_inv]] by (simp_all add: s_def example_daemon_def q_def)
  have cl: "cfio_map_get_client_index_of_server map_4_6 (client_ids s ! 0) = Some (int 0)" "client_ids s ! 0 < client_amount map_4_6"
    using client_0_index client_0_amount by (simp_all add: s_def example_daemon_def)
  have ar: "copy_lens s ! 0 = 0" "length (copy_lens s) = 4" "length (local_lens s) = 4" "length (msg_cnts s) = 4" "0 \<le> msg_cnts s ! 0"
    by (simp_all add: s_def example_daemon_def)
  have "copy_data_to_list map_4_6 0 s \<noteq> None"
  proof
    assume none: "copy_data_to_list map_4_6 0 s = None"
    from copy_data_queues [OF _ i _ hold ar(1) ds q cl ar(2-5), unfolded rdma, OF l reg] none
    obtain j where "0 < j \<and> length (concat (take j [message (Enddef 7)])) < length (concat (drop j [message (Enddef 7)]) @ [1, 2])"
      "j \<le> length [message (Enddef 7)]" by (metis option.distinct(1))
    then show False using len by (cases j) simp_all
  qed
  with reg rdma show ?thesis by (intro exI [of _ s]) simp
qed

theorem region_size_bounds_witness:
  "0 < server_region_size 24 \<and> 24 * server_region_size 24 \<le> int RECV_BUF_SIZE \<and>
    (\<exists>x :: (int \<times> nat daemon option) option. True)"
proof -
  have "(0 :: nat) < 24" "int 24 \<le> 2 ^ 31 - 1" by simp_all
  from region_size_bounds [OF this, where ?'f = nat] show ?thesis by simp
qed

end
