(* ===== verification/Cfio.thy ===== *)
theory Cfio
  imports IdClient Server
begin

text \<open>
  The interface of the library (\<open>client/C/cfio.c\<close>): the start and the end of a process in its
  role, the calls of a client, and the entry points for Fortran. A call assigns or looks up an
  identifier in the client's tables and packs a message for the server. A pointer argument that
  may be NULL is an \<open>option\<close>; where only its being NULL matters it is a \<open>bool\<close> that says that
  it is not. A value stored through a pointer is part of the result.
\<close>

section \<open>The state of a client\<close>

record api =
  cids :: id_state
  sender :: client
  ring :: cfio_buf

text \<open>Packing a message; the calls drop the answer of \<open>send.c\<close>.\<close>

definition forward :: "(client \<Rightarrow> cfio_buf \<Rightarrow> send_result) \<Rightarrow> api \<Rightarrow> api option" where
  "forward send s =
     do { (ret, c, b) \<leftarrow> send (sender s) (ring s); Some (s\<lparr>sender := c, ring := b\<rparr>) }"

section \<open>Definitions\<close>

definition cfio_create :: "byte list option \<Rightarrow> i32 \<Rightarrow> bool \<Rightarrow> api \<Rightarrow> (int \<times> i32 option \<times> api) option" where
  "cfio_create path cmode ncidp s =
     (case path of
        Some path \<Rightarrow>
          if ncidp then do {
            (ret, ncid, t) \<leftarrow> cfio_id_assign_nc (cids s);
            let s = s\<lparr>cids := t\<rparr>;
            if ret < 0 then Some (ret, Some ncid, s)
            else do {
              s \<leftarrow> forward (cfio_send_create path cmode ncid) s;
              Some (CFIO_ERROR_NONE, Some ncid, s)
            }
          }
          else Some (CFIO_ERROR_ARG_NULL, None, s)
      | None \<Rightarrow> Some (CFIO_ERROR_ARG_NULL, None, s))"

definition cfio_def_dim ::
    "i32 \<Rightarrow> byte list option \<Rightarrow> u64 \<Rightarrow> bool \<Rightarrow> api \<Rightarrow> (int \<times> i32 option \<times> api) option" where
  "cfio_def_dim ncid name len idp s =
     (case name of
        Some name \<Rightarrow>
          if idp then do {
            (ret, dimid, t) \<leftarrow> cfio_id_assign_dim ncid name (cids s);
            let s = s\<lparr>cids := t\<rparr>;
            if ret < 0 then Some (ret, dimid, s)
            else do {
              i \<leftarrow> dimid;
              s \<leftarrow> forward (cfio_send_def_dim ncid name len i) s;
              Some (CFIO_ERROR_NONE, dimid, s)
            }
          }
          else Some (CFIO_ERROR_ARG_NULL, None, s)
      | None \<Rightarrow> Some (CFIO_ERROR_ARG_NULL, None, s))"

definition cfio_def_var ::
    "i32 \<Rightarrow> byte list option \<Rightarrow> i32 \<Rightarrow> i32 \<Rightarrow> i32 list \<Rightarrow> bool \<Rightarrow> api \<Rightarrow> (int \<times> i32 option \<times> api) option" where
  "cfio_def_var ncid name xtype n_dims dimids varidp s =
     (case name of
        Some name \<Rightarrow>
          if varidp then do {
            (ret, varid, t) \<leftarrow> cfio_id_assign_var ncid name n_dims dimids (cids s);
            let s = s\<lparr>cids := t\<rparr>;
            if ret < 0 then Some (ret, varid, s)
            else do {
              i \<leftarrow> varid;
              s \<leftarrow> forward (cfio_send_def_var ncid name xtype n_dims dimids i) s;
              Some (CFIO_ERROR_NONE, varid, s)
            }
          }
          else Some (CFIO_ERROR_ARG_NULL, None, s)
      | None \<Rightarrow> Some (CFIO_ERROR_ARG_NULL, None, s))"

text \<open>The answer of \<open>cfio_id_assign_att\<close>, whose length is an \<open>int\<close>, is not looked at.\<close>

definition cfio_put_att ::
    "i32 \<Rightarrow> i32 \<Rightarrow> byte list \<Rightarrow> i32 \<Rightarrow> u64 \<Rightarrow> byte list \<Rightarrow> api \<Rightarrow> (int \<times> api) option" where
  "cfio_put_att ncid varid name xtype len op s =
     do {
       (ret, t) \<leftarrow> cfio_id_assign_att ncid varid name xtype (ucast len) op (cids s);
       s \<leftarrow> forward (cfio_send_put_att ncid varid name xtype len op) (s\<lparr>cids := t\<rparr>);
       Some (CFIO_ERROR_NONE, s)
     }"

definition cfio_enddef :: "i32 \<Rightarrow> api \<Rightarrow> (int \<times> api) option" where
  "cfio_enddef ncid s =
     do { s \<leftarrow> forward (cfio_send_enddef ncid) s; Some (CFIO_ERROR_NONE, s) }"

section \<open>Inquiries\<close>

definition cfio_inq_dimid :: "i32 \<Rightarrow> byte list \<Rightarrow> api \<Rightarrow> (int \<times> i32 option) option" where
  "cfio_inq_dimid ncid name s =
     do {
       (ret, dimid) \<leftarrow> cfio_id_inq_dim ncid name (cids s);
       Some (if ret < 0 then ret else CFIO_ERROR_NONE, dimid)
     }"

definition cfio_inq_varid :: "i32 \<Rightarrow> byte list \<Rightarrow> api \<Rightarrow> (int \<times> i32 option) option" where
  "cfio_inq_varid ncid name s =
     do {
       (ret, varid) \<leftarrow> cfio_id_inq_var ncid name (cids s);
       Some (if ret < 0 then ret else CFIO_ERROR_NONE, varid)
     }"

definition cfio_inq_att :: "i32 \<Rightarrow> i32 \<Rightarrow> byte list \<Rightarrow> api \<Rightarrow> int option" where
  "cfio_inq_att ncid varid name s =
     do {
       ret \<leftarrow> cfio_id_inq_att ncid varid name (cids s);
       Some (if ret < 0 then ret else CFIO_ERROR_NONE)
     }"

text \<open>The test of the result only guards a line of the log.\<close>

definition cfio_inq_varndims :: "i32 \<Rightarrow> i32 \<Rightarrow> api \<Rightarrow> (int \<times> i32 option) option" where
  "cfio_inq_varndims ncid varid s =
     do {
       (ret, n_dims) \<leftarrow> cfio_id_inq_varndims ncid varid (cids s);
       Some (CFIO_ERROR_NONE, n_dims)
     }"

definition cfio_inq_vardimid :: "i32 \<Rightarrow> i32 \<Rightarrow> api \<Rightarrow> (int \<times> i32 list) option" where
  "cfio_inq_vardimid ncid varid s =
     do {
       (ret, dimids) \<leftarrow> cfio_id_inq_vardimid ncid varid (cids s);
       Some (if ret < 0 then ret else CFIO_ERROR_NONE, dimids)
     }"

section \<open>Data\<close>

definition put_vara_typed ::
    "cfio_type \<Rightarrow> i32 \<Rightarrow> i32 \<Rightarrow> i32 \<Rightarrow> u64 list option \<Rightarrow> u64 list option \<Rightarrow> byte list option \<Rightarrow> api \<Rightarrow>
     (int \<times> api) option" where
  "put_vara_typed t ncid varid n_dims start count fp s =
     (case (start, count, fp) of
        (Some start, Some count, Some fp) \<Rightarrow> do {
          s \<leftarrow> forward (cfio_send_put_vara ncid varid n_dims start count (cfio_type_code t) fp) s;
          Some (CFIO_ERROR_NONE, s)
        }
      | _ \<Rightarrow> Some (CFIO_ERROR_ARG_NULL, s))"

definition cfio_put_vara_float ::
    "i32 \<Rightarrow> i32 \<Rightarrow> i32 \<Rightarrow> u64 list option \<Rightarrow> u64 list option \<Rightarrow> byte list option \<Rightarrow> api \<Rightarrow> (int \<times> api) option" where
  "cfio_put_vara_float = put_vara_typed CFIO_FLOAT"

definition cfio_put_vara_double ::
    "i32 \<Rightarrow> i32 \<Rightarrow> i32 \<Rightarrow> u64 list option \<Rightarrow> u64 list option \<Rightarrow> byte list option \<Rightarrow> api \<Rightarrow> (int \<times> api) option" where
  "cfio_put_vara_double = put_vara_typed CFIO_DOUBLE"

definition cfio_put_vara_int ::
    "i32 \<Rightarrow> i32 \<Rightarrow> i32 \<Rightarrow> u64 list option \<Rightarrow> u64 list option \<Rightarrow> byte list option \<Rightarrow> api \<Rightarrow> (int \<times> api) option" where
  "cfio_put_vara_int = put_vara_typed CFIO_INT"

definition cfio_put_vara_text ::
    "i32 \<Rightarrow> i32 \<Rightarrow> i32 \<Rightarrow> u64 list option \<Rightarrow> u64 list option \<Rightarrow> byte list option \<Rightarrow> api \<Rightarrow> (int \<times> api) option" where
  "cfio_put_vara_text = put_vara_typed CFIO_CHAR"

definition cfio_io_end :: "api \<Rightarrow> (int \<times> api) option" where
  "cfio_io_end s =
     do { s \<leftarrow> forward cfio_send_io_end s; Some (CFIO_ERROR_NONE, s) }"

definition cfio_close :: "i32 \<Rightarrow> api \<Rightarrow> (int \<times> api) option" where
  "cfio_close ncid s =
     do {
       (ret, t) \<leftarrow> cfio_id_remove_nc ncid (cids s);
       let s = s\<lparr>cids := t\<rparr>;
       if ret < 0 then Some (ret, s)
       else do { s \<leftarrow> forward (cfio_send_close ncid) s; Some (CFIO_ERROR_NONE, s) }
     }"

section \<open>Start and end of a process\<close>

text \<open>
  What the surroundings give a process: the memory that allocation hands out, the messages and
  completions of the network, the output library and its files, and the address records that
  the clients of a server write.
\<close>

record 'f world =
  send_memory :: "byte list"
  addr_memory :: cfio_buf_addr
  recv_memory :: "byte list list"
  region_memory :: "byte list list"
  addrs_memory :: "cfio_buf_addr list"
  msg_memory :: cfio_buf_addr
  ids_memory :: id_state
  io_memory :: io_state
  read_memory :: "int list"
  map_memory :: map_state
  byte_memory :: "nat \<Rightarrow> byte"
  connections :: "cm_event list"
  completed :: "wc list list"
  client_writes :: "(nat \<times> cfio_buf_addr) list list"
  files :: 'f
  pnetcdf :: "'f pnetcdf"

datatype 'f process =
    Client_process api
  | Server_process "'f daemon"
  | Blank_process

text \<open>
  The quotient of two \<open>int\<close>s as \<open>double\<close>s, truncated, is the truncated quotient. The group of
  the servers must be made of ranks that exist; otherwise MPI ends the process. A server returns
  from here when it has served all its clients.
\<close>

definition wanted_servers :: "int \<Rightarrow> int \<Rightarrow> int option" where
  "wanted_servers client_count ratio =
     do { best \<leftarrow> cdiv client_count ratio; Some (if best \<le> 0 then 1 else best) }"

definition cfio_init ::
    "'f world \<Rightarrow> bool \<Rightarrow> int \<Rightarrow> int \<Rightarrow> int \<Rightarrow> int \<Rightarrow> int \<Rightarrow> int \<Rightarrow> int \<Rightarrow>
     (int \<times> map_state \<times> 'f process option) option" where
  "cfio_init w initialized size' rank' world_comm servers_comm x_proc_num y_proc_num ratio =
     (if \<not> initialized then Some (-1, map_memory w, None)
      else do {
        let client_count = x_proc_num * y_proc_num;
        best_server_amount \<leftarrow> wanted_servers client_count ratio;
        let server_proc_num = best_server_amount;
        (if 0 \<le> client_count \<and> client_count + server_proc_num \<le> size' then Some () else None);
        (ret, m) \<leftarrow> cfio_map_init x_proc_num y_proc_num server_proc_num best_server_amount world_comm servers_comm (map_memory w);
        if ret < 0 then Some (ret, m, None)
        else do {
          t \<leftarrow> cfio_map_proc_type m rank';
          case t of
            CFIO_MAP_TYPE_SERVER \<Rightarrow> do {
              (ret, d) \<leftarrow> cfio_server_init m rank' (recv_memory w) (region_memory w) (addrs_memory w) (msg_memory w)
                (ids_memory w) (io_memory w) (files w) (connections w) (completed w);
              if ret < 0 then Some (ret, m, None)
              else do {
                d \<leftarrow> d;
                (ret, d) \<leftarrow> cfio_server_start (pnetcdf w) (byte_memory w) m (read_memory w) (client_writes w) d;
                Some (if ret < 0 then ret else CFIO_ERROR_NONE, m, Some (Server_process d))
              }
            }
          | CFIO_MAP_TYPE_CLIENT \<Rightarrow> do {
              (c, b) \<leftarrow> cfio_send_init (send_memory w) (addr_memory w);
              let (ret, t) = cfio_id_init CFIO_ID_INIT_CLIENT (ids_memory w);
              if ret < 0 then Some (ret, m, None)
              else Some (CFIO_ERROR_NONE, m, Some (Client_process \<lparr>cids = t, sender = c, ring = b\<rparr>))
            }
          | CFIO_MAP_TYPE_BLANK \<Rightarrow> Some (CFIO_ERROR_NONE, m, Some Blank_process)
        }
      })"

definition cfio_proc_type :: "map_state \<Rightarrow> int \<Rightarrow> proc_type option" where
  "cfio_proc_type m rank' = cfio_map_proc_type m rank'"

text \<open>\<open>cfio_send_final\<close> gives back the ring.\<close>

definition cfio_finalize ::
    "map_state \<Rightarrow> cfio_buf_addr \<Rightarrow> cm_event list \<Rightarrow> bool \<Rightarrow> 'f process \<Rightarrow> (int \<times> 'f process) option" where
  "cfio_finalize m junk events finalized p =
     (if finalized then Some (CFIO_ERROR_FINAL_AFTER_MPI, p)
      else case p of
          Client_process s \<Rightarrow> do {
            s \<leftarrow> forward cfio_send_io_end s;
            s \<leftarrow> forward cfio_send_io_done s;
            let (ret, t) = cfio_id_final (cids s);
            Some (CFIO_ERROR_NONE, Client_process (s\<lparr>cids := t, ring := (ring s)\<lparr>bmem := []\<rparr>\<rparr>))
          }
        | Server_process d \<Rightarrow> do {
            (ret, d) \<leftarrow> cfio_server_final m junk events d;
            Some (CFIO_ERROR_NONE, Server_process d)
          }
        | Blank_process \<Rightarrow> Some (CFIO_ERROR_NONE, Blank_process))"

section \<open>Entry points for Fortran\<close>

text \<open>
  The arguments come as pointers into the memory of the caller, of which a list holds what lies
  behind the pointer. A name is ended with a NUL behind its last character. An allocation of a
  negative number of elements asks for more than there is, and fails; one of none succeeds.
\<close>

definition terminate_at :: "byte list \<Rightarrow> i32 \<Rightarrow> byte list option" where
  "terminate_at mem len =
     (if 0 \<le> sint len \<and> nat (sint len) < length mem then Some (mem[nat (sint len) := 0]) else None)"

text \<open>\<open>for(i = 0, j = n - 1; i < n; i ++, j --) dst[i] = f(src[j])\<close>\<close>

function fill_reversed :: "(i32 \<Rightarrow> 'a) \<Rightarrow> i32 list \<Rightarrow> int \<Rightarrow> int \<Rightarrow> int \<Rightarrow> 'a list \<Rightarrow> 'a list option" where
  "fill_reversed f xs n i j ys =
     (if i < n
      then if 0 \<le> j \<and> nat j < length xs
           then fill_reversed f xs n (i + 1) (j - 1) (ys @ [f (xs ! nat j)])
           else None
      else Some ys)"
  by pat_completeness auto

termination
  by (relation "measure (\<lambda>(f, xs, n, i, j, ys). nat (n - i))") auto

declare fill_reversed.simps [simp del]

definition cfio_init_c ::
    "'f world \<Rightarrow> bool \<Rightarrow> int \<Rightarrow> int \<Rightarrow> int \<Rightarrow> int \<Rightarrow> i32 \<Rightarrow> i32 \<Rightarrow> i32 \<Rightarrow>
     (int \<times> map_state \<times> 'f process option) option" where
  "cfio_init_c w initialized size' rank' world_comm servers_comm x_proc_num y_proc_num ratio =
     cfio_init w initialized size' rank' world_comm servers_comm (sint x_proc_num) (sint y_proc_num) (sint ratio)"

definition cfio_finalize_c ::
    "map_state \<Rightarrow> cfio_buf_addr \<Rightarrow> cm_event list \<Rightarrow> bool \<Rightarrow> 'f process \<Rightarrow> (int \<times> 'f process) option" where
  "cfio_finalize_c m junk events finalized p = cfio_finalize m junk events finalized p"

text \<open>The rank that is passed is not used: the type is that of the calling process.\<close>

definition cfio_proc_type_c :: "map_state \<Rightarrow> int \<Rightarrow> i32 \<Rightarrow> proc_type option" where
  "cfio_proc_type_c m rank' r = cfio_proc_type m rank'"

definition cfio_create_c ::
    "byte list \<Rightarrow> i32 \<Rightarrow> i32 \<Rightarrow> api \<Rightarrow> (int \<times> i32 option \<times> byte list \<times> api) option" where
  "cfio_create_c path len cmode s =
     do {
       path \<leftarrow> terminate_at path len;
       str \<leftarrow> c_string path;
       (ierr, ncid, s) \<leftarrow> cfio_create (Some str) cmode True s;
       Some (ierr, ncid, path, s)
     }"

definition cfio_def_dim_c ::
    "i32 \<Rightarrow> byte list \<Rightarrow> i32 \<Rightarrow> i32 \<Rightarrow> api \<Rightarrow> (int \<times> i32 option \<times> byte list \<times> api) option" where
  "cfio_def_dim_c ncid name name_len len s =
     do {
       let len = scast len;
       name \<leftarrow> terminate_at name name_len;
       str \<leftarrow> c_string name;
       (ierr, dimid, s) \<leftarrow> cfio_def_dim ncid (Some str) len True s;
       Some (ierr, dimid, name, s)
     }"

definition cfio_def_var_c ::
    "i32 \<Rightarrow> byte list \<Rightarrow> i32 \<Rightarrow> i32 \<Rightarrow> i32 \<Rightarrow> i32 list \<Rightarrow> api \<Rightarrow>
     (int \<times> i32 option \<times> byte list \<times> api) option" where
  "cfio_def_var_c ncid name name_len xtype n_dims dimids s =
     (if n_dims \<noteq> 0 \<and> sint n_dims < 0 then Some (CFIO_ERROR_MALLOC, None, name, s)
      else do {
        dims \<leftarrow> (if n_dims \<noteq> 0 then fill_reversed (\<lambda>w. w) dimids (sint n_dims) 0 (sint n_dims - 1) [] else Some []);
        name \<leftarrow> terminate_at name name_len;
        str \<leftarrow> c_string name;
        (ierr, varid, s) \<leftarrow> cfio_def_var ncid (Some str) xtype n_dims dims True s;
        Some (ierr, varid, name, s)
      })"

text \<open>The global attributes have variable 0 in Fortran and -1 in C.\<close>

definition cfio_put_att_c ::
    "i32 \<Rightarrow> i32 \<Rightarrow> byte list \<Rightarrow> i32 \<Rightarrow> i32 \<Rightarrow> i32 \<Rightarrow> byte list \<Rightarrow> api \<Rightarrow> (int \<times> byte list \<times> api) option" where
  "cfio_put_att_c ncid varid name name_len xtype len op s =
     do {
       let varid = (if varid = 0 then -1 else varid);
       name \<leftarrow> terminate_at name name_len;
       str \<leftarrow> c_string name;
       (ierr, s) \<leftarrow> cfio_put_att ncid varid str xtype (scast len) op s;
       Some (ierr, name, s)
     }"

definition put_vara_c ::
    "(i32 \<Rightarrow> i32 \<Rightarrow> i32 \<Rightarrow> u64 list option \<Rightarrow> u64 list option \<Rightarrow> byte list option \<Rightarrow> api \<Rightarrow> (int \<times> api) option) \<Rightarrow>
     i32 \<Rightarrow> i32 \<Rightarrow> i32 \<Rightarrow> i32 list \<Rightarrow> i32 list \<Rightarrow> byte list \<Rightarrow> api \<Rightarrow> (int \<times> api) option" where
  "put_vara_c put ncid varid n_dims start count fp s =
     (if sint n_dims < 0 then Some (CFIO_ERROR_MALLOC, s)
      else do {
        start \<leftarrow> fill_reversed (\<lambda>w. scast (w - 1)) start (sint n_dims) 0 (sint n_dims - 1) [];
        count \<leftarrow> fill_reversed scast count (sint n_dims) 0 (sint n_dims - 1) [];
        put ncid varid n_dims (Some start) (Some count) (Some fp) s
      })"

definition cfio_put_vara_float_c ::
    "i32 \<Rightarrow> i32 \<Rightarrow> i32 \<Rightarrow> i32 list \<Rightarrow> i32 list \<Rightarrow> byte list \<Rightarrow> api \<Rightarrow> (int \<times> api) option" where
  "cfio_put_vara_float_c = put_vara_c cfio_put_vara_float"

definition cfio_put_vara_double_c ::
    "i32 \<Rightarrow> i32 \<Rightarrow> i32 \<Rightarrow> i32 list \<Rightarrow> i32 list \<Rightarrow> byte list \<Rightarrow> api \<Rightarrow> (int \<times> api) option" where
  "cfio_put_vara_double_c = put_vara_c cfio_put_vara_double"

definition cfio_put_vara_int_c ::
    "i32 \<Rightarrow> i32 \<Rightarrow> i32 \<Rightarrow> i32 list \<Rightarrow> i32 list \<Rightarrow> byte list \<Rightarrow> api \<Rightarrow> (int \<times> api) option" where
  "cfio_put_vara_int_c = put_vara_c cfio_put_vara_int"

definition cfio_put_vara_text_c ::
    "i32 \<Rightarrow> i32 \<Rightarrow> i32 \<Rightarrow> i32 list \<Rightarrow> i32 list \<Rightarrow> byte list \<Rightarrow> api \<Rightarrow> (int \<times> api) option" where
  "cfio_put_vara_text_c = put_vara_c cfio_put_vara_text"

text \<open>\<open>snprintf\<close> reads its argument up to the NUL and keeps as many characters as there is room.\<close>

definition copy_name :: "byte list \<Rightarrow> i32 \<Rightarrow> byte list option" where
  "copy_name xs len =
     (if 0 \<le> sint len then do { str \<leftarrow> c_string xs; Some (take (nat (sint len)) str) } else None)"

definition cfio_inq_dimid_c :: "i32 \<Rightarrow> byte list \<Rightarrow> i32 \<Rightarrow> api \<Rightarrow> (int \<times> i32 option) option" where
  "cfio_inq_dimid_c ncid name len s = do { name \<leftarrow> copy_name name len; cfio_inq_dimid ncid name s }"

definition cfio_inq_varid_c :: "i32 \<Rightarrow> byte list \<Rightarrow> i32 \<Rightarrow> api \<Rightarrow> (int \<times> i32 option) option" where
  "cfio_inq_varid_c ncid name len s = do { name \<leftarrow> copy_name name len; cfio_inq_varid ncid name s }"

definition cfio_inq_att_c :: "i32 \<Rightarrow> i32 \<Rightarrow> byte list \<Rightarrow> i32 \<Rightarrow> api \<Rightarrow> int option" where
  "cfio_inq_att_c ncid varid name len s = do { name \<leftarrow> copy_name name len; cfio_inq_att ncid varid name s }"

definition cfio_inq_varndims_c :: "i32 \<Rightarrow> i32 \<Rightarrow> api \<Rightarrow> (int \<times> i32 option) option" where
  "cfio_inq_varndims_c = cfio_inq_varndims"

definition cfio_inq_vardimid_c :: "i32 \<Rightarrow> i32 \<Rightarrow> api \<Rightarrow> (int \<times> i32 list) option" where
  "cfio_inq_vardimid_c = cfio_inq_vardimid"

definition cfio_enddef_c :: "i32 \<Rightarrow> api \<Rightarrow> (int \<times> api) option" where
  "cfio_enddef_c = cfio_enddef"

definition cfio_close_c :: "i32 \<Rightarrow> api \<Rightarrow> (int \<times> api) option" where
  "cfio_close_c = cfio_close"

definition cfio_io_end_c :: "api \<Rightarrow> (int \<times> api) option" where
  "cfio_io_end_c = cfio_io_end"

end
