(* ===== verification/ApiCalls.thy ===== *)
theory ApiCalls
  imports Cfio
begin

text \<open>
  What the calls of \<open>cfio.c\<close> do, told without tables and rings: a call changes the names that
  the client knows, as maps from names to identifiers, and sends at most one request, in which
  the new identifier stands. The entry points for Fortran turn the order of the dimensions round.
\<close>

section \<open>Calls as values\<close>

datatype api_call =
    Call_create "byte list option" i32 bool
  | Call_def_dim i32 "byte list option" u64 bool
  | Call_def_var i32 "byte list option" i32 "i32 list" bool
  | Call_put_att i32 i32 "byte list" cfio_type "byte list"
  | Call_enddef i32
  | Call_put_vara cfio_type i32 i32 "u64 list" "u64 list" "byte list option"
  | Call_io_end
  | Call_close i32

abbreviation no_id :: "(int \<times> api) option \<Rightarrow> (int \<times> i32 option \<times> api) option" where
  "no_id \<equiv> map_option (\<lambda>(ret, s). (ret, None, s))"

primrec run_call :: "api_call \<Rightarrow> api \<Rightarrow> (int \<times> i32 option \<times> api) option" where
  "run_call (Call_create path cmode ptr) s = cfio_create path cmode ptr s"
| "run_call (Call_def_dim c name len ptr) s = cfio_def_dim c name len ptr s"
| "run_call (Call_def_var c name xtype dimids ptr) s =
     cfio_def_var c name xtype (word_of_nat (length dimids)) dimids ptr s"
| "run_call (Call_put_att c v name t data) s =
     no_id (cfio_put_att c v name (cfio_type_code t) (word_of_nat (length data div type_size t)) data s)"
| "run_call (Call_enddef c) s = no_id (cfio_enddef c s)"
| "run_call (Call_put_vara t c v start count fp) s =
     no_id (put_vara_typed t c v (word_of_nat (length start)) (Some start) (Some count) fp s)"
| "run_call Call_io_end s = no_id (cfio_io_end s)"
| "run_call (Call_close c) s = no_id (cfio_close c s)"

section \<open>The specification\<close>

text \<open>The request that a successful call sends, with the identifier it returns.\<close>

primrec request_of :: "api_call \<Rightarrow> i32 option \<Rightarrow> request option" where
  "request_of (Call_create path cmode ptr) i =
     (case (path, i) of (Some path, Some i) \<Rightarrow> Some (Create path cmode i) | _ \<Rightarrow> None)"
| "request_of (Call_def_dim c name len ptr) i =
     (case (name, i) of (Some name, Some i) \<Rightarrow> Some (Def_dim c name len i) | _ \<Rightarrow> None)"
| "request_of (Call_def_var c name xtype dimids ptr) i =
     (case (name, i) of (Some name, Some i) \<Rightarrow> Some (Def_var c name xtype dimids i) | _ \<Rightarrow> None)"
| "request_of (Call_put_att c v name t data) i = Some (Put_att c v name t data)"
| "request_of (Call_enddef c) i = Some (Enddef c)"
| "request_of (Call_put_vara t c v start count fp) i =
     (case fp of Some fp \<Rightarrow> Some (Put_vara c v start count t fp) | None \<Rightarrow> None)"
| "request_of Call_io_end i = None"
| "request_of (Call_close c) i = Some (Close c)"

text \<open>The effect of a successful call on the names.\<close>

primrec names_after :: "api_call \<Rightarrow> i32 option \<Rightarrow> id_state \<Rightarrow> id_state \<Rightarrow> bool" where
  "names_after (Call_create path cmode ptr) i t t' \<longleftrightarrow>
     (\<exists>c. i = Some c \<and> client_map t (c, 0, 0) = None \<and> client_map t' (c, 0, 0) \<noteq> None \<and>
        vars_of t' c = [NC_GLOBAL_NAME \<mapsto> NC_GLOBAL] \<and> dims_of t' c = Map.empty \<and> only_file c t t')"
| "names_after (Call_def_dim c name len ptr) i t t' \<longleftrightarrow>
     (\<exists>n. name = Some n \<and> i \<noteq> None \<and> dims_of t' c = (dims_of t c)(n := i) \<and>
        (dims_of t c n = None \<longrightarrow> the i \<notin> ran (dims_of t c)) \<and> (dims_of t c n \<noteq> None \<longrightarrow> t' = t) \<and>
        vars_of t' c = vars_of t c \<and> only_file c t t')"
| "names_after (Call_def_var c name xtype dimids ptr) i t t' \<longleftrightarrow>
     (\<exists>n. name = Some n \<and> i \<noteq> None \<and> vars_of t' c = (vars_of t c)(n := i) \<and>
        (vars_of t c n = None \<longrightarrow> the i \<notin> ran (vars_of t c)) \<and> (vars_of t c n \<noteq> None \<longrightarrow> t' = t) \<and>
        dims_of t' c = dims_of t c \<and> only_file c t t')"
| "names_after (Call_put_att c v name t data) i s s' \<longleftrightarrow>
     (\<forall>k. vars_of s' k = vars_of s k \<and> dims_of s' k = dims_of s k)"
| "names_after (Call_enddef c) i t t' \<longleftrightarrow> t' = t"
| "names_after (Call_put_vara ty c v start count fp) i t t' \<longleftrightarrow> t' = t"
| "names_after Call_io_end i t t' \<longleftrightarrow> t' = t"
| "names_after (Call_close c) i t t' \<longleftrightarrow> client_map t' = forget c (client_map t)"

text \<open>When a call is refused, with which answer.\<close>

primrec refusal :: "api_call \<Rightarrow> id_state \<Rightarrow> int option" where
  "refusal (Call_create path cmode ptr) t = (if path = None \<or> \<not> ptr then Some CFIO_ERROR_ARG_NULL else None)"
| "refusal (Call_def_dim c name len ptr) t =
     (if name = None \<or> \<not> ptr then Some CFIO_ERROR_ARG_NULL
      else if client_map t (c, 0, 0) = None then Some CFIO_ERROR_NC_NO_EXIST else None)"
| "refusal (Call_def_var c name xtype dimids ptr) t =
     (if name = None \<or> \<not> ptr then Some CFIO_ERROR_ARG_NULL
      else if client_map t (c, 0, 0) = None then Some CFIO_ERROR_NC_NO_EXIST else None)"
| "refusal (Call_put_att c v name ty data) t = None"
| "refusal (Call_enddef c) t = None"
| "refusal (Call_put_vara ty c v start count fp) t = (if fp = None then Some CFIO_ERROR_ARG_NULL else None)"
| "refusal Call_io_end t = None"
| "refusal (Call_close c) t = (if client_map t (c, 0, 0) = None then Some CFIO_ERROR_NC_NO_EXIST else None)"

text \<open>What the caller must see to: counters that can still go up, well-formed arguments, and a
  message that is smaller than the ring.\<close>

primrec counters_free :: "api_call \<Rightarrow> id_state \<Rightarrow> bool" where
  "counters_free (Call_create path cmode ptr) t \<longleftrightarrow> sint (open_nc_a t) < 2 ^ 31 - 1"
| "counters_free (Call_def_dim c name len ptr) t \<longleftrightarrow>
     (\<forall>f. client_map t (c, 0, 0) = Some f \<longrightarrow> sint (client_dim_a f) < 2 ^ 31 - 1)"
| "counters_free (Call_def_var c name xtype dimids ptr) t \<longleftrightarrow>
     (\<forall>f. client_map t (c, 0, 0) = Some f \<longrightarrow> sint (client_var_a f) < 2 ^ 31 - 1)"
| "counters_free (Call_put_att c v name ty data) t \<longleftrightarrow> v \<noteq> 0"
| "counters_free (Call_enddef c) t \<longleftrightarrow> True"
| "counters_free (Call_put_vara ty c v start count fp) t \<longleftrightarrow> True"
| "counters_free Call_io_end t \<longleftrightarrow> True"
| "counters_free (Call_close c) t \<longleftrightarrow> True"

definition fits_ring :: "request \<Rightarrow> api \<Rightarrow> bool" where
  "fits_ring r s \<longleftrightarrow> wf_request r \<and> length (message r) < bsize (ring s)"

definition valid_call :: "api_call \<Rightarrow> api \<Rightarrow> bool" where
  "valid_call call s \<longleftrightarrow> counters_free call (cids s) \<and> (\<forall>i r. request_of call i = Some r \<longrightarrow> fits_ring r s)"

lemma valid_fits: "valid_call call s \<Longrightarrow> request_of call i = Some r \<Longrightarrow> fits_ring r s"
  unfolding valid_call_def by blast

text \<open>The states of a client, and what sending a request does to its ring: the server may have
  taken something from the front, and the message comes behind, cut if it ends at the very end.
  When there is room behind what is in the ring, the message is added there and nothing else happens.\<close>

definition api_ok :: "api \<Rightarrow> bool" where
  "api_ok s \<longleftrightarrow> client_ok (cids s) \<and> client_good (sender s) (ring s) \<and> buf_inv (ring s)"

definition appends :: "request option \<Rightarrow> api \<Rightarrow> api \<Rightarrow> bool" where
  "appends r s s' \<longleftrightarrow> bsize (ring s') = bsize (ring s) \<and>
     (\<exists>j. contents (ring s') = drop j (contents (ring s)) @
        (case r of None \<Rightarrow> []
         | Some r \<Rightarrow> if free_addr (ring s') = 0 then take (length (message r) - last_part r) (message r) else message r)) \<and>
     (case r of None \<Rightarrow> True
      | Some r \<Rightarrow> length (message r) \<le> free_buf_size (ring s) \<longrightarrow> free_addr (ring s) + length (message r) < bsize (ring s) \<longrightarrow>
          sender s' = sender s \<and> ring s' = appended (ring s) (message r))"

section \<open>Sending\<close>

lemma forward_request:
  assumes "api_ok s" "fits_ring r s"
  shows "\<exists>s'. forward (send_request r) s = Some s' \<and> cids s' = cids s \<and> api_ok s' \<and> appends (Some r) s s'"
proof -
  have ok: "client_good (sender s) (ring s)" "buf_inv (ring s)" and wf: "wf_request r" "length (message r) < bsize (ring s)"
    using assms by (simp_all add: api_ok_def fits_ring_def)
  from emits_contents [OF send_request_emits [OF ok wf] last_part_pos last_part_le] obtain c b j where
    "send_request r (sender s) (ring s) = Some (CFIO_ERROR_NONE, c, b)" "client_good c b" "buf_inv b"
    "bsize b = bsize (ring s)"
    "contents b = drop j (contents (ring s)) @
       (if free_addr b = 0 then take (length (message r) - last_part r) (message r) else message r)" by blast
  then show ?thesis using assms(1) emits_behind [OF send_request_emits [OF ok wf]]
    by (auto simp: forward_def api_ok_def appends_def)
qed

lemma forward_new_names:
  assumes "api_ok s" "client_ok t" "fits_ring r s"
  shows "\<exists>s'. forward (send_request r) (s\<lparr>cids := t\<rparr>) = Some s' \<and> cids s' = t \<and> api_ok s' \<and> appends (Some r) s s'"
  using forward_request [of "s\<lparr>cids := t\<rparr>" r] assms by (auto simp: api_ok_def fits_ring_def appends_def)

text \<open>The outcome of a call.\<close>

definition outcome :: "api_call \<Rightarrow> api \<Rightarrow> bool" where
  "outcome call s \<longleftrightarrow>
     (\<exists>ret i s'. run_call call s = Some (ret, i, s') \<and> api_ok s' \<and>
        (case refusal call (cids s) of
           Some e \<Rightarrow> ret = e \<and> s' = s
         | None \<Rightarrow> ret = CFIO_ERROR_NONE \<and> names_after call i (cids s) (cids s') \<and> appends (request_of call i) s s'))"

lemma create_outcome:
  assumes "api_ok s" "valid_call (Call_create path cmode ptr) s"
  shows "outcome (Call_create path cmode ptr) s"
proof (cases "path = None \<or> \<not> ptr")
  case True
  then show ?thesis using assms(1) by (auto simp: outcome_def cfio_create_def split: option.split)
next
  case False
  then obtain p where p: "path = Some p" ptr by auto
  have ok: "client_ok (cids s)" and room: "sint (open_nc_a (cids s)) < 2 ^ 31 - 1"
    using assms by (simp_all add: api_ok_def valid_call_def)
  let ?c = "open_nc_a (cids s) + 1"
  from assign_nc_enters [OF ok room] obtain t where t: "client_map (cids s) (?c, 0, 0) = None"
    "cfio_id_assign_nc (cids s) = Some (CFIO_ERROR_NONE, ?c, t)" "client_ok t" "client_map t (?c, 0, 0) \<noteq> None"
    "vars_of t ?c = [NC_GLOBAL_NAME \<mapsto> NC_GLOBAL]" "dims_of t ?c = Map.empty" "only_file ?c (cids s) t"
    by blast
  have "fits_ring (Create p cmode ?c) s" using p by (intro valid_fits [OF assms(2), of "Some ?c"]) simp
  from forward_new_names [OF assms(1) t(3) this] obtain s' where
    s': "forward (cfio_send_create p cmode ?c) (s\<lparr>cids := t\<rparr>) = Some s'" "cids s' = t" "api_ok s'"
    "appends (Some (Create p cmode ?c)) s s'" by auto
  have "run_call (Call_create path cmode ptr) s = Some (CFIO_ERROR_NONE, Some ?c, s')"
    using p t(2) s'(1) by (simp add: cfio_create_def error_codes)
  then show ?thesis using p s'(2-4) t by (auto simp: outcome_def)
qed

lemma def_dim_outcome:
  assumes "api_ok s" "valid_call (Call_def_dim c name len ptr) s"
  shows "outcome (Call_def_dim c name len ptr) s"
proof (cases "name = None \<or> \<not> ptr")
  case True
  then show ?thesis using assms(1) by (auto simp: outcome_def cfio_def_dim_def split: option.split)
next
  case False
  then obtain n where n: "name = Some n" ptr by auto
  have ok: "client_ok (cids s)" using assms by (simp add: api_ok_def)
  show ?thesis
  proof (cases "client_map (cids s) (c, 0, 0)")
    case None
    then show ?thesis using n assms(1) unknown_file(3) [OF ok None]
      by (simp add: outcome_def cfio_def_dim_def error_codes)
  next
    case (Some f)
    have room: "sint (client_dim_a f) < 2 ^ 31 - 1" using assms(2) Some by (simp add: valid_call_def)
    obtain i t where t: "cfio_id_assign_dim c n (cids s) = Some (CFIO_ERROR_NONE, Some i, t)" "client_ok t"
      "names_after (Call_def_dim c name len ptr) (Some i) (cids s) t"
    proof (cases "dims_of (cids s) c n")
      case None
      from assign_dim_new [OF ok Some room None] show ?thesis using that n None by auto
    next
      case old: (Some i)
      have "(dims_of (cids s) c)(n \<mapsto> i) = dims_of (cids s) c" using old by auto
      then show ?thesis
        using that [OF assign_dim_known [OF ok _ old] ok] Some n old by (simp add: only_file_def)
    qed
    have "fits_ring (Def_dim c n len i) s" using n by (intro valid_fits [OF assms(2), of "Some i"]) simp
    from forward_new_names [OF assms(1) t(2) this] obtain s' where
      s': "forward (cfio_send_def_dim c n len i) (s\<lparr>cids := t\<rparr>) = Some s'" "cids s' = t" "api_ok s'"
      "appends (Some (Def_dim c n len i)) s s'" by auto
    have "run_call (Call_def_dim c name len ptr) s = Some (CFIO_ERROR_NONE, Some i, s')"
      using n t(1) s'(1) by (simp add: cfio_def_dim_def error_codes)
    then show ?thesis using n s'(2-4) t(3) Some unfolding outcome_def
      by (intro exI [of _ CFIO_ERROR_NONE] exI [of _ "Some i"] exI [of _ s']) simp
  qed
qed

lemma def_var_outcome:
  assumes "api_ok s" "valid_call (Call_def_var c name xtype dimids ptr) s"
  shows "outcome (Call_def_var c name xtype dimids ptr) s"
proof (cases "name = None \<or> \<not> ptr")
  case True
  then show ?thesis using assms(1) by (auto simp: outcome_def cfio_def_var_def split: option.split)
next
  case False
  then obtain n where n: "name = Some n" ptr by auto
  have ok: "client_ok (cids s)" using assms by (simp add: api_ok_def)
  let ?k = "word_of_nat (length dimids) :: i32"
  show ?thesis
  proof (cases "client_map (cids s) (c, 0, 0)")
    case None
    then show ?thesis using n assms(1) unknown_file(2) [OF ok None]
      by (simp add: outcome_def cfio_def_var_def error_codes)
  next
    case (Some f)
    have room: "sint (client_var_a f) < 2 ^ 31 - 1" using assms(2) Some by (simp add: valid_call_def)
    have wf: "fits_ring (Def_var c n xtype dimids i) s" for i
      using n by (intro valid_fits [OF assms(2), of "Some i"]) simp
    then have "size_of_int ?k \<le> length dimids" by (simp add: fits_ring_def size_of_int_of_nat)
    note result = assign_var_result [OF ok Some room this, of n]
    obtain i t where t: "cfio_id_assign_var c n ?k dimids (cids s) = Some (CFIO_ERROR_NONE, Some i, t)" "client_ok t"
      "names_after (Call_def_var c name xtype dimids ptr) (Some i) (cids s) t"
    proof (cases "vars_of (cids s) c n")
      case None
      with result show ?thesis using that n by auto
    next
      case old: (Some i)
      have "(vars_of (cids s) c)(n \<mapsto> i) = vars_of (cids s) c" using old by auto
      then show ?thesis using that [OF _ ok] result n old by (simp add: only_file_def)
    qed
    from forward_new_names [OF assms(1) t(2) wf] obtain s' where
      s': "forward (cfio_send_def_var c n xtype ?k dimids i) (s\<lparr>cids := t\<rparr>) = Some s'" "cids s' = t" "api_ok s'"
      "appends (Some (Def_var c n xtype dimids i)) s s'" by auto
    have "run_call (Call_def_var c name xtype dimids ptr) s = Some (CFIO_ERROR_NONE, Some i, s')"
      using n t(1) s'(1) by (simp add: cfio_def_var_def error_codes)
    then show ?thesis using n s'(2-4) t(3) Some unfolding outcome_def
      by (intro exI [of _ CFIO_ERROR_NONE] exI [of _ "Some i"] exI [of _ s']) simp
  qed
qed

lemma put_att_names:
  assumes ok: "client_ok t" and v: "v \<noteq> 0" and len: "size_of_int len \<le> length data"
  shows "\<exists>ret t'. cfio_id_assign_att c v name xtype len data t = Some (ret, t') \<and> client_ok t' \<and>
    (\<forall>k. vars_of t' k = vars_of t k \<and> dims_of t' k = dims_of t k)"
proof (cases "client_map t (c, 0, v)")
  case None
  then have "cfio_id_assign_att c v name xtype len data t = Some (CFIO_ERROR_NC_NO_EXIST, t)"
    using client.map_None [OF client_tab [OF ok]]
    by (simp add: cfio_id_assign_att_def client.search [OF client_tab [OF ok]])
  then show ?thesis using ok by simp
next
  case (Some val)
  from client.tree_file [OF _ Some] ok obtain f where f: "client_map t (c, 0, 0) = Some f"
    by (auto simp: client_ok_def)
  obtain names where n: "\<forall>(name, i) \<in> set names. var_bound (client_map t) c name i"
    "\<forall>d v. client_map t (c, d, v) \<noteq> None \<longrightarrow> d = 0 \<and> (v = 0 \<or> v \<in> snd ` set names)"
    by (rule client_okD [OF ok f])
  then obtain m where "(m, v) \<in> set names" using Some v by force
  with n(1) Some have "var val \<noteq> None" by (auto simp: var_bound_def)
  with assign_att_keeps [OF ok Some _ v len] show ?thesis by blast
qed

lemma put_att_outcome:
  assumes "api_ok s" "valid_call (Call_put_att c v name t data) s"
  shows "outcome (Call_put_att c v name t data) s"
proof -
  have ok: "client_ok (cids s)" and v: "v \<noteq> 0" using assms by (simp_all add: api_ok_def valid_call_def)
  have wf: "fits_ring (Put_att c v name t data) s" by (rule valid_fits [OF assms(2)]) simp
  let ?n = "length data div type_size t"
  have n: "?n < 2 ^ 31" using wf by (simp add: fits_ring_def)
  then have "(ucast (word_of_nat ?n :: u64) :: i32) = word_of_nat ?n"
    by (simp add: unsigned_of_nat take_bit_nat_eq_self)
  with n have "size_of_int (ucast (word_of_nat ?n :: u64)) \<le> length data" by (simp add: size_of_int_of_nat)
  from put_att_names [OF ok v this] obtain ret u where
    u: "cfio_id_assign_att c v name (cfio_type_code t) (ucast (word_of_nat ?n :: u64)) data (cids s) = Some (ret, u)"
    "client_ok u" "\<forall>k. vars_of u k = vars_of (cids s) k \<and> dims_of u k = dims_of (cids s) k" by blast
  from forward_new_names [OF assms(1) u(2) wf] obtain s' where
    s': "forward (cfio_send_put_att c v name (cfio_type_code t) (word_of_nat ?n) data) (s\<lparr>cids := u\<rparr>) = Some s'"
    "cids s' = u" "api_ok s'" "appends (Some (Put_att c v name t data)) s s'" by auto
  then have "run_call (Call_put_att c v name t data) s = Some (CFIO_ERROR_NONE, None, s')"
    using u(1) by (simp add: cfio_put_att_def)
  then show ?thesis using s'(2-4) u(3) unfolding outcome_def
    by (intro exI [of _ CFIO_ERROR_NONE] exI [of _ None] exI [of _ s']) simp
qed

lemma simple_outcomes:
  assumes "api_ok s"
  shows "valid_call (Call_enddef c) s \<Longrightarrow> outcome (Call_enddef c) s"
    "valid_call (Call_put_vara t c v start count fp) s \<Longrightarrow> outcome (Call_put_vara t c v start count fp) s"
proof -
  assume "valid_call (Call_enddef c) s"
  then have "fits_ring (Enddef c) s" by (rule valid_fits) simp
  from forward_request [OF assms this] show "outcome (Call_enddef c) s"
    by (auto simp: outcome_def cfio_enddef_def)
next
  assume v: "valid_call (Call_put_vara t c v start count fp) s"
  show "outcome (Call_put_vara t c v start count fp) s"
  proof (cases fp)
    case None
    then show ?thesis using assms by (simp add: outcome_def put_vara_typed_def)
  next
    case (Some d)
    have "fits_ring (Put_vara c v start count t d) s" by (rule valid_fits [OF v]) (simp add: Some)
    from forward_request [OF assms this] show ?thesis using Some
      by (auto simp: outcome_def put_vara_typed_def)
  qed
qed

lemma io_end_outcome:
  assumes "api_ok s"
  shows "outcome Call_io_end s"
proof -
  from assms have "client_good (sender s) (ring s)" "buf_inv (ring s)" by (simp_all add: api_ok_def)
  from io_end_hands [OF this] obtain c b where
    "cfio_send_io_end (sender s) (ring s) = Some (CFIO_ERROR_NONE, c, b)" "client_good c b" "advanced (ring s) b" by blast
  then show ?thesis using assms
    by (auto simp: outcome_def cfio_io_end_def forward_def api_ok_def appends_def advanced_def)
qed

lemma close_outcome:
  assumes "api_ok s" "valid_call (Call_close c) s"
  shows "outcome (Call_close c) s"
proof -
  have ok: "client_ok (cids s)" using assms by (simp add: api_ok_def)
  have wf: "fits_ring (Close c) s" by (rule valid_fits [OF assms(2)]) simp
  show ?thesis
  proof (cases "client_map (cids s) (c, 0, 0)")
    case None
    then show ?thesis using assms(1) unknown_file(1) [OF ok None]
      by (simp add: outcome_def cfio_close_def error_codes)
  next
    case (Some f)
    from remove_nc_drops [OF ok Some] obtain t where t: "cfio_id_remove_nc c (cids s) = Some (CFIO_ERROR_NONE, t)"
      "client_ok t" "client_map t = forget c (client_map (cids s))" by blast
    from forward_new_names [OF assms(1) t(2) wf] obtain s' where
      s': "forward (cfio_send_close c) (s\<lparr>cids := t\<rparr>) = Some s'" "cids s' = t" "api_ok s'"
      "appends (Some (Close c)) s s'" by auto
    then show ?thesis using t(1,3) Some by (auto simp: outcome_def cfio_close_def error_codes)
  qed
qed

lemma call_outcome:
  assumes "api_ok s" "valid_call call s"
  shows "outcome call s"
  by (cases call) (use assms in \<open>simp_all only: create_outcome def_dim_outcome def_var_outcome put_att_outcome
      simple_outcomes io_end_outcome close_outcome\<close>)


definition example_api :: api where
  "example_api = \<lparr>cids = client_0, sender = small_client, ring = small_buf 64\<rparr>"

lemma example_api_ok: "api_ok example_api"
  using small_good [of 64] by (simp add: api_ok_def example_api_def client_0)

lemma example_bsize: "bsize (ring example_api) = 64"
  by (simp add: example_api_def small_buf_def cfio_buf_open_def)


section \<open>The order of the dimensions\<close>

lemma fill_reversed_rev:
  "i \<le> n \<Longrightarrow> nat n \<le> length xs \<Longrightarrow> 0 \<le> i \<Longrightarrow> j = n - 1 - i \<Longrightarrow>
    fill_reversed f xs n i j ys = Some (ys @ map f (rev (take (nat (n - i)) xs)))"
proof (induction f xs n i j ys rule: fill_reversed.induct)
  case (1 f xs n i j ys)
  show ?case
  proof (cases "i < n")
    case False
    then show ?thesis using 1 by (simp add: fill_reversed.simps)
  next
    case True
    then have j: "0 \<le> j" "nat j < length xs" "nat (n - i) = Suc (nat j)" "nat (n - (i + 1)) = nat j"
      using 1(2-5) by auto
    have "fill_reversed f xs n (i + 1) (j - 1) (ys @ [f (xs ! nat j)]) =
        Some ((ys @ [f (xs ! nat j)]) @ map f (rev (take (nat (n - (i + 1))) xs)))"
      using True j(1,2) 1(2-5) by (intro 1(1)) auto
    then show ?thesis using True j
      by (simp add: fill_reversed.simps [of f xs n i j ys] take_Suc_conv_app_nth)
  qed
qed

lemma fill_reversed_all:
  assumes "length xs = k" "k < 2 ^ 31"
  shows "fill_reversed f xs (sint (word_of_nat k :: i32)) 0 (sint (word_of_nat k :: i32) - 1) [] = Some (map f (rev xs))"
  using fill_reversed_rev [of 0 "int k" xs "int k - 1" f "[]"] assms by (simp add: sint_word_of_nat_small)

text \<open>The place of an element in the memory of a Fortran array, counted from 0.\<close>

fun column_major :: "nat list \<Rightarrow> nat list \<Rightarrow> nat" where
  "column_major (d # ds) (x # xs) = x + d * column_major ds xs"
| "column_major _ _ = 0"

lemma lin_snoc: "length xs = length ds \<Longrightarrow> lin (ds @ [d]) (xs @ [x]) = lin ds xs * d + x"
  by (induction ds xs rule: lin.induct) (auto simp: algebra_simps)

lemma lin_rev: "length xs = length ds \<Longrightarrow> lin (rev ds) (rev xs) = column_major ds xs"
  by (induction ds xs rule: column_major.induct) (auto simp: lin_snoc algebra_simps)

lemma scast_uint:
  assumes "0 \<le> sint (w :: i32)"
  shows "uint (scast w :: u64) = sint w"
proof -
  have "sint w < 2 ^ 31" using sint_lt [of w] by simp
  moreover have "(scast w :: u64) = word_of_int (sint w)" by (rule scast_eq)
  ultimately show ?thesis using assms by (simp only: unsigned_of_int) (simp add: take_bit_int_eq_self)
qed

lemma sint_minus_one: "1 \<le> sint (w :: i32) \<Longrightarrow> sint (w - 1) = sint w - 1"
  using sint_lt [of w] by (simp add: sint_word_ariths signed_take_bit_int_eq_self)

lemma unat_prod_list: "unat (prod_list (ws :: u64 list)) = prod_list (map unat ws) mod 2 ^ 64"
  by (induction ws) (simp_all add: unat_word_ariths mod_mult_right_eq)

text \<open>The arrays that the entry points build: 64 bits wide, counted from 0, and the other way round.\<close>

definition c_start :: "i32 list \<Rightarrow> u64 list" where
  "c_start start = map (\<lambda>w. scast (w - 1)) (rev start)"

definition c_count :: "i32 list \<Rightarrow> u64 list" where
  "c_count count = map scast (rev count)"

abbreviation extents :: "i32 list \<Rightarrow> nat list" where
  "extents \<equiv> map (\<lambda>w. nat (sint w))"

lemma c_count_extents: "\<forall>w \<in> set count. 0 \<le> sint w \<Longrightarrow> map unat (c_count count) = rev (extents count)"
  by (auto simp: c_count_def rev_map scast_uint simp flip: nat_uint_eq)

lemma fortran_put_vara:
  assumes "api_ok s" "length start = n" "length count = n" "n < 2 ^ 31"
    and pos: "\<forall>w \<in> set count. 0 \<le> sint w"
    and data: "length fp = prod_list (extents count) * type_size t" "prod_list (extents count) < 2 ^ 31"
    and room: "48 + 16 * n + length fp \<le> bsize (ring s)"
  shows "\<exists>s'. put_vara_c (put_vara_typed t) ncid varid (word_of_nat n) start count fp s = Some (CFIO_ERROR_NONE, s') \<and>
    api_ok s' \<and> cids s' = cids s \<and> appends (Some (Put_vara ncid varid (c_start start) (c_count count) t fp)) s s'"
proof -
  let ?r = "Put_vara ncid varid (c_start start) (c_count count) t fp"
  have len: "length (c_start start) = n" "length (c_count count) = n" using assms(2,3) by (simp_all add: c_start_def c_count_def)
  have "prod_list (map unat (c_count count)) = prod_list (extents count)"
    unfolding c_count_extents [OF pos] by (simp add: prod_list.rev)
  then have p: "unat (prod_list (c_count count)) = prod_list (extents count)"
    using data(2) by (simp add: unat_prod_list)
  have "fits_ring ?r s" using len p data room assms(4) by (simp add: fits_ring_def length_message)
  from forward_request [OF assms(1) this] len(1) obtain s' where
    s': "forward (cfio_send_put_vara ncid varid (word_of_nat n) (c_start start) (c_count count) (cfio_type_code t) fp) s = Some s'"
    "cids s' = cids s" "api_ok s'" "appends (Some ?r) s s'" by auto
  have "0 \<le> sint (word_of_nat n :: i32)" using assms(4) by (simp add: sint_word_of_nat_small)
  then show ?thesis
    using s' fill_reversed_all [OF assms(2,4), of "\<lambda>w. scast (w - 1) :: u64"] fill_reversed_all [OF assms(3,4), of "scast :: i32 \<Rightarrow> u64"]
    by (simp add: put_vara_c_def put_vara_typed_def c_start_def c_count_def)
qed

text \<open>C37. Writing from Fortran writes what Fortran means. For each of the four types the entry point
  sends one write request with the caller's bytes as they are, in which position \<open>k\<close> from the
  end of \<open>start\<close> and \<open>count\<close> holds the caller's \<open>start(k)\<close>, counted from 0 instead of 1, and
  \<open>count(k)\<close>; and the element that Fortran keeps at the column-major place of an index is,
  as a C array of those extents, the row-major element of the reversed index. An index thus
  names the same element on both sides.\<close>

theorem fortran_slab:
  assumes "api_ok s" "length start = n" "length count = n" "n < 2 ^ 31"
    and "\<forall>w \<in> set start. 1 \<le> sint w" "\<forall>w \<in> set count. 0 \<le> sint w"
    and "length fp = prod_list (extents count) * type_size t" "prod_list (extents count) < 2 ^ 31"
    and "48 + 16 * n + length fp \<le> bsize (ring s)"
    and "(put, t) \<in> {(cfio_put_vara_float_c, CFIO_FLOAT), (cfio_put_vara_double_c, CFIO_DOUBLE),
      (cfio_put_vara_int_c, CFIO_INT), (cfio_put_vara_text_c, CFIO_CHAR)}"
  shows "\<exists>s' S C. put ncid varid (word_of_nat n) start count fp s = Some (CFIO_ERROR_NONE, s') \<and> api_ok s' \<and>
    cids s' = cids s \<and> appends (Some (Put_vara ncid varid S C t fp)) s s' \<and> length S = n \<and> length C = n \<and>
    (\<forall>k < n. uint (S ! (n - 1 - k)) = sint (start ! k) - 1 \<and> uint (C ! (n - 1 - k)) = sint (count ! k)) \<and>
    (\<forall>x. inside x (extents count) \<longrightarrow> lin (map unat C) (rev x) = column_major (extents count) x)"
proof -
  have put: "put = put_vara_c (put_vara_typed t)"
    using assms(10) by (auto simp: cfio_put_vara_float_c_def cfio_put_vara_float_def cfio_put_vara_double_c_def
        cfio_put_vara_double_def cfio_put_vara_int_c_def cfio_put_vara_int_def cfio_put_vara_text_c_def cfio_put_vara_text_def)
  have "uint (c_start start ! (n - 1 - k)) = sint (start ! k) - 1 \<and> uint (c_count count ! (n - 1 - k)) = sint (count ! k)"
    if k: "k < n" for k
  proof -
    have i: "n - 1 - k < n" "n - Suc (n - 1 - k) = k" using k by simp_all
    have "1 \<le> sint (start ! k)" "0 \<le> sint (count ! k)" using k assms(2,3,5,6) by simp_all
    then have "uint (scast (start ! k - 1) :: u64) = sint (start ! k) - 1" "uint (scast (count ! k) :: u64) = sint (count ! k)"
      using scast_uint [of "start ! k - 1"] scast_uint [of "count ! k"] sint_minus_one [of "start ! k"] by simp_all
    then show ?thesis using i assms(2,3) by (simp only: c_start_def c_count_def nth_map length_rev rev_nth)
  qed
  moreover have "lin (map unat (c_count count)) (rev x) = column_major (extents count) x" if "inside x (extents count)" for x
    unfolding c_count_extents [OF assms(6)] by (rule lin_rev) (rule inside_length [OF that])
  moreover have "length (c_start start) = n" "length (c_count count) = n" using assms(2,3) by (simp_all add: c_start_def c_count_def)
  ultimately show ?thesis
    using fortran_put_vara [OF assms(1-4,6-9), of ncid varid] unfolding put
    by blast
qed

theorem fortran_slab_witness:
  "\<exists>s s' S C. cfio_put_vara_float_c 1 2 2 [1, 5] [2, 1] (replicate 8 7) s = Some (CFIO_ERROR_NONE, s') \<and> api_ok s' \<and>
    appends (Some (Put_vara 1 2 S C CFIO_FLOAT (replicate 8 7))) s s' \<and> uint (S ! 0) = 4 \<and> uint (S ! 1) = 0 \<and>
    uint (C ! 0) = 1 \<and> uint (C ! 1) = 2"
proof -
  let ?s = "\<lparr>cids = client_0, sender = small_client, ring = small_buf 128\<rparr>"
  have ok: "api_ok ?s" using small_good [of 128] by (simp add: api_ok_def client_0)
  have "bsize (ring ?s) = 128" by (simp add: small_buf_def cfio_buf_open_def)
  then obtain s' S C where r: "cfio_put_vara_float_c 1 2 (word_of_nat 2) [1, 5] [2, 1] (replicate 8 7) ?s = Some (CFIO_ERROR_NONE, s')"
    "api_ok s'" "appends (Some (Put_vara 1 2 S C CFIO_FLOAT (replicate 8 7))) ?s s'"
    "\<forall>k < 2. uint (S ! (2 - 1 - k)) = sint ([1, 5 :: i32] ! k) - 1 \<and> uint (C ! (2 - 1 - k)) = sint ([2, 1 :: i32] ! k)"
    using fortran_slab [OF ok, of "[1, 5]" 2 "[2, 1]" "replicate 8 7" CFIO_FLOAT cfio_put_vara_float_c 1 2] by auto
  have "uint (S ! 1) = 0 \<and> uint (C ! 1) = 2" "uint (S ! 0) = 4 \<and> uint (C ! 0) = 1"
    using r(4) [rule_format, of 0] r(4) [rule_format, of 1] by simp_all
  with r(1-3) show ?thesis by (intro exI [of _ ?s] exI [of _ s'] exI [of _ S] exI [of _ C]) simp
qed

text \<open>Two gaps of the entry points. The NUL behind a name is written past the end of a string that
  is passed at its exact length, as \<open>trim\<close> makes it; and the inquiry for a global attribute, whose
  variable is 0 in Fortran, finds the entry of the file and uses its missing variable.\<close>

lemma fortran_name_overrun:
  assumes "int (length path) = sint len"
  shows "cfio_create_c path len cmode s = None" "cfio_def_dim_c c path len n s = None"
    "cfio_put_att_c c v path len t k op s = None"
proof -
  have "terminate_at path len = None" using assms by (simp add: terminate_at_def flip: assms)
  then show "cfio_create_c path len cmode s = None" "cfio_def_dim_c c path len n s = None"
    "cfio_put_att_c c v path len t k op s = None"
    by (simp_all add: cfio_create_c_def cfio_def_dim_c_def cfio_put_att_c_def Let_def)
qed

lemma fortran_global_att:
  assumes "api_ok s" "client_map (cids s) (c, 0, 0) \<noteq> None"
  shows "cfio_inq_att_c c 0 name len s = None"
proof -
  have ok: "client_ok (cids s)" using assms(1) by (simp add: api_ok_def)
  from assms(2) obtain f where f: "client_map (cids s) (c, 0, 0) = Some f" by auto
  then obtain p where "tab_entry assign_table (cids s) (c, 0, 0) = Some p" "heap (cids s) p = Some f"
    using client.entryE [OF client_tab [OF ok]] by blast
  then show ?thesis using file_no_var [OF ok f]
    by (simp add: cfio_inq_att_c_def cfio_inq_att_def cfio_id_inq_att_def client.search [OF client_tab [OF ok]]
        split: bind_splits)
qed

section \<open>The start of the processes\<close>

lemma wanted_servers_eq:
  assumes "0 < n" "0 < ratio"
  shows "wanted_servers n ratio = Some (max 1 (n div ratio))"
proof -
  have "0 \<le> n div ratio" using assms by (simp add: pos_imp_zdiv_nonneg_iff)
  then show ?thesis using assms by (auto simp: wanted_servers_def cdiv_nonneg max_def)
qed



end
