(* ===== verification/Forwarding.thy ===== *)
theory Forwarding
  imports ApiCalls
begin

text \<open>
  The way of the messages from a client's ring to the queue of its server, put together from the
  components: what the client's calls have packed, what the server's reading turns post, what the
  network then delivers, and what the copying finds.
\<close>

section \<open>Reading turns\<close>

text \<open>The network delivers the reads of a turn into the region of the client. The region of the
  client starts at \<open>base\<close> there and holds \<open>mem\<close>.\<close>

definition deliver :: "nat \<Rightarrow> int \<Rightarrow> byte list \<Rightarrow> work_request list \<Rightarrow> 'f daemon \<Rightarrow> 'f daemon option" where
  "deliver c base mem ws s =
     do {
       reg \<leftarrow> cfio_rdma_server_get_data c (rdma s);
       rd \<leftarrow> put_data c (fetch base mem ws reg) (rdma s);
       Some (s\<lparr>rdma := rd\<rparr>)
     }"

definition read_turn :: "nat \<Rightarrow> int \<Rightarrow> byte list \<Rightarrow> cfio_buf_addr \<Rightarrow> 'f daemon \<Rightarrow> 'f daemon option" where
  "read_turn c base mem a s =
     do {
       t \<leftarrow> read_data c a s;
       deliver c base mem (drop (length (posted (rdma s))) (posted (rdma t))) t
     }"

text \<open>Turns until everything has been read.\<close>

fun read_turns :: "nat \<Rightarrow> nat \<Rightarrow> int \<Rightarrow> byte list \<Rightarrow> cfio_buf_addr \<Rightarrow> 'f daemon \<Rightarrow> 'f daemon option" where
  "read_turns 0 c base mem a s = Some s"
| "read_turns (Suc k) c base mem a s =
     (if read_dones s ! c then Some s
      else do { s \<leftarrow> read_turn c base mem a s; read_turns k c base mem a s })"

section \<open>What a turn leaves alone\<close>

text \<open>Two states that differ only in what reading works on.\<close>

definition reads_only :: "nat \<Rightarrow> 'f daemon \<Rightarrow> 'f daemon \<Rightarrow> bool" where
  "reads_only c s t \<longleftrightarrow>
     srv t = srv s \<and> copy_lens t = copy_lens s \<and> msg_cnts t = msg_cnts s \<and> msg_clt_cnt t = msg_clt_cnt s \<and>
     client_ids t = client_ids s \<and> clients t = clients s \<and> region_size t = region_size s \<and>
     comm_dones t = comm_dones s \<and> comm_done_cnt t = comm_done_cnt s \<and> addr_regions (rdma t) = addr_regions (rdma s) \<and>
     length (read_addrs t) = length (read_addrs s) \<and> length (read_dones t) = length (read_dones s) \<and>
     length (local_lens t) = length (local_lens s) \<and> other_data c (rdma s) (rdma t) \<and>
     (\<forall>i. i \<noteq> c \<longrightarrow> read_addrs t ! i = read_addrs s ! i \<and> read_dones t ! i = read_dones s ! i \<and>
        local_lens t ! i = local_lens s ! i)"

lemma reads_only_refl: "reads_only c s s"
  by (simp add: reads_only_def other_data_def)

lemma reads_only_trans: "reads_only c s t \<Longrightarrow> reads_only c t u \<Longrightarrow> reads_only c s u"
  by (simp add: reads_only_def other_data_def)

lemma other_data_same:
  "rdma_conns r' = rdma_conns r \<Longrightarrow> ordered_conns r' = ordered_conns r \<Longrightarrow> data_regions r' = data_regions r \<Longrightarrow> other_data c r r'"
  using client_conn_cong [of r' r] by (simp add: other_data_def cfio_rdma_server_get_data_def cong: if_cong)

lemma other_data_trans: "other_data c r r' \<Longrightarrow> other_data c r' r'' \<Longrightarrow> other_data c r r''"
  by (simp add: other_data_def)

lemma read_posted_frame:
  "cfio_rdma_server_read_data c off len lo rd = Some rd' \<Longrightarrow>
    rdma_conns rd' = rdma_conns rd \<and> ordered_conns rd' = ordered_conns rd \<and> data_regions rd' = data_regions rd \<and>
    addr_regions rd' = addr_regions rd \<and> cq rd' = cq rd"
  by (auto simp: cfio_rdma_server_read_data_def ibv_post_def split: bind_splits if_splits)

lemma post_pieces_frame:
  "post_pieces c off len s = Some t \<Longrightarrow> reads_only c s t \<and> data_regions (rdma t) = data_regions (rdma s) \<and> cq (rdma t) = cq (rdma s)"
proof (induction c off len s arbitrary: t rule: post_pieces.induct)
  case (1 c off len s)
  show ?case
  proof (cases "0 < len")
    case False
    then show ?thesis using 1(2) reads_only_refl by (simp add: post_pieces.simps)
  next
    case True
    define k where "k = (if len > transfer_msg_size_max then transfer_msg_size_max else len)"
    from 1(2) True obtain rd where rd: "cfio_rdma_server_read_data c off k (local_lens s ! c) (rdma s) = Some rd"
      and t: "post_pieces c (off + k) (len - k) (s\<lparr>rdma := rd, local_lens := (local_lens s)[c := local_lens s ! c + k]\<rparr>) = Some t"
      by (subst (asm) post_pieces.simps) (auto simp: Let_def k_def [symmetric] split: bind_splits)
    from 1(1) [OF True k_def rd t] read_posted_frame [OF rd] show ?thesis
      using other_data_same [of rd "rdma s" c] by (simp add: reads_only_def) (simp add: other_data_def)
  qed
qed

lemma read_data_frame:
  assumes "read_data c a s = Some t"
  shows "reads_only c s t \<and> data_regions (rdma t) = data_regions (rdma s) \<and> cq (rdma t) = cq (rdma s)"
proof -
  have frame: "reads_only c s t \<and> data_regions (rdma t) = data_regions (rdma s) \<and> cq (rdma t) = cq (rdma s)"
    if "post_pieces c off len u = Some t" "reads_only c s u" "rdma u = rdma s" for off len u
    using post_pieces_frame [OF that(1)] that(2,3) by (simp add: reads_only_def)
  let ?first = "a_used a \<le> a_free a \<or> read_addrs s ! c \<le> int (a_free a)" and ?r = "read_addrs s ! c"
  define stop where "stop = (if ?first then int (a_free a) else int (a_end a))"
  define j where "j = (if stop - ?r < region_size s - local_lens s ! c then stop - ?r else region_size s - local_lens s ! c)"
  let ?s = "s\<lparr>read_addrs := (read_addrs s)[c := (if ?first \<or> ?r + j < stop then ?r + j else 0)],
      read_dones := (if ?first \<and> stop \<le> ?r + j then (read_dones s)[c := True] else read_dones s)\<rparr>"
  have "read_data c a s = post_pieces c ?r j ?s"
    unfolding read_data_def Let_def by (auto simp: stop_def j_def)
  then have "post_pieces c ?r j ?s = Some t" using assms by simp
  then show ?thesis by (rule frame) (simp_all add: reads_only_def other_data_refl)
qed

section \<open>Reading until all is there\<close>

lemma length_fetch: "length reg \<le> length (fetch base mem ws reg)"
proof (induction base mem ws reg rule: fetch.induct)
  case (2 base mem k a n lo ws reg)
  have "length reg \<le> length (blit reg (nat lo) (slice mem (nat (a - base)) (nat n)))"
    unfolding blit_def by (simp add: min_def) arith
  then show ?case using 2 by simp
qed simp_all

text \<open>In the middle of the turns for client \<open>c\<close>: what its region holds and what has not been read
  of its ring is together \<open>whole\<close>.\<close>

definition turning :: "nat \<Rightarrow> nat \<Rightarrow> ibv_mr \<Rightarrow> byte list \<Rightarrow> cfio_buf_addr \<Rightarrow> byte list \<Rightarrow> 'f daemon \<Rightarrow> bool" where
  "turning n c mr mem a whole s \<longleftrightarrow>
     linked n (rdma s) \<and> length (local_lens s) = n \<and> length (read_addrs s) = n \<and> length (read_dones s) = n \<and>
     (\<exists>k x. client_conn c (rdma s) = Some (k, x) \<and> peer_data_mr x = Some mr) \<and>
     addr_ok a mem \<and> read_ok a (read_addrs s ! c) \<and> 0 \<le> local_lens s ! c \<and> local_lens s ! c \<le> region_size s \<and>
     (read_dones s ! c \<longrightarrow> unread a mem (read_addrs s ! c) = []) \<and>
     (\<exists>reg. cfio_rdma_server_get_data c (rdma s) = Some reg \<and> nat (region_size s) \<le> length reg \<and>
        take (nat (local_lens s ! c)) reg @ unread a mem (read_addrs s ! c) = whole)"

definition to_read :: "nat \<Rightarrow> byte list \<Rightarrow> cfio_buf_addr \<Rightarrow> 'f daemon \<Rightarrow> nat" where
  "to_read c mem a s = 2 * length (unread a mem (read_addrs s ! c)) + (if 0 < read_addrs s ! c then 1 else 0)"

lemma read_turn_step:
  assumes t: "turning n c mr mem a whole s" "c < n" and room: "int (length whole) < region_size s" "\<not> read_dones s ! c"
  shows "\<exists>s'. read_turn c (mr_addr mr) mem a s = Some s' \<and> turning n c mr mem a whole s' \<and> reads_only c s s' \<and>
    (read_dones s' ! c \<or> to_read c mem a s' < to_read c mem a s)"
proof -
  from t obtain k x reg where conn: "client_conn c (rdma s) = Some (k, x)" "peer_data_mr x = Some mr"
    and reg: "cfio_rdma_server_get_data c (rdma s) = Some reg" "nat (region_size s) \<le> length reg"
      "take (nat (local_lens s ! c)) reg @ unread a mem (read_addrs s ! c) = whole"
    and s: "linked n (rdma s)" "length (local_lens s) = n" "length (read_addrs s) = n" "length (read_dones s) = n"
      "addr_ok a mem" "read_ok a (read_addrs s ! c)" "0 \<le> local_lens s ! c" "local_lens s ! c \<le> region_size s"
    by (auto simp: turning_def)
  let ?u = "unread a mem (read_addrs s ! c)"
  from read_data_step [OF s(1) t(2) conn s(2-8) reg(2)] obtain t' ws j where
    t': "read_data c a s = Some t'" "posted (rdma t') = posted (rdma s) @ ws" "j \<le> length ?u"
      "local_lens t' = (local_lens s)[c := local_lens s ! c + int j]" "local_lens t' ! c \<le> region_size s"
      "take (nat (local_lens t' ! c)) (fetch (mr_addr mr) mem ws reg) = take (nat (local_lens s ! c)) reg @ take j ?u"
      "read_ok a (read_addrs t' ! c)" "unread a mem (read_addrs t' ! c) = drop j ?u"
      "read_dones t' ! c \<longrightarrow> read_dones s ! c \<or> unread a mem (read_addrs t' ! c) = []"
      "j = 0 \<longrightarrow> local_lens s ! c = region_size s \<or> read_dones t' ! c \<or> read_addrs t' ! c = 0 \<and> 0 < read_addrs s ! c"
      "linked n (rdma t')" by blast
  have frame: "reads_only c s t'" "data_regions (rdma t') = data_regions (rdma s)" using read_data_frame [OF t'(1)] by auto
  then have conn': "client_conn c (rdma t') = Some (k, x)"
    using client_conn_cong [of "rdma t'" "rdma s" c] conn(1) by (simp add: reads_only_def other_data_def)
  have reg': "cfio_rdma_server_get_data c (rdma t') = Some reg"
    using reg(1) conn conn' frame(2) by (simp add: cfio_rdma_server_get_data_def split: if_splits)
  let ?f = "fetch (mr_addr mr) mem ws reg"
  let ?rd = "(rdma t')\<lparr>data_regions := (data_regions (rdma t'))[region x := ?f]\<rparr>"
  let ?s' = "t'\<lparr>rdma := ?rd\<rparr>"
  have turn: "read_turn c (mr_addr mr) mem a s = Some ?s'"
    using t'(1,2) reg' conn' by (simp add: read_turn_def deliver_def put_data_def)
  have conn2: "client_conn c ?rd = Some (k, x)" using conn' client_conn_cong [of ?rd "rdma t'" c] by simp
  have get: "cfio_rdma_server_get_data c ?rd = Some ?f"
    using reg' conn' conn2 by (auto simp: cfio_rdma_server_get_data_def split: if_splits)
  have len: "length (local_lens t') = n" "length (read_addrs t') = n" "length (read_dones t') = n" "region_size t' = region_size s"
    using frame(1) s by (simp_all add: reads_only_def)
  have "turning n c mr mem a whole ?s'"
    unfolding turning_def
  proof (intro conjI exI)
    show "client_conn c (rdma ?s') = Some (k, x)" "peer_data_mr x = Some mr" using conn2 conn(2) by simp_all
    show "cfio_rdma_server_get_data c (rdma ?s') = Some ?f" using get by simp
    show "nat (region_size ?s') \<le> length ?f" using length_fetch reg(2) len(4) by (simp add: order_trans [OF _ length_fetch])
    show "take (nat (local_lens ?s' ! c)) ?f @ unread a mem (read_addrs ?s' ! c) = whole"
      using t'(6,8) reg(3) by simp
    show "linked n (rdma ?s')" using t'(11) by (simp add: linked_regions)
    show "0 \<le> local_lens ?s' ! c" using t'(4) s(2,7) t(2) by simp
    show "read_dones ?s' ! c \<longrightarrow> unread a mem (read_addrs ?s' ! c) = []" using t'(9) room(2) by simp
  qed (use len s(5) t'(5,7) in simp_all)
  moreover have "region x = k" using linked_conn_of [OF t'(11) t(2)] conn' by (metis Pair_inject option.inject)
  then have "other_data c (rdma t') ?rd" using other_data_put [OF t'(11) t(2) conn'] by simp
  then have "reads_only c s ?s'" using frame(1) other_data_trans by (auto simp: reads_only_def)
  moreover have "read_dones ?s' ! c \<or> to_read c mem a ?s' < to_read c mem a s"
  proof (cases "j = 0")
    case True
    have "length (take (nat (local_lens s ! c)) reg) = nat (local_lens s ! c)" using s(8) reg(2) by simp
    then have "nat (local_lens s ! c) \<le> length whole" using reg(3) by (metis length_append le_add1)
    then have "local_lens s ! c \<noteq> region_size s" using room(1) s(7) by linarith
    then show ?thesis using t'(8,10) True by (auto simp: to_read_def)
  next
    case False
    then show ?thesis using t'(3,8) by (auto simp: to_read_def)
  qed
  ultimately show ?thesis using turn by blast
qed

lemma read_turns_done:
  assumes "turning n c mr mem a whole s" "c < n" "int (length whole) < region_size s"
    and "read_dones s ! c \<or> to_read c mem a s < k"
  shows "\<exists>s'. read_turns k c (mr_addr mr) mem a s = Some s' \<and> turning n c mr mem a whole s' \<and> reads_only c s s' \<and> read_dones s' ! c"
  using assms
proof (induction k arbitrary: s)
  case 0
  then show ?case using reads_only_refl by auto
next
  case (Suc k)
  show ?case
  proof (cases "read_dones s ! c")
    case True
    then show ?thesis using Suc.prems reads_only_refl by (intro exI [of _ s]) simp
  next
    case False
    from read_turn_step [OF Suc.prems(1,2,3) False] obtain s1 where s1: "read_turn c (mr_addr mr) mem a s = Some s1"
      "turning n c mr mem a whole s1" "reads_only c s s1" "read_dones s1 ! c \<or> to_read c mem a s1 < to_read c mem a s" by blast
    have "region_size s1 = region_size s" using s1(3) by (simp add: reads_only_def)
    then obtain s' where "read_turns k c (mr_addr mr) mem a s1 = Some s'" "turning n c mr mem a whole s'" "reads_only c s1 s'" "read_dones s' ! c"
      using Suc.IH [OF s1(2) Suc.prems(2)] Suc.prems(3,4) s1(4) False by auto
    then show ?thesis using s1(1,3) False reads_only_trans by (intro exI [of _ s']) auto
  qed
qed

section \<open>From the ring to the queue\<close>

lemma ring_arrives:
  assumes conn: "linked n (rdma s)" "c < n" "client_conn c (rdma s) = Some (k, x)" "peer_data_mr x = Some mr"
    and ring: "publishes a b" "read_addrs s ! c = int (used_addr b)" "\<not> read_dones s ! c"
    and region: "cfio_rdma_server_get_data c (rdma s) = Some reg" "nat (region_size s) \<le> length reg" "region_size s < 2 ^ 31"
      "0 \<le> local_lens s ! c" "local_lens s ! c \<le> region_size s" "copy_lens s ! c = 0"
    and sent: "take (nat (local_lens s ! c)) reg @ contents b = concat (map message rs)"
      "int (length (concat (map message rs))) < region_size s"
    and q: "recv_queues m (rcv (srv s)) qs" "length qs = n"
    and client: "cfio_map_get_client_index_of_server m (client_ids s ! c) = Some (int c)" "client_ids s ! c < client_amount m"
    and arrays: "length (local_lens s) = n" "length (read_addrs s) = n" "length (read_dones s) = n"
      "length (copy_lens s) = n" "length (msg_cnts s) = n" "0 \<le> msg_cnts s ! c"
  shows "\<exists>s1 j q'. read_turns (2 * length (contents b) + 2) c (mr_addr mr) (bmem b) a s = Some s1 \<and> read_dones s1 ! c \<and> reads_only c s s1 \<and> keeps_others c (rcv (srv s)) q' \<and>
    (roomy (length (concat (map message rs))) (rbuffer (rcv (srv s)) ! c) \<longrightarrow> j = length rs) \<and>
    j \<le> length rs \<and> recv_queues m q' (qs[c := qs ! c @ map message (take j rs)]) \<and>
    (j < length rs \<longrightarrow> free_buf_size (rbuffer q' ! c) < length (message (rs ! j))) \<and>
    (j = length rs \<longrightarrow> (\<exists>s'. copy_data_to_list m c s1 = Some s' \<and> srv s' = (srv s)\<lparr>rcv := q'\<rparr> \<and>
       msg_cnts s' = (msg_cnts s)[c := msg_cnts s ! c + int (length rs)] \<and>
       msg_clt_cnt s' = msg_clt_cnt s + (if msg_cnts s ! c = 0 \<and> rs \<noteq> [] then 1 else 0) \<and> local_lens s' ! c = 0 \<and>
       linked n (rdma s') \<and> copied_only c s1 s'))"
proof -
  let ?ds = "map message rs"
  note u = unread_contents [OF ring(1)]
  have t: "turning n c mr (bmem b) a (concat ?ds) s"
    unfolding turning_def ring(2) using conn u region sent(1) arrays ring(3) by auto
  have "to_read c (bmem b) a s < 2 * length (contents b) + 2" by (simp add: to_read_def ring(2) u(1))
  from read_turns_done [OF t conn(2) sent(2) disjI2, OF this] obtain s1 where
    s1: "read_turns (2 * length (contents b) + 2) c (mr_addr mr) (bmem b) a s = Some s1" "read_dones s1 ! c"
    and t1: "turning n c mr (bmem b) a (concat ?ds) s1" and frame: "reads_only c s s1" by blast
  from t1 s1(2) obtain reg1 where reg1: "cfio_rdma_server_get_data c (rdma s1) = Some reg1" "nat (region_size s1) \<le> length reg1"
      "take (nat (local_lens s1 ! c)) reg1 = concat ?ds @ []"
    and l1: "linked n (rdma s1)" "0 \<le> local_lens s1 ! c" "local_lens s1 ! c \<le> region_size s1"
    by (auto simp: turning_def)
  have same: "srv s1 = srv s" "copy_lens s1 = copy_lens s" "msg_cnts s1 = msg_cnts s" "msg_clt_cnt s1 = msg_clt_cnt s"
    "client_ids s1 = client_ids s" "region_size s1 = region_size s" "length (local_lens s1) = length (local_lens s)"
    using frame by (simp_all add: reads_only_def)
  have hold: "region_holds c reg1 s1 (concat ?ds @ [])"
    using reg1(2,3) l1 same region(3,6) by (simp add: region_holds_def slice_def)
  have "length (message r) < 2 ^ 31" if "r \<in> set rs" for r
  proof -
    have "length (message r) \<le> length (concat ?ds)" using that by (induction rs) auto
    then show ?thesis using sent(2) region(3) by simp
  qed
  then have ds: "\<forall>d \<in> set ?ds. framed d" "unfinished []" using framed_message by (auto simp: unfinished_def)
  have srvs: "recv_queues m (rcv (srv s1)) qs" "copy_lens s1 ! c = 0"
    "cfio_map_get_client_index_of_server m (client_ids s1 ! c) = Some (int c)" "client_ids s1 ! c < client_amount m"
    "length (copy_lens s1) = n" "length (local_lens s1) = n" "length (msg_cnts s1) = n" "0 \<le> msg_cnts s1 ! c"
    using q client arrays region(6) same by simp_all
  from copy_data_full [OF l1(1) conn(2) reg1(1) hold srvs(2) ds srvs(1) q(2) srvs(3-8)] obtain j q' where
    j: "j \<le> length ?ds" "recv_queues m q' (qs[c := qs ! c @ take j ?ds])"
      "j < length ?ds \<longrightarrow> free_buf_size (rbuffer q' ! c) < length (?ds ! j)"
      "keeps_others c (rcv (srv s1)) q'"
      "\<forall>t. roomy (length (concat ?ds) + t) (rbuffer (rcv (srv s1)) ! c) \<longrightarrow> j = length ?ds \<and> roomy t (rbuffer q' ! c)"
    and copy: "if 0 < j \<and> length (concat (take j ?ds)) < length (concat (drop j ?ds) @ [])
     then copy_data_to_list m c s1 = None
     else \<exists>s' reg'. copy_data_to_list m c s1 = Some s' \<and> srv s' = (srv s1)\<lparr>rcv := q'\<rparr> \<and>
       msg_cnts s' = (msg_cnts s1)[c := msg_cnts s1 ! c + int j] \<and>
       msg_clt_cnt s' = msg_clt_cnt s1 + (if msg_cnts s1 ! c = 0 \<and> 0 < j then 1 else 0) \<and>
       cfio_rdma_server_get_data c (rdma s') = Some reg' \<and> region_holds c reg' s' (concat (drop j ?ds) @ []) \<and>
       copy_lens s' ! c = 0 \<and> linked n (rdma s') \<and> copied_only c s1 s'"
    by (elim exE conjE)
  have copied: "\<exists>s' reg'. copy_data_to_list m c s1 = Some s' \<and> srv s' = (srv s1)\<lparr>rcv := q'\<rparr> \<and>
       msg_cnts s' = (msg_cnts s1)[c := msg_cnts s1 ! c + int j] \<and>
       msg_clt_cnt s' = msg_clt_cnt s1 + (if msg_cnts s1 ! c = 0 \<and> 0 < j then 1 else 0) \<and>
       region_holds c reg' s' [] \<and> copy_lens s' ! c = 0 \<and> linked n (rdma s') \<and> copied_only c s1 s'"
    if "j = length rs"
    using copy that by auto
  have "\<exists>s'. copy_data_to_list m c s1 = Some s' \<and> srv s' = (srv s)\<lparr>rcv := q'\<rparr> \<and>
       msg_cnts s' = (msg_cnts s)[c := msg_cnts s ! c + int (length rs)] \<and>
       msg_clt_cnt s' = msg_clt_cnt s + (if msg_cnts s ! c = 0 \<and> rs \<noteq> [] then 1 else 0) \<and> local_lens s' ! c = 0 \<and>
       linked n (rdma s') \<and> copied_only c s1 s'"
    if all: "j = length rs"
    using copied [OF all] region_holdsD(2) all same by fastforce
  moreover have "roomy (length (concat ?ds)) (rbuffer (rcv (srv s)) ! c) \<longrightarrow> j = length rs"
    using j(5) [rule_format, of 0] same(1) by simp
  ultimately show ?thesis using s1 j(1-4) frame same(1) by (intro exI [of _ s1] exI [of _ j] exI [of _ q']) (simp add: take_map)
qed

text \<open>What a client packs arrives. Let a client publish a ring whose unread bytes, after those that its server has
  already fetched, are the messages of some requests, and let the region hold more than them. Then
  the reading turns of the server end, after at most two turns and two for each unread byte, and the copying
  that follows appends to that client's queue the messages of the requests, in the order of the calls and
  byte for byte, all of them unless the queue has no room for the next one. With all of them copied
  the region is empty and the counters have been raised.\<close>

theorem forwarded_requests_arrive:
  assumes conn: "linked n (rdma s)" "c < n" "client_conn c (rdma s) = Some (k, x)" "peer_data_mr x = Some mr"
    and ring: "publishes a b" "read_addrs s ! c = int (used_addr b)" "\<not> read_dones s ! c"
    and region: "cfio_rdma_server_get_data c (rdma s) = Some reg" "nat (region_size s) \<le> length reg" "region_size s < 2 ^ 31"
      "0 \<le> local_lens s ! c" "local_lens s ! c \<le> region_size s" "copy_lens s ! c = 0"
    and sent: "take (nat (local_lens s ! c)) reg @ contents b = concat (map message rs)"
      "int (length (concat (map message rs))) < region_size s"
    and q: "recv_queues m (rcv (srv s)) qs" "length qs = n"
    and client: "cfio_map_get_client_index_of_server m (client_ids s ! c) = Some (int c)" "client_ids s ! c < client_amount m"
    and arrays: "length (local_lens s) = n" "length (read_addrs s) = n" "length (read_dones s) = n"
      "length (copy_lens s) = n" "length (msg_cnts s) = n" "0 \<le> msg_cnts s ! c"
  shows "\<exists>s1 j q'. read_turns (2 * length (contents b) + 2) c (mr_addr mr) (bmem b) a s = Some s1 \<and> read_dones s1 ! c \<and>
    j \<le> length rs \<and> recv_queues m q' (qs[c := qs ! c @ map message (take j rs)]) \<and>
    (j < length rs \<longrightarrow> free_buf_size (rbuffer q' ! c) < length (message (rs ! j))) \<and>
    (j = length rs \<longrightarrow> (\<exists>s'. copy_data_to_list m c s1 = Some s' \<and> srv s' = (srv s)\<lparr>rcv := q'\<rparr> \<and>
       msg_cnts s' = (msg_cnts s)[c := msg_cnts s ! c + int (length rs)] \<and>
       msg_clt_cnt s' = msg_clt_cnt s + (if msg_cnts s ! c = 0 \<and> rs \<noteq> [] then 1 else 0) \<and> local_lens s' ! c = 0))"
proof -
  from ring_arrives [OF assms] show ?thesis by (elim exE conjE) (intro exI conjI; blast)
qed

section \<open>Example\<close>

text \<open>A ring that has wrapped in the middle of a message.\<close>

definition wrapped_ring :: cfio_buf where
  "wrapped_ring = (cfio_buf_open (drop 8 (message (Enddef 7)) @ replicate 16 0 @ take 8 (message (Enddef 7))))
     \<lparr>free_addr := 8, used_addr := 24, end_addr := 32\<rparr>"

definition wrapped_ring_addr :: cfio_buf_addr where
  "wrapped_ring_addr = \<lparr>signal = 1, a_end = 32, a_free = 8, a_used = 24\<rparr>"

theorem forwarded_requests_arrive_witness:
  "\<exists>(s :: nat daemon) s1 j (q' :: recv_state) (mr :: ibv_mr).
    read_turns 34 0 (mr_addr mr) (bmem wrapped_ring) wrapped_ring_addr s = Some s1 \<and> read_dones s1 ! 0 \<and>
    recv_queues map_4_6 (rcv (srv s)) [[], [], [], []] \<and>
    recv_queues map_4_6 q' [map message (take j [Enddef 7]), [], [], []]"
proof -
  from ready_example obtain rd0 where l0: "linked 4 rd0" by blast
  define rd where "rd = rd0\<lparr>data_regions := replicate 4 (replicate 64 0)\<rparr>"
  have i: "(0 :: nat) < 4" by simp
  have l: "linked 4 rd" using l0 linked_regions(1) [of "replicate 4 (replicate 64 0)" rd0 4] by (simp add: rd_def linked_def)
  from linked_conn_of [OF l i] obtain k x where x: "client_conn 0 rd = Some (k, x)" "region x = k" "k < 4" "linked_conn x" .
  then have reg: "cfio_rdma_server_get_data 0 rd = Some (replicate 64 0)"
    by (simp add: cfio_rdma_server_get_data_def) (simp add: rd_def)
  from x(4) obtain mr where mr: "peer_data_mr x = Some mr" by (auto simp: linked_conn_def)
  define q where "q = small_recv [[], [], [], []] [empty_buf, empty_buf, empty_buf, empty_buf]"
  define s where "s = (example_daemon (undefined\<lparr>rcv := q\<rparr>) rd)\<lparr>read_addrs := [24, 0, 0, 0]\<rparr>"
  have rdma: "rdma s = rd" by (simp add: s_def example_daemon_def)
  have len: "length (message (Enddef 7)) = 16" by (simp add: message_def)
  have ring: "publishes wrapped_ring_addr wrapped_ring"
    by (simp add: publishes_def wrapped_ring_addr_def wrapped_ring_def buf_inv_def cfio_buf_open_def magic_ok_def len)
  have held: "contents wrapped_ring = message (Enddef 7)"
    by (simp add: wrapped_ring_def contents_def cfio_buf_open_def slice_def len)
  have q: "recv_queues map_4_6 (rcv (srv s)) [[], [], [], []]" "length [[], [], [], [] :: byte list list] = 4"
    using recv_queues_first [OF slot_holds_empty [OF empty_buf_inv]] by (simp_all add: s_def example_daemon_def q_def)
  have cl: "cfio_map_get_client_index_of_server map_4_6 (client_ids s ! 0) = Some (int 0)" "client_ids s ! 0 < client_amount map_4_6"
    using client_0_index client_0_amount by (simp_all add: s_def example_daemon_def)
  have start: "read_addrs s ! 0 = int (used_addr wrapped_ring)" "\<not> read_dones s ! 0" "copy_lens s ! 0 = 0"
    "local_lens s ! 0 = 0" "region_size s = 64" "0 \<le> msg_cnts s ! 0"
    by (simp_all add: s_def example_daemon_def wrapped_ring_def)
  have ar: "length (local_lens s) = 4" "length (read_addrs s) = 4" "length (read_dones s) = 4"
    "length (copy_lens s) = 4" "length (msg_cnts s) = 4" by (simp_all add: s_def example_daemon_def)
  have all: "take (nat (local_lens s ! 0)) (replicate 64 0) @ contents wrapped_ring = concat (map message [Enddef 7])"
    "int (length (concat (map message [Enddef 7]))) < region_size s" using held len start by simp_all
  have fits: "nat (region_size s) \<le> length (replicate 64 (0 :: byte))" "region_size s < 2 ^ 31" "0 \<le> local_lens s ! 0"
    "local_lens s ! 0 \<le> region_size s" using start by simp_all
  from forwarded_requests_arrive [OF _ i _ mr ring start(1,2) _ fits start(3) all q cl ar start(6), unfolded rdma, OF l x(1) reg]
  obtain s1 j q' where "read_turns (2 * length (contents wrapped_ring) + 2) 0 (mr_addr mr) (bmem wrapped_ring) wrapped_ring_addr s = Some s1"
    "read_dones s1 ! 0" "recv_queues map_4_6 q' ([[], [], [], []][0 := [[], [], [], []] ! 0 @ map message (take j [Enddef 7])])" by blast
  then have "read_turns 34 0 (mr_addr mr) (bmem wrapped_ring) wrapped_ring_addr s = Some s1 \<and> read_dones s1 ! 0 \<and>
    recv_queues map_4_6 (rcv (srv s)) [[], [], [], []] \<and> recv_queues map_4_6 q' [map message (take j [Enddef 7]), [], [], []]"
    using q(1) unfolding held len by simp
  then show ?thesis by blast
qed

end
