(* ===== verification/Arrivals.thy ===== *)
theory Arrivals
  imports Forwarding
begin

text \<open>
  What the verbs library does between two turns of the server's loop: it carries out open requests
  and reports them. For each client the open requests of its connection complete in the order in
  which they were posted; those of different clients in any order. A completed read has
  landed in the client's region the bytes of the client's memory.
\<close>

section \<open>Access through the connections\<close>

text \<open>The number of the connection of a client, which is that of its regions.\<close>

definition slot :: "rdma_server \<Rightarrow> nat \<Rightarrow> nat" where
  "slot r i = the (ordered_conns r ! i)"

lemma linked_slot:
  assumes "linked n r" "i < n"
  shows "ordered_conns r ! i = Some (slot r i)" "slot r i < n"
    "cfio_rdma_server_get_data i r = Some (data_regions r ! slot r i)"
    "cfio_rdma_server_get_addr i r = Some (addr_regions r ! slot r i)"
    "put_data i d r = Some (r\<lparr>data_regions := (data_regions r)[slot r i := d]\<rparr>)"
    "put_addr i a r = Some (r\<lparr>addr_regions := (addr_regions r)[slot r i := a]\<rparr>)"
    "\<exists>x. client_conn i r = Some (slot r i, x) \<and> region x = slot r i \<and> linked_conn x"
proof -
  from linked_conn_of [OF assms] obtain k x where k: "ordered_conns r ! i = Some k" "client_conn i r = Some (k, x)"
    "region x = k" "k < n" "linked_conn x" .
  have s: "slot r i = k" using k(1) by (simp add: slot_def)
  have "length (data_regions r) = n" "length (addr_regions r) = n" using assms(1) by (simp_all add: linked_def)
  with k s show "ordered_conns r ! i = Some (slot r i)" "slot r i < n"
    "cfio_rdma_server_get_data i r = Some (data_regions r ! slot r i)"
    "cfio_rdma_server_get_addr i r = Some (addr_regions r ! slot r i)"
    "put_data i d r = Some (r\<lparr>data_regions := (data_regions r)[slot r i := d]\<rparr>)"
    "put_addr i a r = Some (r\<lparr>addr_regions := (addr_regions r)[slot r i := a]\<rparr>)"
    "\<exists>x. client_conn i r = Some (slot r i, x) \<and> region x = slot r i \<and> linked_conn x"
    by (simp_all add: cfio_rdma_server_get_data_def cfio_rdma_server_get_addr_def put_data_def put_addr_def)
qed

lemma slot_cong: "ordered_conns r' = ordered_conns r \<Longrightarrow> slot r' = slot r"
  by (simp add: slot_def fun_eq_iff)

lemma slot_eq_iff:
  assumes "linked n r" "i < n" "j < n"
  shows "slot r i = slot r j \<longleftrightarrow> i = j"
proof
  assume "slot r i = slot r j"
  then have "ordered_conns r ! i = ordered_conns r ! j" using linked_slot(1) [OF assms(1)] assms(2,3) by simp
  then show "i = j" using assms by (simp add: linked_def nth_eq_iff_index_eq)
qed simp

section \<open>Requests on their way\<close>

fun landing_of :: "int \<Rightarrow> byte list \<Rightarrow> work_request \<Rightarrow> landing" where
  "landing_of base mem (WR_READ k a n lo) = Bytes lo (slice mem (nat (a - base)) (nat n))"
| "landing_of base mem x = Nothing"

text \<open>A read that fits a region of \<open>sz\<close> bytes, and a write of an address record.\<close>

fun reads_into :: "int \<Rightarrow> work_request \<Rightarrow> bool" where
  "reads_into sz (WR_READ k a n lo) \<longleftrightarrow> 0 \<le> lo \<and> 0 \<le> n \<and> lo + n \<le> sz"
| "reads_into sz x \<longleftrightarrow> False"

fun writes_addr :: "work_request \<Rightarrow> bool" where
  "writes_addr (WR_WRITE k a) \<longleftrightarrow> True"
| "writes_addr x \<longleftrightarrow> False"

text \<open>\<open>wired n base sz r F\<close>: the connections are ready, client \<open>i\<close> has its data region at \<open>base i\<close>, and
  \<open>F i\<close> are its open requests: reads, all of them counted, or writes, which are not.\<close>

definition wired :: "nat \<Rightarrow> (nat \<Rightarrow> int) \<Rightarrow> int \<Rightarrow> rdma_server \<Rightarrow> (nat \<Rightarrow> work_request list) \<Rightarrow> bool" where
  "wired n base sz r F \<longleftrightarrow>
     linked n r \<and> (\<forall>reg \<in> set (data_regions r). nat sz \<le> length reg) \<and>
     (\<forall>i < n. (\<exists>k x mr. client_conn i r = Some (k, x) \<and> peer_data_mr x = Some mr \<and> mr_addr mr = base i) \<and>
        (list_all (reads_into sz) (F i) \<and> rest_reqs r ! i = int (length (F i)) \<or>
         list_all writes_addr (F i) \<and> rest_reqs r ! i = 0))"

text \<open>Completions, in an order that the library allows: \<open>K\<close> are the connections of the clients.\<close>

inductive arrives ::
    "(nat \<Rightarrow> int) \<Rightarrow> (nat \<Rightarrow> byte list) \<Rightarrow> nat option list \<Rightarrow> (nat \<Rightarrow> work_request list) \<Rightarrow> wc list \<Rightarrow>
     (nat \<Rightarrow> work_request list) \<Rightarrow> bool" for base mem K where
  nothing: "arrives base mem K F [] F"
| next_one: "i < length K \<Longrightarrow> K ! i = Some (wr_id w) \<Longrightarrow> \<not> wc_recv w \<Longrightarrow> F i = x # q \<Longrightarrow>
    wc_landed w = landing_of (base i) (mem i) x \<Longrightarrow> arrives base mem K (F(i := q)) ws F' \<Longrightarrow> arrives base mem K F (w # ws) F'"

inductive_cases arrives_nilE: "arrives base mem K F [] F'"
inductive_cases arrives_consE: "arrives base mem K F (w # ws) F'"

lemma arrives_append:
  "arrives base mem K F (ws @ vs) F' \<Longrightarrow> \<exists>G. arrives base mem K F ws G \<and> arrives base mem K G vs F'"
proof (induction ws arbitrary: F)
  case Nil
  then have "arrives base mem K F vs F'" by simp
  then show ?case using arrives.nothing by blast
next
  case (Cons w ws)
  from Cons.prems obtain i x q where i: "i < length K" "K ! i = Some (wr_id w)" "\<not> wc_recv w" "F i = x # q"
    "wc_landed w = landing_of (base i) (mem i) x" "arrives base mem K (F(i := q)) (ws @ vs) F'"
    by (auto elim: arrives_consE)
  from Cons.IH [OF i(6)] obtain G where G: "arrives base mem K (F(i := q)) ws G" "arrives base mem K G vs F'" by blast
  have "arrives base mem K F (w # ws) G"
    by (rule arrives.next_one [where i = i and q = q and x = x]) (use i G in auto)
  with G(2) show ?case by blast
qed

text \<open>What completions leave: the records, the posted requests, and for each client the region as
  it will be when all its open reads have landed.\<close>

definition carried :: "nat \<Rightarrow> (nat \<Rightarrow> int) \<Rightarrow> (nat \<Rightarrow> byte list) \<Rightarrow> (nat \<Rightarrow> work_request list) \<Rightarrow> rdma_server \<Rightarrow>
    (nat \<Rightarrow> work_request list) \<Rightarrow> rdma_server \<Rightarrow> bool" where
  "carried n base mem F r F' r' \<longleftrightarrow>
     addr_regions r' = addr_regions r \<and> ordered_conns r' = ordered_conns r \<and> posted r' = posted r \<and>
     (\<forall>i < n. (\<exists>ws. F i = ws @ F' i) \<and>
        fetch (base i) (mem i) (F' i) (data_regions r' ! slot r i) = fetch (base i) (mem i) (F i) (data_regions r ! slot r i))"

lemma carried_refl: "addr_regions r' = addr_regions r \<Longrightarrow> ordered_conns r' = ordered_conns r \<Longrightarrow> posted r' = posted r \<Longrightarrow>
    data_regions r' = data_regions r \<Longrightarrow> carried n base mem F r F r'"
  by (simp add: carried_def)

lemma carried_trans:
  assumes "carried n base mem F r F1 r1" "carried n base mem F1 r1 F2 r2"
  shows "carried n base mem F r F2 r2"
proof -
  have s: "slot r1 = slot r" using assms(1) by (intro slot_cong) (simp add: carried_def)
  have "\<exists>ws. F i = ws @ F2 i" if "i < n" for i
  proof -
    from assms(1) that obtain u where u: "F i = u @ F1 i" unfolding carried_def by blast
    from assms(2) that obtain v where "F1 i = v @ F2 i" unfolding carried_def by blast
    with u have "F i = u @ v @ F2 i" by simp
    then have "F i = (u @ v) @ F2 i" by simp
    then show ?thesis ..
  qed
  with assms show ?thesis unfolding carried_def s by simp
qed


section \<open>Completions\<close>

lemma wired_linked: "wired n base sz r F \<Longrightarrow> linked n r"
  by (simp add: wired_def)

lemma wired_cong:
  assumes "wired n base sz r F" "linked n r'" "rest_reqs r' = rest_reqs r" "data_regions r' = data_regions r"
    and "\<And>i. i < n \<Longrightarrow> client_conn i r' = client_conn i r"
  shows "wired n base sz r' F"
  using assms unfolding wired_def by simp

text \<open>The library's part, the bytes of a read or nothing for a write.\<close>

lemma land_request:
  assumes w: "wired n base sz r F" "i < n" "wr_id w = slot r i" "F i = x # q" "wc_landed w = landing_of (base i) (mem i) x"
  shows "\<exists>r1. land w r = Some r1 \<and> r1 = r\<lparr>data_regions := (data_regions r)[slot r i := fetch (base i) (mem i) [x] (data_regions r ! slot r i)]\<rparr> \<and>
    length (fetch (base i) (mem i) [x] (data_regions r ! slot r i)) = length (data_regions r ! slot r i)"
proof -
  have l: "linked n r" using w(1) by (rule wired_linked)
  note s = linked_slot [OF l w(2)]
  from s(7) obtain y where y: "conn_at (slot r i) r = Some y" "region y = slot r i"
    by (auto simp: client_conn_def bind_eq_Some_conv split: if_splits)
  have len: "slot r i < length (data_regions r)" using l s(2) by (simp add: linked_def)
  then have sz: "nat sz \<le> length (data_regions r ! slot r i)" using w(1) by (simp add: wired_def)
  from w(1,2,4) have "reads_into sz x \<or> writes_addr x" by (auto simp: wired_def)
  then show ?thesis
  proof
    assume "reads_into sz x"
    then obtain k a m lo where x: "x = WR_READ k a m lo" "0 \<le> lo" "0 \<le> m" "lo + m \<le> sz" by (cases x) auto
    have "nat lo + length (slice (mem i) (nat (a - base i)) (nat m)) \<le> length (data_regions r ! slot r i)"
      using x(2-4) sz by simp
    then show ?thesis using y len w(3,5) x(1,2) by (simp add: land_def mem_write_def)
  next
    assume "writes_addr x"
    then obtain k a where "x = WR_WRITE k a" by (cases x) auto
    then show ?thesis using y len w(3,5) by (simp add: land_def)
  qed
qed


text \<open>The server's part.\<close>

lemma arrive_one:
  assumes w: "wired n base sz r F" "i < n" "ordered_conns r ! i = Some (wr_id w)" "\<not> wc_recv w" "F i = x # q"
    "wc_landed w = landing_of (base i) (mem i) x"
  shows "\<exists>r1 r2. land w r = Some r1 \<and> on_completion m w r1 = Some r2 \<and> wired n base sz r2 (F(i := q)) \<and>
    carried n base mem F r (F(i := q)) r2 \<and> cq r2 = cq r"
proof -
  have l: "linked n r" using w(1) by (rule wired_linked)
  note s = linked_slot [OF l w(2)]
  have id: "wr_id w = slot r i" using w(3) by (simp add: slot_def)
  let ?reg = "data_regions r ! slot r i"
  let ?new = "fetch (base i) (mem i) [x] ?reg"
  let ?r1 = "r\<lparr>data_regions := (data_regions r)[slot r i := ?new]\<rparr>"
  from land_request [where base = base and mem = mem and F = F, OF w(1,2) id w(5,6)] have r1: "land w r = Some ?r1" "length ?new = length ?reg" by auto
  from s(7) obtain y where y: "client_conn i r = Some (slot r i, y)" "region y = slot r i" "linked_conn y" by blast
  have l1: "linked n ?r1" using l by (simp add: linked_regions)
  have cy: "client_conn i ?r1 = Some (wr_id w, y)" using y(1) id by simp
  let ?rest = "if 0 < rest_reqs r ! i then (rest_reqs r)[i := rest_reqs r ! i - 1] else rest_reqs r"
  let ?y = "y\<lparr>send_state := SS_RDMA_SENDING\<rparr>"
  let ?r2 = "(set_conn (wr_id w) ?y ?r1)\<lparr>rest_reqs := ?rest, request_stack_size := request_stack_size r - 1\<rparr>"
  have r2: "on_completion m w ?r1 = Some ?r2" using on_completion_sent [OF l1 w(2) cy w(4), of m] by simp
  have at: "conn_at (wr_id w) ?r1 = Some y" using cy by (auto simp: client_conn_def bind_eq_Some_conv split: if_splits)
  have "linked n (set_conn (wr_id w) ?y ?r1)" by (rule linked_set_conn [OF l1 at]) (simp_all add: linked_conn_def)
  then have l2: "linked n ?r2" by (simp add: linked_rest)
  have len: "length (rest_reqs r) = n" "length (data_regions r) = n" using l by (simp_all add: linked_def)
  have "\<forall>reg \<in> set (data_regions ?r2). nat sz \<le> length reg"
    using w(1) r1(2) s(2) len(2) by (auto simp: wired_def dest!: set_update_subset_insert [THEN subsetD])
  moreover have "(\<exists>k z mr. client_conn j ?r2 = Some (k, z) \<and> peer_data_mr z = Some mr \<and> mr_addr mr = base j) \<and>
      (list_all (reads_into sz) ((F(i := q)) j) \<and> rest_reqs ?r2 ! j = int (length ((F(i := q)) j)) \<or>
       list_all writes_addr ((F(i := q)) j) \<and> rest_reqs ?r2 ! j = 0)" if j: "j < n" for j
  proof
    from w(1) j obtain k z mr where z: "client_conn j r = Some (k, z)" "peer_data_mr z = Some mr" "mr_addr mr = base j"
      unfolding wired_def by blast
    show "\<exists>k z mr. client_conn j ?r2 = Some (k, z) \<and> peer_data_mr z = Some mr \<and> mr_addr mr = base j"
    proof (cases "k = wr_id w")
      case True
      then have "z = y" using z(1) at by (auto simp: client_conn_def bind_eq_Some_conv split: if_splits)
      then have "client_conn j ?r2 = Some (k, ?y)" using z(1) True conn_at_less [OF at]
        by (auto simp: client_conn_def bind_eq_Some_conv conn_at_def set_conn_def split: if_splits)
      then show ?thesis using z(2,3) \<open>z = y\<close> by simp
    next
      case False
      then have "client_conn j ?r2 = Some (k, z)" using z(1)
        by (auto simp: client_conn_def bind_eq_Some_conv conn_at_def set_conn_def split: if_splits)
      then show ?thesis using z(2,3) by blast
    qed
    show "list_all (reads_into sz) ((F(i := q)) j) \<and> rest_reqs ?r2 ! j = int (length ((F(i := q)) j)) \<or>
       list_all writes_addr ((F(i := q)) j) \<and> rest_reqs ?r2 ! j = 0"
      using w(1,2,5) j len(1) by (cases "j = i") (auto simp: wired_def dest!: spec [of _ i])
  qed
  ultimately have "wired n base sz ?r2 (F(i := q))" using l2 unfolding wired_def by blast
  moreover have "carried n base mem F r (F(i := q)) ?r2"
  proof -
    have "fetch (base i) (mem i) (x # q) ?reg = fetch (base i) (mem i) q ?new" by (cases x) simp_all
    moreover have "\<exists>ws. F j = ws @ (F(i := q)) j" for j using w(5) by (cases "j = i") (auto intro: exI [of _ "[x]"])
    ultimately show ?thesis using w(2,5) s(2) len(2) slot_eq_iff [OF l] by (auto simp: carried_def nth_list_update)
  qed
  ultimately show ?thesis using r1(1) r2 by auto
qed

lemma completions_arrive:
  assumes "arrives base mem K F ws F'" "wired n base sz r F" "K = ordered_conns r"
  shows "\<exists>r'. completions m ws r = Some r' \<and> wired n base sz r' F' \<and> carried n base mem F r F' r' \<and> cq r' = cq r"
  using assms
proof (induction arbitrary: r)
  case (nothing F)
  then show ?case by (simp add: carried_refl)
next
  case (next_one i w F x q ws F')
  have n: "i < n" using wired_linked [OF next_one(8)] next_one(1,9) by (simp add: linked_def)
  have k: "ordered_conns r ! i = Some (wr_id w)" using next_one by simp
  from arrive_one [where base = base and mem = mem and F = F, OF next_one(8) n k next_one(3,4,5)] obtain r1 r2 where
    r: "land w r = Some r1" "on_completion m w r1 = Some r2" "wired n base sz r2 (F(i := q))"
      "carried n base mem F r (F(i := q)) r2" "cq r2 = cq r" by blast
  have "K = ordered_conns r2" using r(4) next_one(9) by (simp add: carried_def)
  with next_one.IH r(3) obtain r' where "completions m ws r2 = Some r'" "wired n base sz r' F'"
    "carried n base mem (F(i := q)) r2 F' r'" "cq r' = cq r2" by blast
  then show ?case using r carried_trans [OF r(4)] by auto
qed

section \<open>The waits\<close>

lemma on_completion_cq: "on_completion m w r = Some r' \<Longrightarrow> cq r' = cq r"
  by (auto simp: on_completion_def Let_def split: bind_splits if_splits rdma_msg_type.splits)

lemma land_cq: "land w r = Some r' \<Longrightarrow> cq r' = cq r"
  by (auto simp: land_def split: bind_splits if_splits landing.splits)

lemma completions_cq: "completions m ws r = Some r' \<Longrightarrow> cq r' = cq r"
  by (induction ws arbitrary: r) (fastforce split: bind_splits dest: on_completion_cq land_cq)+

lemma poll_while_suffix:
  "poll_while m go evs r = Some r' \<Longrightarrow> cq r = evs \<Longrightarrow> \<exists>used. evs = used @ cq r'"
proof (induction evs arbitrary: r)
  case Nil
  then show ?case by (auto simp: poll_while.simps split: if_splits)
next
  case (Cons ev evs)
  show ?case
  proof (cases "go (request_stack_size r)")
    case False
    then show ?thesis using Cons.prems by (auto simp: poll_while.simps intro: exI [of _ "[]"])
  next
    case True
    with Cons.prems obtain r1 where r1: "completions m ev (r\<lparr>cq := evs\<rparr>) = Some r1" "poll_while m go evs r1 = Some r'"
      by (auto simp: poll_while.simps [of m go "ev # evs"] poll_cq_one_time_def split: bind_splits)
    then have "cq r1 = evs" using completions_cq [OF r1(1)] by simp
    from Cons.IH [OF r1(2) this] obtain used where "evs = used @ cq r'" by blast
    then have "ev # evs = (ev # used) @ cq r'" by simp
    then show ?thesis by blast
  qed
qed

lemma poll_while_arrives:
  assumes "poll_while m go evs r = Some r'" "cq r = evs" "evs = used @ cq r'"
    and "arrives base mem K F (concat used) F'" "wired n base sz r F" "K = ordered_conns r"
  shows "wired n base sz r' F' \<and> carried n base mem F r F' r'"
  using assms
proof (induction evs arbitrary: r used F)
  case Nil
  then have "r' = r" "used = []" by (auto simp: poll_while.simps split: if_splits)
  with Nil.prems(4,5) show ?case by (auto simp: carried_refl elim: arrives_nilE)
next
  case (Cons ev evs)
  show ?case
  proof (cases "go (request_stack_size r)")
    case False
    then have "r' = r" using Cons.prems(1) by (simp add: poll_while.simps)
    moreover from this have "used = []" using Cons.prems(2,3) by simp
    ultimately show ?thesis using Cons.prems(4,5) by (auto simp: carried_refl elim: arrives_nilE)
  next
    case True
    let ?r = "r\<lparr>cq := evs\<rparr>"
    from True Cons.prems(1,2) obtain r1 where r1: "completions m ev ?r = Some r1" "poll_while m go evs r1 = Some r'"
      by (auto simp: poll_while.simps [of m go "ev # evs"] poll_cq_one_time_def split: bind_splits)
    have cq1: "cq r1 = evs" using completions_cq [OF r1(1)] by simp
    from poll_while_suffix [OF r1(2) this] obtain used1 where u1: "evs = used1 @ cq r'" by blast
    then have used: "used = ev # used1" using Cons.prems(3) by simp
    from arrives_append [of base mem K F ev "concat used1"] Cons.prems(4) used obtain G where
      G: "arrives base mem K F ev G" "arrives base mem K G (concat used1) F'" by auto
    have w: "wired n base sz ?r F" by (rule wired_cong [OF Cons.prems(5)]) (use Cons.prems(5) in \<open>simp_all add: wired_def\<close>)
    have K: "K = ordered_conns ?r" using Cons.prems(6) by simp
    from completions_arrive [OF G(1) w K, of m] r1(1) have c1: "wired n base sz r1 G" "carried n base mem F ?r G r1" by simp_all
    then have "K = ordered_conns r1" using K by (simp add: carried_def)
    from Cons.IH [OF r1(2) cq1 u1 G(2) c1(1) this] have "wired n base sz r' F'" "carried n base mem G r1 F' r'" by simp_all
    moreover have "carried n base mem F r F ?r" by (rule carried_refl) simp_all
    ultimately show ?thesis using c1(2) carried_trans by blast
  qed
qed


lemma carried_update:
  "carried n base mem F r F' (r'\<lparr>previous_rss := a\<rparr>) = carried n base mem F r F' r'"
  "carried n base mem F r F' (r'\<lparr>previous_rss_changed := b\<rparr>) = carried n base mem F r F' r'"
  by (simp_all add: carried_def)

lemma wired_update:
  "wired n base sz (r\<lparr>previous_rss := a\<rparr>) F = wired n base sz r F"
  "wired n base sz (r\<lparr>previous_rss_changed := b\<rparr>) F = wired n base sz r F"
  by (simp_all add: wired_def linked_def client_conn_def cong: if_cong)

lemma poll_while_stops: "poll_while m go evs r = Some t \<Longrightarrow> \<not> go (request_stack_size t)"
  by (induction evs arbitrary: r) (auto simp: poll_while.simps split: if_splits bind_splits)

lemma wait_some_arrives:
  assumes "cfio_rdma_server_wait_some m r = Some (h, r')" "cq r = used @ cq r'"
    and "arrives base mem K F (concat used) F'" "wired n base sz r F" "K = ordered_conns r"
  shows "wired n base sz r' F' \<and> carried n base mem F r F' r'"
proof -
  have all: "wired n base sz t F' \<and> carried n base mem F r F' t"
    if "poll_while m go (cq r) r = Some t" "cq t = cq r'" for go t
    using poll_while_arrives [OF that(1) refl _ assms(3,4,5)] assms(2) that(2) by simp
  have none: "wired n base sz r F' \<and> carried n base mem F r F' r" if "cq r' = cq r"
  proof -
    have "used = []" using assms(2) that by simp
    then show ?thesis using assms(3,4) by (auto simp: carried_refl elim: arrives_nilE)
  qed
  obtain t where t: "(if request_stack_size r > MAX_CONCURRENT_REQS
      then poll_while m (\<lambda>n. n > MAX_CONCURRENT_REQS div 2) (cq r) r else Some r) = Some t"
    using assms(1) by (auto simp: cfio_rdma_server_wait_some_def Let_def split: bind_splits)
  consider (polled) "poll_while m (\<lambda>n. n > MAX_CONCURRENT_REQS div 2) (cq r) r = Some t" "request_stack_size t \<noteq> request_stack_size r"
    | (skipped) "t = r"
  proof (cases "request_stack_size r > MAX_CONCURRENT_REQS")
    case True
    then have "poll_while m (\<lambda>n. n > MAX_CONCURRENT_REQS div 2) (cq r) r = Some t" using t by simp
    moreover from poll_while_stops [OF this] True have "request_stack_size t \<noteq> request_stack_size r"
      by (auto simp: MAX_CONCURRENT_REQS_def)
    ultimately show thesis using that by blast
  qed (use t that in simp)
  then show ?thesis
  proof cases
    case polled
    then have "\<exists>a b. r' = t\<lparr>previous_rss := a, previous_rss_changed := b\<rparr>"
      using assms(1) t by (auto simp: cfio_rdma_server_wait_some_def Let_def)
    then obtain a b where "r' = t\<lparr>previous_rss := a, previous_rss_changed := b\<rparr>" by blast
    then show ?thesis using all [OF polled(1)] by (simp add: carried_update wired_update)
  next
    case skipped
    then have "\<exists>u a b. r' = u\<lparr>previous_rss := a, previous_rss_changed := b\<rparr> \<and>
        (u = r \<or> poll_while m (\<lambda>n. n \<noteq> 0) (cq r) r = Some u)"
      using assms(1) t by (auto simp: cfio_rdma_server_wait_some_def cfio_rdma_server_wait_all_def Let_def split: if_splits bind_splits)
    then obtain u a b where u: "r' = u\<lparr>previous_rss := a, previous_rss_changed := b\<rparr>"
      "u = r \<or> poll_while m (\<lambda>n. n \<noteq> 0) (cq r) r = Some u" by blast
    from u(2) have "wired n base sz u F' \<and> carried n base mem F r F' u" using all none u(1) by auto
    then show ?thesis by (simp add: u(1) carried_update wired_update)
  qed
qed

end
