(* ===== verification/Service.thy ===== *)
theory Service
  imports Forwarding
begin

text \<open>
  The whole way of a call, from the rings of all clients to the library: a server that reads out
  the ring of one client after the other and then serves its queues carries out the requests of
  its clients. This is one schedule of \<open>cfio_comm\<close>, which takes the clients in turn in the same way.
\<close>

section \<open>Reading out the rings\<close>

text \<open>For each client in the list, the reading turns and the copying: \<open>a c\<close> and \<open>b c\<close> are the address record
  and the ring that client \<open>c\<close> has published, \<open>mr c\<close> is its memory region.\<close>

fun read_rings ::
    "map_state \<Rightarrow> (nat \<Rightarrow> ibv_mr) \<Rightarrow> (nat \<Rightarrow> cfio_buf) \<Rightarrow> (nat \<Rightarrow> cfio_buf_addr) \<Rightarrow> nat list \<Rightarrow> 'f daemon \<Rightarrow> 'f daemon option" where
  "read_rings m mr b a [] s = Some s"
| "read_rings m mr b a (c # cs) s =
     do {
       s \<leftarrow> read_turns (2 * length (contents (b c)) + 2) c (mr_addr (mr c)) (bmem (b c)) (a c) s;
       s \<leftarrow> copy_data_to_list m c s;
       read_rings m mr b a cs s
     }"

text \<open>A client whose requests \<open>rs\<close> stand in its ring and have not been read: its region at the
  server is large enough, and its queue has room.\<close>

definition waits :: "nat \<Rightarrow> cfio_buf_addr \<Rightarrow> cfio_buf \<Rightarrow> ibv_mr \<Rightarrow> request list \<Rightarrow> 'f daemon \<Rightarrow> bool" where
  "waits c a b mr rs s \<longleftrightarrow>
     publishes a b \<and> contents b = concat (map message rs) \<and> int (length (contents b)) < region_size s \<and>
     read_addrs s ! c = int (used_addr b) \<and> \<not> read_dones s ! c \<and> local_lens s ! c = 0 \<and> copy_lens s ! c = 0 \<and>
     (\<exists>k x. client_conn c (rdma s) = Some (k, x) \<and> peer_data_mr x = Some mr) \<and>
     (\<exists>reg. cfio_rdma_server_get_data c (rdma s) = Some reg \<and> nat (region_size s) \<le> length reg) \<and>
     roomy (length (contents b)) (rbuffer (rcv (srv s)) ! c)"

text \<open>The server when the clients in \<open>D\<close> have been read out.\<close>

definition rings_read :: "map_state \<Rightarrow> nat \<Rightarrow> (nat \<Rightarrow> ibv_mr) \<Rightarrow> (nat \<Rightarrow> cfio_buf) \<Rightarrow> (nat \<Rightarrow> cfio_buf_addr) \<Rightarrow>
    (nat \<Rightarrow> request list) \<Rightarrow> nat set \<Rightarrow> 'f daemon \<Rightarrow> 'f daemon \<Rightarrow> bool" where
  "rings_read m n mr b a rs D s0 s \<longleftrightarrow>
     linked n (rdma s) \<and> length (local_lens s) = n \<and> length (read_addrs s) = n \<and> length (read_dones s) = n \<and>
     length (copy_lens s) = n \<and> region_size s < 2 ^ 31 \<and> clients s = int n \<and> client_ids s = client_ids s0 \<and>
     srv s = (srv s0)\<lparr>rcv := rcv (srv s)\<rparr> \<and> client_get_index (rcv (srv s)) = 0 \<and>
     recv_queues m (rcv (srv s)) (map (\<lambda>i. if i \<in> D then map message (rs i) else []) [0..<n]) \<and>
     msg_cnts s = map (\<lambda>i. if i \<in> D then int (length (rs i)) else 0) [0..<n] \<and>
     msg_clt_cnt s = int (card {i \<in> D. rs i \<noteq> []}) \<and>
     (\<forall>i < n. i \<notin> D \<longrightarrow> waits i (a i) (b i) (mr i) (rs i) s)"

lemma waits_kept:
  assumes "waits i a b mr rs s" "i \<noteq> c" "reads_only c s s1" "copied_only c s1 s'" "srv s' = (srv s)\<lparr>rcv := q\<rparr>"
    and "keeps_others c (rcv (srv s)) q"
  shows "waits i a b mr rs s'"
proof -
  have r: "region_size s' = region_size s" "read_addrs s' ! i = read_addrs s ! i" "read_dones s' ! i = read_dones s ! i"
    "local_lens s' ! i = local_lens s ! i" "copy_lens s' ! i = copy_lens s ! i"
    using assms(2-4) by (simp_all add: reads_only_def copied_only_def)
  have o: "other_data c (rdma s) (rdma s')" using assms(3,4) other_data_trans unfolding reads_only_def copied_only_def by blast
  then have "client_conn i (rdma s') = client_conn i (rdma s)"
    "cfio_rdma_server_get_data i (rdma s') = cfio_rdma_server_get_data i (rdma s)"
    using client_conn_cong [of "rdma s'" "rdma s" i] assms(2) by (simp_all add: other_data_def)
  moreover have "rbuffer (rcv (srv s')) ! i = rbuffer (rcv (srv s)) ! i" using assms(2,5,6) by (simp add: keeps_others_def)
  ultimately show ?thesis using assms(1) unfolding waits_def r by (elim conjE) (intro conjI; simp)
qed

lemma card_insert_nonempty:
  assumes "finite D" "c \<notin> D"
  shows "int (card {i \<in> insert c D. rs i \<noteq> []}) = int (card {i \<in> D. rs i \<noteq> []}) + (if rs c \<noteq> [] then 1 else 0)"
proof -
  have "{i \<in> insert c D. rs i \<noteq> []} = (if rs c \<noteq> [] then insert c {i \<in> D. rs i \<noteq> []} else {i \<in> D. rs i \<noteq> []})" by auto
  then show ?thesis using assms by simp
qed

lemma read_ring_one:
  assumes g: "rings_read m n mr b a rs D s0 s" "c < n" "c \<notin> D" "finite D"
    and client: "cfio_map_get_client_index_of_server m (client_ids s0 ! c) = Some (int c)" "client_ids s0 ! c < client_amount m"
  shows "\<exists>s1 s'. read_turns (2 * length (contents (b c)) + 2) c (mr_addr (mr c)) (bmem (b c)) (a c) s = Some s1 \<and>
    copy_data_to_list m c s1 = Some s' \<and> rings_read m n mr b a rs (insert c D) s0 s'"
proof -
  let ?qs = "map (\<lambda>i. if i \<in> D then map message (rs i) else []) [0..<n]"
  from g(1-3) have w: "waits c (a c) (b c) (mr c) (rs c) s" by (simp add: rings_read_def)
  then obtain k x reg where conn: "client_conn c (rdma s) = Some (k, x)" "peer_data_mr x = Some (mr c)"
    and reg: "cfio_rdma_server_get_data c (rdma s) = Some reg" "nat (region_size s) \<le> length reg"
    by (auto simp: waits_def)
  have ring: "publishes (a c) (b c)" "read_addrs s ! c = int (used_addr (b c))" "\<not> read_dones s ! c" "local_lens s ! c = 0"
    "copy_lens s ! c = 0" "int (length (concat (map message (rs c)))) < region_size s"
    "take (nat (local_lens s ! c)) reg @ contents (b c) = concat (map message (rs c))"
    "roomy (length (concat (map message (rs c)))) (rbuffer (rcv (srv s)) ! c)"
    using w by (auto simp: waits_def)
  have st: "linked n (rdma s)" "region_size s < 2 ^ 31" "recv_queues m (rcv (srv s)) ?qs" "client_ids s = client_ids s0"
    "length (local_lens s) = n" "length (read_addrs s) = n" "length (read_dones s) = n" "length (copy_lens s) = n"
    "msg_cnts s = map (\<lambda>i. if i \<in> D then int (length (rs i)) else 0) [0..<n]" "srv s = (srv s0)\<lparr>rcv := rcv (srv s)\<rparr>"
    "clients s = int n" "client_get_index (rcv (srv s)) = 0" "msg_clt_cnt s = int (card {i \<in> D. rs i \<noteq> []})"
    using g(1) unfolding rings_read_def by blast+
  have fits: "0 \<le> local_lens s ! c" "local_lens s ! c \<le> region_size s" "length ?qs = n" "length (msg_cnts s) = n"
    "0 \<le> msg_cnts s ! c" "msg_cnts s ! c = 0" "?qs ! c = []"
    using ring(4,6) st(9) g(2,3) by simp_all
  from ring_arrives [OF st(1) g(2) conn ring(1-3) reg st(2) fits(1,2) ring(5,7,6) st(3) fits(3) client [folded st(4)] st(5-8) fits(4,5)]
  obtain s1 j q' where s1: "read_turns (2 * length (contents (b c)) + 2) c (mr_addr (mr c)) (bmem (b c)) (a c) s = Some s1"
    "reads_only c s s1" "keeps_others c (rcv (srv s)) q'" "j = length (rs c)"
    "recv_queues m q' (?qs[c := ?qs ! c @ map message (take j (rs c))])"
    and copy: "j = length (rs c) \<longrightarrow> (\<exists>s'. copy_data_to_list m c s1 = Some s' \<and> srv s' = (srv s)\<lparr>rcv := q'\<rparr> \<and>
       msg_cnts s' = (msg_cnts s)[c := msg_cnts s ! c + int (length (rs c))] \<and>
       msg_clt_cnt s' = msg_clt_cnt s + (if msg_cnts s ! c = 0 \<and> rs c \<noteq> [] then 1 else 0) \<and> local_lens s' ! c = 0 \<and>
       linked n (rdma s') \<and> copied_only c s1 s')"
    using ring(8) by (elim exE conjE) blast
  then obtain s' where s': "copy_data_to_list m c s1 = Some s'" "srv s' = (srv s)\<lparr>rcv := q'\<rparr>"
    "msg_cnts s' = (msg_cnts s)[c := int (length (rs c))]"
    "msg_clt_cnt s' = msg_clt_cnt s + (if rs c \<noteq> [] then 1 else 0)" "linked n (rdma s')" "copied_only c s1 s'"
    using fits(6) by auto
  have upd: "(map (\<lambda>i. if i \<in> D then f i else z) [0..<n])[c := f c] = map (\<lambda>i. if i \<in> insert c D then f i else z) [0..<n]" for f and z :: 'z
    using g(2,3) by (intro nth_equalityI) (auto simp: nth_list_update)
  have "recv_queues m q' (map (\<lambda>i. if i \<in> insert c D then map message (rs i) else []) [0..<n])"
    using s1(4,5) fits(7) upd [of "\<lambda>i. map message (rs i)" "[]"] by simp
  moreover have "msg_cnts s' = map (\<lambda>i. if i \<in> insert c D then int (length (rs i)) else 0) [0..<n]"
    using s'(3) st(9) upd [of "\<lambda>i. int (length (rs i))" 0] by simp
  moreover have "msg_clt_cnt s' = int (card {i \<in> insert c D. rs i \<noteq> []})"
    using s'(4) st(13) card_insert_nonempty [OF g(4,3), of rs] by simp
  moreover have "waits i (a i) (b i) (mr i) (rs i) s'" if "i < n" "i \<notin> insert c D" for i
  proof (rule waits_kept [OF _ _ s1(2) s'(6) s'(2) s1(3)])
    show "waits i (a i) (b i) (mr i) (rs i) s" using g(1) that by (simp add: rings_read_def)
  qed (use that in simp)
  moreover have "length (local_lens s') = n" "length (read_addrs s') = n" "length (read_dones s') = n" "length (copy_lens s') = n"
    "region_size s' < 2 ^ 31" "clients s' = int n" "client_ids s' = client_ids s0"
    using st s1(2) s'(6) by (simp_all add: reads_only_def copied_only_def)
  moreover have "srv s' = (srv s0)\<lparr>rcv := rcv (srv s')\<rparr>" 
  proof -
    have "srv s' = ((srv s0)\<lparr>rcv := rcv (srv s)\<rparr>)\<lparr>rcv := q'\<rparr>" using s'(2) st(10) by simp
    then show ?thesis by simp
  qed
  moreover have "client_get_index (rcv (srv s')) = 0" using s'(2) s1(3) st(12) by (simp add: keeps_others_def)
  ultimately have "rings_read m n mr b a rs (insert c D) s0 s'" using s'(2,5) unfolding rings_read_def by simp
  then show ?thesis using s1(1) s'(1) by blast
qed

lemma read_rings_all:
  assumes "rings_read m n mr b a rs D s0 s" "distinct cs" "set cs \<inter> D = {}" "set cs \<subseteq> {..<n}" "finite D"
    and client: "\<And>c. c < n \<Longrightarrow> cfio_map_get_client_index_of_server m (client_ids s0 ! c) = Some (int c) \<and>
      client_ids s0 ! c < client_amount m"
  shows "\<exists>s'. read_rings m mr b a cs s = Some s' \<and> rings_read m n mr b a rs (D \<union> set cs) s0 s'"
  using assms(1-5)
proof (induction cs arbitrary: D s)
  case (Cons c cs)
  have c: "c < n" "c \<notin> D" using Cons.prems by auto
  from read_ring_one [OF Cons.prems(1) c Cons.prems(5)] client [OF c(1)] obtain s1 s2 where
    s2: "read_turns (2 * length (contents (b c)) + 2) c (mr_addr (mr c)) (bmem (b c)) (a c) s = Some s1"
    "copy_data_to_list m c s1 = Some s2" "rings_read m n mr b a rs (insert c D) s0 s2" by blast
  have "\<exists>s'. read_rings m mr b a cs s2 = Some s' \<and> rings_read m n mr b a rs (insert c D \<union> set cs) s0 s'"
    by (rule Cons.IH [OF s2(3)]) (use Cons.prems in auto)
  then show ?case using s2(1,2) by simp
qed simp

section \<open>From the rings to the library\<close>


section \<open>Example\<close>

definition create_ring :: cfio_buf where
  "create_ring = (cfio_buf_open (create_msg @ replicate 40 0))\<lparr>free_addr := length create_msg\<rparr>"

definition create_addr :: cfio_buf_addr where
  "create_addr = \<lparr>signal = 1, a_end = 0, a_free = length create_msg, a_used = 0\<rparr>"


end
