(* ===== verification/CommLoop.thy ===== *)
theory CommLoop
  imports Arrivals Service
begin

text \<open>
  The loop of the server against all its clients. \<open>Service\<close> follows one schedule; here the clients, the
  network and the server take their steps in any order: a client hands over its ring, or says that it is
  done; the loop takes a turn, at whose start some open requests have completed. The invariant
  says, for every state, how far each call of each client has come.
\<close>

section \<open>The parts of a turn\<close>

definition turn_read :: "nat \<Rightarrow> cfio_buf_addr \<Rightarrow> 'f daemon \<Rightarrow> 'f daemon option" where
  "turn_read c a s = (if \<not> read_dones s ! c \<and> \<not> buf_full c s then read_data c a s else Some s)"

definition turn_ack :: "nat \<Rightarrow> cfio_buf_addr \<Rightarrow> 'f daemon \<Rightarrow> 'f daemon option" where
  "turn_ack c a s =
     (if buf_empty c s \<and> read_dones s ! c then do {
        rd \<leftarrow> put_addr c (cfio_rdma_addr_server_clear_signal a) (rdma s);
        rd \<leftarrow> cfio_rdma_server_write_addr c rd;
        Some (s\<lparr>rdma := rd\<rparr>)
      }
      else Some s)"

definition turn_copy :: "map_state \<Rightarrow> nat \<Rightarrow> cfio_buf_addr \<Rightarrow> 'f daemon \<Rightarrow> 'f daemon option" where
  "turn_copy m c a s =
     do {
       arrived \<leftarrow> cfio_rdma_server_test c (rdma s);
       if exist_msg c s \<and> arrived \<noteq> 0 then do { s \<leftarrow> copy_data_to_list m c s; turn_ack c a s } else Some s
     }"

definition turn_serve :: "'f pnetcdf \<Rightarrow> (nat \<Rightarrow> byte) \<Rightarrow> map_state \<Rightarrow> 'f daemon \<Rightarrow> 'f daemon option" where
  "turn_serve P junk m s = (if msg_clt_cnt s = clients s then io_rounds P junk m s else Some s)"

definition turn_start :: "nat \<Rightarrow> cfio_buf_addr \<Rightarrow> 'f daemon \<Rightarrow> 'f daemon" where
  "turn_start c a s = s\<lparr>read_addrs := (read_addrs s)[c := int (a_used a)], read_dones := (read_dones s)[c := False]\<rparr>"

definition turn_test :: "nat \<Rightarrow> cfio_buf_addr \<Rightarrow> 'f daemon \<Rightarrow> int" where
  "turn_test c a s = (if read_dones s ! c \<and> buf_empty c s then cfio_rdma_addr_server_test a else 0)"

lemma comm_turn_parts:
  "comm_turn P junk m clt s =
     do {
       (handled, rd) \<leftarrow> cfio_rdma_server_wait_some m (rdma s);
       let s = s\<lparr>rdma := rd\<rparr>;
       c \<leftarrow> next_client (clients s) (comm_dones s) clt;
       a \<leftarrow> cfio_rdma_server_get_addr c (rdma s);
       let ret = turn_test c a s;
       if ret \<noteq> 0 \<and> 1 \<noteq> ret
       then Some (c, s\<lparr>comm_dones := (comm_dones s)[c := True], comm_done_cnt := comm_done_cnt s + 1\<rparr>)
       else do {
         s \<leftarrow> turn_read c a (if ret = 1 then turn_start c a s else s);
         s \<leftarrow> turn_copy m c a s;
         s \<leftarrow> turn_serve P junk m s;
         Some (c, s)
       }
     }"
  unfolding comm_turn_def turn_read_def turn_copy_def turn_ack_def turn_serve_def turn_start_def turn_test_def Let_def
  by (rule Option.bind_cong [OF refl], clarsimp, rule Option.bind_cong [OF refl], rule Option.bind_cong [OF refl])
    (simp add: Option.bind_assoc)

lemma next_client_undone:
  assumes "next_client (int n) dones clt = Some c"
  shows "c < n" "\<not> dones ! c"
proof -
  have n: "0 < n" and f: "List.find (\<lambda>k. \<not> dones ! k) (map (\<lambda>i. (clt + i) mod n) [1..<n + 1]) = Some c"
    using assms by (auto simp: next_client_def split: if_splits)
  then obtain i where "i < length (map (\<lambda>i. (clt + i) mod n) [1..<n + 1])" "\<not> dones ! c"
    "c = map (\<lambda>i. (clt + i) mod n) [1..<n + 1] ! i" unfolding find_Some_iff by blast
  then have "c \<in> set (map (\<lambda>i. (clt + i) mod n) [1..<n + 1])" "\<not> dones ! c" using nth_mem by blast+
  then show "c < n" "\<not> dones ! c" using n by auto
qed

text \<open>Serving touches neither the transport nor the reading.\<close>

definition serves_only :: "'f daemon \<Rightarrow> 'f daemon \<Rightarrow> bool" where
  "serves_only s s' \<longleftrightarrow> rdma s' = rdma s \<and> clients s' = clients s \<and> client_ids s' = client_ids s \<and>
     region_size s' = region_size s \<and> read_addrs s' = read_addrs s \<and> read_dones s' = read_dones s \<and>
     local_lens s' = local_lens s \<and> copy_lens s' = copy_lens s \<and> comm_dones s' = comm_dones s \<and>
     comm_done_cnt s' = comm_done_cnt s"

lemma io_round_frame: "io_round P junk m is s = Some s' \<Longrightarrow> serves_only s s'"
  by (induction "is" arbitrary: s) (fastforce simp: serves_only_def Let_def split: bind_splits)+

lemma io_rounds_frame:
  assumes "io_rounds P junk m s = Some s'"
  shows "serves_only s s'"
proof -
  have "(\<lambda>(((P, junk), m), s). serves_only s) (((P, junk), m), s) s'"
  proof (rule io_rounds.raw_induct [OF _ assms])
    fix rounds :: "'a pnetcdf \<Rightarrow> (nat \<Rightarrow> byte) \<Rightarrow> map_state \<Rightarrow> 'a daemon \<Rightarrow> 'a daemon option" and P junk m and s t :: "'a daemon"
    assume IH: "\<And>P junk m s t. rounds P junk m s = Some t \<Longrightarrow> (\<lambda>(((P, junk), m), s). serves_only s) (((P, junk), m), s) t"
      and step: "(if clients s = msg_clt_cnt s then io_round P junk m [0..<nat (clients s)] s \<bind> rounds P junk m else Some s) = Some t"
    from step have "serves_only s t"
      by (auto simp: serves_only_def dest!: IH io_round_frame split: if_splits bind_splits)
    then show "(\<lambda>(((P, junk), m), s). serves_only s) (((P, junk), m), s) t" by simp
  qed
  then show ?thesis by simp
qed

section \<open>Clients, network and server\<close>

text \<open>
  What is outside of the server: the calls that each client has handed over so far, its ring as it was
  handed over last, the open requests on its connection, oldest first, and the writes of the clients into
  the server's memory, those between two turns in one list.
\<close>

record outside =
  called :: "nat \<Rightarrow> request list"
  their_ring :: "nat \<Rightarrow> cfio_buf"
  flight :: "nat \<Rightarrow> work_request list"
  history :: "(nat \<times> cfio_buf_addr) list list"
  written :: "(nat \<times> cfio_buf_addr) list"

abbreviation rings :: "outside \<Rightarrow> nat \<Rightarrow> byte list" where
  "rings g i \<equiv> bmem (their_ring g i)"

definition addr_of :: "'f daemon \<Rightarrow> nat \<Rightarrow> cfio_buf_addr" where
  "addr_of s i = addr_regions (rdma s) ! slot (rdma s) i"

text \<open>A server whose transport is set up and whose variables are initialised.\<close>

definition idle_server :: "map_state \<Rightarrow> nat \<Rightarrow> (nat \<Rightarrow> int) \<Rightarrow> 'f daemon \<Rightarrow> bool" where
  "idle_server m n base s \<longleftrightarrow>
     0 < n \<and> clients s = int n \<and> region_size s < 2 ^ 31 \<and> wired n base (region_size s) (rdma s) (\<lambda>_. []) \<and>
     (\<forall>i < n. signal (addr_of s i) = 0) \<and>
     (\<forall>i < n. cfio_map_get_client_index_of_server m (client_ids s ! i) = Some (int i) \<and> client_ids s ! i < client_amount m) \<and>
     length (read_addrs s) = n \<and> read_dones s = replicate n True \<and> local_lens s = replicate n 0 \<and>
     copy_lens s = replicate n 0 \<and> msg_cnts s = replicate n 0 \<and> msg_clt_cnt s = 0 \<and>
     comm_dones s = replicate n False \<and> comm_done_cnt s = 0 \<and>
     recv_queues m (rcv (srv s)) (replicate n []) \<and> client_get_index (rcv (srv s)) = 0"

text \<open>
  The states that the server and its clients reach. A client hands over its ring when the record that
  the server holds has been cleared and no request to it is open: that the completion of the write that
  clears it has been seen is not ensured by the code (see \<open>write_completion_hides_read\<close>). The ring
  holds the messages of at least one call, and less than the region at the server. At the start of
  a turn the completions \<open>used\<close> are taken; what the turn posts goes to the client of the turn.
\<close>

inductive serving ::
    "'f pnetcdf \<Rightarrow> (nat \<Rightarrow> byte) \<Rightarrow> map_state \<Rightarrow> nat \<Rightarrow> (nat \<Rightarrow> int) \<Rightarrow> 'f daemon \<Rightarrow> nat \<Rightarrow> 'f daemon \<Rightarrow> outside \<Rightarrow> bool"
  for P junk m n base s0 where
  begins: "idle_server m n base s0 \<Longrightarrow> called g = (\<lambda>_. []) \<Longrightarrow> flight g = (\<lambda>_. []) \<Longrightarrow> history g = [] \<Longrightarrow> written g = [] \<Longrightarrow>
    serving P junk m n base s0 0 s0 g"
| hands_over: "serving P junk m n base s0 clt s g \<Longrightarrow> i < n \<Longrightarrow> signal (addr_of s i) = 0 \<Longrightarrow> flight g i = [] \<Longrightarrow>
    publishes a b \<Longrightarrow> signal a = 1 \<Longrightarrow> contents b = concat (map message rs) \<Longrightarrow> rs \<noteq> [] \<Longrightarrow> \<forall>r \<in> set rs. wf_request r \<Longrightarrow>
    int (length (contents b)) < region_size s \<Longrightarrow> put_addr i a (rdma s) = Some rd \<Longrightarrow>
    serving P junk m n base s0 clt (s\<lparr>rdma := rd\<rparr>)
      (g\<lparr>called := (called g)(i := called g i @ rs), their_ring := (their_ring g)(i := b), written := written g @ [(i, a)]\<rparr>)"
| says_done: "serving P junk m n base s0 clt s g \<Longrightarrow> i < n \<Longrightarrow> signal (addr_of s i) = 0 \<Longrightarrow> flight g i = [] \<Longrightarrow>
    signal a \<notin> {0, 1} \<Longrightarrow> put_addr i a (rdma s) = Some rd \<Longrightarrow>
    serving P junk m n base s0 clt (s\<lparr>rdma := rd\<rparr>) (g\<lparr>written := written g @ [(i, a)]\<rparr>)"
| turn: "serving P junk m n base s0 clt s g \<Longrightarrow> comm_turn P junk m clt s = Some (c, s') \<Longrightarrow> cq (rdma s) = used @ cq (rdma s') \<Longrightarrow>
    arrives base (rings g) (ordered_conns (rdma s)) (flight g) (concat used) F \<Longrightarrow>
    serving P junk m n base s0 c s'
      (g\<lparr>flight := F(c := F c @ drop (length (posted (rdma s))) (posted (rdma s'))), history := history g @ [written g], written := []\<rparr>)"

section \<open>How far a client has come\<close>

text \<open>
  The client's requests \<open>w\<close> have been handed over and are not queued yet. At rest, none is in the
  server's region: they are in the ring, or there are none. At work, the region, once the reads in
  flight have landed, and the unread part of the ring together hold them; between two turns either
  everything has been read or the reading is at the start of the ring.
\<close>

definition at_rest :: "int \<Rightarrow> cfio_buf_addr \<Rightarrow> cfio_buf \<Rightarrow> work_request list \<Rightarrow> bool \<Rightarrow> int \<Rightarrow> bool \<Rightarrow> request list \<Rightarrow> bool" where
  "at_rest sz a b F rd l cd w \<longleftrightarrow>
     rd \<and> l = 0 \<and> list_all writes_addr F \<and> (signal a \<noteq> 0 \<longrightarrow> F = []) \<and> (cd \<longrightarrow> signal a \<notin> {0, 1}) \<and>
     (if signal a = 1 then publishes a b \<and> contents b = concat (map message w) \<and> w \<noteq> [] \<and> int (length (contents b)) < sz else w = [])"

definition held :: "int \<Rightarrow> cfio_buf_addr \<Rightarrow> byte list \<Rightarrow> byte list \<Rightarrow> int \<Rightarrow> int \<Rightarrow> request list \<Rightarrow> bool" where
  "held sz a mem reg r l w \<longleftrightarrow>
     addr_ok a mem \<and> read_ok a r \<and> 0 \<le> l \<and> take (nat l) reg @ unread a mem r = concat (map message w) \<and>
     int (length (concat (map message w))) < sz"

definition at_work :: "int \<Rightarrow> cfio_buf_addr \<Rightarrow> cfio_buf \<Rightarrow> work_request list \<Rightarrow> byte list \<Rightarrow> int \<Rightarrow> bool \<Rightarrow> int \<Rightarrow> bool \<Rightarrow> request list \<Rightarrow> bool" where
  "at_work sz a b F reg r rd l cd w \<longleftrightarrow>
     \<not> cd \<and> signal a = 1 \<and> list_all (reads_into sz) F \<and> w \<noteq> [] \<and> held sz a (bmem b) reg r l w \<and>
     (if rd then unread a (bmem b) r = [] else r = 0)"

definition client_is :: "(nat \<Rightarrow> int) \<Rightarrow> 'f daemon \<Rightarrow> outside \<Rightarrow> nat \<Rightarrow> request list \<Rightarrow> bool" where
  "client_is base s g i w \<longleftrightarrow>
     (let r = rdma s; reg = fetch (base i) (rings g i) (flight g i) (data_regions r ! slot r i)
      in at_rest (region_size s) (addr_of s i) (their_ring g i) (flight g i) (read_dones s ! i) (local_lens s ! i) (comm_dones s ! i) w \<or>
         at_work (region_size s) (addr_of s i) (their_ring g i) (flight g i) reg (read_addrs s ! i) (read_dones s ! i)
           (local_lens s ! i) (comm_dones s ! i) w)"

text \<open>The variables that belong together.\<close>

definition loop_vars :: "nat \<Rightarrow> (nat \<Rightarrow> int) \<Rightarrow> 'f daemon \<Rightarrow> 'f daemon \<Rightarrow> outside \<Rightarrow> bool" where
  "loop_vars n base s0 s g \<longleftrightarrow>
     wired n base (region_size s) (rdma s) (flight g) \<and> length (local_lens s) = n \<and> length (read_addrs s) = n \<and>
     length (read_dones s) = n \<and> length (comm_dones s) = n \<and> copy_lens s = replicate n 0 \<and>
     comm_done_cnt s = int (card {i. i < n \<and> comm_dones s ! i}) \<and> client_ids s = client_ids s0 \<and> clients s = int n \<and>
     region_size s < 2 ^ 31"

text \<open>Of the calls of client \<open>i\<close>, \<open>t i\<close> have been carried out, \<open>q i\<close> are queued and \<open>w i\<close> wait.\<close>

definition calls_split ::
    "'f pnetcdf \<Rightarrow> (nat \<Rightarrow> byte) \<Rightarrow> map_state \<Rightarrow> nat \<Rightarrow> 'f daemon \<Rightarrow> (nat \<Rightarrow> request list) \<Rightarrow> (nat \<Rightarrow> request list) \<Rightarrow> 'f daemon \<Rightarrow> bool" where
  "calls_split P junk m n s0 t q s \<longleftrightarrow>
     (\<exists>j v. (\<forall>i < n. length (t i) = j) \<and> pending_requests m n s q \<and>
        performs P junk m (round_requests n (\<lambda>i. client_ids s0 ! i) t j) (srv s0) = Some v \<and> srv s = v\<lparr>rcv := rcv (srv s)\<rparr>)"

definition loop_inv ::
    "'f pnetcdf \<Rightarrow> (nat \<Rightarrow> byte) \<Rightarrow> map_state \<Rightarrow> nat \<Rightarrow> (nat \<Rightarrow> int) \<Rightarrow> 'f daemon \<Rightarrow> 'f daemon \<Rightarrow> outside \<Rightarrow>
     (nat \<Rightarrow> request list) \<Rightarrow> (nat \<Rightarrow> request list) \<Rightarrow> (nat \<Rightarrow> request list) \<Rightarrow> bool" where
  "loop_inv P junk m n base s0 s g t q w \<longleftrightarrow>
     loop_vars n base s0 s g \<and> calls_split P junk m n s0 t q s \<and>
     (\<forall>i < n. called g i = t i @ q i @ w i \<and> (\<forall>r \<in> set (w i). wf_request r) \<and> client_is base s g i (w i))"


section \<open>The steps outside of the server\<close>

definition same_client :: "'f daemon \<Rightarrow> outside \<Rightarrow> 'f daemon \<Rightarrow> outside \<Rightarrow> nat \<Rightarrow> bool" where
  "same_client s g s' g' i \<longleftrightarrow>
     region_size s' = region_size s \<and> addr_of s' i = addr_of s i \<and> their_ring g' i = their_ring g i \<and> flight g' i = flight g i \<and>
     data_regions (rdma s') ! slot (rdma s') i = data_regions (rdma s) ! slot (rdma s) i \<and> read_addrs s' ! i = read_addrs s ! i \<and>
     read_dones s' ! i = read_dones s ! i \<and> local_lens s' ! i = local_lens s ! i \<and> comm_dones s' ! i = comm_dones s ! i"

lemma same_client_is: "same_client s g s' g' i \<Longrightarrow> client_is base s' g' i w \<longleftrightarrow> client_is base s g i w"
  by (simp add: same_client_def client_is_def Let_def)

lemma calls_split_cong:
  "srv s' = srv s \<Longrightarrow> msg_cnts s' = msg_cnts s \<Longrightarrow> msg_clt_cnt s' = msg_clt_cnt s \<Longrightarrow> clients s' = clients s \<Longrightarrow>
    calls_split P junk m n s0 t q s' \<longleftrightarrow> calls_split P junk m n s0 t q s"
  by (simp add: calls_split_def pending_requests_def)

lemma loop_inv_begins:
  assumes "idle_server m n base s0" "called g = (\<lambda>_. [])" "flight g = (\<lambda>_. [])"
  shows "loop_inv P junk m n base s0 s0 g (\<lambda>_. []) (\<lambda>_. []) (\<lambda>_. [])"
proof -
  have "requests_of n (\<lambda>_. []) = replicate n []" by (simp add: requests_of_def map_replicate_const)
  then have "calls_split P junk m n s0 (\<lambda>_. []) (\<lambda>_. []) s0"
    using assms(1) unfolding calls_split_def
    by (intro exI [of _ 0] exI [of _ "srv s0"])
      (simp add: idle_server_def pending_requests_def round_requests_def map_replicate_const)
  moreover have "client_is base s0 g i []" if "i < n" for i
    using assms that by (simp add: client_is_def Let_def idle_server_def at_rest_def)
  ultimately show ?thesis using assms by (simp add: loop_inv_def loop_vars_def idle_server_def)
qed

lemma wired_addr: "length v = length (addr_regions r) \<Longrightarrow> wired n base sz (r\<lparr>addr_regions := v\<rparr>) F \<longleftrightarrow> wired n base sz r F"
  by (simp add: wired_def linked_regions)

text \<open>A client writes its record.\<close>

lemma put_addr_step:
  assumes "loop_vars n base s0 s g" "i < n" "put_addr i a (rdma s) = Some rd" "flight g' = flight g"
  shows "loop_vars n base s0 (s\<lparr>rdma := rd\<rparr>) g'" "addr_of (s\<lparr>rdma := rd\<rparr>) i = a"
    "k < n \<Longrightarrow> k \<noteq> i \<Longrightarrow> their_ring g' k = their_ring g k \<Longrightarrow> same_client s g (s\<lparr>rdma := rd\<rparr>) g' k"
    "data_regions rd = data_regions (rdma s)"
proof -
  have l: "linked n (rdma s)" using assms(1) by (auto simp: loop_vars_def dest: wired_linked)
  have rd: "rd = (rdma s)\<lparr>addr_regions := (addr_regions (rdma s))[slot (rdma s) i := a]\<rparr>"
    using linked_slot(6) [OF l assms(2)] assms(3) by simp
  have s: "slot rd = slot (rdma s)" unfolding rd by (rule slot_cong) simp
  have len: "slot (rdma s) i < length (addr_regions (rdma s))" using l linked_slot(2) [OF l assms(2)] by (simp add: linked_def)
  show "loop_vars n base s0 (s\<lparr>rdma := rd\<rparr>) g'" using assms(1,4) by (simp add: loop_vars_def rd wired_addr)
  show "addr_of (s\<lparr>rdma := rd\<rparr>) i = a" using len by (simp add: addr_of_def s) (simp add: rd)
  show "data_regions rd = data_regions (rdma s)" by (simp add: rd)
  assume k: "k < n" "k \<noteq> i" "their_ring g' k = their_ring g k"
  then have "slot (rdma s) k \<noteq> slot (rdma s) i" using slot_eq_iff [OF l] assms(2) by simp
  then show "same_client s g (s\<lparr>rdma := rd\<rparr>) g' k" using k(3) assms(4)
    by (simp add: same_client_def addr_of_def s) (simp add: rd)
qed

lemma at_rest_signal:
  assumes "client_is base s g i w" "signal (addr_of s i) \<noteq> 1"
  shows "at_rest (region_size s) (addr_of s i) (their_ring g i) (flight g i) (read_dones s ! i) (local_lens s ! i) (comm_dones s ! i) w" "w = []"
  using assms by (auto simp: client_is_def Let_def at_work_def at_rest_def)

lemma loop_inv_writes:
  assumes inv: "loop_inv P junk m n base s0 s g t q w" and i: "i < n" "signal (addr_of s i) = 0" "flight g i = []"
    and a: "put_addr i a (rdma s) = Some rd" "signal a \<noteq> 0"
    and g': "flight g' = flight g" "\<And>k. k \<noteq> i \<Longrightarrow> called g' k = called g k \<and> their_ring g' k = their_ring g k" "called g' i = called g i @ rs"
    and rs: "\<forall>r \<in> set rs. wf_request r" "if signal a = 1 then publishes a (their_ring g' i) \<and> contents (their_ring g' i) = concat (map message rs) \<and>
      rs \<noteq> [] \<and> int (length (contents (their_ring g' i))) < region_size s else rs = []"
  shows "loop_inv P junk m n base s0 (s\<lparr>rdma := rd\<rparr>) g' t q (w(i := rs))"
proof -
  have v: "loop_vars n base s0 s g" and c: "\<And>k. k < n \<Longrightarrow> client_is base s g k (w k)" using inv by (simp_all add: loop_inv_def)
  note p = put_addr_step [OF v i(1) a(1) g'(1)]
  have r: "at_rest (region_size s) (addr_of s i) (their_ring g i) (flight g i) (read_dones s ! i) (local_lens s ! i) (comm_dones s ! i) (w i)" "w i = []"
    using at_rest_signal [OF c [OF i(1)]] i(2) by simp_all
  have "client_is base (s\<lparr>rdma := rd\<rparr>) g' k ((w(i := rs)) k)" if k: "k < n" for k
  proof (cases "k = i")
    case False
    then show ?thesis using same_client_is [OF p(3) [OF k False]] g'(2) c [OF k] by simp
  next
    case True
    have "at_rest (region_size s) a (their_ring g' i) [] (read_dones s ! i) (local_lens s ! i) (comm_dones s ! i) rs"
      using r(1) i(2,3) a(2) rs(2) by (auto simp: at_rest_def)
    then show ?thesis using True p(2) g'(1) i(3) by (simp add: client_is_def Let_def)
  qed
  moreover have "called g' k = t k @ q k @ (w(i := rs)) k \<and> (\<forall>r \<in> set ((w(i := rs)) k). wf_request r)" if "k < n" for k
    using inv that g'(2) [of k] g'(3) rs(1) r(2) by (cases "k = i") (simp_all add: loop_inv_def)
  moreover have "calls_split P junk m n s0 t q (s\<lparr>rdma := rd\<rparr>)"
    using inv calls_split_cong [of "s\<lparr>rdma := rd\<rparr>" s] by (simp add: loop_inv_def)
  ultimately show ?thesis using p(1) by (simp add: loop_inv_def)
qed

text \<open>Completions arrive.\<close>

lemma loop_inv_waits:
  assumes inv: "loop_inv P junk m n base s0 s g t q w"
    and wait: "cfio_rdma_server_wait_some m (rdma s) = Some (h, rd)" "cq (rdma s) = used @ cq rd"
      "arrives base (rings g) (ordered_conns (rdma s)) (flight g) (concat used) F"
  shows "loop_inv P junk m n base s0 (s\<lparr>rdma := rd\<rparr>) (g\<lparr>flight := F\<rparr>) t q w" "posted rd = posted (rdma s)"
proof -
  have v: "loop_vars n base s0 s g" and c: "\<And>k. k < n \<Longrightarrow> client_is base s g k (w k)" using inv by (simp_all add: loop_inv_def)
  from wait_some_arrives [OF wait _ refl, of n "region_size s"] v have rd: "wired n base (region_size s) rd F"
    "carried n base (rings g) (flight g) (rdma s) F rd" by (simp_all add: loop_vars_def)
  then show "posted rd = posted (rdma s)" by (simp add: carried_def)
  have s: "slot rd = slot (rdma s)" using rd(2) by (intro slot_cong) (simp add: carried_def)
  let ?s = "s\<lparr>rdma := rd\<rparr>" and ?g = "g\<lparr>flight := F\<rparr>"
  have "client_is base ?s ?g k (w k)" if k: "k < n" for k
  proof -
    from rd(2) k obtain ws where ws: "flight g k = ws @ F k" by (auto simp: carried_def)
    have fetch: "fetch (base k) (rings g k) (F k) (data_regions rd ! slot (rdma s) k) =
        fetch (base k) (rings g k) (flight g k) (data_regions (rdma s) ! slot (rdma s) k)" and "addr_of ?s k = addr_of s k"
      using rd(2) k by (simp_all add: carried_def addr_of_def s)
    then show ?thesis using c [OF k] ws
      by (auto simp: client_is_def Let_def s fetch at_rest_def at_work_def)
  qed
  moreover have "calls_split P junk m n s0 t q ?s"
    using inv calls_split_cong [of ?s s] by (simp add: loop_inv_def)
  ultimately show "loop_inv P junk m n base s0 ?s ?g t q w"
    using inv rd(1) by (simp add: loop_inv_def loop_vars_def)
qed


section \<open>Reading\<close>

lemma pieces_fit: "pieces k base off lo len ws \<Longrightarrow> 0 \<le> lo \<Longrightarrow> lo + len \<le> sz \<Longrightarrow> list_all (reads_into sz) ws"
  by (induction rule: pieces.induct) auto

lemma pieces_some: "pieces k base off lo len ws \<Longrightarrow> ws = [] \<longleftrightarrow> len = 0"
  by (cases rule: pieces.cases) auto

text \<open>When the region has room for all that is left, the step ends the reading or arrives at the end
  of the ring, with nothing less.\<close>

lemma read_data_whole:
  assumes l: "linked n (rdma s)" "c < n" and conn: "client_conn c (rdma s) = Some (k, x)" "peer_data_mr x = Some mr"
    and arrays: "length (local_lens s) = n" "length (read_addrs s) = n" "length (read_dones s) = n"
    and a: "addr_ok a mem" "read_ok a (read_addrs s ! c)" and undone: "\<not> read_dones s ! c"
    and room: "0 \<le> local_lens s ! c" "local_lens s ! c + int (length (unread a mem (read_addrs s ! c))) < region_size s"
      "nat (region_size s) \<le> length reg"
  shows "\<exists>s' ws. read_data c a s = Some s' \<and> posted (rdma s') = posted (rdma s) @ ws \<and>
    list_all (reads_into (region_size s)) ws \<and> (ws = [] \<longrightarrow> local_lens s' ! c = local_lens s ! c) \<and>
    take (nat (local_lens s' ! c)) (fetch (mr_addr mr) mem ws reg) @ unread a mem (read_addrs s' ! c) =
      take (nat (local_lens s ! c)) reg @ unread a mem (read_addrs s ! c) \<and> 0 \<le> local_lens s' ! c \<and>
    read_ok a (read_addrs s' ! c) \<and> (if read_dones s' ! c then unread a mem (read_addrs s' ! c) = []
      else read_addrs s' ! c = 0 \<and> 0 < read_addrs s ! c) \<and>
    rest_reqs (rdma s') = (rest_reqs (rdma s))[c := rest_reqs (rdma s) ! c + int (length ws)] \<and> linked n (rdma s')"
proof -
  let ?r = "read_addrs s ! c" and ?u = "unread a mem (read_addrs s ! c)"
  have "local_lens s ! c \<le> region_size s" using room(2) by simp
  from read_data_pieces [OF l conn arrays(1,2) a this] obtain first stop j ws rd where
    pt: "parts a ?r first stop" and j: "0 \<le> j" "j = min (stop - ?r) (region_size s - local_lens s ! c)"
    and step: "read_data c a s = Some (s\<lparr>rdma := rd, local_lens := (local_lens s)[c := local_lens s ! c + j],
       read_addrs := (read_addrs s)[c := (if first \<or> ?r + j < stop then ?r + j else 0)],
       read_dones := (if first \<and> stop \<le> ?r + j then (read_dones s)[c := True] else read_dones s)\<rparr>)" (is "_ = Some ?s'")
    and ws: "pieces k (mr_addr mr) ?r (local_lens s ! c) j ws" "linked n rd" "posted rd = posted (rdma s) @ ws"
      "rest_reqs rd = (rest_reqs (rdma s))[c := rest_reqs (rdma s) ! c + int (length ws)]"
    and r: "0 \<le> ?r" "nat stop \<le> length mem" .
  have jle: "j \<le> stop - ?r" "j \<le> region_size s - local_lens s ! c" using j by simp_all
  have r': "read_addrs ?s' ! c = (if first \<or> ?r + j < stop then ?r + j else 0)" using l(2) arrays by simp
  note u = unread_step [OF a pt j(1) jle(1) r']
  have "j < region_size s - local_lens s ! c" using u(2) room(2) by linarith
  then have stop: "?r + j = stop" using j by linarith
  have "\<not> first \<Longrightarrow> 0 < ?r" using pt a(2) by (auto simp: parts_def read_ok_def)
  moreover have "take (nat (local_lens s ! c + j)) (fetch (mr_addr mr) mem ws reg) =
      take (nat (local_lens s ! c)) reg @ take (nat j) ?u"
    unfolding u(1) by (rule fetch_extends [OF ws(1) r(1) room(1) j(1)]) (use r j jle room(3) in simp_all)
  moreover have "list_all (reads_into (region_size s)) ws" by (rule pieces_fit [OF ws(1) room(1)]) (use jle in simp)
  ultimately show ?thesis
    unfolding step using u(3-5) pieces_some [OF ws(1)] ws(2-4) l arrays j(1) room(1) stop r' undone
    by (intro exI [of _ ?s'] exI [of _ ws]) auto
qed

lemma fetch_append: "fetch base mem (F @ ws) reg = fetch base mem ws (fetch base mem F reg)"
  by (induction base mem F reg rule: fetch.induct) simp_all

lemma wired_reads:
  assumes "wired n base sz r F" "i < n" "list_all (reads_into sz) (F i)"
  shows "rest_reqs r ! i = int (length (F i))"
proof (cases "F i")
  case (Cons x q)
  have "\<not> (reads_into sz x \<and> writes_addr x)" by (cases x) simp_all
  then show ?thesis using assms Cons by (auto simp: wired_def)
qed (use assms in \<open>auto simp: wired_def\<close>)

lemma wired_posts:
  assumes "wired n base sz r F" "i < n" "linked n r'" "data_regions r' = data_regions r"
    and "\<And>k. client_conn k r' = client_conn k r"
    and "if list_all (reads_into sz) (F i @ ws) then rest_reqs r' = (rest_reqs r)[i := rest_reqs r ! i + int (length ws)]
      else list_all writes_addr (F i @ ws) \<and> rest_reqs r' = rest_reqs r \<and> rest_reqs r ! i = 0"
  shows "wired n base sz r' (F(i := F i @ ws))"
proof -
  have i: "i < length (rest_reqs r)" using assms(1,2) wired_linked [OF assms(1)] by (simp add: linked_def)
  have "list_all (reads_into sz) (F i @ ws) \<and> rest_reqs r' ! i = int (length (F i @ ws)) \<or> list_all writes_addr (F i @ ws) \<and> rest_reqs r' ! i = 0"
    using assms(6) wired_reads [OF assms(1,2)] i by (auto split: if_splits)
  moreover have "rest_reqs r' ! k = rest_reqs r ! k" if "k \<noteq> i" for k using assms(6) that by (auto split: if_splits)
  ultimately show ?thesis using assms(1-5) by (simp add: wired_def)
qed

lemma turn_read_step:
  assumes v: "loop_vars n base s0 s g" and c: "c < n" "\<not> read_dones s ! c" "list_all (reads_into (region_size s)) (flight g c)"
    and h: "held (region_size s) a (rings g c) (fetch (base c) (rings g c) (flight g c) (data_regions (rdma s) ! slot (rdma s) c))
      (read_addrs s ! c) (local_lens s ! c) w"
  shows "\<exists>s' ws. turn_read c a s = Some s' \<and> posted (rdma s') = posted (rdma s) @ ws \<and> cq (rdma s') = cq (rdma s) \<and> reads_only c s s' \<and>
    loop_vars n base s0 s' (g\<lparr>flight := (flight g)(c := flight g c @ ws)\<rparr>) \<and> data_regions (rdma s') = data_regions (rdma s) \<and>
    list_all (reads_into (region_size s)) (flight g c @ ws) \<and> (ws = [] \<longrightarrow> local_lens s' ! c = local_lens s ! c) \<and>
    held (region_size s) a (rings g c) (fetch (base c) (rings g c) (flight g c @ ws) (data_regions (rdma s) ! slot (rdma s) c))
      (read_addrs s' ! c) (local_lens s' ! c) w \<and>
    (if read_dones s' ! c then unread a (rings g c) (read_addrs s' ! c) = [] else read_addrs s' ! c = 0 \<and> 0 < read_addrs s ! c)"
proof -
  let ?mem = "rings g c" and ?reg = "data_regions (rdma s) ! slot (rdma s) c"
  let ?fetched = "fetch (base c) ?mem (flight g c) ?reg"
  have w: "wired n base (region_size s) (rdma s) (flight g)" using v by (simp add: loop_vars_def)
  note l = wired_linked [OF w]
  from w c(1) obtain k x mr where conn: "client_conn c (rdma s) = Some (k, x)" "peer_data_mr x = Some mr" "mr_addr mr = base c"
    unfolding wired_def by blast
  have arrays: "length (local_lens s) = n" "length (read_addrs s) = n" "length (read_dones s) = n" using v by (simp_all add: loop_vars_def)
  have h': "addr_ok a ?mem" "read_ok a (read_addrs s ! c)" "0 \<le> local_lens s ! c"
    "take (nat (local_lens s ! c)) ?fetched @ unread a ?mem (read_addrs s ! c) = concat (map message w)"
    "int (length (concat (map message w))) < region_size s" using h by (simp_all add: held_def)
  have "slot (rdma s) c < length (data_regions (rdma s))" using l linked_slot(2) [OF l c(1)] by (simp add: linked_def)
  then have "nat (region_size s) \<le> length ?reg" using w by (simp add: wired_def)
  then have sz: "nat (region_size s) \<le> length ?fetched" using length_fetch [of ?reg] le_trans by blast
  have "length (take (nat (local_lens s ! c)) ?fetched) + length (unread a ?mem (read_addrs s ! c)) = length (concat (map message w))"
    by (simp flip: h'(4) del: length_take)
  moreover from this have "local_lens s ! c \<le> int (length ?fetched)" using h'(3,5) sz by (simp add: min_def split: if_splits)
  ultimately have room: "local_lens s ! c + int (length (unread a ?mem (read_addrs s ! c))) < region_size s" using h'(3,5) by simp
  then have "\<not> buf_full c s" by (simp add: buf_full_def)
  then have tr: "turn_read c a s = read_data c a s" using c(2) by (simp add: turn_read_def)
  from read_data_whole [OF l c(1) conn(1,2) arrays h'(1,2) c(2) h'(3) room sz] obtain s' ws where
    s': "read_data c a s = Some s'" "posted (rdma s') = posted (rdma s) @ ws" "list_all (reads_into (region_size s)) ws"
      "ws = [] \<longrightarrow> local_lens s' ! c = local_lens s ! c"
      "take (nat (local_lens s' ! c)) (fetch (base c) ?mem (flight g c @ ws) ?reg) @ unread a ?mem (read_addrs s' ! c) = concat (map message w)"
      "0 \<le> local_lens s' ! c" "read_ok a (read_addrs s' ! c)"
      "if read_dones s' ! c then unread a ?mem (read_addrs s' ! c) = [] else read_addrs s' ! c = 0 \<and> 0 < read_addrs s ! c"
      "rest_reqs (rdma s') = (rest_reqs (rdma s))[c := rest_reqs (rdma s) ! c + int (length ws)]" "linked n (rdma s')"
    unfolding conn(3) h'(4) fetch_append by blast
  have frame: "reads_only c s s'" "data_regions (rdma s') = data_regions (rdma s)" "cq (rdma s') = cq (rdma s)"
    using read_data_frame [OF s'(1)] by simp_all
  have cc: "client_conn k (rdma s') = client_conn k (rdma s)" for k
    by (rule client_conn_cong) (use frame(1) in \<open>simp_all add: reads_only_def other_data_def\<close>)
  have "wired n base (region_size s) (rdma s') ((flight g)(c := flight g c @ ws))"
    by (rule wired_posts [OF w c(1) s'(10) frame(2) cc]) (use c(3) s'(3,9) in simp)
  then have "loop_vars n base s0 s' (g\<lparr>flight := (flight g)(c := flight g c @ ws)\<rparr>)"
    using v frame(1) by (simp add: loop_vars_def reads_only_def)
  moreover have "held (region_size s) a ?mem (fetch (base c) ?mem (flight g c @ ws) ?reg) (read_addrs s' ! c) (local_lens s' ! c) w"
    using s'(5-7) h'(1,5) by (simp add: held_def)
  moreover have "list_all (reads_into (region_size s)) (flight g c @ ws)" using c(3) s'(3) by simp
  ultimately show ?thesis unfolding tr using s'(1,2,4,8) frame by blast
qed


section \<open>Copying\<close>

lemma requests_of_append:
  "c < n \<Longrightarrow> (requests_of n q)[c := requests_of n q ! c @ map message rs] = requests_of n (q(c := q c @ rs))"
  by (intro nth_equalityI) (auto simp: requests_of_def nth_list_update)

lemma pending_copied:
  assumes "pending_requests m n s q" "c < n" "recv_queues m q' ((requests_of n q)[c := requests_of n q ! c @ map message rs])"
    and "keeps_others c (rcv (srv s)) q'" "srv s' = (srv s)\<lparr>rcv := q'\<rparr>" "clients s' = clients s"
    and "msg_cnts s' = (msg_cnts s)[c := msg_cnts s ! c + int (length rs)]"
    and "msg_clt_cnt s' = msg_clt_cnt s + (if msg_cnts s ! c = 0 \<and> rs \<noteq> [] then 1 else 0)" "\<forall>r \<in> set rs. wf_request r"
  shows "pending_requests m n s' (q(c := q c @ rs))"
proof -
  have cnts: "msg_cnts s = map (\<lambda>i. int (length (q i))) [0..<n]" using assms(1) by (simp add: pending_requests_def)
  have "msg_cnts s' = map (\<lambda>i. int (length ((q(c := q c @ rs)) i))) [0..<n]"
    unfolding assms(7) cnts using assms(2) by (intro nth_equalityI) (auto simp: nth_list_update)
  moreover have "{i. i < n \<and> (q(c := q c @ rs)) i \<noteq> []} =
      (if q c = [] \<and> rs \<noteq> [] then insert c {i. i < n \<and> q i \<noteq> []} else {i. i < n \<and> q i \<noteq> []})" using assms(2) by auto
  then have "int (card {i. i < n \<and> (q(c := q c @ rs)) i \<noteq> []}) =
      int (card {i. i < n \<and> q i \<noteq> []}) + (if q c = [] \<and> rs \<noteq> [] then 1 else 0)" by simp
  moreover have "msg_cnts s ! c = 0 \<longleftrightarrow> q c = []" using cnts assms(2) by simp
  ultimately show ?thesis using assms(1,3-6,8,9) requests_of_append [OF assms(2)]
    by (auto simp: pending_requests_def keeps_others_def)
qed

lemma loop_vars_copied:
  assumes v: "loop_vars n base s0 s g" "c < n" and s': "copied_only c s s'" "copy_lens s' ! c = 0" "linked n (rdma s')"
  shows "loop_vars n base s0 s' g" "i < n \<Longrightarrow> i \<noteq> c \<Longrightarrow> same_client s g s' g i" "addr_of s' i = addr_of s i"
    "posted (rdma s') = posted (rdma s)" "cq (rdma s') = cq (rdma s)"
proof -
  from s'(1) obtain d where d: "rdma s' = (rdma s)\<lparr>data_regions := d\<rparr>" "map length d = map length (data_regions (rdma s))"
    by (auto simp: copied_only_def new_data_def)
  have w: "wired n base (region_size s) (rdma s) (flight g)" using v(1) by (simp add: loop_vars_def)
  have s: "slot (rdma s') = slot (rdma s)" by (rule slot_cong) (simp add: d)
  show "posted (rdma s') = posted (rdma s)" "cq (rdma s') = cq (rdma s)" "addr_of s' i = addr_of s i"
    by (simp_all add: addr_of_def s) (simp_all add: d(1))
  have "\<forall>k \<in> set (map length (data_regions (rdma s))). nat (region_size s) \<le> k" using w by (simp add: wired_def)
  then have "\<forall>reg \<in> set (data_regions (rdma s')). nat (region_size s') \<le> length reg"
    using s'(1) by (simp flip: d(2) add: copied_only_def) (simp add: d(1))
  then have "wired n base (region_size s') (rdma s') (flight g)"
    using w s'(1,3) by (simp add: wired_def copied_only_def d(1))
  moreover have "copy_lens s' = replicate n 0"
  proof (rule nth_equalityI)
    show "copy_lens s' ! i = replicate n 0 ! i" if "i < length (copy_lens s')" for i
      using that v s' by (cases "i = c") (simp_all add: loop_vars_def copied_only_def)
  qed (use v s' in \<open>simp add: loop_vars_def copied_only_def\<close>)
  ultimately show "loop_vars n base s0 s' g" using v s'(1) by (simp add: loop_vars_def copied_only_def)
  assume i: "i < n" "i \<noteq> c"
  have "cfio_rdma_server_get_data i (rdma s') = cfio_rdma_server_get_data i (rdma s)"
    using s'(1) i(2) by (simp add: copied_only_def other_data_def)
  then have "data_regions (rdma s') ! slot (rdma s') i = data_regions (rdma s) ! slot (rdma s) i"
    using linked_slot(3) [OF s'(3) i(1)] linked_slot(3) [OF wired_linked [OF w] i(1)] by simp
  then show "same_client s g s' g i" using s'(1) i(2)
    by (simp add: same_client_def addr_of_def copied_only_def s) (simp add: d(1))
qed

text \<open>The answer to the client, when its ring has been read out.\<close>

lemma turn_ack_done:
  assumes v: "loop_vars n base s0 s g" and c: "c < n" "flight g c = []" "turn_ack c a s = Some s'"
    and over: "local_lens s ! c = 0" "read_dones s ! c" "\<not> comm_dones s ! c"
  shows "\<exists>x. posted (rdma s') = posted (rdma s) @ [x] \<and> cq (rdma s') = cq (rdma s) \<and>
    loop_vars n base s0 s' (g\<lparr>flight := (flight g)(c := [x])\<rparr>) \<and> client_is base s' (g\<lparr>flight := (flight g)(c := [x])\<rparr>) c [] \<and>
    (\<forall>i < n. i \<noteq> c \<longrightarrow> same_client s g s' (g\<lparr>flight := (flight g)(c := [x])\<rparr>) i) \<and>
    srv s' = srv s \<and> msg_cnts s' = msg_cnts s \<and> msg_clt_cnt s' = msg_clt_cnt s \<and> clients s' = clients s"
proof -
  have w: "wired n base (region_size s) (rdma s) (flight g)" using v by (simp add: loop_vars_def)
  note l = wired_linked [OF w]
  let ?a = "cfio_rdma_addr_server_clear_signal a"
  obtain rd rd' where rd: "put_addr c ?a (rdma s) = Some rd" "cfio_rdma_server_write_addr c rd = Some rd'" "s' = s\<lparr>rdma := rd'\<rparr>"
    using c(3) over(1,2) by (auto simp: turn_ack_def buf_empty_def split: bind_splits)
  note p = put_addr_step [OF v c(1) rd(1) refl]
  from write_addr_posts [OF rd(2)] obtain k and mr :: ibv_mr where rd': "rd' = ibv_post (WR_WRITE k (mr_addr mr)) rd" by metis
  define x where "x = WR_WRITE k (mr_addr mr)"
  let ?g = "g\<lparr>flight := (flight g)(c := [x])\<rparr>"
  have keep: "posted rd = posted (rdma s)" "cq rd = cq (rdma s)" using rd(1) linked_slot(6) [OF l c(1)] by auto
  have s: "slot rd' = slot rd" by (rule slot_cong) (simp add: rd' ibv_post_def)
  have wrd: "wired n base (region_size s) rd (flight g)" using p(1) by (simp add: loop_vars_def)
  have "wired n base (region_size s) rd' ((flight g)(c := flight g c @ [x]))"
  proof (rule wired_posts [OF wrd c(1)])
    show "linked n rd'" using wired_linked [OF wrd] by (simp add: rd' ibv_post_def)
    show "data_regions rd' = data_regions rd" by (simp add: rd' ibv_post_def)
    show "client_conn k rd' = client_conn k rd" for k by (simp add: rd' ibv_post_def)
    show "if list_all (reads_into (region_size s)) (flight g c @ [x]) then rest_reqs rd' = (rest_reqs rd)[c := rest_reqs rd ! c + int (length [x])]
      else list_all writes_addr (flight g c @ [x]) \<and> rest_reqs rd' = rest_reqs rd \<and> rest_reqs rd ! c = 0"
      using c(2) wired_reads [OF wrd c(1)] by (simp add: x_def rd' ibv_post_def)
  qed
  then have "loop_vars n base s0 s' ?g" using p(1) c(2) by (simp add: loop_vars_def rd(3))
  moreover have at: "addr_of s' i = addr_of (s\<lparr>rdma := rd\<rparr>) i" for i by (simp add: addr_of_def rd(3) s) (simp add: rd' ibv_post_def)
  have "client_is base s' ?g c []"
    unfolding client_is_def Let_def at_rest_def at p(2)
    using over by (simp add: rd(3) x_def cfio_rdma_addr_server_clear_signal_def)
  moreover have "same_client s g s' ?g i" if "i < n" "i \<noteq> c" for i
  proof -
    have "data_regions rd' = data_regions rd" by (simp add: rd' ibv_post_def)
    then show ?thesis using p(3) [OF that refl] that(2) by (simp add: same_client_def at) (simp add: rd(3) s)
  qed
  moreover have "posted (rdma s') = posted (rdma s) @ [x]" "cq (rdma s') = cq (rdma s)"
    using keep by (simp_all add: rd(3) rd' x_def ibv_post_def)
  ultimately show ?thesis by (intro exI [of _ x]) (simp add: rd(3))
qed


text \<open>When everything of the ring has been read, its messages are whole. The copying queues the first \<open>j\<close>
  of them.\<close>

lemma message_nonempty: "message r \<noteq> []"
  using length_message [of r] by (cases "message r") simp_all

lemma concat_messages_empty: "concat (map message rs) = [] \<longleftrightarrow> rs = []"
  by (cases rs) (simp_all add: message_nonempty)

lemma framed_messages:
  assumes "int (length (concat (map message rs))) < 2 ^ 31"
  shows "\<forall>d \<in> set (map message rs). framed d"
proof
  fix d assume "d \<in> set (map message rs)"
  then obtain r where r: "d = message r" "r \<in> set rs" by auto
  from r(2) have "length (message r) \<le> length (concat (map message rs))" by (induction rs) auto
  then show "framed d" using assms framed_message [of r] r(1) by simp
qed

text \<open>\<open>full_behind m n c q w\<close>: some of the requests \<open>w\<close> fit into the queue of client \<open>c\<close> behind \<open>q c\<close>, the next one
  does not, and the others are longer than those that do.\<close>

definition full_behind :: "map_state \<Rightarrow> nat \<Rightarrow> nat \<Rightarrow> (nat \<Rightarrow> request list) \<Rightarrow> request list \<Rightarrow> bool" where
  "full_behind m n c q w \<longleftrightarrow>
     (\<exists>j b. 0 < j \<and> j < length w \<and> recv_queues m b (requests_of n (q(c := q c @ take j w))) \<and>
        free_buf_size (rbuffer b ! c) < length (message (w ! j)) \<and>
        length (concat (map message (take j w))) < length (concat (map message (drop j w))))"

lemma copy_requests:
  assumes v: "loop_vars n base s0 s g" and p: "pending_requests m n s q" and c: "c < n"
    and h: "held (region_size s) a mem (data_regions (rdma s) ! slot (rdma s) c) r (local_lens s ! c) w" "unread a mem r = []"
    and C: "cfio_map_get_client_index_of_server m (client_ids s ! c) = Some (int c)" "client_ids s ! c < client_amount m"
  shows "full_behind m n c q w \<and> copy_data_to_list m c s = None \<or>
    (\<exists>j q' s' reg'. j \<le> length w \<and> recv_queues m q' (requests_of n (q(c := q c @ take j w))) \<and> keeps_others c (rcv (srv s)) q' \<and>
       copy_data_to_list m c s = Some s' \<and> srv s' = (srv s)\<lparr>rcv := q'\<rparr> \<and>
       msg_cnts s' = (msg_cnts s)[c := msg_cnts s ! c + int j] \<and>
       msg_clt_cnt s' = msg_clt_cnt s + (if msg_cnts s ! c = 0 \<and> 0 < j then 1 else 0) \<and>
       cfio_rdma_server_get_data c (rdma s') = Some reg' \<and> region_holds c reg' s' (concat (map message (drop j w))) \<and>
       copy_lens s' ! c = 0 \<and> linked n (rdma s') \<and> copied_only c s s')"
proof -
  let ?reg = "data_regions (rdma s) ! slot (rdma s) c" and ?ds = "map message w"
  have wr: "wired n base (region_size s) (rdma s) (flight g)" and b: "region_size s < 2 ^ 31" using v by (simp_all add: loop_vars_def)
  note l = wired_linked [OF wr]
  have "slot (rdma s) c < length (data_regions (rdma s))" using l linked_slot(2) [OF l c] by (simp add: linked_def)
  then have sz: "nat (region_size s) \<le> length ?reg" using wr by (simp add: wired_def)
  have d: "0 \<le> local_lens s ! c" "take (nat (local_lens s ! c)) ?reg = concat ?ds" "int (length (concat ?ds)) < region_size s"
    using h by (simp_all add: held_def)
  then have len: "min (length ?reg) (nat (local_lens s ! c)) = length (concat ?ds)" by (simp flip: d(2))
  have copied0: "copy_lens s ! c = 0" using v c by (simp add: loop_vars_def)
  have "local_lens s ! c = int (length (concat ?ds))" using len d(1,3) sz by (simp add: min_def split: if_splits)
  then have hold: "region_holds c ?reg s (concat ?ds @ [])"
    using d copied0 sz b by (simp add: region_holds_def slice_def)
  have ds: "\<forall>d \<in> set ?ds. framed d" "unfinished []" using framed_messages [of w] d(3) b by (simp_all add: unfinished_def)
  have q: "recv_queues m (rcv (srv s)) (requests_of n q)" "length (requests_of n q) = n" "length (msg_cnts s) = n" "0 \<le> msg_cnts s ! c"
    using p c by (simp_all add: pending_requests_def requests_of_def)
  have arrays: "length (copy_lens s) = n" "length (local_lens s) = n" using v by (simp_all add: loop_vars_def)
  from copy_data_full [OF l c linked_slot(3) [OF l c] hold copied0 ds q(1,2) C arrays q(3,4)] obtain j q' where
    j: "j \<le> length ?ds" "recv_queues m q' ((requests_of n q)[c := requests_of n q ! c @ take j ?ds])" "keeps_others c (rcv (srv s)) q'"
      "j < length ?ds \<longrightarrow> free_buf_size (rbuffer q' ! c) < length (?ds ! j)"
    and cp: "if 0 < j \<and> length (concat (take j ?ds)) < length (concat (drop j ?ds) @ [])
     then copy_data_to_list m c s = None
     else \<exists>s' reg'. copy_data_to_list m c s = Some s' \<and> srv s' = (srv s)\<lparr>rcv := q'\<rparr> \<and>
       msg_cnts s' = (msg_cnts s)[c := msg_cnts s ! c + int j] \<and>
       msg_clt_cnt s' = msg_clt_cnt s + (if msg_cnts s ! c = 0 \<and> 0 < j then 1 else 0) \<and>
       cfio_rdma_server_get_data c (rdma s') = Some reg' \<and> region_holds c reg' s' (concat (drop j ?ds) @ []) \<and>
       copy_lens s' ! c = 0 \<and> linked n (rdma s') \<and> copied_only c s s'"
    by (elim exE conjE)
  have j': "j \<le> length w" "recv_queues m q' (requests_of n (q(c := q c @ take j w)))"
    using j(1,2) requests_of_append [OF c, of q "take j w"] by (simp_all add: take_map)
  show ?thesis
  proof (cases "0 < j \<and> length (concat (take j ?ds)) < length (concat (drop j ?ds))")
    case True
    then have "j < length w" using j'(1) by (cases "j = length w") simp_all
    moreover from this have "free_buf_size (rbuffer q' ! c) < length (message (w ! j))" using j(4) by simp
    moreover have "length (concat (map message (take j w))) < length (concat (map message (drop j w)))"
      using True by (simp add: take_map drop_map)
    ultimately have "full_behind m n c q w" using True j'(2) unfolding full_behind_def by blast
    then show ?thesis using cp True by simp
  next
    case False
    with cp obtain s' reg' where s': "copy_data_to_list m c s = Some s'" "srv s' = (srv s)\<lparr>rcv := q'\<rparr>"
      "msg_cnts s' = (msg_cnts s)[c := msg_cnts s ! c + int j]"
      "msg_clt_cnt s' = msg_clt_cnt s + (if msg_cnts s ! c = 0 \<and> 0 < j then 1 else 0)"
      "cfio_rdma_server_get_data c (rdma s') = Some reg'" "region_holds c reg' s' (concat (drop j ?ds))"
      "copy_lens s' ! c = 0" "linked n (rdma s')" "copied_only c s s'" by auto
    show ?thesis
      by (rule disjI2, intro exI [of _ j] exI [of _ q'] exI [of _ s'] exI [of _ reg'] conjI) (use s' j' j(3) in \<open>simp_all only: drop_map\<close>)
  qed
qed

lemma copy_whole:
  assumes v: "loop_vars n base s0 s g" and calls: "calls_split P junk m n s0 t q s" and c: "c < n"
    and h: "held (region_size s) a mem (data_regions (rdma s) ! slot (rdma s) c) r (local_lens s ! c) w" "unread a mem r = []"
    and copy: "copy_data_to_list m c s = Some s1" and wf: "\<forall>r \<in> set w. wf_request r"
    and C: "cfio_map_get_client_index_of_server m (client_ids s ! c) = Some (int c)" "client_ids s ! c < client_amount m"
  shows "\<exists>j. copied_only c s s1 \<and> loop_vars n base s0 s1 g \<and> calls_split P junk m n s0 t (q(c := q c @ take j w)) s1 \<and>
    held (region_size s1) a mem (data_regions (rdma s1) ! slot (rdma s1) c) r (local_lens s1 ! c) (drop j w) \<and>
    copy_lens s1 ! c = 0 \<and> linked n (rdma s1)"
proof -
  from calls obtain k u where p: "\<forall>i < n. length (t i) = k" "pending_requests m n s q"
    "performs P junk m (round_requests n (\<lambda>i. client_ids s0 ! i) t k) (srv s0) = Some u" "srv s = u\<lparr>rcv := rcv (srv s)\<rparr>"
    unfolding calls_split_def by blast
  from copy_requests [OF v p(2) c h C] copy obtain j q' s' reg' where
    j: "j \<le> length w" "recv_queues m q' (requests_of n (q(c := q c @ take j w)))" "keeps_others c (rcv (srv s)) q'"
    and s': "copy_data_to_list m c s = Some s'" "srv s' = (srv s)\<lparr>rcv := q'\<rparr>" "msg_cnts s' = (msg_cnts s)[c := msg_cnts s ! c + int j]"
      "msg_clt_cnt s' = msg_clt_cnt s + (if msg_cnts s ! c = 0 \<and> 0 < j then 1 else 0)"
      "cfio_rdma_server_get_data c (rdma s') = Some reg'" "region_holds c reg' s' (concat (map message (drop j w)))"
      "copy_lens s' ! c = 0" "linked n (rdma s')" "copied_only c s s'"
    by (elim disjE exE conjE) (simp, blast)
  have "s' = s1" using s'(1) copy by simp
  note s1 = s'(2-9) [unfolded this]
  have wf': "\<forall>r \<in> set (take j w). wf_request r" using wf by (blast dest: in_set_takeD)
  have "pending_requests m n s1 (q(c := q c @ take j w))"
    by (rule pending_copied [OF p(2) c _ j(3) s1(1) _ _ _ wf'])
      (use j(1,2) s1(2,3,8) requests_of_append [OF c, of q "take j w"] in \<open>auto simp: copied_only_def\<close>)
  moreover have "srv s1 = u\<lparr>rcv := rcv (srv s1)\<rparr>" using p(4) s1(1) by (metis server_state.select_convs(1) server_state.surjective server_state.update_convs(1))
  ultimately have "calls_split P junk m n s0 t (q(c := q c @ take j w)) s1" using p(1,3) unfolding calls_split_def by blast
  moreover have "data_regions (rdma s1) ! slot (rdma s1) c = reg'" using linked_slot(3) [OF s1(7) c] s1(4) by simp
  moreover have "local_lens s1 ! c = int (length (concat (map message (drop j w))))"
    "slice reg' 0 (nat (local_lens s1 ! c)) = concat (map message (drop j w))"
    using region_holdsD(2) [OF s1(5)] s1(5,6) by (simp_all add: region_holds_def)
  moreover have "length (concat (map message (drop j w))) \<le> length (concat (map message w))"
    by (metis append_take_drop_id concat_append length_append le_add2 map_append)
  moreover have "int (length (concat (map message w))) < region_size s" using h(1) by (simp add: held_def)
  ultimately show ?thesis using h s1(6-8) loop_vars_copied(1) [OF v c s1(8,6,7)]
    by (intro exI [of _ j]) (simp add: held_def slice_def copied_only_def)
qed


lemma no_message: "loop_vars n base s0 s g \<Longrightarrow> c < n \<Longrightarrow> local_lens s ! c = 0 \<Longrightarrow> \<not> exist_msg c s"
  by (simp add: exist_msg_def loop_vars_def)

lemma rest_of: "loop_vars n base s0 s g \<Longrightarrow> c < n \<Longrightarrow> cfio_rdma_server_test c (rdma s) = Some (if rest_reqs (rdma s) ! c \<noteq> 0 then 0 else 1)"
  by (auto simp: loop_vars_def cfio_rdma_server_test_def linked_def dest!: wired_linked)

lemma turn_copy_idle:
  "loop_vars n base s0 s g \<Longrightarrow> c < n \<Longrightarrow> \<not> exist_msg c s \<or> rest_reqs (rdma s) ! c \<noteq> 0 \<Longrightarrow> turn_copy m c a s = Some s"
  by (auto simp: turn_copy_def rest_of)

lemma turn_ack_returns:
  assumes "linked n (rdma s)" "c < n"
  shows "turn_ack c a s \<noteq> None"
proof -
  let ?rd = "(rdma s)\<lparr>addr_regions := (addr_regions (rdma s))[slot (rdma s) c := cfio_rdma_addr_server_clear_signal a]\<rparr>"
  from linked_slot(7) [OF assms] obtain x where "client_conn c (rdma s) = Some (slot (rdma s) c, x)" "linked_conn x" by blast
  then have "cfio_rdma_server_write_addr c ?rd \<noteq> None"
    by (auto simp: cfio_rdma_server_write_addr_def linked_conn_def client_conn_cong [of ?rd "rdma s"])
  then show ?thesis using linked_slot(6) [OF assms] by (auto simp: turn_ack_def)
qed

lemma turn_copy_step:
  assumes v: "loop_vars n base s0 s g" and calls: "calls_split P junk m n s0 t q s" and c: "c < n" "read_dones s ! c"
    and h: "at_work (region_size s) (addr_of s c) (their_ring g c) (flight g c) (fetch (base c) (rings g c) (flight g c)
      (data_regions (rdma s) ! slot (rdma s) c)) (read_addrs s ! c) True (local_lens s ! c) (comm_dones s ! c) w"
    and copy: "turn_copy m c (addr_of s c) s = Some s'" and wf: "\<forall>r \<in> set w. wf_request r"
    and C: "cfio_map_get_client_index_of_server m (client_ids s ! c) = Some (int c)" "client_ids s ! c < client_amount m"
  shows "\<exists>ws j. posted (rdma s') = posted (rdma s) @ ws \<and> cq (rdma s') = cq (rdma s) \<and>
    loop_vars n base s0 s' (g\<lparr>flight := (flight g)(c := flight g c @ ws)\<rparr>) \<and> calls_split P junk m n s0 t (q(c := q c @ take j w)) s' \<and>
    client_is base s' (g\<lparr>flight := (flight g)(c := flight g c @ ws)\<rparr>) c (drop j w) \<and>
    (\<forall>i < n. i \<noteq> c \<longrightarrow> same_client s g s' (g\<lparr>flight := (flight g)(c := flight g c @ ws)\<rparr>) i)"
proof (cases "exist_msg c s \<and> rest_reqs (rdma s) ! c = 0")
  case False
  then have "s' = s" using turn_copy_idle [OF v c(1)] copy by (metis option.inject)
  moreover have "g\<lparr>flight := (flight g)(c := flight g c @ [])\<rparr> = g" by simp
  moreover have "client_is base s g c w" using h c(2) by (simp add: client_is_def Let_def)
  ultimately show ?thesis using v calls
    by (intro exI [of _ "[]"] exI [of _ 0]) (simp add: same_client_def)
next
  case True
  have wr: "wired n base (region_size s) (rdma s) (flight g)" using v by (simp add: loop_vars_def)
  have F: "flight g c = []" using wired_reads [OF wr c(1)] h True by (simp add: at_work_def)
  from h have held: "held (region_size s) (addr_of s c) (rings g c) (data_regions (rdma s) ! slot (rdma s) c) (read_addrs s ! c) (local_lens s ! c) w"
    "unread (addr_of s c) (rings g c) (read_addrs s ! c) = []" and a: "signal (addr_of s c) = 1" "\<not> comm_dones s ! c"
    by (simp_all add: at_work_def F)
  obtain s1 where s1: "copy_data_to_list m c s = Some s1" "turn_ack c (addr_of s c) s1 = Some s'"
    using copy True by (auto simp: turn_copy_def cfio_rdma_server_test_def split: bind_splits if_splits)
  from copy_whole [OF v calls c(1) held s1(1) wf C] obtain j where
    j: "copied_only c s s1" "loop_vars n base s0 s1 g" "calls_split P junk m n s0 t (q(c := q c @ take j w)) s1"
      "held (region_size s1) (addr_of s c) (rings g c) (data_regions (rdma s1) ! slot (rdma s1) c) (read_addrs s ! c) (local_lens s1 ! c) (drop j w)"
      "copy_lens s1 ! c = 0" "linked n (rdma s1)" by blast
  note lc = loop_vars_copied [OF v c(1) j(1,5,6)]
  have same: "read_addrs s1 = read_addrs s" "read_dones s1 = read_dones s" "comm_dones s1 = comm_dones s"
    using j(1) by (simp_all add: copied_only_def)
  show ?thesis
  proof (cases "local_lens s1 ! c = 0")
    case True
    then have "drop j w = []" using j(4) held(2) concat_messages_empty [of "drop j w"] by (simp add: held_def)
    moreover from turn_ack_done [OF j(2) c(1) F s1(2) True] same c(2) a(2) obtain x where
      x: "posted (rdma s') = posted (rdma s1) @ [x]" "cq (rdma s') = cq (rdma s1)"
        "loop_vars n base s0 s' (g\<lparr>flight := (flight g)(c := [x])\<rparr>)" "client_is base s' (g\<lparr>flight := (flight g)(c := [x])\<rparr>) c []"
        "\<forall>i < n. i \<noteq> c \<longrightarrow> same_client s1 g s' (g\<lparr>flight := (flight g)(c := [x])\<rparr>) i"
        "srv s' = srv s1" "msg_cnts s' = msg_cnts s1" "msg_clt_cnt s' = msg_clt_cnt s1" "clients s' = clients s1" by auto
    moreover have "same_client s g s' (g\<lparr>flight := (flight g)(c := [x])\<rparr>) i" if "i < n" "i \<noteq> c" for i
      using lc(2) [OF that] x(5) that by (simp add: same_client_def)
    ultimately show ?thesis using lc(4,5) j(3) calls_split_cong [OF x(6-9)]
      by (intro exI [of _ "[x]"] exI [of _ j]) (simp add: F)
  next
    case False
    then have s': "s' = s1" using s1(2) j(4) by (auto simp: turn_ack_def buf_empty_def held_def split: if_splits)
    have "data_regions (rdma s1) ! slot (rdma s1) c \<in> set (data_regions (rdma s1))"
      using linked_slot(2) [OF j(6) c(1)] j(6) by (simp add: linked_def)
    then have "nat (region_size s1) \<le> length (data_regions (rdma s1) ! slot (rdma s1) c)"
      using j(2) by (simp add: loop_vars_def wired_def)
    then have "drop j w \<noteq> []" using False j(4) held(2) by (auto simp: held_def)
    then have "client_is base s1 g c (drop j w)"
      using j(4) held(2) a c(2) by (simp add: client_is_def Let_def at_work_def F lc(3) same)
    moreover have "g\<lparr>flight := (flight g)(c := flight g c @ [])\<rparr> = g" by simp
    ultimately show ?thesis using lc(2-5) j(2,3) unfolding s'
      by (intro exI [of _ "[]"] exI [of _ j]) simp
  qed
qed


lemma turn_copy_returns:
  assumes v: "loop_vars n base s0 s g" and calls: "calls_split P junk m n s0 t q s" and c: "c < n"
    and h: "at_work (region_size s) (addr_of s c) (their_ring g c) (flight g c) (fetch (base c) (rings g c) (flight g c)
      (data_regions (rdma s) ! slot (rdma s) c)) (read_addrs s ! c) True (local_lens s ! c) (comm_dones s ! c) w"
    and C: "cfio_map_get_client_index_of_server m (client_ids s ! c) = Some (int c)" "client_ids s ! c < client_amount m"
  shows "turn_copy m c a s \<noteq> None \<or> full_behind m n c q w"
proof (cases "exist_msg c s \<and> rest_reqs (rdma s) ! c = 0")
  case False
  then show ?thesis using turn_copy_idle [OF v c] by fastforce
next
  case True
  have wr: "wired n base (region_size s) (rdma s) (flight g)" using v by (simp add: loop_vars_def)
  have F: "flight g c = []" using wired_reads [OF wr c(1)] h True by (simp add: at_work_def)
  from h have held: "held (region_size s) (addr_of s c) (rings g c) (data_regions (rdma s) ! slot (rdma s) c) (read_addrs s ! c) (local_lens s ! c) w"
    "unread (addr_of s c) (rings g c) (read_addrs s ! c) = []" by (simp_all add: at_work_def F)
  have p: "pending_requests m n s q" using calls unfolding calls_split_def by blast
  from copy_requests [OF v p c held C] show ?thesis
  proof (elim disjE exE conjE)
    fix s' assume "copy_data_to_list m c s = Some s'" "linked n (rdma s')"
    then show ?thesis using turn_ack_returns [of n s' c a] c True by (simp add: turn_copy_def rest_of [OF v c])
  qed simp
qed


section \<open>Serving\<close>

lemma round_requests_append:
  assumes "\<And>i. i < n \<Longrightarrow> length (t i) = j" "\<And>i. i < n \<Longrightarrow> k \<le> length (q i)"
  shows "round_requests n C (\<lambda>i. t i @ take k (q i)) (j + k) = round_requests n C t j @ round_requests n C q k"
proof -
  let ?row = "\<lambda>r x. map (\<lambda>i. (C i, r i ! x)) [0..<n]" and ?r = "\<lambda>i. t i @ take k (q i)"
  have "map (?row ?r) [0..<j] = map (?row t) [0..<j]"
    by (rule map_cong [OF refl], rule map_cong [OF refl]) (use assms(1) in \<open>simp add: nth_append\<close>)
  moreover have "map (?row ?r) [j..<j + k] = map (?row q) [0..<k]"
  proof (rule nth_equalityI)
    fix x assume "x < length (map (?row ?r) [j..<j + k])"
    then have "x < k" by simp
    moreover from this have "?row ?r (j + x) = ?row q x"
      by (intro map_cong [OF refl]) (use assms in \<open>simp add: nth_append\<close>)
    ultimately show "map (?row ?r) [j..<j + k] ! x = map (?row q) [0..<k] ! x" by simp
  qed simp
  moreover have "[0..<j + k] = [0..<j] @ [j..<j + k]" by (rule upt_add_eq_append) simp
  ultimately show ?thesis by (simp only: round_requests_def map_append concat_append)
qed

lemma some_queue_empty:
  assumes "pending_requests m n s q" "0 < n" "msg_clt_cnt s \<noteq> clients s"
  shows "\<exists>i < n. q i = []"
proof (rule ccontr)
  assume "\<not> (\<exists>i < n. q i = [])"
  then have "{i. i < n \<and> q i \<noteq> []} = {..<n}" by auto
  then show False using assms by (simp add: pending_requests_def)
qed

lemma turn_serve_step:
  assumes v: "loop_vars n base s0 s g" and calls: "calls_split P junk m n s0 t q s" and n: "0 < n"
    and serve: "turn_serve P junk m s = Some s'"
    and C: "\<forall>i < n. cfio_map_get_client_index_of_server m (client_ids s0 ! i) = Some (int i) \<and> client_ids s0 ! i < client_amount m"
  shows "\<exists>k. rdma s' = rdma s \<and> loop_vars n base s0 s' g \<and> (\<forall>i. same_client s g s' g i) \<and>
    calls_split P junk m n s0 (\<lambda>i. t i @ take k (q i)) (\<lambda>i. drop k (q i)) s' \<and> (\<exists>i < n. drop k (q i) = [])"
proof (cases "msg_clt_cnt s = clients s")
  case False
  then have s': "s' = s" using serve by (simp add: turn_serve_def)
  have "pending_requests m n s q" using calls unfolding calls_split_def by blast
  from some_queue_empty [OF this n False] obtain i where "i < n" "q i = []" by blast
  then show ?thesis using v calls unfolding s' by (intro exI [of _ 0]) (auto simp: same_client_def)
next
  case True
  with serve have r: "io_rounds P junk m s = Some s'" by (simp add: turn_serve_def)
  from calls obtain j u where p: "\<forall>i < n. length (t i) = j" "pending_requests m n s q"
    "performs P junk m (round_requests n (\<lambda>i. client_ids s0 ! i) t j) (srv s0) = Some u" "srv s = u\<lparr>rcv := rcv (srv s)\<rparr>"
    unfolding calls_split_def by blast
  from io_rounds_performs [OF n p(2) r C] obtain k v' qq where k: "\<forall>i < n. k \<le> length (q i)" "\<exists>i < n. length (q i) = k"
    "performs P junk m (round_requests n (\<lambda>i. client_ids s0 ! i) q k) (srv s) = Some v'" "srv s' = v'\<lparr>rcv := qq\<rparr>"
    "pending_requests m n s' (\<lambda>i. drop k (q i))" by blast
  have frame: "serves_only s s'" by (rule io_rounds_frame [OF r])
  have rd: "rdma s' = rdma s" using frame by (simp add: serves_only_def)
  from k(3) obtain z where z: "performs P junk m (round_requests n (\<lambda>i. client_ids s0 ! i) q k) u = Some z" "v' = z\<lparr>rcv := rcv (srv s)\<rparr>"
    by (subst (asm) p(4)) (auto simp: performs_rcv)
  have "round_requests n (\<lambda>i. client_ids s0 ! i) (\<lambda>i. t i @ take k (q i)) (j + k) =
      round_requests n (\<lambda>i. client_ids s0 ! i) t j @ round_requests n (\<lambda>i. client_ids s0 ! i) q k"
    by (rule round_requests_append) (use p(1) k(1) in auto)
  then have "performs P junk m (round_requests n (\<lambda>i. client_ids s0 ! i) (\<lambda>i. t i @ take k (q i)) (j + k)) (srv s0) = Some z"
    using p(3) z(1) by (simp add: performs_append)
  moreover have "srv s' = z\<lparr>rcv := rcv (srv s')\<rparr>" using k(4) z(2) by simp
  moreover have "\<forall>i < n. length (t i @ take k (q i)) = j + k" using p(1) k(1) by simp
  ultimately have "calls_split P junk m n s0 (\<lambda>i. t i @ take k (q i)) (\<lambda>i. drop k (q i)) s'"
    using k(5) unfolding calls_split_def by blast
  moreover have "loop_vars n base s0 s' g" using v frame by (simp add: loop_vars_def serves_only_def)
  moreover have "same_client s g s' g i" for i using frame by (simp add: same_client_def serves_only_def addr_of_def)
  moreover have "\<exists>i < n. drop k (q i) = []" using k(2) by auto
  ultimately show ?thesis using rd by blast
qed


section \<open>The turn\<close>

lemma reads_only_same:
  assumes "reads_only c s s'" "data_regions (rdma s') = data_regions (rdma s)" "i \<noteq> c"
  shows "same_client s g s' (g\<lparr>flight := (flight g)(c := F)\<rparr>) i"
proof -
  have "slot (rdma s') = slot (rdma s)" using assms(1) by (intro slot_cong) (simp add: reads_only_def other_data_def)
  then show ?thesis using assms by (simp add: same_client_def addr_of_def reads_only_def)
qed

lemma reads_only_calls: "reads_only c s s' \<Longrightarrow> calls_split P junk m n s0 t q s' \<longleftrightarrow> calls_split P junk m n s0 t q s"
  by (rule calls_split_cong) (simp_all add: reads_only_def)

lemma reads_only_addr: "reads_only c s s' \<Longrightarrow> addr_of s' i = addr_of s i"
  using slot_cong [of "rdma s'" "rdma s"] by (simp add: reads_only_def other_data_def addr_of_def)

text \<open>What the reading and copying of a turn do to the calls of its client.\<close>

definition moves_on ::
    "'f pnetcdf \<Rightarrow> (nat \<Rightarrow> byte) \<Rightarrow> map_state \<Rightarrow> nat \<Rightarrow> (nat \<Rightarrow> int) \<Rightarrow> 'f daemon \<Rightarrow> nat \<Rightarrow> 'f daemon \<Rightarrow> outside \<Rightarrow> (nat \<Rightarrow> request list) \<Rightarrow>
     (nat \<Rightarrow> request list) \<Rightarrow> request list \<Rightarrow> 'f daemon \<Rightarrow> bool" where
  "moves_on P junk m n base s0 c s g t q w s' \<longleftrightarrow>
     (\<exists>ws j. posted (rdma s') = posted (rdma s) @ ws \<and> loop_vars n base s0 s' (g\<lparr>flight := (flight g)(c := flight g c @ ws)\<rparr>) \<and>
        calls_split P junk m n s0 t (q(c := q c @ take j w)) s' \<and> client_is base s' (g\<lparr>flight := (flight g)(c := flight g c @ ws)\<rparr>) c (drop j w) \<and>
        (\<forall>i < n. i \<noteq> c \<longrightarrow> same_client s g s' (g\<lparr>flight := (flight g)(c := flight g c @ ws)\<rparr>) i))"

lemma moves_on_stays:
  assumes "loop_vars n base s0 s g" "calls_split P junk m n s0 t q s" "client_is base s g c w"
  shows "moves_on P junk m n base s0 c s g t q w s"
  unfolding moves_on_def using assms
  by (intro exI [of _ "[]"] exI [of _ 0]) (simp add: same_client_def)

lemma moves_on_starts:
  assumes v: "loop_vars n base s0 s g" and calls: "calls_split P junk m n s0 t q s" and c: "c < n"
    and rest: "at_rest (region_size s) a (their_ring g c) (flight g c) (read_dones s ! c) (local_lens s ! c) (comm_dones s ! c) w"
      "signal a = 1" "a = addr_of s c"
  shows "\<exists>s2. turn_read c a (turn_start c a s) = Some s2 \<and> turn_copy m c a s2 = Some s2 \<and> moves_on P junk m n base s0 c s g t q w s2"
proof -
  let ?s = "turn_start c a s"
  have r: "publishes a (their_ring g c)" "contents (their_ring g c) = concat (map message w)" "w \<noteq> []" "flight g c = []"
    "int (length (contents (their_ring g c))) < region_size s" "local_lens s ! c = 0" "\<not> comm_dones s ! c"
    using rest(1,2) by (auto simp: at_rest_def)
  have arrays: "length (read_addrs s) = n" "length (read_dones s) = n" using v by (simp_all add: loop_vars_def)
  have v1: "loop_vars n base s0 ?s g" using v by (simp add: loop_vars_def turn_start_def)
  note u = unread_contents [OF r(1)]
  have start: "\<not> read_dones ?s ! c" "read_addrs ?s ! c = int (a_used a)" "local_lens ?s ! c = 0" "region_size ?s = region_size s" "rdma ?s = rdma s"
    using c arrays r(6) by (simp_all add: turn_start_def)
  have used: "int (a_used a) = int (used_addr (their_ring g c))" using r(1) by (simp add: publishes_def)
  have "held (region_size ?s) a (rings g c) reg (read_addrs ?s ! c) (local_lens ?s ! c) w" for reg
    using u r(2,5) unfolding start used by (simp add: held_def)
  moreover have "list_all (reads_into (region_size ?s)) (flight g c)" by (simp add: r(4))
  ultimately obtain s' ws where s': "turn_read c a ?s = Some s'" "posted (rdma s') = posted (rdma ?s) @ ws" "reads_only c ?s s'"
      "loop_vars n base s0 s' (g\<lparr>flight := (flight g)(c := flight g c @ ws)\<rparr>)" "data_regions (rdma s') = data_regions (rdma ?s)"
      "list_all (reads_into (region_size ?s)) (flight g c @ ws)" "ws = [] \<longrightarrow> local_lens s' ! c = local_lens ?s ! c"
      "held (region_size ?s) a (rings g c) (fetch (base c) (rings g c) (flight g c @ ws) (data_regions (rdma ?s) ! slot (rdma ?s) c))
        (read_addrs s' ! c) (local_lens s' ! c) w"
      "if read_dones s' ! c then unread a (rings g c) (read_addrs s' ! c) = [] else read_addrs s' ! c = 0 \<and> 0 < read_addrs ?s ! c"
    using turn_read_step [OF v1 c start(1)] by blast
  let ?g = "g\<lparr>flight := (flight g)(c := ws)\<rparr>"
  have v2: "loop_vars n base s0 s' ?g" using s'(4) by (simp add: r(4))
  have "\<not> exist_msg c s' \<or> rest_reqs (rdma s') ! c \<noteq> 0"
  proof (cases "ws = []")
    case True
    then have "local_lens s' ! c = 0" using s'(7) start(3) by simp
    then show ?thesis using no_message [OF v2 c] by simp
  next
    case False
    have w2: "wired n base (region_size s') (rdma s') ((flight g)(c := ws))" and sz: "region_size s' = region_size ?s"
      using v2 s'(3) by (simp_all add: loop_vars_def reads_only_def)
    have "rest_reqs (rdma s') ! c = int (length ws)"
      using wired_reads [OF w2 c] s'(6) by (simp add: r(4) sz)
    then show ?thesis using False by simp
  qed
  note copy = turn_copy_idle [OF v2 c this, of m a]
  have sz: "region_size s' = region_size s" "comm_dones s' = comm_dones s" "slot (rdma s') = slot (rdma s)"
    using s'(3) slot_cong [of "rdma s'" "rdma s"] by (simp_all add: reads_only_def other_data_def turn_start_def)
  have at: "addr_of s' i = addr_of s i" for i using reads_only_addr [OF s'(3)] by (simp add: addr_of_def start(5))
  have "client_is base s' ?g c w"
    using s'(5,6,8,9) rest(2,3) r(3,4,7) start(4,5) by (auto simp: client_is_def Let_def at_work_def sz at split: if_splits)
  moreover have "same_client s g s' ?g i" if "i \<noteq> c" for i
    using reads_only_same [OF s'(3,5) that, of g ws] that by (simp add: same_client_def turn_start_def addr_of_def)
  moreover have "calls_split P junk m n s0 t q s'"
    using reads_only_calls [OF s'(3)] calls calls_split_cong [of ?s s] by (simp add: turn_start_def)
  ultimately have "moves_on P junk m n base s0 c s g t q w s'" unfolding moves_on_def using v2 s'(2)
    by (intro exI [of _ ws] exI [of _ 0]) (simp add: r(4) start(5))
  then show ?thesis using s'(1) copy by blast
qed


lemma moves_on_works:
  assumes v: "loop_vars n base s0 s g" and calls: "calls_split P junk m n s0 t q s" and c: "c < n"
    and work: "at_work (region_size s) a (their_ring g c) (flight g c) (fetch (base c) (rings g c) (flight g c)
      (data_regions (rdma s) ! slot (rdma s) c)) (read_addrs s ! c) (read_dones s ! c) (local_lens s ! c) (comm_dones s ! c) w" "a = addr_of s c"
    and wf: "\<forall>r \<in> set w. wf_request r"
    and C: "cfio_map_get_client_index_of_server m (client_ids s ! c) = Some (int c)" "client_ids s ! c < client_amount m"
  shows "\<exists>s2. turn_read c a s = Some s2 \<and> (turn_copy m c a s2 \<noteq> None \<or> full_behind m n c q w) \<and>
    (\<forall>s3. turn_copy m c a s2 = Some s3 \<longrightarrow> moves_on P junk m n base s0 c s g t q w s3)"
proof (cases "read_dones s ! c")
  case True
  then have s: "turn_read c a s = Some s" by (simp add: turn_read_def)
  have work': "at_work (region_size s) (addr_of s c) (their_ring g c) (flight g c) (fetch (base c) (rings g c) (flight g c)
      (data_regions (rdma s) ! slot (rdma s) c)) (read_addrs s ! c) True (local_lens s ! c) (comm_dones s ! c) w"
    using work True by simp
  have "moves_on P junk m n base s0 c s g t q w s3" if "turn_copy m c a s = Some s3" for s3
    using turn_copy_step [OF v calls c True work' that [unfolded work(2)] wf C] unfolding moves_on_def by (elim exE conjE) (intro exI conjI)
  then show ?thesis using s turn_copy_returns [OF v calls c work' C, of a] by simp
next
  case False
  have reads: "list_all (reads_into (region_size s)) (flight g c)" and zero: "read_addrs s ! c = 0"
    and h: "held (region_size s) a (rings g c) (fetch (base c) (rings g c) (flight g c) (data_regions (rdma s) ! slot (rdma s) c))
      (read_addrs s ! c) (local_lens s ! c) w" and a: "signal a = 1" "w \<noteq> []" "\<not> comm_dones s ! c"
    using work False unfolding at_work_def by auto
  from turn_read_step [OF v c False reads h] obtain s' ws where s': "turn_read c a s = Some s'" "posted (rdma s') = posted (rdma s) @ ws"
      "reads_only c s s'" "loop_vars n base s0 s' (g\<lparr>flight := (flight g)(c := flight g c @ ws)\<rparr>)" "data_regions (rdma s') = data_regions (rdma s)"
      "list_all (reads_into (region_size s)) (flight g c @ ws)"
      "held (region_size s) a (rings g c) (fetch (base c) (rings g c) (flight g c @ ws) (data_regions (rdma s) ! slot (rdma s) c))
        (read_addrs s' ! c) (local_lens s' ! c) w"
      "if read_dones s' ! c then unread a (rings g c) (read_addrs s' ! c) = [] else read_addrs s' ! c = 0 \<and> 0 < read_addrs s ! c" by blast
  let ?g = "g\<lparr>flight := (flight g)(c := flight g c @ ws)\<rparr>"
  have sz: "region_size s' = region_size s" "comm_dones s' = comm_dones s" "slot (rdma s') = slot (rdma s)" "client_ids s' = client_ids s"
    using s'(3) slot_cong [of "rdma s'" "rdma s"] by (simp_all add: reads_only_def other_data_def)
  note at = reads_only_addr [OF s'(3)]
  have rd: "read_dones s' ! c" using s'(8) zero by (simp split: if_splits)
  have calls': "calls_split P junk m n s0 t q s'" using reads_only_calls [OF s'(3)] calls by simp
  have wk: "at_work (region_size s') (addr_of s' c) (their_ring ?g c) (flight ?g c) (fetch (base c) (rings ?g c) (flight ?g c)
      (data_regions (rdma s') ! slot (rdma s') c)) (read_addrs s' ! c) True (local_lens s' ! c) (comm_dones s' ! c) w"
    using s'(5-8) rd a work(2) by (simp add: at_work_def sz at)
  have "moves_on P junk m n base s0 c s g t q w s3" if copy: "turn_copy m c a s' = Some s3" for s3
  proof -
    from turn_copy_step [OF s'(4) calls' c rd wk _ wf] copy C work(2) obtain vs j where
      "posted (rdma s3) = posted (rdma s') @ vs" "loop_vars n base s0 s3 (?g\<lparr>flight := (flight ?g)(c := flight ?g c @ vs)\<rparr>)"
      "calls_split P junk m n s0 t (q(c := q c @ take j w)) s3" "client_is base s3 (?g\<lparr>flight := (flight ?g)(c := flight ?g c @ vs)\<rparr>) c (drop j w)"
      "\<forall>i < n. i \<noteq> c \<longrightarrow> same_client s' ?g s3 (?g\<lparr>flight := (flight ?g)(c := flight ?g c @ vs)\<rparr>) i"
      unfolding sz(4) at by blast
    then show ?thesis unfolding moves_on_def using s'(2) reads_only_same [OF s'(3,5), of _ g "flight g c @ ws"]
      by (intro exI [of _ "ws @ vs"] exI [of _ j]) (simp add: same_client_def)
  qed
  then show ?thesis using s'(1) turn_copy_returns [OF s'(4) calls' c wk, of a] C by (auto simp: sz(4))
qed

text \<open>The turn takes completions only at its start.\<close>

lemma copy_loop_rdma:
  assumes "copy_loop m c reg chg s = Some (b, s')"
  shows "rdma s' = rdma s"
proof -
  have "(\<lambda>((((m, c), reg), chg), s) (b, s'). rdma s' = rdma s) ((((m, c), reg), chg), s) (b, s')"
  proof (rule copy_loop.raw_induct [OF _ assms])
    fix loop :: "map_state \<Rightarrow> nat \<Rightarrow> byte list \<Rightarrow> bool \<Rightarrow> 'a daemon \<Rightarrow> (bool \<times> 'a daemon) option" and m c reg chg s and y
    assume IH: "\<And>m c reg chg s y. loop m c reg chg s = Some y \<Longrightarrow> (\<lambda>((((m, c), reg), chg), s) (b, s'). rdma s' = rdma s) ((((m, c), reg), chg), s) y"
      and step: "(if exist_msg c s then do {
        let at = copy_lens s ! c;
        d \<leftarrow> (if 0 \<le> at then mem_read reg (nat at) sizeof_size_t else None);
        let msg_size = dec_u64 d;
        if word_of_int at + msg_size > (word_of_int (local_lens s ! c) :: u64) then Some (chg, s)
        else do {
          (res, code, q) \<leftarrow> cfio_recv_add_msg m (client_ids s ! c) (ucast msg_size) (drop (nat at) reg) (rcv (srv s));
          let s = s\<lparr>srv := (srv s)\<lparr>rcv := q\<rparr>\<rparr>;
          if CFIO_RECV_BUF_FULL = res then Some (chg, s)
          else if CFIO_ERROR_UNEXPECTED_MSG = res then None
          else do {
            let n = msg_cnts s ! c + 1;
            loop m c reg True
              (s\<lparr>msg_cnts := (msg_cnts s)[c := n],
                 msg_clt_cnt := (if 1 = n then msg_clt_cnt s + 1 else msg_clt_cnt s),
                 copy_lens := (copy_lens s)[c := sint (ucast (word_of_int at + msg_size) :: i32)]\<rparr>)
          }
        }
      }
      else Some (chg, s)) = Some y"
    from step show "(\<lambda>((((m, c), reg), chg), s) (b, s'). rdma s' = rdma s) ((((m, c), reg), chg), s) y"
      by (auto simp: Let_def split: if_splits bind_splits dest!: IH)
  qed
  then show ?thesis by simp
qed

lemma turn_cq:
  assumes "turn_read c a s = Some s2" "turn_copy m c a s2 = Some s3" "turn_serve P junk m s3 = Some s4"
  shows "cq (rdma s4) = cq (rdma s)"
proof -
  have "cq (rdma s2) = cq (rdma s)" using assms(1) read_data_frame by (auto simp: turn_read_def split: if_splits)
  moreover have "cq (rdma s') = cq (rdma s)" if "copy_data_to_list m c s = Some s'" for s s'
    using that by (auto simp: copy_data_to_list_def put_data_def Let_def dest!: copy_loop_rdma split: bind_splits if_splits)
  then have "cq (rdma s3) = cq (rdma s2)" using assms(2)
    by (auto simp: turn_copy_def turn_ack_def put_addr_def dest!: write_addr_posts split: bind_splits if_splits) (auto simp: ibv_post_def)
  moreover have "cq (rdma s4) = cq (rdma s3)" using assms(3)
    by (auto simp: turn_serve_def serves_only_def dest!: io_rounds_frame split: if_splits)
  ultimately show ?thesis by simp
qed


lemma comm_turn_cases:
  assumes "comm_turn P junk m clt s = Some (c, s')"
  obtains h rd a where "cfio_rdma_server_wait_some m (rdma s) = Some (h, rd)" "next_client (clients s) (comm_dones s) clt = Some c"
    "cfio_rdma_server_get_addr c rd = Some a" "cq (rdma s') = cq rd"
    "turn_test c a (s\<lparr>rdma := rd\<rparr>) \<notin> {0, 1}"
    "s' = s\<lparr>rdma := rd, comm_dones := (comm_dones s)[c := True], comm_done_cnt := comm_done_cnt s + 1\<rparr>"
  | h rd a s2 s3 where "cfio_rdma_server_wait_some m (rdma s) = Some (h, rd)" "next_client (clients s) (comm_dones s) clt = Some c"
    "cfio_rdma_server_get_addr c rd = Some a" "cq (rdma s') = cq rd" "turn_test c a (s\<lparr>rdma := rd\<rparr>) \<in> {0, 1}"
    "turn_read c a (if turn_test c a (s\<lparr>rdma := rd\<rparr>) = 1 then turn_start c a (s\<lparr>rdma := rd\<rparr>) else s\<lparr>rdma := rd\<rparr>) = Some s2"
    "turn_copy m c a s2 = Some s3" "turn_serve P junk m s3 = Some s'"
proof -
  from assms obtain h rd a where w: "cfio_rdma_server_wait_some m (rdma s) = Some (h, rd)"
    "next_client (clients s) (comm_dones s) clt = Some c" "cfio_rdma_server_get_addr c rd = Some a"
    and r: "(if turn_test c a (s\<lparr>rdma := rd\<rparr>) \<noteq> 0 \<and> 1 \<noteq> turn_test c a (s\<lparr>rdma := rd\<rparr>)
       then Some (c, s\<lparr>rdma := rd, comm_dones := (comm_dones s)[c := True], comm_done_cnt := comm_done_cnt s + 1\<rparr>)
       else do {
         s \<leftarrow> turn_read c a (if turn_test c a (s\<lparr>rdma := rd\<rparr>) = 1 then turn_start c a (s\<lparr>rdma := rd\<rparr>) else s\<lparr>rdma := rd\<rparr>);
         s \<leftarrow> turn_copy m c a s;
         s \<leftarrow> turn_serve P junk m s;
         Some (c, s)
       }) = Some (c, s')"
    unfolding comm_turn_parts by (auto simp: Let_def bind_eq_Some_conv split: if_splits)
  show thesis
  proof (cases "turn_test c a (s\<lparr>rdma := rd\<rparr>) \<in> {0, 1}")
    case False
    with r have "s' = s\<lparr>rdma := rd, comm_dones := (comm_dones s)[c := True], comm_done_cnt := comm_done_cnt s + 1\<rparr>" by simp
    then show thesis using that(1) [OF w _ False] by simp
  next
    case True
    then have "\<not> (turn_test c a (s\<lparr>rdma := rd\<rparr>) \<noteq> 0 \<and> 1 \<noteq> turn_test c a (s\<lparr>rdma := rd\<rparr>))" by auto
    with r obtain s2 s3 where p:
      "turn_read c a (if turn_test c a (s\<lparr>rdma := rd\<rparr>) = 1 then turn_start c a (s\<lparr>rdma := rd\<rparr>) else s\<lparr>rdma := rd\<rparr>) = Some s2"
      "turn_copy m c a s2 = Some s3" "turn_serve P junk m s3 = Some s'"
      by (simp only: if_False) (auto simp: bind_eq_Some_conv)
    have "cq (rdma s') = cq rd" using turn_cq [OF p] by (simp add: turn_start_def)
    then show thesis using that(2) [OF w _ True p] by blast
  qed
qed

lemma loop_inv_moves:
  assumes inv: "loop_inv P junk m n base s0 s g t q w" and c: "c < n" "\<not> comm_dones s ! c" and a: "a = addr_of s c" "turn_test c a s \<in> {0, 1}"
    and C: "cfio_map_get_client_index_of_server m (client_ids s0 ! c) = Some (int c)" "client_ids s0 ! c < client_amount m"
  shows "\<exists>s2. turn_read c a (if turn_test c a s = 1 then turn_start c a s else s) = Some s2 \<and>
    (turn_copy m c a s2 \<noteq> None \<or> full_behind m n c q (w c)) \<and>
    (\<forall>s3. turn_copy m c a s2 = Some s3 \<longrightarrow> moves_on P junk m n base s0 c s g t q (w c) s3)"
proof -
  have v: "loop_vars n base s0 s g" and calls: "calls_split P junk m n s0 t q s" and cl: "client_is base s g c (w c)"
    and wf: "\<forall>r \<in> set (w c). wf_request r" using inv c(1) by (simp_all add: loop_inv_def)
  have C': "cfio_map_get_client_index_of_server m (client_ids s ! c) = Some (int c)" "client_ids s ! c < client_amount m"
    using C v by (simp_all add: loop_vars_def)
  from cl consider
    (rest) "at_rest (region_size s) a (their_ring g c) (flight g c) (read_dones s ! c) (local_lens s ! c) (comm_dones s ! c) (w c)"
  | (work) "at_work (region_size s) a (their_ring g c) (flight g c) (fetch (base c) (rings g c) (flight g c)
      (data_regions (rdma s) ! slot (rdma s) c)) (read_addrs s ! c) (read_dones s ! c) (local_lens s ! c) (comm_dones s ! c) (w c)"
    unfolding client_is_def Let_def a(1) by blast
  then show ?thesis
  proof cases
    case rest
    then have t: "turn_test c a s = signal a" "read_dones s ! c" "local_lens s ! c = 0"
      by (auto simp: at_rest_def turn_test_def buf_empty_def cfio_rdma_addr_server_test_def)
    show ?thesis
    proof (cases "signal a = 1")
      case True
      then show ?thesis using moves_on_starts [OF v calls c(1) rest _ a(1)] t(1) by auto
    next
      case False
      then have "turn_read c a (if turn_test c a s = 1 then turn_start c a s else s) = Some s" using t by (simp add: turn_read_def)
      moreover have "turn_copy m c a s = Some s" using turn_copy_idle [OF v c(1)] no_message [OF v c(1) t(3)] by blast
      ultimately show ?thesis using moves_on_stays [OF v calls cl] by auto
    qed
  next
    case work
    have "\<not> (read_dones s ! c \<and> buf_empty c s)"
    proof
      assume e: "read_dones s ! c \<and> buf_empty c s"
      then have "local_lens s ! c = 0" using work by (simp add: at_work_def held_def buf_empty_def)
      then have "concat (map message (w c)) = []" using work e unfolding at_work_def held_def by auto
      then have "w c = []" by (simp only: concat_messages_empty)
      then show False using work by (simp add: at_work_def)
    qed
    then have "turn_test c a s = 0" by (auto simp: turn_test_def)
    then show ?thesis using moves_on_works [OF v calls c(1) work a(1) wf C'] by simp
  qed
qed


lemma loop_inv_moved:
  assumes inv: "loop_inv P junk m n base s0 s g t q w" and c: "c < n" and mv: "moves_on P junk m n base s0 c s g t q (w c) s'"
  obtains ws j where "posted (rdma s') = posted (rdma s) @ ws"
    "loop_inv P junk m n base s0 s' (g\<lparr>flight := (flight g)(c := flight g c @ ws)\<rparr>) t (q(c := q c @ take j (w c))) (w(c := drop j (w c)))"
proof -
  from mv obtain ws j where m: "posted (rdma s') = posted (rdma s) @ ws"
    "loop_vars n base s0 s' (g\<lparr>flight := (flight g)(c := flight g c @ ws)\<rparr>)"
    "calls_split P junk m n s0 t (q(c := q c @ take j (w c))) s'"
    "client_is base s' (g\<lparr>flight := (flight g)(c := flight g c @ ws)\<rparr>) c (drop j (w c))"
    "\<forall>i < n. i \<noteq> c \<longrightarrow> same_client s g s' (g\<lparr>flight := (flight g)(c := flight g c @ ws)\<rparr>) i"
    unfolding moves_on_def by blast
  let ?g = "g\<lparr>flight := (flight g)(c := flight g c @ ws)\<rparr>"
  have "called ?g i = t i @ (q(c := q c @ take j (w c))) i @ (w(c := drop j (w c))) i \<and>
      (\<forall>r \<in> set ((w(c := drop j (w c))) i). wf_request r) \<and> client_is base s' ?g i ((w(c := drop j (w c))) i)" if i: "i < n" for i
  proof (cases "i = c")
    case True
    then show ?thesis using inv c m(4) by (auto simp: loop_inv_def dest: in_set_dropD)
  next
    case False
    then have "client_is base s' ?g i (w i)" using same_client_is [of s g s' ?g i] m(5) inv i by (simp add: loop_inv_def)
    then show ?thesis using inv i False by (simp add: loop_inv_def)
  qed
  then have "loop_inv P junk m n base s0 s' ?g t (q(c := q c @ take j (w c))) (w(c := drop j (w c)))"
    using m(2,3) unfolding loop_inv_def by blast
  then show thesis by (rule that [OF m(1)])
qed

lemma loop_inv_done:
  assumes inv: "loop_inv P junk m n base s0 s g t q w" and c: "c < n" "\<not> comm_dones s ! c" and a: "turn_test c (addr_of s c) s \<notin> {0, 1}"
  shows "loop_inv P junk m n base s0 (s\<lparr>comm_dones := (comm_dones s)[c := True], comm_done_cnt := comm_done_cnt s + 1\<rparr>) g t q w"
proof -
  let ?s = "s\<lparr>comm_dones := (comm_dones s)[c := True], comm_done_cnt := comm_done_cnt s + 1\<rparr>"
  have v: "loop_vars n base s0 s g" using inv by (simp add: loop_inv_def)
  have sig: "signal (addr_of s c) \<notin> {0, 1}" using a by (auto simp: turn_test_def cfio_rdma_addr_server_test_def split: if_splits)
  have "{i. i < n \<and> (comm_dones s)[c := True] ! i} = insert c {i. i < n \<and> comm_dones s ! i}"
    using c(1) v by (auto simp: loop_vars_def nth_list_update)
  then have "loop_vars n base s0 ?s g" using v c by (simp add: loop_vars_def)
  moreover have "calls_split P junk m n s0 t q ?s" using inv calls_split_cong [of ?s s] by (simp add: loop_inv_def)
  moreover have "client_is base ?s g i (w i)" if i: "i < n" for i
  proof (cases "i = c")
    case False
    then have "same_client s g ?s g i" by (simp add: same_client_def addr_of_def)
    from same_client_is [OF this] show ?thesis using inv i by (simp add: loop_inv_def)
  next
    case True
    have "client_is base s g c (w c)" using inv c(1) by (simp add: loop_inv_def)
    then have "at_rest (region_size s) (addr_of s c) (their_ring g c) (flight g c) (read_dones s ! c) (local_lens s ! c) (comm_dones s ! c) (w c)"
      by (rule at_rest_signal) (use sig in simp)
    then have "at_rest (region_size s) (addr_of s c) (their_ring g c) (flight g c) (read_dones s ! c) (local_lens s ! c) True (w c)"
      using sig by (simp add: at_rest_def)
    then show ?thesis using True c(1) v by (simp add: client_is_def Let_def loop_vars_def addr_of_def)
  qed
  ultimately show ?thesis using inv by (simp add: loop_inv_def)
qed

lemma loop_inv_turn:
  assumes inv: "loop_inv P junk m n base s0 s g t q w" "\<exists>i < n. q i = []" and n: "0 < n"
    and C: "\<forall>i < n. cfio_map_get_client_index_of_server m (client_ids s0 ! i) = Some (int i) \<and> client_ids s0 ! i < client_amount m"
    and turn: "comm_turn P junk m clt s = Some (c, s')" "cq (rdma s) = used @ cq (rdma s')"
      "arrives base (rings g) (ordered_conns (rdma s)) (flight g) (concat used) F"
  shows "\<exists>t q w. loop_inv P junk m n base s0 s' (g\<lparr>flight := F(c := F c @ drop (length (posted (rdma s))) (posted (rdma s'))),
      history := history g @ [written g], written := []\<rparr>) t q w \<and> (\<exists>i < n. q i = [])"
proof -
  have v: "loop_vars n base s0 s g" using inv(1) by (simp add: loop_inv_def)
  have hist: "loop_inv P junk m n base s0 s' (g\<lparr>flight := F', history := h, written := x\<rparr>) t q w \<longleftrightarrow>
      loop_inv P junk m n base s0 s' (g\<lparr>flight := F'\<rparr>) t q w" for F' h x t q w
    by (simp add: loop_inv_def loop_vars_def client_is_def Let_def)
  have next': "c < n" "\<not> comm_dones s ! c" if "next_client (clients s) (comm_dones s) clt = Some c"
    using next_client_undone [of n "comm_dones s" clt c] that v by (simp_all add: loop_vars_def)
  from turn(1) show ?thesis
  proof (cases rule: comm_turn_cases)
    case (1 h rd a)
    note w = loop_inv_waits [OF inv(1) 1(1) turn(2) [unfolded 1(4)] turn(3)]
    have l: "linked n rd" using w(1) by (auto simp: loop_inv_def loop_vars_def dest: wired_linked)
    have a: "a = addr_of (s\<lparr>rdma := rd\<rparr>) c" using linked_slot(4) [OF l next'(1) [OF 1(2)]] 1(3) by (simp add: addr_of_def)
    have "loop_inv P junk m n base s0 s' (g\<lparr>flight := F\<rparr>) t q w"
      using loop_inv_done [OF w(1) next'(1) [OF 1(2)] _ 1(5) [unfolded a]] next'(2) [OF 1(2)] unfolding 1(6) by simp
    moreover have "posted (rdma s') = posted (rdma s)" using w(2) by (simp add: 1(6))
    ultimately show ?thesis using inv(2) by (auto simp: hist)
  next
    case (2 h rd a s2 s3)
    note w = loop_inv_waits [OF inv(1) 2(1) turn(2) [unfolded 2(4)] turn(3)]
    have l: "linked n rd" using w(1) by (auto simp: loop_inv_def loop_vars_def dest: wired_linked)
    note c = next' [OF 2(2)]
    have a: "a = addr_of (s\<lparr>rdma := rd\<rparr>) c" using linked_slot(4) [OF l c(1)] 2(3) by (simp add: addr_of_def)
    have Cc: "cfio_map_get_client_index_of_server m (client_ids s0 ! c) = Some (int c)" "client_ids s0 ! c < client_amount m"
      using C c(1) by simp_all
    have "moves_on P junk m n base s0 c (s\<lparr>rdma := rd\<rparr>) (g\<lparr>flight := F\<rparr>) t q (w c) s3"
      using loop_inv_moves [OF w(1) c(1) _ a 2(5) Cc] c(2) 2(6,7) by auto
    from loop_inv_moved [OF w(1) c(1) this] obtain ws j where
      p: "posted (rdma s3) = posted (rdma s) @ ws" and i3: "loop_inv P junk m n base s0 s3
        (g\<lparr>flight := F(c := F c @ ws)\<rparr>) t (q(c := q c @ take j (w c))) (w(c := drop j (w c)))"
      using w(2) by (auto simp del: fun_upd_apply simp: fun_upd_same)
    let ?q = "q(c := q c @ take j (w c))"
    from turn_serve_step [OF _ _ n 2(8) C, of base "g\<lparr>flight := F(c := F c @ ws)\<rparr>" t ?q] i3 obtain k where
      k: "rdma s' = rdma s3" "loop_vars n base s0 s' (g\<lparr>flight := F(c := F c @ ws)\<rparr>)"
        "\<forall>i. same_client s3 (g\<lparr>flight := F(c := F c @ ws)\<rparr>) s' (g\<lparr>flight := F(c := F c @ ws)\<rparr>) i"
        "calls_split P junk m n s0 (\<lambda>i. t i @ take k (?q i)) (\<lambda>i. drop k (?q i)) s'" "\<exists>i < n. drop k (?q i) = []"
      by (auto simp: loop_inv_def)
    let ?g = "g\<lparr>flight := F(c := F c @ ws)\<rparr>" and ?w = "w(c := drop j (w c))"
    have "called ?g i = (t i @ take k (?q i)) @ drop k (?q i) @ ?w i \<and> (\<forall>r \<in> set (?w i). wf_request r) \<and> client_is base s' ?g i (?w i)"
      if i: "i < n" for i
      using i3 i same_client_is [OF k(3) [rule_format, of i]] unfolding loop_inv_def by simp
    then have inv': "loop_inv P junk m n base s0 s' ?g (\<lambda>i. t i @ take k (?q i)) (\<lambda>i. drop k (?q i)) ?w"
      using k(2,4) unfolding loop_inv_def by blast
    have d: "drop (length (posted (rdma s))) (posted (rdma s')) = ws" using k(1) p by simp
    show ?thesis unfolding d hist
      by (rule exI [of _ "\<lambda>i. t i @ take k (?q i)"], rule exI [of _ "\<lambda>i. drop k (?q i)"], rule exI [of _ ?w], rule conjI [OF inv' k(5)])
  qed
qed

end
