(* ===== verification/ServerRun.thy ===== *)
theory ServerRun
  imports CommLoop
begin

text \<open>
  The runs of a server: in every state that it reaches against its clients, and when its loop ends,
  what it has carried out of the calls of its clients. The example is the whole run of a server with one client.
\<close>

section \<open>Every reachable state\<close>

lemma serving_inv:
  "serving P junk m n base s0 clt s g \<Longrightarrow>
    idle_server m n base s0 \<and> (\<exists>t q w. loop_inv P junk m n base s0 s g t q w \<and> (\<exists>i < n. q i = []))"
proof (induction rule: serving.induct)
  case (begins g)
  have "0 < n" using begins.hyps(1) by (simp add: idle_server_def)
  then show ?case using loop_inv_begins [OF begins.hyps(1-3), of P junk] begins.hyps(1) by blast
next
  case (hands_over clt s g i a b rs rd)
  then obtain t q w where inv: "loop_inv P junk m n base s0 s g t q w" "\<exists>i < n. q i = []" by blast
  have sig: "signal a \<noteq> 0" using hands_over.hyps by simp
  let ?g = "g\<lparr>called := (called g)(i := called g i @ rs), their_ring := (their_ring g)(i := b), written := written g @ [(i, a)]\<rparr>"
  have "loop_inv P junk m n base s0 (s\<lparr>rdma := rd\<rparr>) ?g t q (w(i := rs))"
    by (rule loop_inv_writes [OF inv(1) hands_over.hyps(2-4,11) sig]) (use hands_over.hyps in auto)
  then show ?case using hands_over.IH inv(2) by blast
next
  case (says_done clt s g i a rd)
  then obtain t q w where inv: "loop_inv P junk m n base s0 s g t q w" "\<exists>i < n. q i = []" by blast
  have sig: "signal a \<noteq> 0" using says_done.hyps by simp
  have "loop_inv P junk m n base s0 (s\<lparr>rdma := rd\<rparr>) (g\<lparr>written := written g @ [(i, a)]\<rparr>) t q (w(i := []))"
    by (rule loop_inv_writes [OF inv(1) says_done.hyps(2-4,6) sig]) (use says_done.hyps in auto)
  then show ?case using says_done.IH inv(2) by blast
next
  case (turn clt s g c s' used F)
  then obtain t q w where inv: "loop_inv P junk m n base s0 s g t q w" "\<exists>i < n. q i = []" by blast
  have n: "0 < n" "\<forall>i < n. cfio_map_get_client_index_of_server m (client_ids s0 ! i) = Some (int i) \<and> client_ids s0 ! i < client_amount m"
    using turn.IH by (simp_all add: idle_server_def)
  from loop_inv_turn [OF inv n turn.hyps(2-4)] turn.IH show ?case by blast
qed

text \<open>What the invariant says of the calls.\<close>

lemma round_requests_prefix:
  assumes "\<And>i. i < n \<Longrightarrow> rs i = t i @ u i" "\<And>i. i < n \<Longrightarrow> length (t i) = j"
  shows "round_requests n C rs j = round_requests n C t j"
proof -
  have "map (\<lambda>i. (C i, rs i ! x)) [0..<n] = map (\<lambda>i. (C i, t i ! x)) [0..<n]" if "x < j" for x
    by (rule map_cong [OF refl]) (use assms that in \<open>simp add: nth_append\<close>)
  then show ?thesis unfolding round_requests_def by (intro arg_cong [of _ _ concat] map_cong) simp_all
qed

lemma serving_calls:
  assumes "serving P junk m n base s0 clt s g"
  shows "\<exists>j q w v. (\<forall>i < n. called g i = take j (called g i) @ q i @ w i \<and> j \<le> length (called g i) \<and> client_is base s g i (w i)) \<and>
    (\<exists>i < n. q i = []) \<and> pending_requests m n s q \<and>
    performs P junk m (round_requests n (\<lambda>i. client_ids s0 ! i) (called g) j) (srv s0) = Some v \<and> srv s = v\<lparr>rcv := rcv (srv s)\<rparr>"
proof -
  from serving_inv [OF assms] obtain t q w where inv: "loop_inv P junk m n base s0 s g t q w" "\<exists>i < n. q i = []" by blast
  then obtain j v where p: "\<forall>i < n. length (t i) = j" "pending_requests m n s q"
    "performs P junk m (round_requests n (\<lambda>i. client_ids s0 ! i) t j) (srv s0) = Some v" "srv s = v\<lparr>rcv := rcv (srv s)\<rparr>"
    unfolding loop_inv_def calls_split_def by blast
  have c: "called g i = t i @ q i @ w i" "client_is base s g i (w i)" if "i < n" for i using inv(1) that by (simp_all add: loop_inv_def)
  have "round_requests n (\<lambda>i. client_ids s0 ! i) (called g) j = round_requests n (\<lambda>i. client_ids s0 ! i) t j"
    by (rule round_requests_prefix [where u = "\<lambda>i. q i @ w i"]) (use c(1) p(1) in auto)
  moreover have "called g i = take j (called g i) @ q i @ w i \<and> j \<le> length (called g i) \<and> client_is base s g i (w i)" if "i < n" for i
    using c [OF that] p(1) that by auto
  ultimately show ?thesis using p(2-4) inv(2) by metis
qed

text \<open>The states are those of \<open>cfio_comm\<close>, for the writes that the clients have made.\<close>

lemma peers_write_append: "peers_write (xs @ ys) s = Option.bind (peers_write xs s) (peers_write ys)"
  by (induction xs s rule: peers_write.induct) (auto split: bind_splits)

lemma peers_write_keeps: "peers_write ws s = Some s' \<Longrightarrow> comm_done_cnt s' = comm_done_cnt s \<and> clients s' = clients s"
  by (induction ws s rule: peers_write.induct) (auto split: bind_splits)

lemma serving_comm:
  "serving P junk m n base s0 clt s g \<Longrightarrow>
    \<exists>s1. peers_write (written g) s1 = Some s \<and>
      (\<forall>rest. cfio_comm P junk m (history g @ rest) 0 s0 = cfio_comm P junk m rest clt s1)"
proof (induction rule: serving.induct)
  case (begins g)
  then show ?case by simp
next
  case (hands_over clt s g i a b rs rd)
  from hands_over.IH obtain s1 where "peers_write (written g) s1 = Some s"
    "\<forall>rest. cfio_comm P junk m (history g @ rest) 0 s0 = cfio_comm P junk m rest clt s1" by blast
  then show ?case using hands_over.hyps(11) by (intro exI [of _ s1]) (simp add: peers_write_append)
next
  case (says_done clt s g i a rd)
  from says_done.IH obtain s1 where "peers_write (written g) s1 = Some s"
    "\<forall>rest. cfio_comm P junk m (history g @ rest) 0 s0 = cfio_comm P junk m rest clt s1" by blast
  then show ?case using says_done.hyps(6) by (intro exI [of _ s1]) (simp add: peers_write_append)
next
  case (turn clt s g c s' used F)
  from turn.IH obtain s1 where s1: "peers_write (written g) s1 = Some s"
    "\<forall>rest. cfio_comm P junk m (history g @ rest) 0 s0 = cfio_comm P junk m rest clt s1" by blast
  from serving_inv [OF turn.hyps(1)] have v: "loop_vars n base s0 s g" by (auto simp: loop_inv_def)
  from turn.hyps(2) obtain d where "next_client (clients s) (comm_dones s) clt = Some d"
    by (auto simp: comm_turn_def Let_def bind_eq_Some_conv)
  then have "d < n" "\<not> comm_dones s ! d" using next_client_undone [of n "comm_dones s" clt d] v by (simp_all add: loop_vars_def)
  then have "card {i. i < n \<and> comm_dones s ! i} < n" by (rule card_less_all)
  then have "comm_done_cnt s1 \<noteq> clients s1" using v peers_write_keeps [OF s1(1)] by (simp add: loop_vars_def)
  then have "cfio_comm P junk m (written g # rest) clt s1 = cfio_comm P junk m rest c s'" for rest
    using s1(1) turn.hyps(2) by (subst cfio_comm.simps) simp
  then show ?case using s1(2) by (intro exI [of _ s']) simp
qed



section \<open>No turn gets stuck\<close>

lemma turn_serve_returns:
  assumes calls: "calls_split P junk m n s0 t q s" and n: "0 < n"
    and C: "\<forall>i < n. cfio_map_get_client_index_of_server m (client_ids s0 ! i) = Some (int i) \<and> client_ids s0 ! i < client_amount m"
    and all: "\<And>i. i < n \<Longrightarrow> rs i = t i @ q i @ w i"
    and handlers: "\<And>k. \<forall>i < n. k \<le> length (rs i) \<Longrightarrow> performs P junk m (round_requests n (\<lambda>i. client_ids s0 ! i) rs k) (srv s0) \<noteq> None"
  shows "turn_serve P junk m s \<noteq> None"
proof -
  let ?C = "\<lambda>i. client_ids s0 ! i"
  from calls obtain j u where p: "\<forall>i < n. length (t i) = j" "pending_requests m n s q"
    "performs P junk m (round_requests n ?C t j) (srv s0) = Some u" "srv s = u\<lparr>rcv := rcv (srv s)\<rparr>"
    unfolding calls_split_def by blast
  from ex_has_least_nat [of "\<lambda>i. i < n" 0 "\<lambda>i. length (q i)"] n obtain i0 where
    i0: "i0 < n" "\<forall>i < n. length (q i0) \<le> length (q i)" by blast
  let ?k = "length (q i0)" and ?ts = "\<lambda>i. t i @ take (length (q i0)) (q i)"
  have "round_requests n ?C rs (j + ?k) = round_requests n ?C ?ts (j + ?k)"
    by (rule round_requests_prefix [where u = "\<lambda>i. drop ?k (q i) @ w i"]) (use all p(1) i0(2) in auto)
  also have "\<dots> = round_requests n ?C t j @ round_requests n ?C q ?k"
    by (rule round_requests_append) (use p(1) i0(2) in auto)
  finally have rounds: "round_requests n ?C rs (j + ?k) = round_requests n ?C t j @ round_requests n ?C q ?k" .
  have "\<forall>i < n. j + ?k \<le> length (rs i)" using all p(1) i0(2) by (simp add: trans_le_add1)
  then have "performs P junk m (round_requests n ?C t j @ round_requests n ?C q ?k) (srv s0) \<noteq> None"
    unfolding rounds [symmetric] by (rule handlers)
  then obtain v where v: "performs P junk m (round_requests n ?C q ?k) u = Some v" using p(3) by (auto simp: performs_append)
  have "performs P junk m (round_requests n ?C q ?k) (srv s) = Some (v\<lparr>rcv := rcv (srv s)\<rparr>)"
    by (subst p(4)) (simp add: performs_rcv v)
  from io_rounds_pending [OF n p(2) i0(2,1) refl C this] show ?thesis by (auto simp: turn_serve_def)
qed

lemma next_client_exists:
  assumes "int (card {i. i < n \<and> dones ! i}) \<noteq> int n" "length dones = n"
  shows "next_client (int n) dones clt \<noteq> None"
proof -
  have "\<exists>i < n. \<not> dones ! i"
  proof (rule ccontr)
    assume "\<not> (\<exists>i < n. \<not> dones ! i)"
    then have "{i. i < n \<and> dones ! i} = {..<n}" by auto
    then show False using assms(1) by simp
  qed
  then obtain i where i: "i < n" "\<not> dones ! i" by blast
  define d where "d = (i + n - clt mod n)"
  have m: "clt mod n < n" using i(1) by simp
  then have "\<exists>e \<in> {1..<n + 1}. i = (clt + e) mod n"
  proof -
    have "(clt + d) mod n = (clt mod n + d) mod n" by (simp add: mod_add_left_eq)
    also have "clt mod n + d = i + n" using m by (simp add: d_def)
    also have "(i + n) mod n = i" using i(1) by simp
    finally have "(clt + d) mod n = i" .
    moreover have "(clt + (d - n)) mod n = (clt + d) mod n" if "n < d"
      using mod_add_self2 [of "clt + (d - n)" n] that by simp
    moreover have "1 \<le> d" "d - n < n" using m i(1) unfolding d_def by arith+
    ultimately show ?thesis by (intro bexI [of _ "if d \<le> n then d else d - n"]) auto
  qed
  then have "i \<in> set (map (\<lambda>i. (clt + i) mod n) [1..<n + 1])" by (auto simp only: set_map set_upt)
  then have "List.find (\<lambda>k. \<not> dones ! k) (map (\<lambda>i. (clt + i) mod n) [1..<n + 1]) \<noteq> None"
    using i(2) by (auto simp: find_None_iff)
  then show ?thesis using i(1) by (simp add: next_client_def)
qed


section \<open>Example\<close>

text \<open>A server with one client, which creates a file and is done.\<close>

definition map_1 :: map_state where
  "map_1 = \<lparr>client_amount = 1, client_x_num = 1, client_y_num = 1, comm = 0, server_amount = 1,
      server_x_num = 1, server_y_num = 1, server_comm = 0\<rparr>"

definition conn_1 :: "send_phase \<Rightarrow> rdma_conn" where
  "conn_1 ss = \<lparr>connected = True, conn_rank = Some 0, data_mr = \<lparr>mr_addr = 0, mr_key = 0\<rparr>, addr_mr = \<lparr>mr_addr = 0, mr_key = 1\<rparr>,
     peer_data_mr = Some \<lparr>mr_addr = 1000, mr_key = 2\<rparr>, peer_addr_mr = Some \<lparr>mr_addr = 2000, mr_key = 3\<rparr>,
     recv_msg = None, region = 0, send_state = ss, recv_state = RS_MR_RECV\<rparr>"

text \<open>The open requests as counted, as counted before, whether that has changed, those of the client;
  the region and the record of the client.\<close>

definition rdma_1 :: "int \<Rightarrow> int \<Rightarrow> bool \<Rightarrow> int \<Rightarrow> send_phase \<Rightarrow> byte list \<Rightarrow> cfio_buf_addr \<Rightarrow> work_request list \<Rightarrow> wc list list \<Rightarrow> rdma_server" where
  "rdma_1 rss prev chg rest ss reg a wrs evs =
     \<lparr>rdma_rank = 1, client_amt = 1, request_stack_size = rss, previous_rss = prev, previous_rss_changed = chg,
      rest_reqs = [rest], rdma_conns = [Some (conn_1 ss)], ordered_conns = [Some 0], ready_mr_cnt = 1, established_cnt = 1,
      disconn_cnt = 0, data_regions = [reg], addr_regions = [a], posted = wrs, cq = evs\<rparr>"

definition daemon_1 :: "nat server_state \<Rightarrow> rdma_server \<Rightarrow> int \<Rightarrow> int \<Rightarrow> nat daemon" where
  "daemon_1 v rd r l = \<lparr>srv = v, rdma = rd, rank = 1, clients = 1, client_ids = [0], region_size = 64, read_addrs = [r],
     read_dones = [True], local_lens = [l], copy_lens = [0], msg_cnts = [0], msg_clt_cnt = 0, comm_dones = [False], comm_done_cnt = 0\<rparr>"

definition read_1 :: wc where
  "read_1 = \<lparr>wr_id = 0, wc_recv = False, wc_landed = Bytes 0 create_msg\<rparr>"

definition wrote_1 :: wc where
  "wrote_1 = \<lparr>wr_id = 0, wc_recv = False, wc_landed = Nothing\<rparr>"

definition wr_1 :: "work_request list" where
  "wr_1 = [WR_READ 0 1000 26 0]"

lemma length_create_msg: "length create_msg = 26"
  by (simp add: create_msg_def message_def)

lemma next_client_1: "next_client 1 [False] 0 = Some 0"
  by (simp add: next_client_def)

lemma wait_1 [simp]:
  "cfio_rdma_server_wait_some m (rdma_1 0 0 True 0 ss reg a wrs evs) = Some (0, rdma_1 0 0 False 0 ss reg a wrs evs)"
  "cfio_rdma_server_wait_some m (rdma_1 1 0 False 1 ss reg a wrs evs) = Some (0, rdma_1 1 1 False 1 ss reg a wrs evs)"
  "cfio_rdma_server_wait_some m (rdma_1 1 0 True 0 ss reg a wrs evs) = Some (0, rdma_1 1 1 False 0 ss reg a wrs evs)"
  by (simp_all add: cfio_rdma_server_wait_some_def MAX_CONCURRENT_REQS_def Let_def) (simp_all add: rdma_1_def)

lemma client_conn_1: "client_conn 0 (rdma_1 rss prev chg rest ss reg a wrs evs) = Some (0, conn_1 ss)"
  by (simp add: rdma_1_def client_conn_def conn_at_def)

lemma rdma_1_ops [simp]:
  "cfio_rdma_server_get_addr 0 (rdma_1 rss prev chg rest ss reg a wrs evs) = Some a"
  "cfio_rdma_server_get_data 0 (rdma_1 rss prev chg rest ss reg a wrs evs) = Some reg"
  "cfio_rdma_server_test 0 (rdma_1 rss prev chg rest ss reg a wrs evs) = Some (if rest \<noteq> 0 then 0 else 1)"
  "put_addr 0 b (rdma_1 rss prev chg rest ss reg a wrs evs) = Some (rdma_1 rss prev chg rest ss reg b wrs evs)"
  "put_data 0 d (rdma_1 rss prev chg rest ss reg a wrs evs) = Some (rdma_1 rss prev chg rest ss d a wrs evs)"
  "cfio_rdma_server_write_addr 0 (rdma_1 rss prev chg rest ss reg a wrs evs) =
     Some (rdma_1 (rss + 1) prev chg rest ss reg a (wrs @ [WR_WRITE 0 2000]) evs)"
  "cfio_rdma_server_read_data 0 off k lo (rdma_1 rss prev chg rest ss reg a wrs evs) =
     Some (rdma_1 (rss + 1) prev chg (rest + 1) ss reg a (wrs @ [WR_READ 0 (1000 + off) k lo]) evs)"
  by (simp_all add: cfio_rdma_server_get_addr_def cfio_rdma_server_get_data_def cfio_rdma_server_test_def put_addr_def put_data_def
      cfio_rdma_server_write_addr_def cfio_rdma_server_read_data_def client_conn_1 ibv_post_def)
    (simp_all add: rdma_1_def conn_1_def ibv_post_def)

lemma post_one: "0 < k \<Longrightarrow> k \<le> transfer_msg_size_max \<Longrightarrow>
    post_pieces c off k s = map_option (\<lambda>rd. s\<lparr>rdma := rd, local_lens := (local_lens s)[c := local_lens s ! c + k]\<rparr>)
      (cfio_rdma_server_read_data c off k (local_lens s ! c) (rdma s))"
  by (subst post_pieces.simps) (auto simp: Let_def post_pieces.simps split: bind_splits option.splits)

lemmas turn_defs = comm_turn_parts turn_test_def turn_read_def turn_copy_def turn_serve_def turn_ack_def turn_start_def Let_def
  buf_empty_def buf_full_def exist_msg_def cfio_rdma_addr_server_test_def

lemma first_turn:
  "comm_turn P junk map_1 0 (daemon_1 v (rdma_1 0 0 True 0 ss reg create_addr [] evs) r 0) =
    Some (0, daemon_1 v (rdma_1 1 0 False 1 ss reg create_addr wr_1 evs) 26 26)"
proof -
  have a: "signal create_addr = 1" "a_used create_addr = 0" "a_free create_addr = 26" by (simp_all add: create_addr_def length_create_msg)
  have "0 < (26 :: int)" "26 \<le> transfer_msg_size_max" by (simp_all add: transfer_msg_size_max_def)
  note post = post_one [OF this]
  show ?thesis by (simp add: turn_defs daemon_1_def next_client_1 a read_data_def post wr_1_def)
qed

lemma waiting_turn:
  "comm_turn P junk map_1 0 (daemon_1 v (rdma_1 1 0 False 1 ss reg a wrs evs) 26 26) =
    Some (0, daemon_1 v (rdma_1 1 1 False 1 ss reg a wrs evs) 26 26)"
  by (simp add: turn_defs daemon_1_def next_client_1)


text \<open>A client that hands over an empty ring: the turn changes nothing in the memory of the client
  and finds its record as it was, and so does every later one.\<close>

lemma empty_ring_never_answered:
  assumes "signal a = 1" "a_used a = a_free a"
  shows "comm_turn P junk map_1 0 (daemon_1 v (rdma_1 0 0 chg 0 ss reg a wrs evs) r 0) =
    Some (0, daemon_1 v (rdma_1 0 0 (\<not> chg) 0 ss reg a wrs evs) (int (a_free a)) 0)"
proof -
  have "cfio_rdma_server_wait_some map_1 (rdma_1 0 0 chg 0 ss reg a wrs evs) = Some (0, rdma_1 0 0 (\<not> chg) 0 ss reg a wrs evs)"
    by (cases chg) (simp_all add: cfio_rdma_server_wait_some_def cfio_rdma_server_wait_all_def MAX_CONCURRENT_REQS_def Let_def rdma_1_def
        poll_while.simps)
  then show ?thesis using assms by (simp add: turn_defs daemon_1_def next_client_1 read_data_def post_pieces.simps)
qed

text \<open>The completions.\<close>

definition reg_1 :: "byte list" where
  "reg_1 = create_msg @ replicate 38 0"

lemma wait_completes:
  "cfio_rdma_server_wait_some m (rdma_1 1 1 False 1 SS_MR_SENT (replicate 64 0) a wrs ([read_1] # evs)) =
    Some (0, rdma_1 0 0 True 0 SS_RDMA_SENDING reg_1 a wrs evs)"
  "cfio_rdma_server_wait_some m (rdma_1 1 1 False 0 SS_RDMA_SENDING reg a wrs ([wrote_1] # evs)) =
    Some (0, rdma_1 0 0 True 0 SS_RDMA_SENDING reg a wrs evs)"
  by (simp_all add: cfio_rdma_server_wait_some_def cfio_rdma_server_wait_all_def MAX_CONCURRENT_REQS_def Let_def rdma_1_def read_1_def wrote_1_def
      poll_while.simps poll_cq_one_time_def land_def conn_at_def on_completion_def conn_completed_def conn_1_def set_conn_def mem_write_def
      blit_def length_create_msg reg_1_def)

lemma later_turn:
  "comm_turn P junk map_1 0 (daemon_1 v (rdma_1 1 0 True 0 ss reg (create_addr\<lparr>signal := 0\<rparr>) wrs evs) 26 0) =
    Some (0, daemon_1 v (rdma_1 1 1 False 0 ss reg (create_addr\<lparr>signal := 0\<rparr>) wrs evs) 26 0)"
  "comm_turn P junk map_1 0 (daemon_1 v (rdma_1 1 1 False 0 SS_RDMA_SENDING reg (create_addr\<lparr>signal := 0\<rparr>) wrs ([wrote_1] # evs)) 26 0) =
    Some (0, daemon_1 v (rdma_1 0 0 True 0 SS_RDMA_SENDING reg (create_addr\<lparr>signal := 0\<rparr>) wrs evs) 26 0)"
  by (simp_all add: turn_defs daemon_1_def next_client_1 wait_completes)

lemma last_turn:
  "comm_turn P junk map_1 0 (daemon_1 v (rdma_1 0 0 True 0 ss reg (a\<lparr>signal := 11\<rparr>) wrs evs) r 0) =
    Some (0, (daemon_1 v (rdma_1 0 0 False 0 ss reg (a\<lparr>signal := 11\<rparr>) wrs evs) r 0)\<lparr>comm_dones := [True], comm_done_cnt := 1\<rparr>)"
  by (simp add: turn_defs daemon_1_def next_client_1)


text \<open>The turn in which the message is copied, the client is answered and the file is created.\<close>

definition recv_1 :: recv_state where
  "recv_1 = \<lparr>msg_head = [[]], rbuffer = [empty_buf], rrank = 1, client_num = 1, client_get_index = 0\<rparr>"

lemma index_1: "cfio_map_get_client_index_of_server map_1 0 = Some (int 0)" "0 < client_amount map_1"
  by (simp_all add: map_1_def cfio_map_get_client_index_of_server_def)

lemma recv_1_empty: "recv_queues map_1 recv_1 [[]]"
  using slot_holds_empty [OF empty_buf_inv, of map_1 0] by (simp add: recv_queues_def recv_1_def)

lemma copy_1:
  assumes "rcv v = recv_1"
  shows "\<exists>q. copy_data_to_list map_1 0 (daemon_1 v (rdma_1 rss prev chg rest ss reg_1 a wrs evs) r 26) =
      Some ((daemon_1 (v\<lparr>rcv := q\<rparr>) (rdma_1 rss prev chg rest ss reg_1 a wrs evs) r 0)\<lparr>msg_cnts := [1], msg_clt_cnt := 1\<rparr>) \<and>
    recv_queues map_1 q [[create_msg]] \<and> client_get_index q = 0"
proof -
  let ?s = "daemon_1 v (rdma_1 rss prev chg rest ss reg_1 a wrs evs) r 26"
  have hold: "region_holds 0 reg_1 ?s (create_msg @ [])"
    by (simp add: region_holds_def daemon_1_def reg_1_def slice_def length_create_msg)
  have f: "framed create_msg" unfolding create_msg_def by (rule framed_message) (simp add: message_def)
  have q: "recv_queues map_1 (rcv (srv ?s)) [[]]" "0 < length [[] :: byte list list]"
    using recv_1_empty assms by (simp_all add: daemon_1_def)
  have C: "cfio_map_get_client_index_of_server map_1 (client_ids ?s ! 0) = Some (int 0)" "client_ids ?s ! 0 < client_amount map_1"
    using index_1 by (simp_all add: daemon_1_def)
  have "roomy (length create_msg + 0) (rbuffer (rcv (srv ?s)) ! 0)"
    using empty_buf_inv by (simp add: daemon_1_def assms recv_1_def roomy_def empty_buf_def cfio_buf_open_def length_create_msg)
  with copy_loop_one [OF hold f q C, of False] obtain q where
    q: "recv_queues map_1 q ([[]][0 := [[]] ! 0 @ [create_msg]])" "keeps_others 0 (rcv (srv ?s)) q"
      "copy_loop map_1 0 reg_1 False ?s = copy_loop map_1 0 reg_1 True (?s\<lparr>srv := (srv ?s)\<lparr>rcv := q\<rparr>, msg_cnts := (msg_cnts ?s)[0 := msg_cnts ?s ! 0 + 1],
        msg_clt_cnt := (if 1 = msg_cnts ?s ! 0 + 1 then msg_clt_cnt ?s + 1 else msg_clt_cnt ?s),
        copy_lens := (copy_lens ?s)[0 := copy_lens ?s ! 0 + int (length create_msg)]\<rparr>)" by blast
  let ?t = "(daemon_1 (v\<lparr>rcv := q\<rparr>) (rdma_1 rss prev chg rest ss reg_1 a wrs evs) r 26)\<lparr>msg_cnts := [1], msg_clt_cnt := 1, copy_lens := [26]\<rparr>"
  have "region_holds 0 reg_1 ?t []" by (rule region_holds_skip [OF hold]) (simp_all add: daemon_1_def length_create_msg)
  then have "copy_loop map_1 0 reg_1 True ?t = Some (True, ?t)" by (rule copy_loop_stops) (simp add: unfinished_def)
  then have "copy_loop map_1 0 reg_1 False ?s = Some (True, ?t)" using q(3) by (simp add: daemon_1_def length_create_msg)
  moreover have "mem_read reg_1 26 0 = Some []" "mem_write reg_1 0 [] = Some reg_1"
    by (simp_all add: mem_read_def mem_write_def slice_def blit_def reg_1_def length_create_msg)
  ultimately have "copy_data_to_list map_1 0 ?s = Some (?t\<lparr>local_lens := [0], copy_lens := [0]\<rparr>)"
    by (simp add: copy_data_to_list_def Let_def) (simp add: daemon_1_def)
  moreover have "client_get_index q = 0" using q(2) assms by (simp add: keeps_others_def daemon_1_def recv_1_def)
  ultimately show ?thesis using q(1) by (intro exI [of _ q]) (simp add: daemon_1_def)
qed

lemma serve_1:
  assumes q: "recv_queues map_1 q [[create_msg]]" "client_get_index q = 0"
    and v: "perform P junk map_1 0 (Create [102] 0 2) (v\<lparr>rcv := q\<rparr>) = Some (ret, u)"
  shows "\<exists>q'. io_rounds P junk map_1 ((daemon_1 (v\<lparr>rcv := q\<rparr>) rd r l)\<lparr>msg_cnts := [1], msg_clt_cnt := 1\<rparr>) =
    Some (daemon_1 (u\<lparr>rcv := q'\<rparr>) rd r l)"
proof -
  let ?s = "(daemon_1 (v\<lparr>rcv := q\<rparr>) rd r l)\<lparr>msg_cnts := [1], msg_clt_cnt := 1\<rparr>" and ?rs = "\<lambda>_ :: nat. [Create [102] 0 2]"
  have "requests_of 1 (served 0 ?rs) = [[create_msg]]" by (simp add: requests_of_def create_msg_def)
  then have s: "recv_queues map_1 (rcv (srv ?s)) (requests_of 1 (served 0 ?rs))" "client_get_index (rcv (srv ?s)) = 0 mod 1"
    using q by (simp_all add: daemon_1_def)
  have c: "(0 :: nat) < 1" "?rs 0 \<noteq> []" "wf_request (hd (?rs 0))" by (simp_all add: wf_str_def)
  from io_round_step [where rs = ?rs and C = "\<lambda>_. 0", OF c(1) s c(2,3) index_1, of P junk] v obtain q' where
    "io_round P junk map_1 [0..<1] ?s = Some (?s\<lparr>srv := u\<lparr>rcv := q'\<rparr>, msg_cnts := [0], msg_clt_cnt := 0\<rparr>)"
    by (auto simp: daemon_1_def)
  moreover have "io_rounds P junk map_1 (?s\<lparr>srv := u\<lparr>rcv := q'\<rparr>, msg_cnts := [0], msg_clt_cnt := 0\<rparr>) =
      Some (?s\<lparr>srv := u\<lparr>rcv := q'\<rparr>, msg_cnts := [0], msg_clt_cnt := 0\<rparr>)"
    by (simp add: io_rounds.simps daemon_1_def)
  moreover have "clients ?s = 1" "msg_clt_cnt ?s = 1" by (simp_all add: daemon_1_def)
  ultimately have "io_rounds P junk map_1 ?s = Some (?s\<lparr>srv := u\<lparr>rcv := q'\<rparr>, msg_cnts := [0], msg_clt_cnt := 0\<rparr>)"
    by (subst io_rounds.simps) simp
  then show ?thesis by (intro exI [of _ q']) (simp add: daemon_1_def)
qed

lemma delivering_turn:
  assumes v: "perform P junk map_1 0 (Create [102] 0 2) v = Some (ret, u)" "rcv v = recv_1"
  shows "\<exists>q. comm_turn P junk map_1 0 (daemon_1 v (rdma_1 1 1 False 1 SS_MR_SENT (replicate 64 0) create_addr wr_1 ([read_1] # evs)) 26 26) =
    Some (0, daemon_1 (u\<lparr>rcv := q\<rparr>) (rdma_1 1 0 True 0 SS_RDMA_SENDING reg_1 (create_addr\<lparr>signal := 0\<rparr>) (wr_1 @ [WR_WRITE 0 2000]) evs) 26 0)"
proof -
  let ?rd = "rdma_1 0 0 True 0 SS_RDMA_SENDING reg_1 create_addr wr_1 evs"
  from copy_1 [OF v(2), of 0 0 True 0 SS_RDMA_SENDING create_addr wr_1 evs 26] obtain q where
    q: "copy_data_to_list map_1 0 (daemon_1 v ?rd 26 26) = Some ((daemon_1 (v\<lparr>rcv := q\<rparr>) ?rd 26 0)\<lparr>msg_cnts := [1], msg_clt_cnt := 1\<rparr>)"
      "recv_queues map_1 q [[create_msg]]" "client_get_index q = 0" by blast
  let ?rd' = "rdma_1 1 0 True 0 SS_RDMA_SENDING reg_1 (create_addr\<lparr>signal := 0\<rparr>) (wr_1 @ [WR_WRITE 0 2000]) evs"
  have "perform P junk map_1 0 (Create [102] 0 2) (v\<lparr>rcv := q\<rparr>) = Some (ret, u\<lparr>rcv := q\<rparr>)"
    using v(1) by (simp only: perform_rcv with_rcv_def) simp
  from serve_1 [OF q(2,3) this, of ?rd' 26 0] obtain q' where
    q': "io_rounds P junk map_1 ((daemon_1 (v\<lparr>rcv := q\<rparr>) ?rd' 26 0)\<lparr>msg_cnts := [1], msg_clt_cnt := 1\<rparr>) =
      Some (daemon_1 (u\<lparr>rcv := q\<rparr>\<lparr>rcv := q'\<rparr>) ?rd' 26 0)" by blast
  show ?thesis using q(1) q'
    by (intro exI [of _ q']) (simp add: turn_defs wait_completes next_client_1 cfio_rdma_addr_server_clear_signal_def daemon_1_def)
qed


text \<open>The run.\<close>

definition start_1 :: "nat server_state \<Rightarrow> nat daemon" where
  "start_1 v = daemon_1 v (rdma_1 0 0 True 0 SS_MR_SENT (replicate 64 0) (create_addr\<lparr>signal := 0\<rparr>) [] [[read_1], [wrote_1]]) 0 0"

abbreviation serving_1 :: "nat server_state \<Rightarrow> nat daemon \<Rightarrow> outside \<Rightarrow> bool" where
  "serving_1 v \<equiv> serving counting_library (\<lambda>_. 0) map_1 1 (\<lambda>_. 1000) (start_1 v) 0"

definition outside_1 :: outside where
  "outside_1 = \<lparr>called = \<lambda>_. [], their_ring = \<lambda>_. create_ring, flight = \<lambda>_. [], history = [], written = []\<rparr>"

lemma idle_1:
  assumes "rcv v = recv_1"
  shows "idle_server map_1 1 (\<lambda>_. 1000) (start_1 v)"
proof -
  let ?rd = "rdma_1 0 0 True 0 SS_MR_SENT (replicate 64 0) (create_addr\<lparr>signal := 0\<rparr>) [] [[read_1], [wrote_1]]"
  have "linked 1 ?rd" by (simp add: linked_def rdma_1_def conn_at_def conn_1_def linked_conn_def)
  moreover from this have "wired 1 (\<lambda>_. 1000) 64 ?rd (\<lambda>_. [])"
    by (simp add: wired_def client_conn_1) (simp add: rdma_1_def conn_1_def)
  moreover have "slot ?rd 0 = 0" by (simp add: slot_def rdma_1_def)
  ultimately show ?thesis using recv_1_empty index_1 assms
    by (simp add: idle_server_def start_1_def daemon_1_def addr_of_def) (simp add: rdma_1_def recv_1_def)
qed

lemma turn_1:
  assumes "serving_1 v s g" "comm_turn counting_library (\<lambda>_. 0) map_1 0 s = Some (0, s')"
    and "cq (rdma s) = used @ cq (rdma s')" "posted (rdma s') = posted (rdma s) @ ws"
    and "arrives (\<lambda>_. 1000) (rings g) (ordered_conns (rdma s)) (flight g) (concat used) F"
  shows "\<exists>g'. serving_1 v s' g' \<and> flight g' 0 = F 0 @ ws \<and> called g' = called g \<and> their_ring g' = their_ring g \<and> written g' = []"
proof -
  let ?g = "g\<lparr>flight := F(0 := F 0 @ drop (length (posted (rdma s))) (posted (rdma s'))), history := history g @ [written g], written := []\<rparr>"
  have "serving_1 v s' ?g" by (rule serving.turn [OF assms(1,2,3,5)])
  then show ?thesis using assms(4) by (intro exI [of _ ?g]) simp
qed

lemma quiet_turn:
  assumes "serving_1 v s g" "comm_turn counting_library (\<lambda>_. 0) map_1 0 s = Some (0, s')"
    and "cq (rdma s) = cq (rdma s')" "posted (rdma s') = posted (rdma s) @ ws"
  shows "\<exists>g'. serving_1 v s' g' \<and> flight g' 0 = flight g 0 @ ws \<and> called g' = called g \<and> their_ring g' = their_ring g \<and> written g' = []"
  by (rule turn_1 [OF assms(1,2) _ assms(4), of "[]"]) (simp_all add: assms(3) arrives.nothing)

lemma arrival_turn:
  assumes "serving_1 v s g" "comm_turn counting_library (\<lambda>_. 0) map_1 0 s = Some (0, s')"
    and "cq (rdma s) = [w] # cq (rdma s')" "posted (rdma s') = posted (rdma s) @ ws"
    and "ordered_conns (rdma s) = [Some 0]" "flight g 0 = [x]" "wr_id w = 0" "\<not> wc_recv w" "wc_landed w = landing_of 1000 (rings g 0) x"
  shows "\<exists>g'. serving_1 v s' g' \<and> flight g' 0 = ws \<and> called g' = called g \<and> their_ring g' = their_ring g \<and> written g' = []"
proof -
  have "arrives (\<lambda>_. 1000) (rings g) (ordered_conns (rdma s)) (flight g) [w] ((flight g)(0 := []))"
    by (rule arrives.next_one [where i = 0 and x = x and q = "[]"]) (use assms(5-9) in \<open>auto intro: arrives.nothing\<close>)
  then show ?thesis using turn_1 [OF assms(1,2) _ assms(4), of "[[w]]" "(flight g)(0 := [])"] assms(3) by simp
qed

lemma daemon_1_sel [simp]:
  "rdma (daemon_1 v rd r l) = rd" "srv (daemon_1 v rd r l) = v" "region_size (daemon_1 v rd r l) = 64"
  "(daemon_1 v rd r l)\<lparr>rdma := rd'\<rparr> = daemon_1 v rd' r l"
  by (simp_all add: daemon_1_def)

lemma rdma_1_sel [simp]:
  "cq (rdma_1 rss prev chg rest ss reg a wrs evs) = evs" "posted (rdma_1 rss prev chg rest ss reg a wrs evs) = wrs"
  "ordered_conns (rdma_1 rss prev chg rest ss reg a wrs evs) = [Some 0]"
  by (simp_all add: rdma_1_def)

lemma addr_of_1 [simp]: "addr_of (daemon_1 v (rdma_1 rss prev chg rest ss reg a wrs evs) r l) 0 = a"
  by (simp add: addr_of_def slot_def) (simp add: rdma_1_def)

lemma create_ring_holds:
  "publishes create_addr create_ring" "signal create_addr = 1" "contents create_ring = concat (map message [Create [102] 0 2])"
  "slice (bmem create_ring) 0 26 = create_msg" "wf_request (Create [102] 0 2)"
  by (simp_all add: publishes_def create_addr_def create_ring_def buf_inv_def cfio_buf_open_def magic_ok_def contents_def slice_def
      create_msg_def message_def wf_str_def)

lemma handed_1:
  assumes "rcv v = recv_1"
  shows "\<exists>g. serving_1 v (daemon_1 v (rdma_1 0 0 True 0 SS_MR_SENT (replicate 64 0) create_addr [] [[read_1], [wrote_1]]) 0 0) g \<and>
    called g 0 = [Create [102] 0 2] \<and> their_ring g 0 = create_ring \<and> flight g = (\<lambda>_. [])"
proof -
  let ?rd = "rdma_1 0 0 True 0 SS_MR_SENT (replicate 64 0) create_addr [] [[read_1], [wrote_1]]"
  have b: "serving_1 v (start_1 v) outside_1" by (rule serving.begins [OF idle_1 [OF assms]]) (simp_all add: outside_1_def)
  let ?g = "outside_1\<lparr>called := (called outside_1)(0 := called outside_1 0 @ [Create [102] 0 2]),
      their_ring := (their_ring outside_1)(0 := create_ring), written := written outside_1 @ [(0, create_addr)]\<rparr>"
  have "serving_1 v ((start_1 v)\<lparr>rdma := ?rd\<rparr>) ?g"
    by (rule serving.hands_over [OF b]) (use create_ring_holds in \<open>simp_all add: start_1_def outside_1_def create_msg_def [symmetric] length_create_msg\<close>)
  then have "serving_1 v (daemon_1 v ?rd 0 0) ?g" by (simp add: start_1_def)
  then show ?thesis by (intro exI [of _ ?g]) (simp add: outside_1_def)
qed

lemma run_1:
  assumes v: "perform counting_library (\<lambda>_. 0) map_1 0 (Create [102] 0 2) v = Some (ret, u)" "rcv v = recv_1"
  shows "\<exists>s1 g. serving_1 v s1 g \<and> comm_done_cnt s1 = clients s1 \<and> written g = [] \<and> called g 0 = [Create [102] 0 2] \<and>
    signal (addr_of s1 0) \<noteq> 1"
proof -
  let ?a = "create_addr\<lparr>signal := 0\<rparr>" and ?z = "replicate 64 (0 :: byte)" and ?evs = "[[read_1], [wrote_1]]"
  from handed_1 [OF v(2)] obtain g0 where h: "serving_1 v (daemon_1 v (rdma_1 0 0 True 0 SS_MR_SENT ?z create_addr [] ?evs) 0 0) g0"
    "called g0 0 = [Create [102] 0 2]" "their_ring g0 0 = create_ring" "flight g0 = (\<lambda>_. [])" by blast
  from quiet_turn [OF h(1) first_turn, of wr_1] h(2-4) obtain g1 where
    g1: "serving_1 v (daemon_1 v (rdma_1 1 0 False 1 SS_MR_SENT ?z create_addr wr_1 ?evs) 26 26) g1" "flight g1 0 = wr_1"
      "called g1 0 = [Create [102] 0 2]" "their_ring g1 0 = create_ring" by auto
  from quiet_turn [OF g1(1) waiting_turn, of "[]"] g1(2-4) obtain g2 where
    g2: "serving_1 v (daemon_1 v (rdma_1 1 1 False 1 SS_MR_SENT ?z create_addr wr_1 ?evs) 26 26) g2" "flight g2 0 = [WR_READ 0 1000 26 0]"
      "called g2 0 = [Create [102] 0 2]" "their_ring g2 0 = create_ring" by (auto simp: wr_1_def)
  from delivering_turn [OF v, of "[[wrote_1]]"] obtain q where
    t3: "comm_turn counting_library (\<lambda>_. 0) map_1 0 (daemon_1 v (rdma_1 1 1 False 1 SS_MR_SENT ?z create_addr wr_1 ?evs) 26 26) =
      Some (0, daemon_1 (u\<lparr>rcv := q\<rparr>) (rdma_1 1 0 True 0 SS_RDMA_SENDING reg_1 ?a (wr_1 @ [WR_WRITE 0 2000]) [[wrote_1]]) 26 0)" by blast
  from arrival_turn [OF g2(1) t3, of read_1 "[WR_WRITE 0 2000]" "WR_READ 0 1000 26 0"] g2(2-4) create_ring_holds(4) obtain g3 where
    g3: "serving_1 v (daemon_1 (u\<lparr>rcv := q\<rparr>) (rdma_1 1 0 True 0 SS_RDMA_SENDING reg_1 ?a (wr_1 @ [WR_WRITE 0 2000]) [[wrote_1]]) 26 0) g3"
      "flight g3 0 = [WR_WRITE 0 2000]" "called g3 0 = [Create [102] 0 2]" by (auto simp: read_1_def)
  from quiet_turn [OF g3(1) later_turn(1), of "[]"] g3(2,3) obtain g4 where
    g4: "serving_1 v (daemon_1 (u\<lparr>rcv := q\<rparr>) (rdma_1 1 1 False 0 SS_RDMA_SENDING reg_1 ?a (wr_1 @ [WR_WRITE 0 2000]) [[wrote_1]]) 26 0) g4"
      "flight g4 0 = [WR_WRITE 0 2000]" "called g4 0 = [Create [102] 0 2]" by auto
  from arrival_turn [OF g4(1) later_turn(2), of wrote_1 "[]" "WR_WRITE 0 2000"] g4(2,3) obtain g5 where
    g5: "serving_1 v (daemon_1 (u\<lparr>rcv := q\<rparr>) (rdma_1 0 0 True 0 SS_RDMA_SENDING reg_1 ?a (wr_1 @ [WR_WRITE 0 2000]) []) 26 0) g5"
      "flight g5 0 = []" "called g5 0 = [Create [102] 0 2]" by (auto simp: wrote_1_def)
  let ?l = "daemon_1 (u\<lparr>rcv := q\<rparr>) (rdma_1 0 0 True 0 SS_RDMA_SENDING reg_1 (?a\<lparr>signal := 11\<rparr>) (wr_1 @ [WR_WRITE 0 2000]) []) 26 0"
  have "serving_1 v ((daemon_1 (u\<lparr>rcv := q\<rparr>) (rdma_1 0 0 True 0 SS_RDMA_SENDING reg_1 ?a (wr_1 @ [WR_WRITE 0 2000]) []) 26 0)\<lparr>rdma := rdma ?l\<rparr>)
      (g5\<lparr>written := written g5 @ [(0, ?a\<lparr>signal := 11\<rparr>)]\<rparr>)"
    by (rule serving.says_done [OF g5(1)]) (use g5(2) in simp_all)
  then have l: "serving_1 v ?l (g5\<lparr>written := written g5 @ [(0, ?a\<lparr>signal := 11\<rparr>)]\<rparr>)" by simp
  from quiet_turn [OF l last_turn, of "[]"] g5(3) obtain g6 where
    "serving_1 v (?l\<lparr>rdma := rdma_1 0 0 False 0 SS_RDMA_SENDING reg_1 (?a\<lparr>signal := 11\<rparr>) (wr_1 @ [WR_WRITE 0 2000]) [],
      comm_dones := [True], comm_done_cnt := 1\<rparr>) g6" "written g6 = []" "called g6 0 = [Create [102] 0 2]" by auto
  then show ?thesis by (intro exI [of _ "?l\<lparr>rdma := rdma_1 0 0 False 0 SS_RDMA_SENDING reg_1 (?a\<lparr>signal := 11\<rparr>) (wr_1 @ [WR_WRITE 0 2000]) [],
      comm_dones := [True], comm_done_cnt := 1\<rparr>"] exI [of _ g6]) (simp add: daemon_1_def addr_of_def rdma_1_def slot_def)
qed


lemma create_1:
  "\<exists>v ret u. perform counting_library (\<lambda>_. 0) map_1 0 (Create [102] 0 2) v = Some (ret, u) \<and> rcv v = recv_1 \<and> lib v = 0 \<and> lib u = 1"
proof -
  define v where "v = \<lparr>rcv = recv_1, ids = snd (cfio_id_init CFIO_ID_INIT_SERVER id_state_0),
    io = snd (cfio_io_init 1 io_state_0), lib = 0 :: nat\<rparr>"
  have num: "cfio_map_get_client_num_of_server map_1 1 = Some (int 1)"
    by (simp add: map_1_def cfio_map_get_client_num_of_server_def cfio_map_proc_type_def
      cdiv_def)
  have i: "cfio_id_init CFIO_ID_INIT_SERVER id_state_0 = (CFIO_ERROR_NONE, ids v)"
    and j: "cfio_io_init 1 io_state_0 = (CFIO_ERROR_NONE, io v)"
    by (simp_all add: v_def cfio_id_init_def CFIO_ID_INIT_SERVER_def cfio_io_init_def)
  have ok: "server_ok map_1 1 v" using init_ok [OF _ num i j] by simp
  have m: "server_map (ids v) = Map.empty"
    by (simp add: v_def cfio_id_init_def CFIO_ID_INIT_SERVER_def server_map_def tab_map_def sound_init MAP_HASH_TABLE_SIZE_def)
  have "ncmpi_create counting_library [102] 0 (lib v) = (NC_NOERR, 9, 1)"
    by (simp add: counting_library_def NC_NOERR_def v_def)
  from create_new [OF ok library_ok_counting, of 2, OF _ this] m obtain u where
    "io_create counting_library [102] 0 2 v = Some (CFIO_ERROR_NONE, u)" "lib u = 1" by auto
  then show ?thesis by (intro exI [of _ v] exI [of _ CFIO_ERROR_NONE] exI [of _ u]) (simp add: v_def)
qed

lemma round_1: "round_requests 1 C rs 1 = [(C 0, rs 0 ! 0)]"
  by (simp add: round_requests_def)




end
