(* ===== verification/CallsToServer.thy ===== *)
theory CallsToServer
  imports ApiCalls ServerRun
begin

text \<open>
  The two sides together: what a client calls between two ends of an output step is what its server
  finds in the ring. The calls are those of \<open>cfio.c\<close>, the server is the one of \<open>CommLoop\<close>.
\<close>

section \<open>Calls between two hand-overs\<close>

text \<open>A call that is refused sends nothing.\<close>

definition sent_by :: "api_call \<Rightarrow> i32 option \<Rightarrow> id_state \<Rightarrow> request list" where
  "sent_by x i t =
     (if refusal x t = None then (case request_of x i of None \<Rightarrow> [] | Some r \<Rightarrow> [r]) else [])"

text \<open>\<open>session s rs t\<close>: from \<open>s\<close>, a client makes calls other than the end of an output step, and
  has sent the requests \<open>rs\<close>.\<close>

inductive session :: "api \<Rightarrow> request list \<Rightarrow> api \<Rightarrow> bool" for s where
  begins: "session s [] s"
| goes_on: "session s rs t \<Longrightarrow> valid_call x t \<Longrightarrow> x \<noteq> Call_io_end \<Longrightarrow> run_call x t = Some (ret, i, u) \<Longrightarrow>
    session s (rs @ sent_by x i (cids t)) u"

lemma appended_appended:
  "free_addr b + length d + length e \<le> length (bmem b) \<Longrightarrow> appended (appended b d) e = appended b (d @ e)"
  by (simp add: appended_def blit_blit)

lemma accepted_sends: "names_after x i t t' \<Longrightarrow> refusal x t = None \<Longrightarrow> x \<noteq> Call_io_end \<Longrightarrow> request_of x i \<noteq> None"
  by (cases x) (auto split: option.splits if_splits)

text \<open>Room for the messages without going back to the start of the ring.\<close>

definition room_behind :: "cfio_buf \<Rightarrow> nat \<Rightarrow> bool" where
  "room_behind b n \<longleftrightarrow> n \<le> free_buf_size b \<and> free_addr b + n < bsize b"

lemma session_ring:
  assumes "session s rs t" "api_ok s" "room_behind (ring s) (length (concat (map message rs)))"
  shows "api_ok t \<and> sender t = sender s \<and> ring t = appended (ring s) (concat (map message rs)) \<and> (\<forall>r \<in> set rs. wf_request r)"
  using assms(1,3)
proof (induction rule: session.induct)
  case begins
  then show ?case using assms(2) by simp
next
  case (goes_on rs t x ret i u)
  let ?d = "concat (map message rs)"
  have "room_behind (ring s) (length ?d)" using goes_on.prems by (simp add: room_behind_def)
  then have IH: "api_ok t" "sender t = sender s" "ring t = appended (ring s) ?d" "\<forall>r \<in> set rs. wf_request r"
    using goes_on.IH by simp_all
  from call_outcome [OF IH(1) goes_on.hyps(2)] goes_on.hyps(4) have out: "api_ok u" "case refusal x (cids t) of
      Some e \<Rightarrow> ret = e \<and> u = t
    | None \<Rightarrow> ret = CFIO_ERROR_NONE \<and> names_after x i (cids t) (cids u) \<and> appends (request_of x i) t u"
    by (auto simp: outcome_def)
  show ?case
  proof (cases "refusal x (cids t)")
    case (Some e)
    then show ?thesis using out IH by (simp add: sent_by_def)
  next
    case None
    then obtain r where r: "request_of x i = Some r" using accepted_sends [of x i "cids t" "cids u"] out(2) goes_on.hyps(3) by auto
    have inv: "buf_inv (ring s)" using assms(2) by (simp add: api_ok_def)
    have all: "length ?d + length (message r) \<le> free_buf_size (ring s)" "free_addr (ring s) + (length ?d + length (message r)) < bsize (ring s)"
      using goes_on.prems None r by (simp_all add: room_behind_def sent_by_def)
    then have "Buffer.fits (ring s) (length ?d)" using inv by (simp add: Buffer.fits_def)
    from free_buf_size_appended [OF this] all have "length (message r) \<le> free_buf_size (ring t)" by (simp add: IH(3))
    moreover have "free_addr (ring t) + length (message r) < bsize (ring t)" using all(2) by (simp add: IH(3) appended_def)
    ultimately have "sender u = sender t" "ring u = appended (ring t) (message r)"
      using out(2) None r by (simp_all add: appends_def)
    moreover have "appended (appended (ring s) ?d) (message r) = appended (ring s) (?d @ message r)"
      using all(2) inv by (intro appended_appended) (simp add: buf_inv_def)
    moreover have "wf_request r" using valid_fits [OF goes_on.hyps(2) r] by (simp add: fits_ring_def)
    ultimately show ?thesis using out(1) IH None r by (simp add: sent_by_def)
  qed
qed

section \<open>The hand-over\<close>

text \<open>A client that has handed over everything it has sent.\<close>

definition all_handed :: "api \<Rightarrow> bool" where
  "all_handed s \<longleftrightarrow> api_ok s \<and> end_addr (ring s) \<le> bsize (ring s) \<and> a_free (last_ack (sender s)) = free_addr (ring s)"

lemma unsent_contents:
  assumes "buf_inv b" "free_addr b + length d < bsize b"
  shows "contents ((appended b d)\<lparr>used_addr := free_addr b\<rparr>) = d"
proof -
  let ?b = "b\<lparr>used_addr := free_addr b\<rparr>"
  have "buf_inv ?b" using assms(1) by (simp add: buf_inv_def magic_ok_def)
  then have "Buffer.fits ?b (length d)" using assms by (simp add: Buffer.fits_def free_buf_size_eq)
  from contents_appended [OF this] assms(2) have "contents (appended ?b d) = contents ?b @ d" by simp
  moreover have "appended ?b d = (appended b d)\<lparr>used_addr := free_addr b\<rparr>" by (simp add: appended_def)
  ultimately show ?thesis by (simp add: contents_def)
qed

lemma session_hands_over:
  assumes s: "all_handed s" and calls: "session s rs t" "room_behind (ring s) (length (concat (map message rs)))"
  obtains u a where "run_call Call_io_end t = Some (CFIO_ERROR_NONE, None, u)" "outbound (sender u) = outbound (sender s) @ [a]"
    "all_handed u" "publishes a (ring u)" "signal a = 1" "contents (ring u) = concat (map message rs)" "\<forall>r \<in> set rs. wf_request r"
proof -
  let ?d = "concat (map message rs)"
  have inv: "buf_inv (ring s)" and ok: "api_ok s" using s by (simp_all add: all_handed_def api_ok_def)
  have t: "api_ok t" "sender t = sender s" "ring t = appended (ring s) ?d" "\<forall>r \<in> set rs. wf_request r"
    using session_ring [OF calls(1) ok calls(2)] by simp_all
  have room: "free_addr (ring s) + length ?d < bsize (ring s)" using calls(2) by (simp add: room_behind_def)
  from io_end_hands [of "sender t" "ring t"] t(1) obtain c b a where
    b: "cfio_send_io_end (sender t) (ring t) = Some (CFIO_ERROR_NONE, c, b)" "b = (ring t)\<lparr>used_addr := a_free (last_ack (sender t))\<rparr>"
    and a: "outbound c = outbound (sender t) @ [a]" "signal a = 1" "a_free a = free_addr (ring t)" "a_used a = used_addr b" "a_end a = end_addr (ring t)"
    and g: "client_good c b" "advanced (ring t) b" "a_free (last_ack c) = free_addr (ring t)"
    by (auto simp: api_ok_def)
  let ?u = "t\<lparr>sender := c, ring := b\<rparr>"
  have used: "b = (appended (ring s) ?d)\<lparr>used_addr := free_addr (ring s)\<rparr>"
    using b(2) s t(2,3) by (simp add: all_handed_def)
  have e: "end_addr b \<le> bsize b" "free_addr b = free_addr (ring t)" "end_addr b = end_addr (ring t)"
    using s by (simp_all add: used t(3) all_handed_def appended_def)
  have "run_call Call_io_end t = Some (CFIO_ERROR_NONE, None, ?u)"
    using b(1) by (simp add: cfio_io_end_def forward_def)
  moreover have "all_handed ?u" using t(1) g e by (simp add: all_handed_def api_ok_def advanced_def)
  moreover have "publishes a (ring ?u)"
    using a(3-5) e g(2) by (simp add: publishes_def advanced_def) (simp add: used appended_def)
  moreover have "contents (ring ?u) = ?d" using unsent_contents [OF inv room] by (simp add: used)
  ultimately show thesis using that [of ?u a] a(1,2) t(2,4) by simp
qed


section \<open>Example\<close>

lemma example_all_handed: "all_handed example_api"
  using example_api_ok by (simp add: all_handed_def example_api_def small_buf_def small_client_def cfio_buf_open_def last_ack_def)


end
