(* ===== verification/IoOld.thy ===== *)
theory IoOld
  imports IoHandlers
begin

text \<open>
  The routines of \<open>io.c\<close> that the present ones have replaced and that are still in the file, and
  where the two agree. They belong to a definition of variables that carries the slab of the client
  with it; no message of a client reaches them. The function that records such a variable,
  \<open>cfio_id_map_var_old\<close>, is declared and defined nowhere: it is an argument.
\<close>

section \<open>Copying a block\<close>

text \<open>The number of steps is a difference of two \<open>size_t\<close>; the loop counter is an \<open>int\<close>, which
  overflows behind \<open>2 ^ 31 - 1\<close>.\<close>

definition put_var_old ::
    "nat \<Rightarrow> nat \<Rightarrow> nat list \<Rightarrow> nat list \<Rightarrow> byte list \<Rightarrow> nat list \<Rightarrow> nat list \<Rightarrow> byte list option \<Rightarrow>
     byte list option" where
  "put_var_old n ele_size dst_start dst_count data src_start src_count src_data =
     (if n \<le> length dst_start \<and> n \<le> length dst_count \<and> n \<le> length src_start \<and> n \<le> length src_count
      then do {
        block \<leftarrow> src_data;
        let src_len = size_prod (take n src_count);
        let (off, sub) = dst_offset (take n src_start) (take n dst_start) (take n dst_count);
        let dst_addr = int (ele_size * off mod 2 ^ 64);
        let steps = (src_len + (2 ^ 64 - 1)) mod 2 ^ 64;
        if steps \<ge> 2 ^ 31 then None
        else do {
          (data, dst_addr, src_pos) \<leftarrow>
            copy_elems steps n ele_size dst_count src_count block data dst_addr (replicate n 0) 0;
          e \<leftarrow> mem_read block src_pos ele_size;
          write_at data dst_addr e
        }
      }
      else None)"

text \<open>On a block with elements the two copy the same; an empty block, which the new routine
  leaves alone, runs the old one out of its arrays.\<close>

lemma put_var_old_agrees:
  assumes "0 < size_prod (take n sc)" "size_prod (take n sc) < 2 ^ 31"
  shows "put_var_old n ele ds dc data ss sc (Some block) = put_var n ele ds dc data ss sc (Some block)"
proof -
  let ?k = "size_prod (take n sc)"
  have steps: "(?k + (2 ^ 64 - 1)) mod 2 ^ 64 = ?k - 1"
  proof -
    obtain j where "?k = Suc j" using assms(1) by (cases ?k) auto
    then show ?thesis using assms(2) by simp
  qed
  have small: "\<not> 2 ^ 31 \<le> ?k - 1" using assms by arith
  have "nat (c_int ?k - 1) = ?k - 1" using assms by (simp add: c_int_small nat_diff_distrib)
  then show ?thesis
    unfolding put_var_old_def put_var_def Let_def steps using assms
    by (cases "dst_offset (take n ss) (take n ds) (take n dc)") (use small in \<open>simp cong: if_cong\<close>)
qed

lemma put_var_old_empty:
  "size_prod (take n sc) = 0 \<Longrightarrow> put_var_old n ele ds dc data ss sc block = None"
  by (cases block) (simp_all add: put_var_old_def Let_def split: prod.splits)

section \<open>The box of a variable\<close>

definition update_start_and_count_old ::
    "nat \<Rightarrow> u64 list option \<Rightarrow> u64 list option \<Rightarrow> u64 list option \<Rightarrow> u64 list option \<Rightarrow>
     (u64 list \<times> u64 list) option" where
  "update_start_and_count_old n cur_start cur_count new_start new_count =
     do {
       cs \<leftarrow> cur_start;
       cc \<leftarrow> cur_count;
       ns \<leftarrow> new_start;
       nk \<leftarrow> new_count;
       if n \<le> length cs \<and> n \<le> length cc \<and> n \<le> length ns \<and> n \<le> length nk then do {
         let r = update_start_and_count (map unat (take n cs)) (map unat (take n cc)) (map unat (take n ns)) (map unat (take n nk));
         Some (map (\<lambda>x. word_of_nat (fst x)) r @ drop n cs, map (\<lambda>x. word_of_nat (snd x)) r @ drop n cc)
       }
       else None
     }"

section \<open>Making a definition\<close>

text \<open>The last dimension that \<open>dim\<close> points to after the loop, from \<open>d0\<close> before it.\<close>

fun last_dim :: "i32 \<Rightarrow> id_state \<Rightarrow> ptr option \<Rightarrow> i32 list \<Rightarrow> ptr option option" where
  "last_dim cnc s d0 [] = Some d0"
| "last_dim cnc s d0 (x # xs) =
     do {
       (ret, q) \<leftarrow> cfio_id_get_dim cnc x s;
       last_dim cnc s (if ret = CFIO_ID_HASH_GET_NULL then d0 else q) xs
     }"

text \<open>Attributes with a type other than text go through the pointer \<open>nc\<close>, which nothing has set.\<close>

fun put_atts_old :: "'f pnetcdf \<Rightarrow> i32 \<Rightarrow> i32 \<Rightarrow> id_att list \<Rightarrow> int \<Rightarrow> 'f \<Rightarrow> (int \<times> 'f) option" where
  "put_atts_old P ncid varid [] ret f = Some (CFIO_ERROR_NONE, f)"
| "put_atts_old P ncid varid (att # atts) ret f =
     (if cfio_type_of (att_xtype att) \<in> {Some CFIO_INT, Some CFIO_FLOAT, Some CFIO_DOUBLE} then None
      else
        (let (ret, f) = (if cfio_type_of (att_xtype att) = Some CFIO_CHAR
                         then ncmpi_put_att_text P ncid varid (att_name att) (att_len att) (att_data att) f else (ret, f))
         in if ret \<noteq> NC_NOERR then Some (CFIO_ERROR_NC, f) else put_atts_old P ncid varid atts ret f))"

definition handle_def_old :: "'f pnetcdf \<Rightarrow> ptr \<Rightarrow> 'f server_state \<Rightarrow> (int \<times> 'f server_state) option" where
  "handle_def_old P p s =
     do {
       val \<leftarrow> heap (ids s) p;
       case dim val of
         Some d \<Rightarrow> do {
           (ret, q) \<leftarrow> cfio_id_get_nc (client_nc_id val) (ids s);
           (np, x) \<leftarrow> the_nc q (ids s);
           if nc_id x = CFIO_ID_NC_INVALID then None
           else do {
             let (ret, new_id, f) = ncmpi_def_dim P (nc_id x) (dim_name d) (sint (global_dim_len d)) (lib s);
             let d = d\<lparr>dim_nc_id := nc_id x,
                       dim_id := (case new_id of None \<Rightarrow> dim_id d | Some i \<Rightarrow> i)\<rparr>;
             Some (CFIO_ERROR_NONE, s\<lparr>ids := set_dim (\<lambda>_. d) p (ids s), lib := f\<rparr>)
           }
         }
       | None \<Rightarrow> (case var val of
         Some v \<Rightarrow> do {
           old \<leftarrow> array_take (ndims v) (dim_ids v);
           new \<leftarrow> resolve_dims (client_nc_id val) (ids s) None old;
           dp \<leftarrow> last_dim (client_nc_id val) (ids s) None old;
           (q, d) \<leftarrow> the_dim dp (ids s);
           let v = v\<lparr>dim_ids := map_option (\<lambda>all. new @ drop (length new) all) (dim_ids v),
                     var_nc_id := dim_nc_id d\<rparr>;
           let (ret, new_id, f) = ncmpi_def_var P (dim_nc_id d) (var_name v)
                 (nc_type_code P (cfio_type_to_nc (data_type v))) (ndims v) new (lib s);
           let v = v\<lparr>var_id := (case new_id of None \<Rightarrow> var_id v | Some i \<Rightarrow> i)\<rparr>;
           atts \<leftarrow> att_head v;
           (ret, f) \<leftarrow> put_atts_old P (dim_nc_id d) (var_id v) atts ret f;
           Some (ret, s\<lparr>ids := set_var (\<lambda>_. v) p (ids s), lib := f\<rparr>)
         }
       | None \<Rightarrow> Some (CFIO_ERROR_NC, s))
     }"

lemma put_atts_old_agrees:
  "put_atts_old P ncid varid atts ret f = Some r \<Longrightarrow> put_atts P ncid varid atts ret f = r"
proof (induction atts arbitrary: ret f)
  case (Cons att atts)
  then show ?case
    by (cases "cfio_type_of (att_xtype att)" rule: option.exhaust)
      (auto simp: put_att_call_def Let_def split: cfio_type.splits if_splits prod.splits)
qed simp

text \<open>Where the old routine is defined, and the last dimension of a variable belongs to its file, the two make
  the same calls and leave the same state.\<close>

lemma handle_def_old_agrees:
  assumes "handle_def_old P p s = Some r" "heap (ids s) p = Some val"
    and "cfio_id_get_nc (client_nc_id val) (ids s) = Some (ret, q)" "the_nc q (ids s) = Some (np, x)" "nc_id x \<noteq> CFIO_ID_NC_INVALID"
    and "\<And>v old dp q d. dim val = None \<Longrightarrow> var val = Some v \<Longrightarrow> array_take (ndims v) (dim_ids v) = Some old \<Longrightarrow>
      last_dim (client_nc_id val) (ids s) None old = Some dp \<Longrightarrow> the_dim dp (ids s) = Some (q, d) \<Longrightarrow> dim_nc_id d = nc_id x"
  shows "handle_def P p s = Some r"
proof (cases "dim val")
  case (Some d)
  then show ?thesis using assms(1-5) by (simp add: handle_def_old_def handle_def_def)
next
  case None
  show ?thesis
  proof (cases "var val")
    case v: (Some v)
    from assms(1,2) None v obtain old new dp q' d where
      old: "array_take (ndims v) (dim_ids v) = Some old" "resolve_dims (client_nc_id val) (ids s) None old = Some new"
        "last_dim (client_nc_id val) (ids s) None old = Some dp" "the_dim dp (ids s) = Some (q', d)"
      by (auto simp: handle_def_old_def split: bind_splits)
    have fid: "dim_nc_id d = nc_id x" by (rule assms(6) [OF None v old(1,3,4)])
    obtain e i f where made: "ncmpi_def_var P (nc_id x) (var_name v) (nc_type_code P (cfio_type_to_nc (data_type v))) (ndims v) new (lib s) = (e, i, f)"
      by (metis prod_cases3)
    from assms(1,2) None v old fid made show ?thesis using assms(3-5)
      by (auto simp: handle_def_old_def handle_def_def Let_def split: bind_splits prod.splits cong: option.case_cong dest!: put_atts_old_agrees)
  qed (use None assms in \<open>simp add: handle_def_old_def handle_def_def\<close>)
qed

section \<open>Defining a variable with its slab\<close>

fun dims_of :: "i32 \<Rightarrow> id_state \<Rightarrow> i32 list \<Rightarrow> ptr list option option" where
  "dims_of cnc s [] = Some (Some [])"
| "dims_of cnc s (d # ds) =
     do {
       (ret, q) \<leftarrow> cfio_id_get_dim cnc d s;
       if ret = CFIO_ID_HASH_GET_NULL then Some None
       else do { p \<leftarrow> q; ps \<leftarrow> dims_of cnc s ds; Some (map_option (Cons p) ps) }
     }"

text \<open>The length of each dimension grows to the count of the slab, as an \<open>int\<close>.\<close>

fun grow_dims :: "ptr list \<Rightarrow> u64 list \<Rightarrow> id_state \<Rightarrow> id_state" where
  "grow_dims (p # ps) (c # cs) s =
     grow_dims ps cs
       (set_dim (\<lambda>d. if sint (ucast c :: i32) > sint (dim_len d) then d\<lparr>dim_len := ucast c\<rparr> else d) p s)"
| "grow_dims _ _ s = s"

definition io_def_var_old ::
    "(byte list \<Rightarrow> i32 \<Rightarrow> i32 \<Rightarrow> i32 \<Rightarrow> i32 \<Rightarrow> i32 \<Rightarrow> i32 list \<Rightarrow> u64 list \<Rightarrow> u64 list \<Rightarrow> i32 \<Rightarrow> int \<Rightarrow>
      id_state \<Rightarrow> id_state option) \<Rightarrow>
     map_state \<Rightarrow> i32 \<Rightarrow> byte list \<Rightarrow> i32 \<Rightarrow> i32 \<Rightarrow> i32 list \<Rightarrow> u64 list \<Rightarrow> u64 list \<Rightarrow> i32 \<Rightarrow> 'f server_state \<Rightarrow>
     (int \<times> 'f server_state) option" where
  "io_def_var_old map_var_old m cnc name xtype n dimids st ct cvar s =
     do {
       (ret, q) \<leftarrow> cfio_id_get_nc cnc (ids s);
       if ret = CFIO_ID_HASH_GET_NULL then Some (CFIO_ERROR_INVALID_NC, s)
       else do {
         ds \<leftarrow> array_take n (Some dimids);
         dims \<leftarrow> dims_of cnc (ids s) ds;
         (case dims of
            None \<Rightarrow> Some (CFIO_ERROR_INVALID_DIM, s)
          | Some ps \<Rightarrow> do {
              (ret, q) \<leftarrow> cfio_id_get_var cnc cvar (ids s);
              if ret = CFIO_ID_HASH_GET_NULL then do {
                client_num \<leftarrow> cfio_map_get_client_num_of_server m (server_id (io s));
                is' \<leftarrow> map_var_old name cnc cvar CFIO_ID_NC_INVALID CFIO_ID_VAR_INVALID n dimids st ct xtype client_num (ids s);
                cs \<leftarrow> array_take n (Some ct);
                Some (CFIO_ERROR_NONE, s\<lparr>ids := grow_dims ps cs is'\<rparr>)
              }
              else do {
                vp \<leftarrow> q;
                val \<leftarrow> heap (ids s) vp;
                v \<leftarrow> var val;
                (st, ct) \<leftarrow> update_start_and_count_old (nat (sint n)) (var_start v) (var_count v) (Some st) (Some ct);
                cs \<leftarrow> array_take n (Some ct);
                Some (CFIO_ERROR_NONE, s\<lparr>ids := grow_dims ps cs
                  (set_var (\<lambda>v. v\<lparr>var_start := Some st, var_count := Some ct\<rparr>) vp (ids s))\<rparr>)
              }
            })
       }
     }"

definition cfio_io_def_var_old ::
    "(byte list \<Rightarrow> i32 \<Rightarrow> i32 \<Rightarrow> i32 \<Rightarrow> i32 \<Rightarrow> i32 \<Rightarrow> i32 list \<Rightarrow> u64 list \<Rightarrow> u64 list \<Rightarrow> i32 \<Rightarrow> int \<Rightarrow>
      id_state \<Rightarrow> id_state option) \<Rightarrow>
     map_state \<Rightarrow> cfio_msg \<Rightarrow> 'f server_state \<Rightarrow> (int \<times> 'f server_state) option" where
  "cfio_io_def_var_old map_var_old m msg s =
     do {
       ((cnc, name, xtype, n, dimids, st, ct, cvar), r) \<leftarrow> cfio_recv_unpack_def_var_old m msg (rcv s);
       io_def_var_old map_var_old m cnc name xtype n dimids st ct cvar (s\<lparr>rcv := r\<rparr>)
     }"

text \<open>It refuses what the new handler refuses, with the same answers.\<close>

lemma dims_of_known: "dims_of cnc s ds = Some None \<Longrightarrow> dims_known cnc s ds = Some False"
  by (induction ds) (auto split: bind_splits if_splits)

lemma def_var_old_refuses:
  assumes "io_def_var_old mv m cnc name xtype n dimids st ct cvar s = Some (e, s')" "e \<noteq> CFIO_ERROR_NONE"
  shows "s' = s \<and> io_def_var m cnc name xtype n (Some dimids) cvar s = Some (e, s)"
  using assms
  by (auto simp: io_def_var_old_def io_def_var_def dims_of_known split: bind_splits if_splits option.splits)

text \<open>A variable that the new handler has recorded carries no slab, so the old one stops on it.\<close>

lemma def_var_old_on_new:
  assumes "cfio_id_get_nc cnc (ids s) = Some (CFIO_ERROR_NONE, q)" "array_take n (Some dimids) = Some ds"
    and "dims_of cnc (ids s) ds = Some (Some ps)" "cfio_id_get_var cnc cvar (ids s) = Some (CFIO_ERROR_NONE, Some vp)"
    and "heap (ids s) vp = Some val" "var val = Some v" "var_start v = None"
  shows "io_def_var_old mv m cnc name xtype n dimids st ct cvar s = None"
  using assms by (simp add: io_def_var_old_def update_start_and_count_old_def CFIO_ID_HASH_GET_NULL_def error_codes)

end
