(* ===== verification/Times.thy ===== *)
theory Times
  imports Complex_Main CFIO_Prelude
begin

text \<open>
  The stack of timers (\<open>times.c\<close>). A reading of the clock is an argument, a value of any type with
  the subtraction of \<open>double\<close>; the stack that is not initialised, which the code asserts, and
  an access outside of it are \<open>None\<close>, as is the overflow of its size, an \<open>int\<close>.
\<close>

record 't time_stack =
  tdata :: "'t list"
  top :: int
  tsize :: nat

definition TIMES_STACK_INIT_SIZE :: nat where
  "TIMES_STACK_INIT_SIZE = 512"

text \<open>\<open>junk\<close> is what the fresh memory holds.\<close>

definition times_init :: "(nat \<Rightarrow> 't) \<Rightarrow> int \<times> 't time_stack option" where
  "times_init junk =
     (0, Some \<lparr>tdata = map junk [0..<TIMES_STACK_INIT_SIZE], top = - 1, tsize = TIMES_STACK_INIT_SIZE\<rparr>)"

definition times_final :: "'t time_stack option \<Rightarrow> int \<times> 't time_stack option" where
  "times_final s = (0, None)"

definition times_start :: "(nat \<Rightarrow> 't) \<Rightarrow> 't \<Rightarrow> 't time_stack option \<Rightarrow> (int \<times> 't time_stack) option" where
  "times_start junk cur_time time_stack =
     do {
       s \<leftarrow> time_stack;
       s \<leftarrow> (if top s = int (tsize s) - 1
             then if tsize s * 2 < 2 ^ 31
                  then Some (s\<lparr>tdata := tdata s @ map junk [tsize s ..< tsize s * 2], tsize := tsize s * 2\<rparr>)
                  else None
             else Some s);
       let t = top s + 1;
       if 0 \<le> t \<and> nat t < length (tdata s) then Some (0, s\<lparr>top := t, tdata := (tdata s)[nat t := cur_time]\<rparr>) else None
     }"

definition times_end :: "('t \<Rightarrow> 't \<Rightarrow> 't) \<Rightarrow> 't \<Rightarrow> 't time_stack option \<Rightarrow> ('t \<times> 't time_stack) option" where
  "times_end difference cur_time time_stack =
     do {
       s \<leftarrow> time_stack;
       if 0 \<le> top s \<and> nat (top s) < length (tdata s)
       then Some (difference cur_time (tdata s ! nat (top s)), s\<lparr>top := top s - 1\<rparr>)
       else None
     }"

text \<open>The readings of the clock in \<open>times_busy\<close>, seconds and microseconds, are a list; when they run
  out before the time has passed the loop goes on.\<close>

fun busy_loop :: "int \<times> int \<Rightarrow> rat \<Rightarrow> (int \<times> int) list \<Rightarrow> unit option" where
  "busy_loop start time_in_ms [] = None"
| "busy_loop start time_in_ms (stop # later) =
     (if of_int ((fst stop - fst start) * 1000 + (snd stop - snd start) sdiv 1000) < time_in_ms
      then busy_loop start time_in_ms later else Some ())"

definition times_busy :: "rat \<Rightarrow> (int \<times> int) list \<Rightarrow> unit option" where
  "times_busy time_in_ms clock =
     (case clock of [] \<Rightarrow> None | start # later \<Rightarrow> busy_loop start time_in_ms later)"

section \<open>Timers nest\<close>

definition timers_ok :: "'t time_stack \<Rightarrow> bool" where
  "timers_ok s \<longleftrightarrow> length (tdata s) = tsize s \<and> 0 < tsize s \<and> - 1 \<le> top s \<and> top s < int (tsize s)"

text \<open>The timers that run, the last started first.\<close>

definition running :: "'t time_stack \<Rightarrow> 't list" where
  "running s = rev (take (nat (top s + 1)) (tdata s))"

lemma times_init_empty: "\<exists>s. times_init junk = (0, Some s) \<and> timers_ok s \<and> running s = []"
  by (simp add: times_init_def timers_ok_def running_def TIMES_STACK_INIT_SIZE_def)

lemma times_start_pushes:
  assumes "timers_ok s" "tsize s * 2 < 2 ^ 31"
  shows "\<exists>s'. times_start junk t (Some s) = Some (0, s') \<and> timers_ok s' \<and> running s' = t # running s"
proof -
  have push: "rev (take (nat (k + 1 + 1)) (xs[nat (k + 1) := t])) = t # rev (take (nat (k + 1)) ys)"
    if "- 1 \<le> k" "nat (k + 1) < length xs" "take (nat (k + 1)) xs = take (nat (k + 1)) ys" for k xs ys
  proof -
    have "nat (k + 1 + 1) = Suc (nat (k + 1))" using that(1) by simp
    then show ?thesis using that(2,3) by (simp add: take_Suc_conv_app_nth)
  qed
  have top: "- 1 \<le> top s" "top s < int (tsize s)" "length (tdata s) = tsize s" "0 < tsize s"
    using assms(1) by (simp_all add: timers_ok_def)
  show ?thesis
  proof (cases "top s = int (tsize s) - 1")
    case True
    let ?s = "s\<lparr>tdata := tdata s @ map junk [tsize s ..< tsize s * 2], tsize := tsize s * 2\<rparr>"
    have "times_start junk t (Some s) = Some (0, ?s\<lparr>top := top s + 1, tdata := (tdata ?s)[nat (top s + 1) := t]\<rparr>)"
      using True top assms(2) by (simp add: times_start_def)
    then show ?thesis using True top push [of "top s" "tdata ?s" "tdata s"] by (simp add: timers_ok_def running_def)
  next
    case False
    then have "times_start junk t (Some s) = Some (0, s\<lparr>top := top s + 1, tdata := (tdata s)[nat (top s + 1) := t]\<rparr>)"
      using top by (simp add: times_start_def nat_less_iff Let_def)
    then show ?thesis using False top push [of "top s" "tdata s" "tdata s"] by (simp add: timers_ok_def running_def nat_less_iff)
  qed
qed

lemma times_end_pops:
  assumes "timers_ok s" "running s = t # ts"
  shows "\<exists>s'. times_end difference cur (Some s) = Some (difference cur t, s') \<and> timers_ok s' \<and> running s' = ts"
proof -
  have "top s \<noteq> - 1" using assms(2) by (auto simp: running_def)
  then have top: "0 \<le> top s" "nat (top s) < length (tdata s)" using assms(1) by (auto simp: timers_ok_def nat_less_iff)
  then have "nat (top s + 1) = Suc (nat (top s))" by simp
  then have "running s = tdata s ! nat (top s) # rev (take (nat (top s)) (tdata s))"
    using top by (simp add: running_def take_Suc_conv_app_nth)
  with assms show ?thesis using top by (simp add: times_end_def timers_ok_def) (simp add: running_def)
qed

lemma times_end_none: "running s = [] \<Longrightarrow> timers_ok s \<Longrightarrow> times_end difference cur (Some s) = None"
  by (auto simp: running_def times_end_def timers_ok_def)

text \<open>Whatever runs between the start and the end of a timer, if it ends the timers it has
  started, the end answers with the time since that start.\<close>

lemma timers_nest:
  assumes "timers_ok s" "tsize s * 2 < 2 ^ 31" "times_start junk t (Some s) = Some (0, s1)"
    and "timers_ok s2" "running s2 = running s1"
  shows "\<exists>s'. times_end difference cur (Some s2) = Some (difference cur t, s') \<and> timers_ok s' \<and> running s' = running s"
proof -
  from times_start_pushes [OF assms(1,2), of junk t] assms(3) have "running s1 = t # running s" by auto
  then show ?thesis using times_end_pops [OF assms(4)] assms(5) by simp
qed

end
