(* ===== verification/Rendezvous.thy ===== *)
theory Rendezvous
  imports Msg
begin

text \<open>
  How clients and servers find each other (\<open>connect_to_clients\<close> of \<open>rdma_server.c\<close>,
  \<open>connect_to_server\<close> of \<open>rdma_client.c\<close>): each server sends its host name and its port to its clients,
  as two MPI messages that only their tags tell apart. The name and the port come from the network
  libraries and are arguments, and so is \<open>MPI_Recv\<close>: a function of the receiver, the wanted sender
  and tag and the messages that have been sent and not received; \<open>None\<close> is a receive that waits.
\<close>

datatype mpi_data = Chars "byte list" | Short "16 word"

record mpi_message =
  mpi_from :: int
  mpi_to :: int
  mpi_tag :: int
  mpi_data :: mpi_data

type_synonym mpi_receive = "int \<Rightarrow> int \<Rightarrow> int \<Rightarrow> mpi_message list \<Rightarrow> (mpi_data \<times> mpi_message list) option"

definition addressed :: "int \<Rightarrow> int \<Rightarrow> int \<Rightarrow> mpi_message \<Rightarrow> bool" where
  "addressed self source tag x \<longleftrightarrow> mpi_from x = source \<and> mpi_to x = self \<and> mpi_tag x = tag"

text \<open>What the library promises: a receive returns when there is a message with the wanted
  envelope, and takes one of these.\<close>

definition mpi_receives :: "mpi_receive \<Rightarrow> bool" where
  "mpi_receives recv \<longleftrightarrow> (\<forall>self source tag box. (\<exists>x \<in> set box. addressed self source tag x) \<longrightarrow>
     (\<exists>x \<in> set box. addressed self source tag x \<and> recv self source tag box = Some (mpi_data x, remove1 x box)))"

definition connect_to_clients :: "map_state \<Rightarrow> int \<Rightarrow> byte list \<Rightarrow> 16 word \<Rightarrow> mpi_message list option" where
  "connect_to_clients m rank host port =
     do {
       client_ids \<leftarrow> cfio_map_get_clients m rank;
       Some (concat (map (\<lambda>c.
         [\<lparr>mpi_from = rank, mpi_to = c, mpi_tag = c, mpi_data = Chars host\<rparr>,
          \<lparr>mpi_from = rank, mpi_to = c, mpi_tag = c + 1, mpi_data = Short port\<rparr>]) client_ids))
     }"

definition connect_to_server ::
    "mpi_receive \<Rightarrow> map_state \<Rightarrow> int \<Rightarrow> mpi_message list \<Rightarrow> ((byte list \<times> 16 word) \<times> mpi_message list) option" where
  "connect_to_server recv m rank box =
     do {
       server_rank \<leftarrow> cfio_map_get_server_of_client m rank;
       (server_ip, box) \<leftarrow> recv rank server_rank rank box;
       (server_port, box) \<leftarrow> recv rank server_rank (rank + 1) box;
       (case (server_ip, server_port) of
          (Chars host, Short port) \<Rightarrow> Some ((host, port), box)
        | _ \<Rightarrow> None)
     }"

section \<open>Every client finds its server\<close>

lemma mpi_receives_unique:
  assumes "mpi_receives recv" "x \<in> set box" "addressed self source tag x" "\<And>y. y \<in> set box \<Longrightarrow> addressed self source tag y \<Longrightarrow> y = x"
  shows "recv self source tag box = Some (mpi_data x, remove1 x box)"
  using assms unfolding mpi_receives_def by metis

text \<open>What a server sends to one of its clients.\<close>

lemma sent_to_client:
  assumes "connect_to_clients m s host port = Some ms" "cfio_map_get_clients m s = Some cs" "c \<in> set cs"
  shows "x \<in> set ms \<and> mpi_to x = c \<longleftrightarrow>
    x \<in> {\<lparr>mpi_from = s, mpi_to = c, mpi_tag = c, mpi_data = Chars host\<rparr>,
         \<lparr>mpi_from = s, mpi_to = c, mpi_tag = c + 1, mpi_data = Short port\<rparr>}"
  using assms by (auto simp: connect_to_clients_def)

text \<open>C20. Every client reaches its own server. When the servers have sent their addresses and MPI holds
  the messages for a client, among others and in any order, the client receives the host name and
  the port of the server that the process map gives it; it never takes the one for the other,
  and it takes no message that is for another process.\<close>

theorem clients_find_servers:
  assumes m: "map_inv m" "0 \<le> c" "c < client_amount m" and recv: "mpi_receives recv"
    and sent: "\<And>s. client_amount m \<le> s \<Longrightarrow> s < client_amount m + server_amount m \<Longrightarrow>
      \<exists>ms. connect_to_clients m s (host s) (port s) = Some ms \<and>
        (\<forall>x. mpi_from x = s \<and> mpi_to x = c \<longrightarrow> x \<in> set box \<longleftrightarrow> x \<in> set ms)"
  shows "\<exists>s rest. cfio_map_get_server_of_client m c = Some s \<and>
    connect_to_server recv m c box = Some ((host s, port s), rest) \<and>
    (\<forall>x. mpi_to x \<noteq> c \<longrightarrow> x \<in> set rest \<longleftrightarrow> x \<in> set box)"
proof -
  from client_server_range [OF m] obtain s where s: "cfio_map_get_server_of_client m c = Some s"
    "client_amount m \<le> s" "s < client_amount m + server_amount m" .
  from get_clients_partition [OF m(1) s(2,3)] obtain cs where cs: "cfio_map_get_clients m s = Some cs"
    "cfio_map_get_client_num_of_server m s = Some (int (length cs))" "distinct cs"
    "set cs = {c \<in> {0..<client_amount m}. cfio_map_get_server_of_client m c = Some s}"
    "\<forall>i < length cs. cfio_map_get_client_index_of_server m (cs ! i) = Some (int i)" .
  have c: "c \<in> set cs" unfolding cs(4) using m s(1) by simp
  let ?h = "\<lparr>mpi_from = s, mpi_to = c, mpi_tag = c, mpi_data = Chars (host s)\<rparr>"
    and ?p = "\<lparr>mpi_from = s, mpi_to = c, mpi_tag = c + 1, mpi_data = Short (port s)\<rparr>"
  from sent [OF s(2,3)] obtain ms where ms: "connect_to_clients m s (host s) (port s) = Some ms"
    "\<forall>x. mpi_from x = s \<and> mpi_to x = c \<longrightarrow> x \<in> set box \<longleftrightarrow> x \<in> set ms" by blast
  have box: "x \<in> set box \<longleftrightarrow> x = ?h \<or> x = ?p" if "mpi_from x = s" "mpi_to x = c" for x
    using ms(2) sent_to_client [OF ms(1) cs(1) c, of x] that by auto
  have host: "recv c s c box = Some (mpi_data ?h, remove1 ?h box)"
  proof (rule mpi_receives_unique [OF recv])
    show "?h \<in> set box" using box [of ?h] by simp
    show "y = ?h" if "y \<in> set box" "addressed c s c y" for y
    proof -
      have "y = ?h \<or> y = ?p" using box [of y] that by (simp add: addressed_def)
      then show ?thesis using that(2) by (elim disjE) (simp_all add: addressed_def)
    qed
  qed (simp add: addressed_def)
  have port: "recv c s (c + 1) (remove1 ?h box) = Some (mpi_data ?p, remove1 ?p (remove1 ?h box))"
  proof (rule mpi_receives_unique [OF recv])
    show "?p \<in> set (remove1 ?h box)" using box [of ?p] by simp
    show "y = ?p" if "y \<in> set (remove1 ?h box)" "addressed c s (c + 1) y" for y
    proof -
      have "y = ?h \<or> y = ?p" using box [of y] that set_remove1_subset [of ?h box] by (auto simp: addressed_def)
      then show ?thesis using that(2) by (elim disjE) (simp_all add: addressed_def)
    qed
  qed (simp add: addressed_def)
  have "x \<in> set (remove1 ?p (remove1 ?h box)) \<longleftrightarrow> x \<in> set box" if "mpi_to x \<noteq> c" for x
  proof -
    have "x \<noteq> ?h" "x \<noteq> ?p" using that by auto
    then show ?thesis by simp
  qed
  then show ?thesis using s(1) host port by (simp add: connect_to_server_def)
qed

text \<open>A receive that takes the first message with its envelope.\<close>

fun first_match :: mpi_receive where
  "first_match self source tag [] = None"
| "first_match self source tag (x # box) =
     (if addressed self source tag x then Some (mpi_data x, box)
      else do { (d, rest) \<leftarrow> first_match self source tag box; Some (d, x # rest) })"

lemma first_match_receives: "mpi_receives first_match"
proof -
  have "\<exists>x \<in> set box. addressed self source tag x \<and> first_match self source tag box = Some (mpi_data x, remove1 x box)"
    if "\<exists>x \<in> set box. addressed self source tag x" for self source tag box
    using that
  proof (induction box)
    case (Cons z box)
    show ?case
    proof (cases "addressed self source tag z")
      case False
      with Cons obtain x where "x \<in> set box" "addressed self source tag x"
        "first_match self source tag box = Some (mpi_data x, remove1 x box)" by auto
      with False show ?thesis by (intro bexI [of _ x]) auto
    qed simp
  qed simp
  then show ?thesis unfolding mpi_receives_def by blast
qed

definition example_host :: "int \<Rightarrow> byte list" where "example_host s = [word_of_int s]"

definition example_port :: "int \<Rightarrow> 16 word" where "example_port s = word_of_int (1000 + s)"

text \<open>The map of 24 clients and 6 servers, with the messages of all servers one after the other.\<close>

theorem clients_find_servers_witness:
  "\<exists>box s rest. connect_to_server first_match map_4_6 5 box = Some ((example_host s, example_port s), rest) \<and>
    cfio_map_get_server_of_client map_4_6 5 = Some s"
proof -
  have range: "client_amount map_4_6 = 24" "server_amount map_4_6 = 6" by (simp_all add: map_4_6_def)
  have "\<exists>ms. connect_to_clients map_4_6 s (example_host s) (example_port s) = Some ms \<and> (\<forall>x \<in> set ms. mpi_from x = s)"
    if "24 \<le> s" "s < 30" for s
  proof -
    have "client_amount map_4_6 \<le> s" "s < client_amount map_4_6 + server_amount map_4_6" using range that by simp_all
    from get_clients_partition [OF map_4_6_inv this] obtain cs where "cfio_map_get_clients map_4_6 s = Some cs" by blast
    then show ?thesis by (auto simp: connect_to_clients_def)
  qed
  then obtain ms where ms: "connect_to_clients map_4_6 s (example_host s) (example_port s) = Some (ms s)"
    "x \<in> set (ms s) \<Longrightarrow> mpi_from x = s" if "24 \<le> s" "s < 30" for s x by metis
  define box where "box = concat (map ms [24..29])"
  have all: "set box = (\<Union>t \<in> {24..29}. set (ms t))" unfolding box_def by (simp only: set_concat set_map set_upto image_image)
  have "x \<in> set box \<longleftrightarrow> x \<in> set (ms s)" if "24 \<le> s" "s < 30" "mpi_from x = s" for s x
  proof -
    have "x \<in> set box \<longleftrightarrow> (\<exists>t. 24 \<le> t \<and> t < 30 \<and> x \<in> set (ms t))" unfolding all by force
    also have "\<dots> \<longleftrightarrow> x \<in> set (ms s)" using ms(2) that by blast
    finally show ?thesis .
  qed
  then have "\<exists>ms. connect_to_clients map_4_6 s (example_host s) (example_port s) = Some ms \<and>
      (\<forall>x. mpi_from x = s \<and> mpi_to x = 5 \<longrightarrow> x \<in> set box \<longleftrightarrow> x \<in> set ms)"
    if "client_amount map_4_6 \<le> s" "s < client_amount map_4_6 + server_amount map_4_6" for s
    using ms(1) [of s] that range by auto
  from clients_find_servers [OF map_4_6_inv _ _ first_match_receives this] range show ?thesis by auto
qed

end
