(* ===== verification/Spec2Isabelle.thy ===== *)
theory Spec2Isabelle
  imports QuickList RdmaClient IoTypes CallsToServer IoOld Times Rendezvous
begin

text \<open>
  CFIO is a library for fast output of climate models. The MPI ranks are split into clients,
  which run the model, and servers, which write. A client call such as \<open>cfio_put_vara_float\<close>
  is packed as a message into the client's ring buffer; its server fetches the buffer over
  RDMA, queues the messages of each of its clients, and decodes them round robin. A call that
  all clients make (create a file, define a variable, write a slab) is carried out once, when
  the last client of the server has reported it: the definitions are then made in the file,
  and the slabs of the clients are merged into one array and written by one PnetCDF call.

  \<^bold>\<open>Theories and sources\<close> (paths below \<open>src/src\<close>; an operation has the name of its C function,
  less a leading underscore; a static variable is a field of the state record of its file):

    \<^item> \<open>CFIO_Prelude\<close>: machine integers of the C data model LP64, little endian byte layout,
      \<open>memcpy\<close>, C division, lemmas on lists and words. \<open>CTypes\<close>: \<open>common/cfio_types.h\<close>,
      \<open>common/cfio_error.h\<close>. \<open>Times\<close>: \<open>common/times.c\<close>, the stack of timers.
    \<^item> \<open>Buffer\<close>: the ring buffer of \<open>common/buffer.h\<close> and \<open>common/buffer.c\<close>. A buffer is a byte
      list with four offsets; the free and used regions wrap around at its end.
    \<^item> \<open>QuickList\<close>, \<open>QuickHash\<close>: the intrusive lists of \<open>common/quicklist.h\<close> on a store of links,
      the chained tables of \<open>common/quickhash.h\<close> and their hash functions on machine words.
    \<^item> \<open>Procmap\<close>: \<open>common/map.c\<close>, which ranks are servers and which server serves a client.
      \<open>Msg\<close>, \<open>Addr\<close>: \<open>common/msg.c\<close>, \<open>common/addr.c\<close>, message descriptors and the record that a
      client and its server write into each other's memory to hand the buffer over.
    \<^item> \<open>Ident\<close>, \<open>IdTree\<close>: \<open>common/id.c\<close>, the tables of identifiers of files, dimensions and
      variables, on a store of pointers; files and their children. \<open>IdClient\<close>: the identifiers that a
      client assigns, as maps from names.
    \<^item> \<open>Cfio\<close>: \<open>client/C/cfio.c\<close>, every call of the interface with its Fortran entry point, the start
      and the end of a process. \<open>ApiCalls\<close>: an abstract specification of the calls, in names and
      requests, which they refine. \<open>Send\<close>: \<open>client/C/send.c\<close>, the packing of the calls.
    \<^item> \<open>Rdma\<close>: \<open>server/rdma_server.c\<close>, \<open>RdmaClient\<close>: \<open>client/C/rdma_client.c\<close>, the transport:
      connections, the exchange of memory regions, posted reads and writes, completions and the loops
      that wait for them. \<open>Rendezvous\<close>: how the two sides learn each other's address through MPI.
    \<^item> \<open>Recv\<close>: \<open>server/recv.c\<close>, the message queues of a server and the unpacking. \<open>Decode\<close>,
      \<open>Server\<close>: \<open>server/server.c\<close>, the dispatch of a message to its handler; the loop over the
      clients, which reads their rings, cuts the bytes into messages and serves the queues.
      \<open>Forwarding\<close>: the way from a client's ring to its queue, over reading, network and copying.
      \<open>Service\<close>: that of all clients, on to the library, in one schedule. \<open>Arrivals\<close>, \<open>CommLoop\<close>,
      \<open>ServerRun\<close>: the loop of \<open>cfio_comm\<close> against clients and a network that take their steps in any
      order, its invariant, its whole runs, and the run of a server with one client as an example.
      \<open>CallsToServer\<close>: the calls of a client, from the interface to that loop.
    \<^item> \<open>IoReq\<close>, \<open>IoData\<close>, \<open>IoHandlers\<close>: \<open>server/io.c\<close>, the table of pending requests, the
      merging of slabs, the handlers. \<open>IoBarrier\<close>, \<open>IoFiles\<close>, \<open>IoAtts\<close>, \<open>IoCollective\<close>: what a
      call does that all clients make, for the end of the definitions and the closing of a file, for
      attributes and for writes. \<open>IoServer\<close>, \<open>IoTypes\<close>: the invariant of a server's tables over all runs,
      and the type of their entries. \<open>IoOld\<close>: the routines of \<open>io.c\<close> that nothing calls any more.

  \<^bold>\<open>Conventions.\<close> A failed assertion, an access through NULL or out of bounds, a copy between
  overlapping places and \<open>exit\<close> are \<open>None\<close>; error codes are values. C \<open>int\<close> and \<open>size_t\<close> are words of
  32 and 64 bits where their wrap-around matters. Loops are recursive functions with a termination
  proof. A loop that waits for another process consumes a list of what that process does: the
  answers of the server for the handshake of \<open>Send\<close>, the events and batches of completions for the
  transport, the address records for the loop of the server; when the list runs out the loop goes on for
  ever, which is \<open>None\<close>. The loops over queues that the source does not bound (\<open>io_rounds\<close>,
  \<open>copy_loop\<close>) are partial functions into \<open>option\<close>. The theorems say that these loops return, under the
  condition on the other side that makes them return; the only fuel, the number of reading turns in
  \<open>Forwarding\<close>, is two for each unread byte and two more, since a turn fetches a byte or goes
  back to the start of the ring.

  \<^bold>\<open>Outside of the program.\<close> PnetCDF is a record of functions on a file state of any type.
  The verbs and connection manager libraries appear as the requests that are posted (\<open>posted\<close>, in their
  order) and as the completions and events that arrive (\<open>cq\<close>, \<open>cm_event\<close>); \<open>deliver\<close> in \<open>Forwarding\<close>
  carries reads out on a peer's memory. \<open>MPI_Recv\<close> is an argument, and \<open>mpi_receives\<close> what it
  promises. What \<open>malloc\<close> leaves in fresh memory (\<open>junk\<close>) and readings of the clock are arguments.

  \<^bold>\<open>What is proved.\<close> The properties are the theorems whose text starts with a number (C1, C2, ...).
  On the client: every call returns and does what its specification says; identifiers are unique
  and answer inquiries; requests are packed over the wrap-around of the ring, and the ring is handed over.
  Between the two: packing and unpacking are inverse, for every request; the set-up of the transport
  returns with every client at its place; each read fetches a prefix of the unread bytes, and
  the messages of a published ring reach the queue in order. The first properties put these together: what
  a client calls in an output step is what it hands over to its server at the end of it; in
  every state of the server's loop, whatever the order of the steps, the calls of each client are split into those
  carried out, those queued and those on their way, and a server whose loop has ended has carried out what its
  clients called, round by round; no turn gets stuck but for a copy that the code leaves undefined and for a
  handler that does. Assumed are that a client hands over its ring only when no request to it is open, since
  the code does not ensure it, and that the ring holds at least one call and less than the region. On the server: the process map partitions the
  clients; the serving loop ends and has carried out the requests round robin; a pending
  request is complete exactly when all clients have reported it; definitions, attributes, writes
  and closes then reach the library once, with the merged array of a write holding every
  element at its place; the tables are well formed and well typed in every reachable state, and the
  handlers return there. Below: the lists and tables implement the operations of lists and maps.
  Some theorems state defects of the code: a message that ends exactly at the end of the ring,
  a queue that stays full for ever, the completion of a write that hides an open read, the size of the
  region of a single client.

  \<^bold>\<open>Interfaces.\<close> \<open>space_source\<close> (Buffer) is what the packing needs of a function that frees the ring,
  interpreted in \<open>Send\<close> for the client's wait for its server; \<open>table_hash\<close> (QuickHash) is the contract
  of a table with its hash function, interpreted for the table of requests and the tables of
  identifiers; \<open>id_view\<close> (Ident) is a table of the identifier state, interpreted for the
  client's and the server's table; \<open>barrier\<close> (IoBarrier) is the shape of the handlers that act when all clients
  have reported, interpreted for \<open>cfio_io_enddef\<close>, \<open>cfio_io_close\<close> and \<open>cfio_io_put_att\<close>.

  \<^bold>\<open>Not modelled.\<close> Allocation failure; functions that only print (\<open>common/debug.c\<close>, the \<open>show\<close>
  functions) or only free library objects; the set-up of the library objects of the transport and the look-up of
  the address of the interface; the threads \<open>poll_cq\<close> and \<open>_io_msgs\<close>, which no function starts; MPI groups and
  communicators, which are opaque values; the build variants behind \<open>SVR_\<close> and \<open>SEND_ADDR\<close> macros;
  \<open>cfio_id_map_var_old\<close>, which is declared and defined nowhere (an argument in \<open>IoOld\<close>); the Fortran side of the
  Fortran binding.
\<close>

end
